(* ===== verification/Prelude.thy ===== *)
theory Prelude
  imports Main "HOL-Library.Word" "HOL-Library.List_Lexorder" "HOL-Library.AList"
    "HOL-Library.Code_Target_Nat"
begin

text \<open>
  Shared ground of the ApexStore development: the error enum of \<open>src/infra/error.rs\<close>, the
  result type of every fallible Rust function, the byte strings and machine integers of the
  storage formats, and the generic lemmas on lists, slices and little-endian numbers that the
  component theories use.

  Byte strings are lists of \<open>8 word\<close>. Rust compares \<open>[u8]\<close> slices lexicographically, which is
  the order that \<open>HOL-Library.List_Lexorder\<close> puts on lists of linearly ordered elements.
  A \<open>String\<close> is its UTF-8 encoding; a HOL \<open>string\<close> is a list of 8-bit characters, so
  string literals of the source are written as HOL literals and read with \<open>as_bytes\<close>.
\<close>

type_synonym u8 = "8 word"
type_synonym u16 = "16 word"
type_synonym u32 = "32 word"
type_synonym u64 = "64 word"
type_synonym u128 = "128 word"
type_synonym bytes = "u8 list"

subsection \<open>Errors and results\<close>

text \<open>
  \<open>LsmError\<close>, variant by variant. The text that a variant carries is a message for people and
  no code branches on it, so it is left out; \<open>Io\<close> keeps the kind of the I/O error because
  \<open>Table::load_for_recovery\<close> branches on it.
\<close>

datatype io_error_kind = NotFoundKind | UnexpectedEof | OtherKind

datatype lsm_error =
    Io io_error_kind
  | Codec
  | JsonError
  | Time
  | InvalidSstableFormat
  | CorruptedData
  | DecompressionFailed
  | LegacyEncryptionMigrationRequired
  | EncryptionKeyRequired
  | EncryptionAuthenticationFailed
  | WalCorruption
  | NotFound
  | CompactionFailed
  | LockPoisoned
  | ConcurrentModification
  | InvalidArgument
  | InvalidBlockSize
  | InvalidCacheSize
  | InvalidIndexInterval
  | InvalidBloomRate
  | InvalidMemtableSize
  | InvalidCompactionConfig
  | ConfigValidation

text \<open>
  What a Rust function of type \<open>Result<T>\<close> can do: return \<open>Ok\<close>, return \<open>Err\<close>, or panic (an
  index or a slice out of range, an \<open>expect\<close> on an error).
\<close>

datatype 'a outcome = Ok 'a | Err lsm_error | Panic

text \<open>The \<open>?\<close> operator.\<close>

fun and_then :: "'a outcome \<Rightarrow> ('a \<Rightarrow> 'b outcome) \<Rightarrow> 'b outcome" where
  "and_then (Ok x) f = f x"
| "and_then (Err e) f = Err e"
| "and_then Panic f = Panic"

definition ok_or :: "lsm_error \<Rightarrow> 'a option \<Rightarrow> 'a outcome" where
  "ok_or e x = (case x of None \<Rightarrow> Err e | Some y \<Rightarrow> Ok y)"

subsection \<open>Little-endian numbers\<close>

primrec nat_to_le :: "nat \<Rightarrow> nat \<Rightarrow> bytes" where
  "nat_to_le 0 x = []"
| "nat_to_le (Suc n) x = word_of_nat (x mod 256) # nat_to_le n (x div 256)"

primrec nat_from_le :: "bytes \<Rightarrow> nat" where
  "nat_from_le [] = 0"
| "nat_from_le (b # bs) = unat b + 256 * nat_from_le bs"

definition u16_to_le :: "u16 \<Rightarrow> bytes" where
  "u16_to_le w = nat_to_le 2 (unat w)"

definition u16_from_le :: "bytes \<Rightarrow> u16" where
  "u16_from_le bs = word_of_nat (nat_from_le bs)"

definition u32_to_le :: "u32 \<Rightarrow> bytes" where
  "u32_to_le w = nat_to_le 4 (unat w)"

definition u32_from_le :: "bytes \<Rightarrow> u32" where
  "u32_from_le bs = word_of_nat (nat_from_le bs)"

definition u64_to_le :: "u64 \<Rightarrow> bytes" where
  "u64_to_le w = nat_to_le 8 (unat w)"

definition u64_from_le :: "bytes \<Rightarrow> u64" where
  "u64_from_le bs = word_of_nat (nat_from_le bs)"

definition u128_to_le :: "u128 \<Rightarrow> bytes" where
  "u128_to_le w = nat_to_le 16 (unat w)"

definition u128_from_le :: "bytes \<Rightarrow> u128" where
  "u128_from_le bs = word_of_nat (nat_from_le bs)"

definition u128_saturating_add :: "u128 \<Rightarrow> u128 \<Rightarrow> u128" where
  "u128_saturating_add a b = (if unat a + unat b < 2 ^ 128 then a + b else - 1)"

definition usize_max :: nat where
  "usize_max = 2 ^ 64 - 1"

definition usize_saturating_add :: "nat \<Rightarrow> nat \<Rightarrow> nat" where
  "usize_saturating_add a b = min (a + b) usize_max"

subsection \<open>Slices and indexing\<close>

definition slice :: "'a list \<Rightarrow> nat \<Rightarrow> nat \<Rightarrow> 'a list outcome" where
  "slice xs a b = (if a \<le> b \<and> b \<le> length xs then Ok (take (b - a) (drop a xs)) else Panic)"

definition index :: "'a list \<Rightarrow> nat \<Rightarrow> 'a outcome" where
  "index xs i = (if i < length xs then Ok (xs ! i) else Panic)"

text \<open>\<open>u16::from_le_bytes([data[i], data[i + 1]])\<close> and its 32-bit counterpart.\<close>

definition u16_at :: "bytes \<Rightarrow> nat \<Rightarrow> u16 outcome" where
  "u16_at data i = and_then (slice data i (i + 2)) (\<lambda>bs. Ok (u16_from_le bs))"

definition u32_at :: "bytes \<Rightarrow> nat \<Rightarrow> u32 outcome" where
  "u32_at data i = and_then (slice data i (i + 4)) (\<lambda>bs. Ok (u32_from_le bs))"

definition as_bytes :: "string \<Rightarrow> bytes" where
  "as_bytes s = map of_char s"

text \<open>The first hit of a sequence of lookups, the newest first.\<close>

primrec first_some :: "'a option list \<Rightarrow> 'a option" where
  "first_some [] = None"
| "first_some (x # xs) = (case x of Some y \<Rightarrow> Some y | None \<Rightarrow> first_some xs)"

subsection \<open>Lemmas on results\<close>

lemma and_then_eq_Ok [simp]:
  "and_then m f = Ok y \<longleftrightarrow> (\<exists>x. m = Ok x \<and> f x = Ok y)"
  by (cases m) auto

lemma and_then_cong [fundef_cong]:
  "m = m' \<Longrightarrow> (\<And>x. m' = Ok x \<Longrightarrow> f x = f' x) \<Longrightarrow> and_then m f = and_then m' f'"
  by (cases m') auto

lemma and_then_assoc: "and_then (and_then m f) g = and_then m (\<lambda>x. and_then (f x) g)"
  by (cases m) auto

lemma ok_or_eq_Ok [simp]: "ok_or e x = Ok y \<longleftrightarrow> x = Some y"
  by (cases x) (auto simp: ok_or_def)

lemma ok_or_simps [simp]: "ok_or e None = Err e" "ok_or e (Some y) = Ok y"
  by (simp_all add: ok_or_def)

subsection \<open>Lemmas on little-endian numbers\<close>

lemma length_nat_to_le [simp]: "length (nat_to_le n x) = n"
  by (induction n arbitrary: x) auto

lemma nat_from_to_le [simp]: "nat_from_le (nat_to_le n x) = x mod 256 ^ n"
proof (induction n arbitrary: x)
  case 0
  then show ?case by simp
next
  case (Suc n)
  have "unat (word_of_nat (x mod 256) :: u8) = x mod 256"
    by (simp add: unat_of_nat)
  with Suc show ?case
    by (simp add: mod_mult2_eq)
qed

lemma nat_from_le_bound: "nat_from_le bs < 256 ^ length bs"
proof (induction bs)
  case Nil
  then show ?case by simp
next
  case (Cons b bs)
  have "unat b < 256"
    using unsigned_less [of b] by simp
  with Cons show ?case by simp
qed

lemma nat_to_from_le [simp]: "nat_to_le (length bs) (nat_from_le bs) = bs"
proof (induction bs)
  case Nil
  then show ?case by simp
next
  case (Cons b bs)
  have lt: "unat b < 256"
    using unsigned_less [of b] by simp
  then have "(unat b + 256 * nat_from_le bs) div 256 = nat_from_le bs"
    and "(unat b + 256 * nat_from_le bs) mod 256 = unat b"
    by simp_all
  with Cons show ?case by simp
qed

lemma length_u_to_le [simp]:
  "length (u16_to_le a) = 2" "length (u32_to_le b) = 4"
  "length (u64_to_le c) = 8" "length (u128_to_le d) = 16"
  by (simp_all add: u16_to_le_def u32_to_le_def u64_to_le_def u128_to_le_def)

lemma u_to_le_not_Nil [simp]: "u16_to_le a \<noteq> []" "u32_to_le b \<noteq> []" "u64_to_le c \<noteq> []"
  by (metis length_u_to_le list.size(3) zero_neq_numeral)+

lemma u16_from_to_le [simp]: "u16_from_le (u16_to_le w) = w"
  using unsigned_less [of w, where ?'a = nat] by (simp add: u16_from_le_def u16_to_le_def)

lemma u32_from_to_le [simp]: "u32_from_le (u32_to_le w) = w"
  using unsigned_less [of w, where ?'a = nat] by (simp add: u32_from_le_def u32_to_le_def)

lemma u64_from_to_le [simp]: "u64_from_le (u64_to_le w) = w"
  using unsigned_less [of w, where ?'a = nat] by (simp add: u64_from_le_def u64_to_le_def)

lemma u128_from_to_le [simp]: "u128_from_le (u128_to_le w) = w"
  using unsigned_less [of w, where ?'a = nat] by (simp add: u128_from_le_def u128_to_le_def)

lemma unat_of_nat_small:
  "n < 2 ^ 16 \<Longrightarrow> unat (word_of_nat n :: u16) = n"
  "n < 2 ^ 32 \<Longrightarrow> unat (word_of_nat n :: u32) = n"
  "n < 2 ^ 64 \<Longrightarrow> unat (word_of_nat n :: u64) = n"
  by (simp_all add: unat_of_nat)

lemma unat_ucast_32_64 [simp]: "unat (ucast (w :: u32) :: u64) = unat w"
proof -
  have "unat w < 2 ^ 64" using unsigned_less [of w, where ?'a = nat] by simp
  then show ?thesis by (simp add: unsigned_ucast_eq take_bit_nat_eq_self)
qed

subsection \<open>Lemmas on slices\<close>

lemma slice_append_left [simp]:
  "b \<le> length xs \<Longrightarrow> slice (xs @ ys) a b = slice xs a b"
  by (auto simp: slice_def)

lemma slice_eq_Ok:
  "slice xs a b = Ok ys \<longleftrightarrow> a \<le> b \<and> b \<le> length xs \<and> ys = take (b - a) (drop a xs)"
  by (auto simp: slice_def)

text \<open>A slice that covers exactly the middle part of a concatenation.\<close>

lemma slice_middle:
  "a = length xs \<Longrightarrow> b = length xs + length ys \<Longrightarrow> slice (xs @ ys @ zs) a b = Ok ys"
  by (simp add: slice_def)

lemma u16_at_middle [simp]:
  "i = length xs \<Longrightarrow> u16_at (xs @ u16_to_le w @ zs) i = Ok w"
  by (simp add: u16_at_def slice_middle)

lemma u32_at_middle [simp]:
  "i = length xs \<Longrightarrow> u32_at (xs @ u32_to_le w @ zs) i = Ok w"
  by (simp add: u32_at_def slice_middle)

text \<open>Reading at a position, in terms of what the input holds from there on.\<close>

lemma drop_step: "drop i data = xs @ ys \<Longrightarrow> drop (i + length xs) data = ys"
  by (metis add.commute append_eq_conv_conj drop_drop)

lemma drop_length: "drop i data = xs \<Longrightarrow> xs \<noteq> [] \<Longrightarrow> length data = i + length xs"
  by (metis add_diff_inverse_nat drop_eq_Nil2 length_drop less_or_eq_imp_le nat_neq_iff)

lemma drop_nth: "drop i data = x # xs \<Longrightarrow> i < length data \<and> data ! i = x"
  by (metis drop_eq_Nil2 hd_drop_conv_nth linorder_not_less list.distinct(1) list.sel(1))

lemma slice_drop: "drop i data = ys @ zs \<Longrightarrow> i \<le> length data \<Longrightarrow> slice data i (i + length ys) = Ok ys"
  by (metis (no_types, lifting) add_le_cancel_left append_eq_conv_conj diff_add_inverse drop_eq_Nil2
      le_add1 le_add_diff_inverse length_append length_drop slice_def)

lemma u16_at_drop:
  assumes "drop i data = u16_to_le w @ zs"
  shows "u16_at data i = Ok w"
proof -
  have "length data = i + (2 + length zs)" using drop_length [OF assms] by simp
  then show ?thesis using slice_drop [OF assms] by (simp add: u16_at_def)
qed

lemma u32_at_drop:
  assumes "drop i data = u32_to_le w @ zs"
  shows "u32_at data i = Ok w"
proof -
  have "length data = i + (4 + length zs)" using drop_length [OF assms] by simp
  then show ?thesis using slice_drop [OF assms] by (simp add: u32_at_def)
qed

lemma length_as_bytes [simp]: "length (as_bytes s) = length s"
  by (simp add: as_bytes_def)

subsection \<open>Strictly sorted association lists\<close>

text \<open>
  Keys in strictly increasing order: the shape of an SSTable, of a block and of a sorted
  snapshot of a memtable.
\<close>

abbreviation strict_keys :: "('k::linorder \<times> 'v) list \<Rightarrow> bool" where
  "strict_keys kvs \<equiv> sorted_wrt (<) (map fst kvs)"

lemma strict_keys_distinct: "strict_keys kvs \<Longrightarrow> distinct (map fst kvs)"
  by (simp add: strict_sorted_iff)

lemma strict_keys_lookup:
  "strict_keys kvs \<Longrightarrow> i < length kvs \<Longrightarrow> map_of kvs (fst (kvs ! i)) = Some (snd (kvs ! i))"
  by (metis map_of_eq_Some_iff nth_mem prod.collapse strict_keys_distinct)

lemma strict_keys_nth_less:
  "strict_keys kvs \<Longrightarrow> i < j \<Longrightarrow> j < length kvs \<Longrightarrow> fst (kvs ! i) < fst (kvs ! j)"
  by (simp add: sorted_wrt_iff_nth_less)

lemma strict_keys_append:
  "strict_keys (xs @ ys) \<longleftrightarrow>
     strict_keys xs \<and> strict_keys ys \<and> (\<forall>x\<in>set xs. \<forall>y\<in>set ys. fst x < fst y)"
  by (auto simp: sorted_wrt_append)

lemma strict_keys_last: "strict_keys kvs \<Longrightarrow> x \<in> set kvs \<Longrightarrow> fst x \<le> fst (last kvs)"
  by (induction kvs) (auto simp: less_imp_le)

lemma map_of_filter_entries:
  "distinct (map fst es) \<Longrightarrow> map_of (filter P es) key =
     (case map_of es key of None \<Rightarrow> None | Some v \<Rightarrow> if P (key, v) then Some v else None)"
  by (induction es) (auto simp: map_of_eq_None_iff split: option.splits dest: map_of_SomeD)

lemma first_some_map: "first_some (map (\<lambda>x. map_option f (g x)) xs) = map_option f (first_some (map g xs))"
  by (induction xs) (auto split: option.splits)

lemma strict_keys_filter: "strict_keys kvs \<Longrightarrow> strict_keys (filter P kvs)"
  by (induction kvs) auto

lemma map_of_None_iff: "map_of kvs k = None \<longleftrightarrow> k \<notin> fst ` set kvs"
  by (simp add: map_of_eq_None_iff)



lemma first_some_append:
  "first_some (xs @ ys) = (case first_some xs of Some y \<Rightarrow> Some y | None \<Rightarrow> first_some ys)"
  by (induction xs) (auto split: option.splits)

lemma first_some_None: "first_some xs = None \<longleftrightarrow> (\<forall>x\<in>set xs. x = None)"
  by (induction xs) (auto split: option.splits)

lemma first_some_Some:
  "first_some xs = Some y \<longleftrightarrow> (\<exists>i<length xs. xs ! i = Some y \<and> (\<forall>j<i. xs ! j = None))"
proof (induction xs)
  case (Cons x xs)
  show ?case
  proof (cases x)
    case None
    then show ?thesis using Cons by (simp add: Ex_less_Suc2 All_less_Suc2)
  next
    case (Some z)
    have "i = 0" if "\<forall>j<i. (Some z # xs) ! j = None" for i
      using that by (cases i) auto
    then show ?thesis using Some by fastforce
  qed
qed simp

end
