(* ===== verification/Log_Record.thy ===== *)
theory Log_Record
  imports Prelude
begin

text \<open>
  \<open>src/core/log_record.rs\<close>: the record that the log, the memtables and the SSTables all carry, its
  constructors, expiry, and range tombstones.

  A constructor of the source reads the system clock; here the reading is the argument \<open>now\<close>
  (nanoseconds since the epoch, \<open>0\<close> when the clock is before it, as \<open>unwrap_or_default\<close> gives).
\<close>

record log_record =
  lr_key :: bytes
  lr_value :: bytes
  lr_timestamp :: u128
  lr_is_deleted :: bool
  lr_column_family :: "string option"
  lr_expires_at :: "u128 option"
  lr_range_start :: "bytes option"
  lr_range_end :: "bytes option"

definition log_record_new :: "u128 \<Rightarrow> bytes \<Rightarrow> bytes \<Rightarrow> log_record" where
  "log_record_new now key value =
     \<lparr>lr_key = key, lr_value = value, lr_timestamp = now, lr_is_deleted = False,
      lr_column_family = None, lr_expires_at = None, lr_range_start = None, lr_range_end = None\<rparr>"

definition tombstone :: "u128 \<Rightarrow> bytes \<Rightarrow> log_record" where
  "tombstone now key =
     \<lparr>lr_key = key, lr_value = [], lr_timestamp = now, lr_is_deleted = True,
      lr_column_family = None, lr_expires_at = None, lr_range_start = None, lr_range_end = None\<rparr>"

definition new_with_ttl :: "u128 \<Rightarrow> bytes \<Rightarrow> bytes \<Rightarrow> u128 \<Rightarrow> log_record" where
  "new_with_ttl now key value ttl =
     \<lparr>lr_key = key, lr_value = value, lr_timestamp = now, lr_is_deleted = False,
      lr_column_family = None, lr_expires_at = Some (u128_saturating_add now ttl),
      lr_range_start = None, lr_range_end = None\<rparr>"

definition is_expired_at :: "log_record \<Rightarrow> u128 \<Rightarrow> bool" where
  "is_expired_at r now = (case lr_expires_at r of None \<Rightarrow> False | Some e \<Rightarrow> e \<le> now)"

definition mk_range_tombstone :: "u128 \<Rightarrow> bytes \<Rightarrow> bytes \<Rightarrow> log_record" where
  "mk_range_tombstone now start stop =
     \<lparr>lr_key = start, lr_value = [], lr_timestamp = now, lr_is_deleted = True,
      lr_column_family = None, lr_expires_at = None,
      lr_range_start = Some start, lr_range_end = Some stop\<rparr>"

definition is_range_tombstone :: "log_record \<Rightarrow> bool" where
  "is_range_tombstone r \<longleftrightarrow> lr_range_start r \<noteq> None \<and> lr_range_end r \<noteq> None"

record range_tombstone =
  rt_start_key :: bytes
  rt_end_key :: bytes
  rt_timestamp :: u128

definition range_tombstone_new :: "u128 \<Rightarrow> bytes \<Rightarrow> bytes \<Rightarrow> range_tombstone" where
  "range_tombstone_new now start stop =
     \<lparr>rt_start_key = start, rt_end_key = stop, rt_timestamp = now\<rparr>"

definition covers :: "range_tombstone \<Rightarrow> bytes \<Rightarrow> bool" where
  "covers rt key \<longleftrightarrow> rt_start_key rt \<le> key \<and> key < rt_end_key rt"

subsection \<open>Facts\<close>

lemma log_record_new_simps [simp]:
  "lr_key (log_record_new now k v) = k" "lr_value (log_record_new now k v) = v"
  "lr_timestamp (log_record_new now k v) = now" "\<not> lr_is_deleted (log_record_new now k v)"
  "\<not> is_expired_at (log_record_new now k v) t" "\<not> is_range_tombstone (log_record_new now k v)"
  by (simp_all add: log_record_new_def is_expired_at_def is_range_tombstone_def)

lemma tombstone_simps [simp]:
  "lr_key (tombstone now k) = k" "lr_value (tombstone now k) = []"
  "lr_timestamp (tombstone now k) = now" "lr_is_deleted (tombstone now k)"
  "\<not> is_expired_at (tombstone now k) t" "\<not> is_range_tombstone (tombstone now k)"
  by (simp_all add: tombstone_def is_expired_at_def is_range_tombstone_def)

lemma new_with_ttl_simps [simp]:
  "lr_key (new_with_ttl now k v ttl) = k" "lr_value (new_with_ttl now k v ttl) = v"
  "lr_timestamp (new_with_ttl now k v ttl) = now" "\<not> lr_is_deleted (new_with_ttl now k v ttl)"
  "lr_expires_at (new_with_ttl now k v ttl) = Some (u128_saturating_add now ttl)"
  "\<not> is_range_tombstone (new_with_ttl now k v ttl)"
  by (simp_all add: new_with_ttl_def is_range_tombstone_def)

lemma mk_range_tombstone_simps [simp]:
  "lr_key (mk_range_tombstone now a b) = a" "lr_is_deleted (mk_range_tombstone now a b)"
  "lr_timestamp (mk_range_tombstone now a b) = now" "is_range_tombstone (mk_range_tombstone now a b)"
  by (simp_all add: mk_range_tombstone_def is_range_tombstone_def)

lemma unat_u128_saturating_add:
  "unat (u128_saturating_add a b) = min (unat a + unat b) (2 ^ 128 - 1)"
proof (cases "unat a + unat b < 2 ^ 128")
  case True
  then show ?thesis by (simp add: u128_saturating_add_def unat_word_ariths)
next
  case False
  then show ?thesis by (simp add: u128_saturating_add_def unsigned_minus_1_eq_mask mask_eq_exp_minus_1)
qed

text \<open>A record expires exactly when the clock has moved on by its time to live (saturating).\<close>

lemma new_with_ttl_expired_iff:
  "is_expired_at (new_with_ttl now k v ttl) t \<longleftrightarrow> min (unat now + unat ttl) (2 ^ 128 - 1) \<le> unat t"
  by (simp add: is_expired_at_def word_le_nat_alt unat_u128_saturating_add)

end
