(* ===== verification/Prefix_Compression.thy ===== *)
theory Prefix_Compression
  imports Prelude
begin

text \<open>
  \<open>src/storage/prefix_compression.rs\<close>: keys stored as the length of the prefix shared with the
  previous key and the remaining suffix, for a list of keys and for the entries of a block.

  What is shown: decoding inverts encoding for keys of at most 65535 bytes, and decompressing a
  block inverts compressing it when its first key is not empty.
\<close>

definition MAX_SHARED_PREFIX :: nat where
  "MAX_SHARED_PREFIX = 255"

definition shared_prefix_len :: "bytes \<Rightarrow> bytes \<Rightarrow> nat" where
  "shared_prefix_len a b = length (takeWhile (\<lambda>(x, y). x = y) (zip a b))"

subsection \<open>Lists of keys\<close>

fun encode_loop :: "bytes list \<Rightarrow> bytes \<Rightarrow> bytes \<Rightarrow> bytes outcome" where
  "encode_loop [] prev_key out = Ok out"
| "encode_loop (key # keys) prev_key out =
     (let shared = shared_prefix_len prev_key key
      in if MAX_SHARED_PREFIX < shared then Err InvalidArgument
         else (let suffix = drop shared key
               in encode_loop keys key
                    (out @ [word_of_nat shared] @ u16_to_le (word_of_nat (length suffix)) @ suffix)))"

definition encode_keys :: "bytes list \<Rightarrow> bytes outcome" where
  "encode_keys keys = (if keys = [] then Ok [] else encode_loop keys [] [])"

function decode_loop :: "bytes \<Rightarrow> nat \<Rightarrow> bytes \<Rightarrow> bytes list \<Rightarrow> bytes list outcome" where
  "decode_loop data pos prev_key keys =
     (if pos < length data then
        (let shared = unat (data ! pos); pos1 = pos + 1
         in if length data < pos1 + 2 then Err CorruptedData
            else and_then (u16_at data pos1) (\<lambda>sl.
              let suffix_len = unat sl; pos2 = pos1 + 2
              in if length data < pos2 + suffix_len then Err CorruptedData
                 else and_then (slice data pos2 (pos2 + suffix_len)) (\<lambda>suffix.
                   and_then (slice prev_key 0 shared) (\<lambda>prefix.
                     decode_loop data (pos2 + suffix_len) (prefix @ suffix)
                       (keys @ [prefix @ suffix])))))
      else Ok keys)"
  by pat_completeness auto
termination
  by (relation "measure (\<lambda>(data, pos, _, _). length data - pos)") auto

declare decode_loop.simps [simp del]

definition decode_keys :: "bytes \<Rightarrow> bytes \<Rightarrow> bytes list outcome" where
  "decode_keys data first_key = (if data = [] then Ok [] else decode_loop data 0 first_key [])"

subsection \<open>Blocks\<close>

text \<open>\<open>[key_len(u16)][key][val_len(u16)][value]\<close> at an offset, read without checks.\<close>

definition read_entry :: "bytes \<Rightarrow> nat \<Rightarrow> (bytes \<times> bytes) outcome" where
  "read_entry data offset =
     and_then (u16_at data offset) (\<lambda>kl.
       let key_len = unat kl; val_offset = offset + 2 + key_len
       in and_then (slice data (offset + 2) (offset + 2 + key_len)) (\<lambda>key.
            and_then (u16_at data val_offset) (\<lambda>vl.
              and_then (slice data (val_offset + 2) (val_offset + 2 + unat vl)) (\<lambda>val.
                Ok (key, val)))))"

fun compress_loop :: "bytes \<Rightarrow> u32 list \<Rightarrow> bytes \<Rightarrow> bytes \<Rightarrow> u32 list \<Rightarrow> (bytes \<times> u32 list) outcome" where
  "compress_loop data [] prev_key new_data new_offsets = Ok (new_data, new_offsets)"
| "compress_loop data (offset # offsets) prev_key new_data new_offsets =
     and_then (read_entry data (unat offset)) (\<lambda>(key, val).
       let new_offsets' = new_offsets @ [word_of_nat (length new_data)];
           tail = u16_to_le (word_of_nat (length val)) @ val
       in if prev_key = [] then
            compress_loop data offsets key
              (new_data @ u16_to_le (word_of_nat (length key)) @ key @ tail) new_offsets'
          else
            (let shared = shared_prefix_len prev_key key
             in if MAX_SHARED_PREFIX < shared then Err InvalidArgument
                else (let suffix = drop shared key
                      in compress_loop data offsets key
                           (new_data @ [word_of_nat shared] @ u16_to_le (word_of_nat (length suffix))
                             @ suffix @ tail) new_offsets')))"

definition compress_block_data :: "bytes \<Rightarrow> u32 list \<Rightarrow> (bytes \<times> u32 list) outcome" where
  "compress_block_data data offsets =
     (if offsets = [] then Ok ([], []) else compress_loop data offsets [] [] [])"

text \<open>The first entry of a compressed block.\<close>

definition read_first_entry :: "bytes \<Rightarrow> nat \<Rightarrow> (bytes \<times> bytes) outcome" where
  "read_first_entry data offset =
     (if length data < offset + 2 then Err CorruptedData
      else and_then (u16_at data offset) (\<lambda>kl.
        let key_len = unat kl
        in if length data < offset + 2 + key_len + 2 then Err CorruptedData
           else and_then (slice data (offset + 2) (offset + 2 + key_len)) (\<lambda>key.
             let val_offset = offset + 2 + key_len
             in and_then (u16_at data val_offset) (\<lambda>vl.
                  and_then (slice data (val_offset + 2) (val_offset + 2 + unat vl)) (\<lambda>val.
                    Ok (key, val))))))"

text \<open>A later entry, \<open>[shared(u8)][suffix_len(u16)][suffix][val_len(u16)][value]\<close>.\<close>

definition read_compressed_entry :: "bytes \<Rightarrow> nat \<Rightarrow> bytes \<Rightarrow> (bytes \<times> bytes) outcome" where
  "read_compressed_entry data offset prev_key =
     (if length data < offset + 1 then Err CorruptedData
      else and_then (index data offset) (\<lambda>sh.
        if length data < offset + 1 + 2 then Err CorruptedData
        else and_then (u16_at data (offset + 1)) (\<lambda>sl.
          let suffix_len = unat sl; suffix_start = offset + 1 + 2
          in if length data < suffix_start + suffix_len + 2 then Err CorruptedData
             else and_then (slice data suffix_start (suffix_start + suffix_len)) (\<lambda>suffix.
               and_then (slice prev_key 0 (unat sh)) (\<lambda>prefix.
                 let val_offset = suffix_start + suffix_len
                 in and_then (u16_at data val_offset) (\<lambda>vl.
                      and_then (slice data (val_offset + 2) (val_offset + 2 + unat vl)) (\<lambda>val.
                        Ok (prefix @ suffix, val))))))))"

fun decompress_loop ::
  "bytes \<Rightarrow> u32 list \<Rightarrow> bool \<Rightarrow> bytes \<Rightarrow> bytes \<Rightarrow> u32 list \<Rightarrow> (bytes \<times> u32 list) outcome" where
  "decompress_loop data [] is_first prev_key new_data new_offsets = Ok (new_data, new_offsets)"
| "decompress_loop data (offset # offsets) is_first prev_key new_data new_offsets =
     and_then
       (if is_first then read_first_entry data (unat offset)
        else read_compressed_entry data (unat offset) prev_key)
       (\<lambda>(key, val).
         decompress_loop data offsets False key
           (new_data @ u16_to_le (word_of_nat (length key)) @ key
             @ u16_to_le (word_of_nat (length val)) @ val)
           (new_offsets @ [word_of_nat (length new_data)]))"

definition decompress_block_data :: "bytes \<Rightarrow> u32 list \<Rightarrow> (bytes \<times> u32 list) outcome" where
  "decompress_block_data data offsets =
     (if offsets = [] then Ok ([], []) else decompress_loop data offsets True [] [] [])"


subsection \<open>Shared prefixes\<close>

lemma shared_prefix_len_le: "shared_prefix_len a b \<le> length a" "shared_prefix_len a b \<le> length b"
  unfolding shared_prefix_len_def
  by (metis length_takeWhile_le length_zip min.boundedE)+

lemma shared_prefix_take: "take (shared_prefix_len a b) a = take (shared_prefix_len a b) b"
proof (induction a arbitrary: b)
  case (Cons x a)
  then show ?case by (cases b) (auto simp: shared_prefix_len_def)
qed (simp add: shared_prefix_len_def)

lemma shared_prefix_rebuild [simp]:
  "take (shared_prefix_len a b) a @ drop (shared_prefix_len a b) b = b"
  by (metis append_take_drop_id shared_prefix_take)

lemma shared_prefix_Nil [simp]: "shared_prefix_len [] b = 0"
  by (simp add: shared_prefix_len_def)

lemma unat_shared: "n \<le> MAX_SHARED_PREFIX \<Longrightarrow> unat (word_of_nat n :: u8) = n"
  by (simp add: MAX_SHARED_PREFIX_def unat_of_nat)

lemma slice_shared: "slice a 0 (shared_prefix_len a b) = Ok (take (shared_prefix_len a b) a)"
  by (simp add: slice_def shared_prefix_len_le)

subsection \<open>Round trip on keys\<close>

definition key_chunk :: "bytes \<Rightarrow> bytes \<Rightarrow> bytes" where
  "key_chunk prev key =
     (let suffix = drop (shared_prefix_len prev key) key
      in [word_of_nat (shared_prefix_len prev key)] @ u16_to_le (word_of_nat (length suffix)) @ suffix)"

primrec key_chunks :: "bytes \<Rightarrow> bytes list \<Rightarrow> bytes" where
  "key_chunks prev [] = []"
| "key_chunks prev (key # keys) = key_chunk prev key @ key_chunks key keys"

text \<open>Neighbouring keys share at most 255 bytes.\<close>

primrec sharing_ok :: "bytes \<Rightarrow> bytes list \<Rightarrow> bool" where
  "sharing_ok prev [] \<longleftrightarrow> True"
| "sharing_ok prev (key # keys) \<longleftrightarrow> shared_prefix_len prev key \<le> MAX_SHARED_PREFIX \<and> sharing_ok key keys"

lemma encode_loop_eq:
  "encode_loop keys prev out =
     (if sharing_ok prev keys then Ok (out @ key_chunks prev keys) else Err InvalidArgument)"
  by (induction keys arbitrary: prev out) (auto simp: Let_def key_chunk_def)

lemma encode_keys_eq:
  "encode_keys keys = (if sharing_ok [] keys then Ok (key_chunks [] keys) else Err InvalidArgument)"
  by (simp add: encode_keys_def encode_loop_eq)

lemma decode_loop_chunks:
  assumes "drop pos data = key_chunks p keys" "sharing_ok p keys" "\<forall>k\<in>set keys. length k < 2 ^ 16"
    and "\<And>k. keys \<noteq> [] \<Longrightarrow> k = hd keys \<Longrightarrow>
      take (shared_prefix_len p k) prev = take (shared_prefix_len p k) p \<and> shared_prefix_len p k \<le> length prev"
  shows "decode_loop data pos prev acc = Ok (acc @ keys)"
  using assms
proof (induction keys arbitrary: pos p prev acc)
  case Nil
  then show ?case by (simp add: decode_loop.simps)
next
  case (Cons key keys)
  let ?s = "shared_prefix_len p key" and ?suf = "drop (shared_prefix_len p key) key"
  let ?w = "word_of_nat (length ?suf) :: u16"
  have s: "?s \<le> MAX_SHARED_PREFIX" using Cons.prems(2) by simp
  have "length ?suf < 2 ^ 16" using Cons.prems(3) by auto
  then have w: "unat ?w = length ?suf" by (rule unat_of_nat_small)
  have d0: "drop pos data = [word_of_nat ?s] @ u16_to_le ?w @ ?suf @ key_chunks key keys"
    using Cons.prems(1) by (simp add: key_chunk_def Let_def)
  have d1: "drop (pos + 1) data = u16_to_le ?w @ ?suf @ key_chunks key keys"
    using drop_step [OF d0] by simp
  have d2: "drop (pos + 1 + 2) data = ?suf @ key_chunks key keys"
    using drop_step [OF d1] by simp
  have d3: "drop (pos + 1 + 2 + length ?suf) data = key_chunks key keys"
    using drop_step [OF d2] .
  have len: "length data = pos + 1 + 2 + length ?suf + length (key_chunks key keys)"
    using drop_length [OF d0] by simp
  have at: "data ! pos = word_of_nat ?s"
    using d0 drop_nth by fastforce
  have pre: "slice prev 0 ?s = Ok (take ?s p)" and "take ?s p @ ?suf = key"
    using Cons.prems(4) [of key] by (simp_all add: slice_def)
  moreover have "slice data (pos + 1 + 2) (pos + 1 + 2 + length ?suf) = Ok ?suf"
    using slice_drop [OF d2] len by simp
  moreover have "decode_loop data (pos + 1 + 2 + length ?suf) key (acc @ [key]) = Ok ((acc @ [key]) @ keys)"
    using Cons.prems(2,3) shared_prefix_len_le(1) by (intro Cons.IH [OF d3]) auto
  ultimately show ?case
    using len at s w u16_at_drop [OF d1]
    by (subst decode_loop.simps) (simp add: Let_def unat_shared)
qed


subsection \<open>Entries laid out one after the other\<close>

text \<open>The offsets at which chunks start when they are laid out from position \<open>n\<close> on.\<close>

primrec chunk_offsets :: "nat \<Rightarrow> bytes list \<Rightarrow> u32 list" where
  "chunk_offsets n [] = []"
| "chunk_offsets n (c # cs) = word_of_nat n # chunk_offsets (n + length c) cs"

definition entry_bytes :: "bytes \<times> bytes \<Rightarrow> bytes" where
  "entry_bytes kv =
     u16_to_le (word_of_nat (length (fst kv))) @ fst kv @ u16_to_le (word_of_nat (length (snd kv))) @ snd kv"

definition compressed_bytes :: "bytes \<Rightarrow> bytes \<times> bytes \<Rightarrow> bytes" where
  "compressed_bytes prev kv =
     key_chunk prev (fst kv) @ u16_to_le (word_of_nat (length (snd kv))) @ snd kv"

primrec compressed_chunks :: "bytes \<Rightarrow> (bytes \<times> bytes) list \<Rightarrow> bytes list" where
  "compressed_chunks prev [] = []"
| "compressed_chunks prev (kv # kvs) =
     (if prev = [] then entry_bytes kv else compressed_bytes prev kv) # compressed_chunks (fst kv) kvs"

definition entry_fits :: "bytes \<times> bytes \<Rightarrow> bool" where
  "entry_fits kv \<longleftrightarrow> length (fst kv) < 2 ^ 16 \<and> length (snd kv) < 2 ^ 16"

lemma length_chunk_offsets [simp]: "length (chunk_offsets n cs) = length cs"
  by (induction cs arbitrary: n) auto

lemma chunk_offsets_append:
  "chunk_offsets n (cs @ ds) = chunk_offsets n cs @ chunk_offsets (n + length (concat cs)) ds"
  by (induction cs arbitrary: n) (auto simp: add.assoc)

lemma entry_bytes_not_Nil [simp]: "entry_bytes kv \<noteq> []"
  by (simp add: entry_bytes_def)

lemma length_entry_bytes: "length (entry_bytes kv) = 4 + length (fst kv) + length (snd kv)"
  by (simp add: entry_bytes_def)

text \<open>The pieces of an entry that lies at an offset, and that no read of it is out of range.\<close>

lemma entry_at:
  assumes "drop i data = entry_bytes (k, v) @ rest" and fits: "entry_fits (k, v)"
  shows "u16_at data i = Ok (word_of_nat (length k))"
    and "slice data (i + 2) (i + 2 + length k) = Ok k"
    and "u16_at data (i + 2 + length k) = Ok (word_of_nat (length v))"
    and "slice data (i + 2 + length k + 2) (i + 2 + length k + 2 + length v) = Ok v"
    and "unat (word_of_nat (length k) :: u16) = length k" "unat (word_of_nat (length v) :: u16) = length v"
    and "length data = i + 2 + length k + 2 + length v + length rest"
proof -
  have d0: "drop i data = u16_to_le (word_of_nat (length k)) @ k @ u16_to_le (word_of_nat (length v)) @ v @ rest"
    using assms by (simp add: entry_bytes_def)
  have d1: "drop (i + 2) data = k @ u16_to_le (word_of_nat (length v)) @ v @ rest"
    using drop_step [OF d0] by simp
  have d2: "drop (i + 2 + length k) data = u16_to_le (word_of_nat (length v)) @ v @ rest"
    using drop_step [OF d1] .
  have d3: "drop (i + 2 + length k + 2) data = v @ rest"
    using drop_step [OF d2] by simp
  show len: "length data = i + 2 + length k + 2 + length v + length rest"
    using drop_length [OF d0] by simp
  show "u16_at data i = Ok (word_of_nat (length k))" using d0 by (rule u16_at_drop)
  show "u16_at data (i + 2 + length k) = Ok (word_of_nat (length v))" using d2 by (rule u16_at_drop)
  show "slice data (i + 2) (i + 2 + length k) = Ok k" using slice_drop [OF d1] len by simp
  show "slice data (i + 2 + length k + 2) (i + 2 + length k + 2 + length v) = Ok v"
    using slice_drop [OF d3] len by simp
  show "unat (word_of_nat (length k) :: u16) = length k" "unat (word_of_nat (length v) :: u16) = length v"
    using fits by (simp_all add: entry_fits_def unat_of_nat_small)
qed

lemma read_entry_at:
  "drop i data = entry_bytes (k, v) @ rest \<Longrightarrow> entry_fits (k, v) \<Longrightarrow> read_entry data i = Ok (k, v)"
  using entry_at [of i data k v rest] by (simp add: read_entry_def Let_def)

lemma read_first_entry_at:
  "drop i data = entry_bytes (k, v) @ rest \<Longrightarrow> entry_fits (k, v) \<Longrightarrow> read_first_entry data i = Ok (k, v)"
  using entry_at [of i data k v rest] by (simp add: read_first_entry_def Let_def)


lemma read_compressed_entry_at:
  assumes "drop i data = compressed_bytes p (k, v) @ rest" and fits: "entry_fits (k, v)"
    and s: "shared_prefix_len p k \<le> MAX_SHARED_PREFIX"
  shows "read_compressed_entry data i p = Ok (k, v)"
proof -
  let ?s = "shared_prefix_len p k" and ?suf = "drop (shared_prefix_len p k) k"
  let ?ws = "word_of_nat (length ?suf) :: u16" and ?wv = "word_of_nat (length v) :: u16"
  have d0: "drop i data = [word_of_nat ?s] @ u16_to_le ?ws @ ?suf @ u16_to_le ?wv @ v @ rest"
    using assms(1) by (simp add: compressed_bytes_def key_chunk_def Let_def)
  have d1: "drop (i + 1) data = u16_to_le ?ws @ ?suf @ u16_to_le ?wv @ v @ rest"
    using drop_step [OF d0] by simp
  have d2: "drop (i + 1 + 2) data = ?suf @ u16_to_le ?wv @ v @ rest"
    using drop_step [OF d1] by simp
  have d3: "drop (i + 1 + 2 + length ?suf) data = u16_to_le ?wv @ v @ rest"
    using drop_step [OF d2] .
  have d4: "drop (i + 1 + 2 + length ?suf + 2) data = v @ rest"
    using drop_step [OF d3] by simp
  have len: "length data = i + 1 + 2 + length ?suf + 2 + length v + length rest"
    using drop_length [OF d0] by simp
  have "length ?suf < 2 ^ 16" "length v < 2 ^ 16" using fits by (auto simp: entry_fits_def)
  then have w: "unat ?ws = length ?suf" "unat ?wv = length v" by (simp_all only: unat_of_nat_small)
  have idx: "index data i = Ok (word_of_nat ?s)"
    using drop_nth [of i data] d0 by (simp add: index_def)
  have "slice data (i + 1 + 2) (i + 1 + 2 + length ?suf) = Ok ?suf"
    "slice data (i + 1 + 2 + length ?suf + 2) (i + 1 + 2 + length ?suf + 2 + length v) = Ok v"
    using slice_drop [OF d2] slice_drop [OF d4] len by simp_all
  then show ?thesis
    using len idx w s u16_at_drop [OF d1] u16_at_drop [OF d3]
    by (simp add: read_compressed_entry_def Let_def unat_shared slice_shared del: length_drop)
qed

lemma compress_loop_eq:
  assumes "drop n data = concat (map entry_bytes kvs)" "n + length (concat (map entry_bytes kvs)) < 2 ^ 32"
    and "\<forall>kv\<in>set kvs. entry_fits kv"
  shows "compress_loop data (chunk_offsets n (map entry_bytes kvs)) prev nd no
    = (if sharing_ok prev (map fst kvs)
       then Ok (nd @ concat (compressed_chunks prev kvs), no @ chunk_offsets (length nd) (compressed_chunks prev kvs))
       else Err InvalidArgument)"
  using assms
proof (induction kvs arbitrary: n prev nd no)
  case (Cons kv kvs)
  obtain k v where kv: "kv = (k, v)" by (cases kv)
  let ?e = "if prev = [] then entry_bytes kv else compressed_bytes prev kv"
  have n: "unat (word_of_nat n :: u32) = n" using Cons.prems(2) by (simp add: unat_of_nat_small)
  have d: "drop n data = entry_bytes (k, v) @ concat (map entry_bytes kvs)" using Cons.prems(1) kv by simp
  have "read_entry data n = Ok (k, v)" using read_entry_at [OF d] Cons.prems(3) kv by simp
  moreover have "compress_loop data (chunk_offsets (n + length (entry_bytes kv)) (map entry_bytes kvs)) k
      (nd @ ?e) (no @ [word_of_nat (length nd)])
    = (if sharing_ok k (map fst kvs)
       then Ok ((nd @ ?e) @ concat (compressed_chunks k kvs),
          (no @ [word_of_nat (length nd)]) @ chunk_offsets (length (nd @ ?e)) (compressed_chunks k kvs))
       else Err InvalidArgument)"
    using Cons.prems(2,3) kv drop_step [OF d] by (intro Cons.IH) auto
  ultimately show ?case
    using n kv
    by (simp add: Let_def entry_bytes_def [of "(k, v)"] compressed_bytes_def [of prev "(k, v)"]
        key_chunk_def not_le split: if_splits)
qed simp

lemma decompress_loop_eq:
  assumes "drop n data = concat (compressed_chunks (if fst_entry then [] else prev) kvs)"
    and "n + length (concat (compressed_chunks (if fst_entry then [] else prev) kvs)) < 2 ^ 32"
    and "\<forall>kv\<in>set kvs. entry_fits kv \<and> fst kv \<noteq> []" and "fst_entry \<or> prev \<noteq> []"
    and "sharing_ok (if fst_entry then [] else prev) (map fst kvs)"
  shows "decompress_loop data (chunk_offsets n (compressed_chunks (if fst_entry then [] else prev) kvs))
      fst_entry prev nd no
    = Ok (nd @ concat (map entry_bytes kvs), no @ chunk_offsets (length nd) (map entry_bytes kvs))"
  using assms
proof (induction kvs arbitrary: n prev nd no fst_entry)
  case (Cons kv kvs)
  obtain k v where kv: "kv = (k, v)" by (cases kv)
  let ?p = "if fst_entry then [] else prev"
  let ?e = "if fst_entry then entry_bytes (k, v) else compressed_bytes prev (k, v)"
  have e: "compressed_chunks ?p (kv # kvs) = ?e # compressed_chunks k kvs"
    using Cons.prems(4) kv by auto
  have n: "unat (word_of_nat n :: u32) = n"
    using Cons.prems(2) unfolding e by (intro unat_of_nat_small) simp
  have d: "drop n data = ?e @ concat (compressed_chunks k kvs)" using Cons.prems(1) unfolding e by simp
  have fits: "entry_fits (k, v)" "k \<noteq> []" using Cons.prems(3) kv by simp_all
  have read: "(if fst_entry then read_first_entry data n else read_compressed_entry data n prev) = Ok (k, v)"
    using d fits read_first_entry_at [of n data k v] read_compressed_entry_at [of n data prev k v] Cons.prems(5) kv
    by (cases fst_entry) auto
  have "decompress_loop data (chunk_offsets (n + length ?e) (compressed_chunks (if False then [] else k) kvs))
      False k (nd @ entry_bytes (k, v)) (no @ [word_of_nat (length nd)])
    = Ok ((nd @ entry_bytes (k, v)) @ concat (map entry_bytes kvs),
        (no @ [word_of_nat (length nd)]) @ chunk_offsets (length (nd @ entry_bytes (k, v))) (map entry_bytes kvs))"
    using Cons.prems(2,3,5) kv fits drop_step [OF d] unfolding e by (intro Cons.IH) auto
  then show ?case
    using n read kv unfolding e by (cases fst_entry) (simp_all add: entry_bytes_def [of "(k, v)"])
qed simp


text \<open>A block's entries as raw data and offsets, and after compression.\<close>

definition raw_block :: "(bytes \<times> bytes) list \<Rightarrow> bytes \<times> u32 list" where
  "raw_block kvs = (concat (map entry_bytes kvs), chunk_offsets 0 (map entry_bytes kvs))"

definition compressed_block :: "(bytes \<times> bytes) list \<Rightarrow> bytes \<times> u32 list" where
  "compressed_block kvs = (concat (compressed_chunks [] kvs), chunk_offsets 0 (compressed_chunks [] kvs))"

definition block_size_ok :: "(bytes \<times> bytes) list \<Rightarrow> bool" where
  "block_size_ok kvs \<longleftrightarrow> length (concat (map entry_bytes kvs)) < 2 ^ 32 \<and> (\<forall>kv\<in>set kvs. entry_fits kv)"

lemma length_compressed_chunks:
  "length (concat (compressed_chunks prev kvs)) \<le> length (concat (map entry_bytes kvs)) + length kvs"
proof (induction kvs arbitrary: prev)
  case (Cons kv kvs)
  have "length (compressed_bytes prev kv) \<le> length (entry_bytes kv) + 1"
    by (simp add: compressed_bytes_def key_chunk_def Let_def length_entry_bytes)
  with Cons [of "fst kv"] show ?case by auto
qed simp

lemma length_compressed_chunks_eq: "length (compressed_chunks prev kvs) = length kvs"
  by (induction kvs arbitrary: prev) auto

lemma compress_block_data_eq:
  assumes "block_size_ok kvs"
  shows "compress_block_data (fst (raw_block kvs)) (snd (raw_block kvs))
    = (if sharing_ok [] (map fst kvs) then Ok (compressed_block kvs) else Err InvalidArgument)"
  using assms compress_loop_eq [of 0 "concat (map entry_bytes kvs)" kvs "[]" "[]" "[]"]
  by (cases kvs) (simp_all add: compress_block_data_def raw_block_def compressed_block_def block_size_ok_def)

lemma decompress_block_data_eq:
  assumes "block_size_ok kvs" "sharing_ok [] (map fst kvs)" "\<forall>kv\<in>set kvs. fst kv \<noteq> []"
    and "length (concat (compressed_chunks [] kvs)) < 2 ^ 32"
  shows "decompress_block_data (fst (compressed_block kvs)) (snd (compressed_block kvs)) = Ok (raw_block kvs)"
  using assms decompress_loop_eq [of 0 "concat (compressed_chunks [] kvs)" True "[]" kvs "[]" "[]"]
  by (cases kvs) (simp_all add: decompress_block_data_def raw_block_def compressed_block_def block_size_ok_def)

lemma strict_keys_nonempty:
  "strict_keys kvs \<Longrightarrow> kvs = [] \<or> fst (hd kvs) \<noteq> [] \<Longrightarrow> \<forall>kv\<in>set kvs. fst kv \<noteq> ([] :: bytes)"
  by (cases kvs) auto

subsection \<open>Properties\<close>

text \<open>Whenever \<open>encode_keys\<close> succeeds on keys of at most 65535 bytes, \<open>decode_keys\<close> gives exactly
  those keys back, whatever first key it is handed; and encoding fails exactly when two
  neighbouring keys share more than 255 bytes.\<close>

lemma prefix_keys_roundtrip:
  assumes "\<forall>k\<in>set keys. length k < 2 ^ 16"
  shows "(case encode_keys keys of
      Ok out \<Rightarrow> sharing_ok [] keys \<and> decode_keys out first_key = Ok keys
    | Err e \<Rightarrow> \<not> sharing_ok [] keys \<and> e = InvalidArgument
    | Panic \<Rightarrow> False)"
proof -
  have "decode_loop (key_chunks [] keys) 0 first_key [] = Ok keys" if "sharing_ok [] keys"
    using decode_loop_chunks [of 0 "key_chunks [] keys" "[]" keys first_key "[]"] assms that by simp
  moreover have "key_chunks [] keys = [] \<longleftrightarrow> keys = []" by (cases keys) (simp_all add: key_chunk_def Let_def)
  ultimately show ?thesis by (auto simp: encode_keys_eq decode_keys_def)
qed

text \<open>Decompressing a prefix-compressed block gives the original data and offsets back, for entries
  in strictly increasing key order whose first key is not empty, whose keys and values fit their
  16-bit length fields, and whose neighbouring keys share at most 255 bytes.\<close>

lemma prefix_block_roundtrip:
  assumes "block_size_ok kvs" and "sharing_ok [] (map fst kvs)" and "strict_keys kvs"
    and "kvs = [] \<or> fst (hd kvs) \<noteq> []"
    and "length (concat (map entry_bytes kvs)) + length kvs < 2 ^ 32"
  shows "and_then (compress_block_data (fst (raw_block kvs)) (snd (raw_block kvs)))
      (\<lambda>(d, os). decompress_block_data d os) = Ok (raw_block kvs)"
proof -
  have "length (concat (compressed_chunks [] kvs)) < 2 ^ 32"
    using length_compressed_chunks [of "[]" kvs] assms(5) by linarith
  then show ?thesis
    using decompress_block_data_eq [OF assms(1,2) strict_keys_nonempty [OF assms(3,4)]]
    by (simp add: compress_block_data_eq [OF assms(1)] assms(2) case_prod_beta)
qed

text \<open>The restriction on the first key is needed. \<open>compress_block_data\<close> recognises the first entry
  by an empty previous key, \<open>decompress_block_data\<close> by its position, so after an empty first key
  the second entry is written in one format and read in the other: the block does not come back.\<close>

lemma prefix_block_empty_first_key:
  "let (d, os) = raw_block [([], []), ([1], [])]
   in compress_block_data d os = Ok (d, os) \<and> decompress_block_data d os \<noteq> Ok (d, os)"
  by code_simp

end
