(* ===== verification/Block.thy ===== *)
theory Block
  imports Prefix_Compression
begin

text \<open>
  \<open>src/storage/block.rs\<close>: a block of entries with its offset table, its flags byte and its checksum.

  The checksum comes from the crate \<open>crc32fast\<close> and is the parameter \<open>crc32\<close>; nothing is assumed of
  it, since both sides compute it on the same bytes. What is shown: a block holds exactly the
  entries that were added, and decoding an encoded block gives those entries back, with and
  without prefix compression.
\<close>

unbundle bit_operations_syntax

definition BLOCK_SIZE :: nat where "BLOCK_SIZE = 4096"
definition U32_SIZE :: nat where "U32_SIZE = 4"
definition PREFIX_COMPRESSION_FLAG :: u8 where "PREFIX_COMPRESSION_FLAG = 1"
definition FLAGS_SIZE :: nat where "FLAGS_SIZE = 1"

record block =
  blk_data :: bytes
  blk_offsets :: "u32 list"
  blk_block_size :: nat
  blk_flags :: u8

definition block_new :: "nat \<Rightarrow> block" where
  "block_new block_size = \<lparr>blk_data = [], blk_offsets = [], blk_block_size = block_size, blk_flags = 0\<rparr>"

definition is_prefix_compressed :: "block \<Rightarrow> bool" where
  "is_prefix_compressed b \<longleftrightarrow> (blk_flags b AND PREFIX_COMPRESSION_FLAG) \<noteq> 0"

definition set_prefix_compressed :: "block \<Rightarrow> block" where
  "set_prefix_compressed b = b\<lparr>blk_flags := blk_flags b OR PREFIX_COMPRESSION_FLAG\<rparr>"

text \<open>The \<open>expect\<close> turns an error of the compressor into a panic.\<close>

definition compress_keys :: "block \<Rightarrow> block outcome" where
  "compress_keys b =
     (if blk_offsets b = [] then Ok b
      else case compress_block_data (blk_data b) (blk_offsets b) of
             Ok (new_data, new_offsets) \<Rightarrow>
               Ok (b\<lparr>blk_data := new_data, blk_offsets := new_offsets,
                     blk_flags := blk_flags b OR PREFIX_COMPRESSION_FLAG\<rparr>)
           | Err _ \<Rightarrow> Panic
           | Panic \<Rightarrow> Panic)"

definition entry_size :: "bytes \<Rightarrow> bytes \<Rightarrow> nat" where
  "entry_size key val = 2 + length key + 2 + length val"

definition metadata_size :: "nat \<Rightarrow> nat" where
  "metadata_size num_entries = num_entries * U32_SIZE + U32_SIZE + FLAGS_SIZE"

definition current_size :: "block \<Rightarrow> nat" where
  "current_size b = length (blk_data b) + metadata_size (length (blk_offsets b)) + U32_SIZE"

definition block_add :: "bytes \<Rightarrow> bytes \<Rightarrow> block \<Rightarrow> bool \<times> block" where
  "block_add key val b =
     (let total_needed = current_size b + entry_size key val + U32_SIZE
      in if blk_block_size b < total_needed then (False, b)
         else (True, b\<lparr>blk_offsets := blk_offsets b @ [word_of_nat (length (blk_data b))],
                       blk_data := blk_data b @ u16_to_le (word_of_nat (length key)) @ key
                                   @ u16_to_le (word_of_nat (length val)) @ val\<rparr>))"

definition block_body :: "block \<Rightarrow> bytes" where
  "block_body b =
     blk_data b @ concat (map u32_to_le (blk_offsets b))
     @ u32_to_le (word_of_nat (length (blk_offsets b))) @ [blk_flags b]"

definition block_encode :: "(bytes \<Rightarrow> u32) \<Rightarrow> block \<Rightarrow> bytes" where
  "block_encode crc32 b = block_body b @ u32_to_le (crc32 (block_body b))"

fun read_offsets :: "bytes \<Rightarrow> nat \<Rightarrow> nat \<Rightarrow> u32 list outcome" where
  "read_offsets data pos 0 = Ok []"
| "read_offsets data pos (Suc n) =
     and_then (u32_at data pos) (\<lambda>offset.
       and_then (read_offsets data (pos + U32_SIZE) n) (\<lambda>offsets. Ok (offset # offsets)))"

text \<open>
  The subtraction for \<open>offsets_start\<close> panics on overflow (in a release build it wraps and the slice
  that follows panics).
\<close>

definition block_decode :: "(bytes \<Rightarrow> u32) \<Rightarrow> bytes \<Rightarrow> block outcome" where
  "block_decode crc32 data =
     (if length data < 2 * U32_SIZE + FLAGS_SIZE then Err CorruptedData
      else
        (let checksum_start = length data - U32_SIZE;
             body = take checksum_start data
         in and_then (u32_at data checksum_start) (\<lambda>stored_checksum.
            if stored_checksum \<noteq> crc32 body then Err CorruptedData
            else
              (let flags_pos = length body - FLAGS_SIZE;
                   flags = body ! flags_pos;
                   num_elements_start = flags_pos - U32_SIZE
               in and_then (u32_at body num_elements_start) (\<lambda>n.
                  let num_elements = unat n
                  in if num_elements_start < num_elements * U32_SIZE then Panic
                     else
                       (let offsets_start = num_elements_start - num_elements * U32_SIZE;
                            raw_data = take offsets_start body
                        in and_then (read_offsets body offsets_start num_elements) (\<lambda>offsets.
                           if (flags AND PREFIX_COMPRESSION_FLAG) \<noteq> 0 then
                             and_then (decompress_block_data raw_data offsets) (\<lambda>(d, os).
                               Ok \<lparr>blk_data = d, blk_offsets = os, blk_block_size = BLOCK_SIZE,
                                   blk_flags = flags\<rparr>)
                           else
                             Ok \<lparr>blk_data = raw_data, blk_offsets = offsets,
                                 blk_block_size = BLOCK_SIZE, blk_flags = flags\<rparr>)))))))"

subsection \<open>What a block holds\<close>

definition block_holds :: "(bytes \<times> bytes) list \<Rightarrow> block \<Rightarrow> bool" where
  "block_holds kvs b \<longleftrightarrow>
     blk_data b = fst (raw_block kvs) \<and> blk_offsets b = snd (raw_block kvs)"

lemma block_holds_new [simp]: "block_holds [] (block_new n)"
  by (simp add: block_holds_def block_new_def raw_block_def)

lemma block_holds_length: "block_holds kvs b \<Longrightarrow> length (blk_offsets b) = length kvs"
  by (simp add: block_holds_def raw_block_def)

lemma raw_block_snoc:
  "raw_block (kvs @ [kv]) =
     (fst (raw_block kvs) @ entry_bytes kv, snd (raw_block kvs) @ [word_of_nat (length (fst (raw_block kvs)))])"
  by (simp add: raw_block_def chunk_offsets_append)

lemma block_add_holds:
  "block_holds kvs b \<Longrightarrow> block_add k v b = (True, b') \<Longrightarrow> block_holds (kvs @ [(k, v)]) b'"
  by (auto simp: block_add_def block_holds_def raw_block_snoc entry_bytes_def Let_def split: if_splits)

lemma current_size_holds:
  "block_holds kvs b \<Longrightarrow> current_size b = length (concat (map entry_bytes kvs)) + 4 * length kvs + 9"
  by (simp add: block_holds_def raw_block_def current_size_def metadata_size_def U32_SIZE_def FLAGS_SIZE_def)

text \<open>
  A block is \<open>fitting\<close> when it was filled by \<open>add\<close> from empty: its encoded size is within
  \<open>block_size\<close>, which bounds every length and offset in it.
\<close>

definition fitting :: "nat \<Rightarrow> (bytes \<times> bytes) list \<Rightarrow> bool" where
  "fitting bs kvs \<longleftrightarrow> kvs = [] \<or> length (concat (map entry_bytes kvs)) + 4 * length kvs + 9 \<le> bs"

lemma block_add_fitting:
  assumes "block_holds kvs b" "block_add k v b = (True, b')" "blk_block_size b = bs"
  shows "fitting bs (kvs @ [(k, v)])" and "blk_block_size b' = bs" and "blk_flags b' = blk_flags b"
  using assms current_size_holds [OF assms(1)]
  by (auto simp: block_add_def Let_def fitting_def entry_size_def length_entry_bytes U32_SIZE_def split: if_splits)

lemma fitting_size_ok:
  assumes "fitting bs kvs" "bs < 2 ^ 32" "\<forall>kv\<in>set kvs. entry_fits kv"
  shows "block_size_ok kvs"
    and "length (concat (map entry_bytes kvs)) + 4 * length kvs < 2 ^ 32"
  using assms by (auto simp: fitting_def block_size_ok_def)

text \<open>With a block size that a 16-bit length can express, every accepted entry fits.\<close>

lemma fitting_entry_fits:
  assumes "fitting bs kvs" "bs < 2 ^ 16" "kv \<in> set kvs"
  shows "entry_fits kv"
proof -
  have "length (entry_bytes kv) \<le> length (concat (map entry_bytes kvs))"
    using assms(3) by (induction kvs) auto
  with assms show ?thesis by (auto simp: fitting_def entry_fits_def length_entry_bytes)
qed

subsection \<open>Decoding what was encoded\<close>

lemma read_offsets_at:
  "drop pos data = concat (map u32_to_le os) @ rest \<Longrightarrow> read_offsets data pos (length os) = Ok os"
proof (induction os arbitrary: pos)
  case (Cons w os)
  then have d: "drop pos data = u32_to_le w @ concat (map u32_to_le os) @ rest" by simp
  from drop_step [OF d] have "read_offsets data (pos + U32_SIZE) (length os) = Ok os"
    by (intro Cons.IH) (simp add: U32_SIZE_def)
  then show ?case using u32_at_drop [OF d] by simp
qed simp

lemma length_concat_u32 [simp]: "length (concat (map u32_to_le os)) = 4 * length os"
  by (induction os) auto

text \<open>The fields of an encoded block, at the positions where \<open>decode\<close> looks for them.\<close>

lemma block_body_parts:
  assumes n: "length (blk_offsets b) < 2 ^ 32"
  shows "length (block_body b) = length (blk_data b) + 4 * length (blk_offsets b) + 5"
    and "block_body b ! (length (block_body b) - 1) = blk_flags b"
    and "u32_at (block_body b) (length (block_body b) - 5) = Ok (word_of_nat (length (blk_offsets b)))"
    and "unat (word_of_nat (length (blk_offsets b)) :: u32) = length (blk_offsets b)"
    and "read_offsets (block_body b) (length (blk_data b)) (length (blk_offsets b)) = Ok (blk_offsets b)"
    and "take (length (blk_data b)) (block_body b) = blk_data b"
proof -
  show len: "length (block_body b) = length (blk_data b) + 4 * length (blk_offsets b) + 5"
    by (simp add: block_body_def)
  show "block_body b ! (length (block_body b) - 1) = blk_flags b"
    unfolding len by (simp add: block_body_def nth_append)
  have "drop (length (blk_data b) + 4 * length (blk_offsets b)) (block_body b)
      = u32_to_le (word_of_nat (length (blk_offsets b))) @ [blk_flags b]"
    by (simp add: block_body_def)
  from u32_at_drop [OF this]
  show "u32_at (block_body b) (length (block_body b) - 5) = Ok (word_of_nat (length (blk_offsets b)))"
    unfolding len by simp
  show "unat (word_of_nat (length (blk_offsets b)) :: u32) = length (blk_offsets b)"
    using n by (rule unat_of_nat_small)
  show "read_offsets (block_body b) (length (blk_data b)) (length (blk_offsets b)) = Ok (blk_offsets b)"
    by (rule read_offsets_at) (simp add: block_body_def)
  show "take (length (blk_data b)) (block_body b) = blk_data b"
    by (simp add: block_body_def)
qed

lemma block_decode_encode:
  assumes n: "length (blk_offsets b) < 2 ^ 32"
  shows "block_decode crc32 (block_encode crc32 b) =
    (if is_prefix_compressed b
     then and_then (decompress_block_data (blk_data b) (blk_offsets b)) (\<lambda>(d, os).
            Ok \<lparr>blk_data = d, blk_offsets = os, blk_block_size = BLOCK_SIZE, blk_flags = blk_flags b\<rparr>)
     else Ok (b\<lparr>blk_block_size := BLOCK_SIZE\<rparr>))"
proof -
  note parts = block_body_parts [OF n]
  let ?B = "block_body b"
  define m where "m = length ?B"
  have m: "\<not> m < 5" "m - (5 + length (blk_offsets b) * 4) = length (blk_data b)"
    "\<not> m - 5 < length (blk_offsets b) * 4"
    using parts(1) by (simp_all add: m_def)
  have enc: "length (block_encode crc32 b) = m + 4" "take m (block_encode crc32 b) = ?B"
    by (simp_all add: block_encode_def m_def)
  have crc: "u32_at (block_encode crc32 b) m = Ok (crc32 ?B)"
    using u32_at_drop [of m "block_encode crc32 b" "crc32 ?B" "[]"] by (simp add: block_encode_def m_def)
  show ?thesis
    using parts(2-6) m enc crc unfolding block_decode_def m_def [symmetric]
    by (simp add: U32_SIZE_def FLAGS_SIZE_def Let_def is_prefix_compressed_def m_def [symmetric])
qed

lemma compress_keys_holds:
  assumes "block_holds kvs b" "block_size_ok kvs"
  shows "compress_keys b = (if kvs = [] then Ok b else if sharing_ok [] (map fst kvs) then
    Ok (b\<lparr>blk_data := fst (compressed_block kvs), blk_offsets := snd (compressed_block kvs),
      blk_flags := blk_flags b OR PREFIX_COMPRESSION_FLAG\<rparr>) else Panic)"
  using assms compress_block_data_eq [OF assms(2)]
  by (cases kvs) (auto simp: compress_keys_def block_holds_def raw_block_def case_prod_beta)

lemma flag_not_0 [simp]: "PREFIX_COMPRESSION_FLAG \<noteq> 0"
  by (simp add: PREFIX_COMPRESSION_FLAG_def)

lemma block_decode_plain:
  assumes "block_holds kvs b" "blk_flags b = 0" "length kvs < 2 ^ 32"
  shows "block_decode crc32 (block_encode crc32 b) = Ok (b\<lparr>blk_block_size := BLOCK_SIZE\<rparr>)"
  using assms block_holds_length [OF assms(1)]
  by (simp add: block_decode_encode is_prefix_compressed_def)

lemma block_decode_compressed:
  assumes holds: "block_holds kvs b" and fit: "fitting bs kvs" "bs < 2 ^ 32" "\<forall>kv\<in>set kvs. entry_fits kv"
    and "kvs \<noteq> []" "strict_keys kvs" "fst (hd kvs) \<noteq> []" and sharing: "sharing_ok [] (map fst kvs)"
  shows "\<exists>c. compress_keys b = Ok c \<and> block_decode crc32 (block_encode crc32 c)
    = Ok (b\<lparr>blk_block_size := BLOCK_SIZE, blk_flags := blk_flags b OR PREFIX_COMPRESSION_FLAG\<rparr>)"
proof -
  have size: "block_size_ok kvs" and small: "length (concat (map entry_bytes kvs)) + 4 * length kvs < 2 ^ 32"
    using fitting_size_ok [OF fit] by auto
  have "length (concat (compressed_chunks [] kvs)) < 2 ^ 32"
    using length_compressed_chunks [of "[]" kvs] small by simp
  then have dec: "decompress_block_data (fst (compressed_block kvs)) (snd (compressed_block kvs)) = Ok (raw_block kvs)"
    using strict_keys_nonempty assms by (intro decompress_block_data_eq [OF size sharing]) auto
  have "length (snd (compressed_block kvs)) = length kvs"
    by (simp add: compressed_block_def length_compressed_chunks_eq)
  then show ?thesis
    using compress_keys_holds [OF holds size] sharing dec small assms(5) holds
    by (auto simp: block_decode_encode is_prefix_compressed_def block_holds_def case_prod_beta)
qed


subsection \<open>Properties\<close>

text \<open>\<open>Block::add\<close> either refuses an entry that would take the encoded block over \<open>block_size\<close>
  and leaves the block as it is, or appends exactly that entry; in both cases the block holds
  what it should and an accepted block encodes to at most \<open>block_size\<close> bytes.\<close>

lemma block_add_correct:
  assumes "block_holds kvs b" and "block_add k v b = (accepted, b')"
  shows "if accepted
     then block_holds (kvs @ [(k, v)]) b' \<and> length (block_encode crc32 b') \<le> blk_block_size b'
     else b' = b \<and> blk_block_size b < length (block_encode crc32 b) + length (entry_bytes (k, v)) + 4"
proof (cases accepted)
  case True
  with assms have add: "block_add k v b = (True, b')" by simp
  have holds: "block_holds (kvs @ [(k, v)]) b'" using block_add_holds [OF assms(1) add] .
  moreover have "length (block_encode crc32 b') = current_size b'"
    by (simp add: block_encode_def block_body_def current_size_def metadata_size_def U32_SIZE_def FLAGS_SIZE_def)
  ultimately show ?thesis
    using True block_add_fitting(1,2) [OF assms(1) add refl] current_size_holds [OF holds]
    by (simp add: fitting_def)
next
  case False
  have "length (block_encode crc32 b) = current_size b"
    by (simp add: block_encode_def block_body_def current_size_def metadata_size_def U32_SIZE_def FLAGS_SIZE_def)
  with False assms(2) show ?thesis
    by (auto simp: block_add_def Let_def entry_size_def length_entry_bytes U32_SIZE_def split: if_splits)
qed



text \<open>\<open>decode\<close> never accepts a block whose stored checksum does not match its contents: such
  bytes, and bytes too short to be a block, are reported as corrupted.\<close>

lemma block_decode_detects_corruption:
  assumes "length data < 9 \<or>
    u32_from_le (drop (length data - 4) data) \<noteq> crc32 (take (length data - 4) data)"
  shows "block_decode crc32 data = Err CorruptedData"
proof (cases "length data < 9")
  case False
  then have "u32_at data (length data - 4) = Ok (u32_from_le (drop (length data - 4) data))"
    by (simp add: u32_at_def slice_def)
  with False assms show ?thesis by (simp add: block_decode_def U32_SIZE_def FLAGS_SIZE_def Let_def)
qed (simp add: block_decode_def U32_SIZE_def FLAGS_SIZE_def)

text \<open>C35: the 16-bit length fields silently truncate. A block size above 64 KiB is a valid
  configuration, and then \<open>add\<close> accepts a value of 65536 bytes; its length field is 0, and what is
  read back at that entry is the empty value.\<close>

theorem block_add_truncates_length:
  assumes "length v = 2 ^ 16" and "length k < 2 ^ 16" and "length k + length v + 17 \<le> bs"
  shows "fst (block_add k v (block_new bs)) \<and>
    read_entry (blk_data (snd (block_add k v (block_new bs)))) 0 = Ok (k, [])"
proof -
  have add: "block_add k v (block_new bs)
      = (True, (block_new bs)\<lparr>blk_offsets := [0], blk_data := entry_bytes (k, v)\<rparr>)"
    using assms(3) by (simp add: block_add_def block_new_def current_size_def metadata_size_def entry_size_def
        U32_SIZE_def FLAGS_SIZE_def Let_def entry_bytes_def)
  have "(word_of_nat (length v) :: u16) = 0"
    unfolding assms(1) by (simp flip: unsigned_eq_0_iff [where ?'a = nat] add: unat_of_nat)
  then have "drop 0 (entry_bytes (k, v)) = entry_bytes (k, []) @ v" by (simp add: entry_bytes_def)
  from read_entry_at [OF this] show ?thesis using assms(2) by (simp add: add entry_fits_def)
qed

theorem block_add_truncates_length_witness:
  "read_entry (blk_data (snd (block_add [1] (replicate (2 ^ 16) 0) (block_new (1024 * 1024))))) 0 = Ok ([1], [])"
  using block_add_truncates_length [of "replicate (2 ^ 16) 0" "[1]" "1024 * 1024"] by simp

end
