(* ===== verification/Sstable_Format.thy ===== *)
theory Sstable_Format
  imports Log_Record Block
begin

text \<open>
  What the SSTable code shares: the index structures of \<open>src/storage/builder.rs\<close>, the storage
  settings of \<open>src/infra/config.rs\<close>, positioned file reads, and the third-party crates that the
  storage code calls.

  The crates are the parameter \<open>crates\<close>: \<open>crc32fast\<close>, \<open>lz4_flex\<close>, \<open>postcard\<close> (through
  \<open>src/infra/codec.rs\<close>), \<open>aes-gcm\<close>, \<open>bloomfilter\<close> and \<open>moka\<close>. What the code relies on is stated as
  named hypotheses at the end: they are what the crates document, and no more.

  A floating-point rate is only handed on to the Bloom filter crate; it is its bit pattern here.
\<close>

type_synonym f64 = u64

definition SST_MAGIC_V2 :: bytes where
  "SST_MAGIC_V2 = as_bytes ''LSMSST03''"

definition SST_MAGIC_V2_ENCRYPTED :: bytes where
  "SST_MAGIC_V2_ENCRYPTED = as_bytes ''LSMSST04''"

definition MAX_METADATA_BYTES :: nat where
  "MAX_METADATA_BYTES = 64 * 1024 * 1024"

record block_meta =
  bm_first_key :: bytes
  bm_offset :: u64
  bm_size :: u32
  bm_uncompressed_size :: u32

record meta_block =
  mb_blocks :: "block_meta list"
  mb_bloom_filter_data :: bytes
  mb_min_key :: bytes
  mb_max_key :: bytes
  mb_record_count :: u64
  mb_timestamp :: u128

text \<open>The settings that the SSTable code reads.\<close>

record storage_config =
  sc_block_size :: nat
  sc_bloom_false_positive_rate :: f64
  sc_prefix_compression_enabled :: bool

subsection \<open>Third-party crates\<close>

record ('bl, 'c) crates =
  x_crc32 :: "bytes \<Rightarrow> u32"
  x_compress_prepend_size :: "bytes \<Rightarrow> bytes"
  x_decompress_size_prepended :: "bytes \<Rightarrow> bytes option"
  x_encode_record :: "log_record \<Rightarrow> bytes option"
  x_decode_record :: "bytes \<Rightarrow> log_record option"
  x_encode_meta :: "meta_block \<Rightarrow> bytes option"
  x_decode_meta :: "bytes \<Rightarrow> meta_block option"
  x_aes_encrypt :: "bytes \<Rightarrow> bytes \<Rightarrow> bytes \<Rightarrow> bytes option"
  x_aes_decrypt :: "bytes \<Rightarrow> bytes \<Rightarrow> bytes \<Rightarrow> bytes option"
  x_bloom_new :: "nat \<Rightarrow> f64 \<Rightarrow> 'bl option"
  x_bloom_set :: "bytes \<Rightarrow> 'bl \<Rightarrow> 'bl"
  x_bloom_check :: "'bl \<Rightarrow> bytes \<Rightarrow> bool"
  x_bloom_to_bytes :: "'bl \<Rightarrow> bytes"
  x_bloom_from_bytes :: "bytes \<Rightarrow> 'bl option"
  x_cache_get :: "'c \<Rightarrow> u64 \<times> nat \<Rightarrow> bytes option"
  x_cache_insert :: "u64 \<times> nat \<Rightarrow> bytes \<Rightarrow> 'c \<Rightarrow> 'c"

text \<open>\<open>codec::encode\<close> and \<open>codec::decode\<close> report failures of \<open>postcard\<close> as \<open>Codec\<close> errors.\<close>

definition encode_record :: "('bl, 'c) crates \<Rightarrow> log_record \<Rightarrow> bytes outcome" where
  "encode_record X r = ok_or Codec (x_encode_record X r)"

definition decode_record :: "('bl, 'c) crates \<Rightarrow> bytes \<Rightarrow> log_record outcome" where
  "decode_record X bs = ok_or Codec (x_decode_record X bs)"

definition encode_meta :: "('bl, 'c) crates \<Rightarrow> meta_block \<Rightarrow> bytes outcome" where
  "encode_meta X m = ok_or Codec (x_encode_meta X m)"

definition decode_meta :: "('bl, 'c) crates \<Rightarrow> bytes \<Rightarrow> meta_block outcome" where
  "decode_meta X bs = ok_or Codec (x_decode_meta X bs)"

text \<open>\<open>postcard\<close> reads back what it wrote.\<close>

definition postcard_law :: "('bl, 'c) crates \<Rightarrow> bool" where
  "postcard_law X \<longleftrightarrow>
     (\<forall>r bs. x_encode_record X r = Some bs \<longrightarrow> x_decode_record X bs = Some r) \<and>
     (\<forall>m bs. x_encode_meta X m = Some bs \<longrightarrow> x_decode_meta X bs = Some m)"

text \<open>
  \<open>compress_prepend_size\<close> puts the length in front, as a little-endian \<open>u32\<close>, and
  \<open>decompress_size_prepended\<close> inverts it. The LZ4 block format expands incompressible input by at
  most one byte in 255 and 16 bytes.
\<close>

definition lz4_law :: "('bl, 'c) crates \<Rightarrow> bool" where
  "lz4_law X \<longleftrightarrow>
     (\<forall>bs. length bs < 2 ^ 32 \<longrightarrow>
        x_decompress_size_prepended X (x_compress_prepend_size X bs) = Some bs \<and>
        take 4 (x_compress_prepend_size X bs) = u32_to_le (word_of_nat (length bs)) \<and>
        length (x_compress_prepend_size X bs) \<le> length bs + length bs div 255 + 20)"

text \<open>AES-GCM decrypts with the same key and nonce what it encrypted, and adds a 16-byte tag.\<close>

definition aes_law :: "('bl, 'c) crates \<Rightarrow> bool" where
  "aes_law X \<longleftrightarrow>
     (\<forall>key nonce bs c. x_aes_encrypt X key nonce bs = Some c \<longrightarrow>
        x_aes_decrypt X key nonce c = Some bs \<and> length c = length bs + 16)"

text \<open>
  A Bloom filter has no false negatives, and one read back from its bytes still answers yes
  where it did. It may fail to be read back; the code then does without.
\<close>

definition bloom_law :: "('bl, 'c) crates \<Rightarrow> bool" where
  "bloom_law X \<longleftrightarrow>
     (\<forall>bl k. x_bloom_check X (x_bloom_set X k bl) k) \<and>
     (\<forall>bl k k'. x_bloom_check X bl k \<longrightarrow> x_bloom_check X (x_bloom_set X k' bl) k) \<and>
     (\<forall>bl bl' k. x_bloom_from_bytes X (x_bloom_to_bytes X bl) = Some bl' \<longrightarrow>
        x_bloom_check X bl k \<longrightarrow> x_bloom_check X bl' k)"

text \<open>A cache returns for a key nothing, or what was last inserted for it.\<close>

definition cache_law :: "('bl, 'c) crates \<Rightarrow> bool" where
  "cache_law X \<longleftrightarrow>
     (\<forall>c k v k' w. x_cache_get X (x_cache_insert X k v c) k' = Some w \<longrightarrow>
        (if k' = k then w = v else x_cache_get X c k' = Some w))"

subsection \<open>Positioned file reads\<close>

text \<open>\<open>seek(SeekFrom::Start(pos))\<close> followed by \<open>read_exact\<close> of \<open>n\<close> bytes.\<close>

definition file_read_exact :: "bytes \<Rightarrow> nat \<Rightarrow> nat \<Rightarrow> bytes outcome" where
  "file_read_exact file pos n =
     (if n = 0 then Ok []
      else if pos + n \<le> length file then Ok (take n (drop pos file))
      else Err (Io UnexpectedEof))"

lemma file_read_exact_in: "pos + n \<le> length file \<Longrightarrow> file_read_exact file pos n = Ok (take n (drop pos file))"
  by (simp add: file_read_exact_def)

lemma length_magic [simp]: "length SST_MAGIC_V2 = 8" "length SST_MAGIC_V2_ENCRYPTED = 8"
  by (simp_all add: SST_MAGIC_V2_def SST_MAGIC_V2_ENCRYPTED_def)

lemma magic_neq [simp]: "SST_MAGIC_V2 \<noteq> SST_MAGIC_V2_ENCRYPTED" "SST_MAGIC_V2_ENCRYPTED \<noteq> SST_MAGIC_V2"
  by (simp_all add: SST_MAGIC_V2_def SST_MAGIC_V2_ENCRYPTED_def as_bytes_def)

end
