(* ===== verification/Encryption.thy ===== *)
theory Encryption
  imports Sstable_Format
begin

text \<open>
  \<open>src/storage/encryption.rs\<close>: encryption at rest. A call of the system's random source is an
  argument: the nonce it yields, or nothing when it fails.
\<close>

record encryption_config =
  ec_key :: bytes
  ec_enabled :: bool

definition encryption_default :: encryption_config where
  "encryption_default = \<lparr>ec_key = replicate 32 0, ec_enabled = False\<rparr>"

text \<open>
  \<open>from_key_path\<close> on the text of the key file (\<open>contents\<close>, trimmed; \<open>None\<close> if it cannot be read);
  \<open>hex_decode\<close> is the crate \<open>hex\<close>.
\<close>

definition from_key_path ::
  "(bytes \<Rightarrow> bytes option) \<Rightarrow> bytes option option \<Rightarrow> encryption_config outcome" where
  "from_key_path hex_decode path =
     (case path of
        None \<Rightarrow> Ok encryption_default
      | Some None \<Rightarrow> Err InvalidArgument
      | Some (Some contents) \<Rightarrow>
          (case hex_decode contents of
             None \<Rightarrow> Err InvalidArgument
           | Some key \<Rightarrow>
               if length key \<noteq> 32 then Err InvalidArgument
               else if key = replicate 32 0 then Err LegacyEncryptionMigrationRequired
               else Ok \<lparr>ec_key = key, ec_enabled = True\<rparr>))"

record encryptor =
  en_cipher :: "bytes option"
  en_enabled :: bool

definition encryptor_new :: "encryption_config \<Rightarrow> encryptor" where
  "encryptor_new config =
     \<lparr>en_cipher = (if ec_enabled config then Some (ec_key config) else None),
      en_enabled = ec_enabled config\<rparr>"

definition encryptor_disabled :: encryptor where
  "encryptor_disabled = \<lparr>en_cipher = None, en_enabled = False\<rparr>"

definition encrypt_block :: "('bl, 'c) crates \<Rightarrow> encryptor \<Rightarrow> bytes option \<Rightarrow> bytes \<Rightarrow> bytes outcome" where
  "encrypt_block X e rng plaintext =
     (if \<not> en_enabled e then Ok plaintext
      else and_then (ok_or CompactionFailed (en_cipher e)) (\<lambda>key.
        and_then (ok_or CompactionFailed rng) (\<lambda>nonce.
          and_then (ok_or CompactionFailed (x_aes_encrypt X key nonce plaintext)) (\<lambda>ciphertext.
            Ok (nonce @ ciphertext)))))"

definition decrypt_block :: "('bl, 'c) crates \<Rightarrow> encryptor \<Rightarrow> bytes \<Rightarrow> bytes outcome" where
  "decrypt_block X e data =
     (if \<not> en_enabled e then Ok data
      else and_then (ok_or CompactionFailed (en_cipher e)) (\<lambda>key.
        if length data < 12 then Err CorruptedData
        else ok_or EncryptionAuthenticationFailed (x_aes_decrypt X key (take 12 data) (drop 12 data))))"

definition decrypt_for_recovery :: "('bl, 'c) crates \<Rightarrow> encryptor \<Rightarrow> bytes \<Rightarrow> bytes outcome" where
  "decrypt_for_recovery X e data =
     (case (if en_enabled e then decrypt_block X e data else Err EncryptionKeyRequired) of
        Ok plaintext \<Rightarrow> Ok plaintext
      | Err error \<Rightarrow>
          (case decrypt_block X (encryptor_new \<lparr>ec_key = replicate 32 0, ec_enabled = True\<rparr>) data of
             Ok _ \<Rightarrow> Err LegacyEncryptionMigrationRequired
           | _ \<Rightarrow> Err error)
      | Panic \<Rightarrow> Panic)"

subsection \<open>Facts\<close>

lemma decrypt_encrypt_block:
  assumes "aes_law X" "encrypt_block X e rng bs = Ok c" "\<forall>n. rng = Some n \<longrightarrow> length n = 12"
  shows "decrypt_block X e c = Ok bs"
  using assms
  by (auto simp: encrypt_block_def decrypt_block_def aes_law_def split: if_splits)

lemma encrypt_block_length:
  assumes "aes_law X" "encrypt_block X e rng bs = Ok c" "\<forall>n. rng = Some n \<longrightarrow> length n = 12"
  shows "length c \<le> length bs + 28"
  using assms by (auto simp: encrypt_block_def aes_law_def split: if_splits)

lemma decrypt_for_recovery_enabled:
  "en_enabled e \<Longrightarrow> decrypt_block X e data = Ok p \<Longrightarrow> decrypt_for_recovery X e data = Ok p"
  by (simp add: decrypt_for_recovery_def)

subsection \<open>Properties\<close>

text \<open>What an encryptor encrypts with a 12-byte nonce it also decrypts to the same bytes, by the
  plain and, when it is enabled, by the recovery routine.\<close>

lemma encryption_roundtrip:
  assumes "aes_law X" and "encrypt_block X e rng bs = Ok c" and "\<forall>n. rng = Some n \<longrightarrow> length n = 12"
  shows "decrypt_block X e c = Ok bs \<and> (en_enabled e \<longrightarrow> decrypt_for_recovery X e c = Ok bs)"
  using decrypt_encrypt_block [OF assms] decrypt_for_recovery_enabled by blast

definition plain_encode :: "log_record \<Rightarrow> bytes option" where
  "plain_encode r =
     (let k = lr_key r; v = lr_value r
      in if length k \<noteq> 1 then None
         else if r = log_record_new 0 k v \<and> hd k < 254 then Some (k @ v)
         else if r = (log_record_new 0 k v)\<lparr>lr_column_family := Some ''default''\<rparr> then Some (255 # k @ v)
         else if r = (tombstone 0 k)\<lparr>lr_column_family := Some ''default''\<rparr> then Some (254 # k)
         else None)"

definition plain_decode :: "bytes \<Rightarrow> log_record option" where
  "plain_decode bs =
     Some (if take 1 bs = [255] then (log_record_new 0 (take 1 (drop 1 bs)) (drop 2 bs))\<lparr>lr_column_family := Some ''default''\<rparr>
           else if take 1 bs = [254] then (tombstone 0 (drop 1 bs))\<lparr>lr_column_family := Some ''default''\<rparr>
           else log_record_new 0 (take 1 bs) (drop 1 bs))"

lemma plain_codec: "plain_encode r = Some bs \<Longrightarrow> plain_decode bs = Some r"
  by (cases "lr_key r") (auto simp: plain_encode_def plain_decode_def Let_def split: if_splits)

definition plain_crates :: "(unit, unit) crates" where
  "plain_crates =
     \<lparr>x_crc32 = (\<lambda>bs. word_of_nat (length bs)),
      x_compress_prepend_size = (\<lambda>bs. u32_to_le (word_of_nat (length bs)) @ bs),
      x_decompress_size_prepended = (\<lambda>bs. Some (drop 4 bs)),
      x_encode_record = plain_encode,
      x_decode_record = plain_decode,
      x_encode_meta = (\<lambda>m. None),
      x_decode_meta = (\<lambda>bs. None),
      x_aes_encrypt = (\<lambda>key nonce bs. Some (replicate 16 0 @ bs)),
      x_aes_decrypt = (\<lambda>key nonce bs. Some (drop 16 bs)),
      x_bloom_new = (\<lambda>n rate. Some ()),
      x_bloom_set = (\<lambda>k bl. ()),
      x_bloom_check = (\<lambda>bl k. True),
      x_bloom_to_bytes = (\<lambda>bl. []),
      x_bloom_from_bytes = (\<lambda>bs. Some ()),
      x_cache_get = (\<lambda>c k. None),
      x_cache_insert = (\<lambda>k v c. ())\<rparr>"

lemma plain_crates_laws:
  "postcard_law plain_crates" "lz4_law plain_crates" "aes_law plain_crates" "bloom_law plain_crates"
  "cache_law plain_crates"
  by (auto simp: plain_crates_def postcard_law_def plain_codec lz4_law_def aes_law_def bloom_law_def cache_law_def
      split: if_splits)

text \<open>Reading encrypted data never succeeds by accident with a legacy configuration: with
  encryption disabled, \<open>decrypt_for_recovery\<close> returns an error, which names the needed migration
  exactly when the all-zero key would decrypt the data.\<close>

lemma recovery_needs_key:
  "decrypt_for_recovery X encryptor_disabled data =
     Err (case decrypt_block X (encryptor_new \<lparr>ec_key = replicate 32 0, ec_enabled = True\<rparr>) data of
            Ok _ \<Rightarrow> LegacyEncryptionMigrationRequired | _ \<Rightarrow> EncryptionKeyRequired)"
  by (simp add: decrypt_for_recovery_def encryptor_disabled_def split: outcome.splits)

end
