(* ===== verification/Sstable_Builder.thy ===== *)
theory Sstable_Builder
  imports Encryption
begin

text \<open>
  \<open>src/storage/builder.rs\<close>: writing an SSTable. The file is the list of bytes written so far;
  \<open>finish\<close> returns the whole file (the source returns its path). The random source answers the
  \<open>n\<close>-th request with \<open>rng n\<close>; the builder counts its requests. A failed call returns the error and
  its builder is dropped, as every caller does.

  What is shown: the file consists of the magic, one sealed chunk per block and the metadata; the
  blocks partition the entries in order; each chunk decodes to its entries.
\<close>

record sst_builder =
  sb_writer :: bytes
  sb_current_block :: block
  sb_block_metas :: "block_meta list"
  sb_keys_for_bloom :: "bytes list"
  sb_config :: storage_config
  sb_current_offset :: u64
  sb_first_key :: "bytes option"
  sb_last_key :: "bytes option"
  sb_record_count :: u64
  sb_timestamp :: u128
  sb_encryptor :: encryptor
  sb_prefix_compression :: bool
  sb_prev_key :: "bytes option"
  sb_rng :: nat

definition sb_new :: "storage_config \<Rightarrow> u128 \<Rightarrow> encryption_config \<Rightarrow> sst_builder" where
  "sb_new config timestamp encryption =
     (let encryptor = encryptor_new encryption
      in \<lparr>sb_writer = (if en_enabled encryptor then SST_MAGIC_V2_ENCRYPTED else SST_MAGIC_V2),
          sb_current_block = block_new (sc_block_size config),
          sb_block_metas = [],
          sb_keys_for_bloom = [],
          sb_config = config,
          sb_current_offset = word_of_nat (length SST_MAGIC_V2),
          sb_first_key = None,
          sb_last_key = None,
          sb_record_count = 0,
          sb_timestamp = timestamp,
          sb_encryptor = encryptor,
          sb_prefix_compression = sc_prefix_compression_enabled config,
          sb_prev_key = None,
          sb_rng = 0\<rparr>)"

definition extract_first_key_from_block :: "('bl, 'c) crates \<Rightarrow> sst_builder \<Rightarrow> bytes outcome" where
  "extract_first_key_from_block X b =
     (let encoded = block_encode (x_crc32 X) (sb_current_block b)
      in if length encoded < 2 then Err CompactionFailed
         else and_then (u16_at encoded 0) (\<lambda>kl.
           if length encoded < 2 + unat kl then Err CompactionFailed
           else slice encoded 2 (2 + unat kl)))"

text \<open>\<open>encrypt_block\<close> with the builder's random source, if encryption is enabled.\<close>

definition seal :: "('bl, 'c) crates \<Rightarrow> (nat \<Rightarrow> bytes option) \<Rightarrow> sst_builder \<Rightarrow> bytes \<Rightarrow> (bytes \<times> sst_builder) outcome" where
  "seal X rng b compressed =
     (if en_enabled (sb_encryptor b)
      then and_then (encrypt_block X (sb_encryptor b) (rng (sb_rng b)) compressed) (\<lambda>c.
             Ok (c, b\<lparr>sb_rng := sb_rng b + 1\<rparr>))
      else Ok (compressed, b))"

definition flush_current_block ::
  "('bl, 'c) crates \<Rightarrow> (nat \<Rightarrow> bytes option) \<Rightarrow> sst_builder \<Rightarrow> sst_builder outcome" where
  "flush_current_block X rng b =
     (if blk_offsets (sb_current_block b) = [] then Ok b
      else and_then (extract_first_key_from_block X b) (\<lambda>first_key.
        and_then (if sb_prefix_compression b then compress_keys (sb_current_block b)
                  else Ok (sb_current_block b)) (\<lambda>block.
        let encoded = block_encode (x_crc32 X) block;
            compressed = x_compress_prepend_size X encoded
        in and_then (seal X rng b compressed) (\<lambda>(to_write, b1).
           Ok (b1\<lparr>sb_writer := sb_writer b1 @ to_write @ u32_to_le (x_crc32 X to_write),
                  sb_block_metas := sb_block_metas b1 @
                    [\<lparr>bm_first_key = first_key, bm_offset = sb_current_offset b1,
                      bm_size = word_of_nat (length to_write) + 4,
                      bm_uncompressed_size = word_of_nat (length encoded)\<rparr>],
                  sb_current_offset := sb_current_offset b1 + (word_of_nat (length to_write) + 4),
                  sb_current_block := block_new (sc_block_size (sb_config b1))\<rparr>)))))"

text \<open>Putting an encoded entry into the current block, or into a fresh one after a flush.\<close>

definition sb_place ::
  "('bl, 'c) crates \<Rightarrow> (nat \<Rightarrow> bytes option) \<Rightarrow> bytes \<Rightarrow> bytes \<Rightarrow> sst_builder \<Rightarrow> sst_builder outcome" where
  "sb_place X rng key value_bytes b =
     (case block_add key value_bytes (sb_current_block b) of
        (True, blk) \<Rightarrow> Ok (b\<lparr>sb_current_block := blk\<rparr>)
      | (False, _) \<Rightarrow>
          and_then (flush_current_block X rng b) (\<lambda>b2.
            case block_add key value_bytes (sb_current_block b2) of
              (True, blk) \<Rightarrow> Ok (b2\<lparr>sb_current_block := blk\<rparr>)
            | (False, _) \<Rightarrow> Err CompactionFailed))"

definition sb_add ::
  "('bl, 'c) crates \<Rightarrow> (nat \<Rightarrow> bytes option) \<Rightarrow> bytes \<Rightarrow> log_record \<Rightarrow> sst_builder \<Rightarrow> sst_builder outcome" where
  "sb_add X rng key r b =
     (if (case sb_prev_key b of Some prev \<Rightarrow> key \<le> prev | None \<Rightarrow> False) then Err InvalidSstableFormat
      else
        (let b1 = b\<lparr>sb_prev_key := Some key,
                    sb_first_key := (if sb_first_key b = None then Some key else sb_first_key b),
                    sb_last_key := Some key\<rparr>
         in and_then (encode_record X r) (\<lambda>value_bytes.
            and_then (sb_place X rng key value_bytes b1) (\<lambda>b3.
            Ok (b3\<lparr>sb_keys_for_bloom := sb_keys_for_bloom b3 @ [key],
                   sb_record_count := sb_record_count b3 + 1\<rparr>)))))"

definition build_bloom_filter :: "('bl, 'c) crates \<Rightarrow> sst_builder \<Rightarrow> 'bl outcome" where
  "build_bloom_filter X b =
     and_then (ok_or CompactionFailed
                (x_bloom_new X (length (sb_keys_for_bloom b)) (sc_bloom_false_positive_rate (sb_config b))))
       (\<lambda>bloom. Ok (fold (x_bloom_set X) (sb_keys_for_bloom b) bloom))"

definition sb_finish :: "('bl, 'c) crates \<Rightarrow> (nat \<Rightarrow> bytes option) \<Rightarrow> sst_builder \<Rightarrow> bytes outcome" where
  "sb_finish X rng b0 =
     and_then (flush_current_block X rng b0) (\<lambda>b.
     if sb_block_metas b = [] then Err CompactionFailed
     else and_then (build_bloom_filter X b) (\<lambda>bloom.
       and_then (ok_or InvalidSstableFormat (sb_first_key b)) (\<lambda>min_key.
       and_then (ok_or InvalidSstableFormat (sb_last_key b)) (\<lambda>max_key.
       and_then (encode_meta X
          \<lparr>mb_blocks = sb_block_metas b, mb_bloom_filter_data = x_bloom_to_bytes X bloom,
           mb_min_key = min_key, mb_max_key = max_key, mb_record_count = sb_record_count b,
           mb_timestamp = sb_timestamp b\<rparr>) (\<lambda>meta_encoded.
       if MAX_METADATA_BYTES < length meta_encoded then Err InvalidArgument
       else and_then (seal X rng b (x_compress_prepend_size X meta_encoded)) (\<lambda>(meta_to_write, b1).
         Ok (sb_writer b1 @ meta_to_write @ u64_to_le (sb_current_offset b1))))))))"

text \<open>The loop of the callers: every entry in turn, stopping at the first error.\<close>

fun sb_add_all ::
  "('bl, 'c) crates \<Rightarrow> (nat \<Rightarrow> bytes option) \<Rightarrow> (bytes \<times> log_record) list \<Rightarrow> sst_builder \<Rightarrow> sst_builder outcome" where
  "sb_add_all X rng [] b = Ok b"
| "sb_add_all X rng ((k, r) # kvs) b = and_then (sb_add X rng k r b) (sb_add_all X rng kvs)"

definition sst_build ::
  "('bl, 'c) crates \<Rightarrow> (nat \<Rightarrow> bytes option) \<Rightarrow> storage_config \<Rightarrow> u128 \<Rightarrow> encryption_config
   \<Rightarrow> (bytes \<times> log_record) list \<Rightarrow> bytes outcome" where
  "sst_build X rng config timestamp encryption kvs =
     and_then (sb_add_all X rng kvs (sb_new config timestamp encryption)) (sb_finish X rng)"


subsection \<open>Segments of the file\<close>

definition rng_law :: "(nat \<Rightarrow> bytes option) \<Rightarrow> bool" where
  "rng_law rng \<longleftrightarrow> (\<forall>i n. rng i = Some n \<longrightarrow> length n = 12)"

text \<open>Stored entries that decode to the given records.\<close>

definition records_match :: "('bl, 'c) crates \<Rightarrow> (bytes \<times> log_record) list \<Rightarrow> (bytes \<times> bytes) list \<Rightarrow> bool" where
  "records_match X ents evs \<longleftrightarrow>
     list_all2 (\<lambda>(k, r) (k', v). k' = k \<and> x_decode_record X v = Some r \<and> entry_fits (k', v)) ents evs"

text \<open>A chunk of the file from which the entries of one block can be read back.\<close>

definition sealed_chunk ::
  "('bl, 'c) crates \<Rightarrow> encryptor \<Rightarrow> (bytes \<times> log_record) list \<Rightarrow> block_meta \<Rightarrow> bytes \<Rightarrow> bool" where
  "sealed_chunk X e ents m chunk \<longleftrightarrow>
     ents \<noteq> [] \<and> bm_first_key m = fst (hd ents) \<and> unat (bm_size m) = length chunk \<and>
     (\<exists>w cb data d evs. chunk = w @ u32_to_le (x_crc32 X w) \<and> decrypt_block X e w = Ok cb
        \<and> x_decompress_size_prepended X cb = Some data \<and> length data = unat (bm_uncompressed_size m)
        \<and> block_decode (x_crc32 X) data = Ok d \<and> block_holds evs d \<and> block_size_ok evs
        \<and> records_match X ents evs)"

type_synonym segment = "(bytes \<times> log_record) list \<times> block_meta \<times> bytes"

primrec laid_out :: "nat \<Rightarrow> segment list \<Rightarrow> bool" where
  "laid_out off [] \<longleftrightarrow> True"
| "laid_out off (s # ss) \<longleftrightarrow>
     unat (bm_offset (fst (snd s))) = off \<and> laid_out (off + length (snd (snd s))) ss"

abbreviation seg_ents :: "segment list \<Rightarrow> (bytes \<times> log_record) list" where
  "seg_ents segs \<equiv> concat (map fst segs)"

abbreviation seg_bytes :: "segment list \<Rightarrow> bytes" where
  "seg_bytes segs \<equiv> concat (map (\<lambda>s. snd (snd s)) segs)"

lemma laid_out_append:
  "laid_out off (ss @ ts) \<longleftrightarrow> laid_out off ss \<and> laid_out (off + length (seg_bytes ss)) ts"
  by (induction ss arbitrary: off) (auto simp: add.assoc)

lemma records_match_keys: "records_match X ents evs \<Longrightarrow> map fst evs = map fst ents"
  unfolding records_match_def by (induction rule: list_all2_induct) auto

lemma records_match_fits: "records_match X ents evs \<Longrightarrow> \<forall>kv\<in>set evs. entry_fits kv"
  unfolding records_match_def by (induction rule: list_all2_induct) auto

lemma records_match_snoc:
  "records_match X ents evs \<Longrightarrow> x_decode_record X v = Some r \<Longrightarrow> entry_fits (k, v)
   \<Longrightarrow> records_match X (ents @ [(k, r)]) (evs @ [(k, v)])"
  by (simp add: records_match_def list_all2_appendI)

lemma records_match_Nil [simp]: "records_match X [] evs \<longleftrightarrow> evs = []" "records_match X ents [] \<longleftrightarrow> ents = []"
  by (simp_all add: records_match_def)

lemma seal_spec:
  assumes "aes_law X" "rng_law rng" "seal X rng b cb = Ok (w, b1)"
  shows "decrypt_block X (sb_encryptor b) w = Ok cb \<and> (\<exists>n. b1 = b\<lparr>sb_rng := n\<rparr>) \<and> length w \<le> length cb + 28"
proof (cases "en_enabled (sb_encryptor b)")
  case True
  with assms(3) have enc: "encrypt_block X (sb_encryptor b) (rng (sb_rng b)) cb = Ok w"
    and b1: "b1 = b\<lparr>sb_rng := sb_rng b + 1\<rparr>" by (auto simp: seal_def)
  have nonce: "\<forall>n. rng (sb_rng b) = Some n \<longrightarrow> length n = 12" using assms(2) by (simp add: rng_law_def)
  show ?thesis
    using decrypt_encrypt_block [OF assms(1) enc nonce] encrypt_block_length [OF assms(1) enc nonce] b1 by blast
next
  case False
  with assms(3) have "w = cb" "b1 = b\<lparr>sb_rng := sb_rng b\<rparr>" by (simp_all add: seal_def)
  with False show ?thesis by (auto simp: decrypt_block_def intro!: exI [of _ "sb_rng b"])
qed

text \<open>The encoded form of a filled block, compressed or not, decodes to its entries.\<close>

lemma block_sealing:
  assumes holds: "block_holds evs blk" "blk_flags blk = 0" and fit: "fitting bs evs" "bs \<le> 2 ^ 20"
    and fits: "\<forall>kv\<in>set evs. entry_fits kv" and ne: "evs \<noteq> []"
    and prefix: "compress \<Longrightarrow> strict_keys evs \<and> fst (hd evs) \<noteq> []"
    and c: "(if compress then compress_keys blk else Ok blk) = Ok c"
  shows "(\<exists>d. block_decode crc32 (block_encode crc32 c) = Ok d \<and> block_holds evs d)
    \<and> length (block_encode crc32 c) < 2 ^ 32"
proof -
  have small: "block_size_ok evs" "length (concat (map entry_bytes evs)) + 4 * length evs \<le> 2 ^ 20"
    using fit fits by (auto simp: fitting_def block_size_ok_def)
  show ?thesis
  proof (cases compress)
    case False
    then have "c = blk" using c by simp
    moreover have "length (block_encode crc32 blk) < 2 ^ 32"
      using small holds(1) by (simp add: block_encode_def block_body_def block_holds_def raw_block_def)
    ultimately show ?thesis
      using block_decode_plain [OF holds] small holds(1) by (auto simp: block_holds_def)
  next
    case True
    with c have "compress_keys blk = Ok c" by simp
    with compress_keys_holds [OF holds(1) small(1)] ne have sharing: "sharing_ok [] (map fst evs)"
      and ceq: "c = blk\<lparr>blk_data := fst (compressed_block evs), blk_offsets := snd (compressed_block evs),
        blk_flags := blk_flags blk OR PREFIX_COMPRESSION_FLAG\<rparr>" by (auto split: if_splits)
    have "\<exists>d. block_decode crc32 (block_encode crc32 c) = Ok d \<and> block_holds evs d"
      using block_decode_compressed [OF holds(1) fit(1) _ fits ne _ _ sharing] fit(2) prefix [OF True]
        \<open>compress_keys blk = Ok c\<close> holds(1) by (force simp: block_holds_def)
    moreover have "length (block_encode crc32 c) < 2 ^ 32"
      using length_compressed_chunks [of "[]" evs] small(2)
      by (simp add: ceq block_encode_def block_body_def compressed_block_def length_compressed_chunks_eq)
    ultimately show ?thesis by blast
  qed
qed

lemma extract_first_key_eq:
  assumes "block_holds ((k, v) # evs) (sb_current_block b)" "entry_fits (k, v)"
  shows "extract_first_key_from_block X b = Ok k"
proof -
  let ?e = "block_encode (x_crc32 X) (sb_current_block b)"
  have "\<exists>rest. drop 0 ?e = entry_bytes (k, v) @ rest"
    using assms(1) by (simp add: block_encode_def block_body_def block_holds_def raw_block_def)
  then obtain rest where d: "drop 0 ?e = entry_bytes (k, v) @ rest" ..
  from entry_at [OF d assms(2)] show ?thesis by (simp add: extract_first_key_from_block_def Let_def numeral_2_eq_2)
qed


subsection \<open>The builder invariant\<close>

text \<open>
  \<open>kvs\<close> is everything added so far, \<open>cur\<close> the part of it that is still in the current block. The
  file is the magic and the chunks of the finished blocks.
\<close>

definition body_inv ::
  "('bl, 'c) crates \<Rightarrow> encryption_config \<Rightarrow> (bytes \<times> log_record) list \<Rightarrow> (bytes \<times> log_record) list
   \<Rightarrow> segment list \<Rightarrow> sst_builder \<Rightarrow> bool" where
  "body_inv X enc kvs cur segs b \<longleftrightarrow>
     kvs = seg_ents segs @ cur \<and>
     sb_writer b = (if ec_enabled enc then SST_MAGIC_V2_ENCRYPTED else SST_MAGIC_V2) @ seg_bytes segs \<and>
     sb_block_metas b = map (\<lambda>s. fst (snd s)) segs \<and> laid_out 8 segs \<and>
     (\<forall>(ents, m, c)\<in>set segs. sealed_chunk X (encryptor_new enc) ents m c) \<and>
     unat (sb_current_offset b) = length (sb_writer b) \<and> sb_encryptor b = encryptor_new enc \<and>
     (\<exists>evs. block_holds evs (sb_current_block b) \<and> records_match X cur evs \<and>
        fitting (sc_block_size (sb_config b)) evs) \<and>
     blk_flags (sb_current_block b) = 0 \<and> blk_block_size (sb_current_block b) = sc_block_size (sb_config b)"

definition keys_inv :: "(bytes \<times> log_record) list \<Rightarrow> sst_builder \<Rightarrow> bool" where
  "keys_inv kvs b \<longleftrightarrow>
     strict_keys kvs \<and> sb_keys_for_bloom b = map fst kvs \<and> sb_record_count b = word_of_nat (length kvs) \<and>
     sb_first_key b = (if kvs = [] then None else Some (fst (hd kvs))) \<and>
     sb_last_key b = (if kvs = [] then None else Some (fst (last kvs))) \<and> sb_prev_key b = sb_last_key b"

text \<open>What the theorems ask of the crates, of the settings and of the entries.\<close>

definition crate_laws :: "('bl, 'c) crates \<Rightarrow> (nat \<Rightarrow> bytes option) \<Rightarrow> bool" where
  "crate_laws X rng \<longleftrightarrow> postcard_law X \<and> lz4_law X \<and> aes_law X \<and> bloom_law X \<and> cache_law X \<and> rng_law rng"

definition valid_config :: "storage_config \<Rightarrow> bool" where
  "valid_config cfg \<longleftrightarrow> sc_block_size cfg \<le> 1024 * 1024"

definition valid_entry :: "('bl, 'c) crates \<Rightarrow> storage_config \<Rightarrow> bytes \<times> log_record \<Rightarrow> bool" where
  "valid_entry X cfg e \<longleftrightarrow>
     length (fst e) < 2 ^ 16 \<and> (\<forall>v. x_encode_record X (snd e) = Some v \<longrightarrow> length v < 2 ^ 16) \<and>
     (sc_prefix_compression_enabled cfg \<longrightarrow> fst e \<noteq> [])"

definition builder_wf :: "storage_config \<Rightarrow> sst_builder \<Rightarrow> bool" where
  "builder_wf cfg b \<longleftrightarrow> sb_config b = cfg \<and> sb_prefix_compression b = sc_prefix_compression_enabled cfg"

lemma unat_add_small: "unat (a :: u64) = x \<Longrightarrow> unat b = y \<Longrightarrow> x + y < 2 ^ 64 \<Longrightarrow> unat (a + b) = x + y"
  by (simp add: unat_word_ariths)

lemma word_of_nat_plus_4:
  "n + 4 < 2 ^ 32 \<Longrightarrow> unat (word_of_nat n + 4 :: u32) = n + 4"
  "n + 4 < 2 ^ 32 \<Longrightarrow> unat (word_of_nat n + 4 :: u64) = n + 4"
  by (simp_all add: unat_word_ariths unat_of_nat)

lemma flush_keys:
  assumes "flush_current_block X rng b = Ok b'" "aes_law X" "rng_law rng"
  shows "sb_config b' = sb_config b" "sb_prefix_compression b' = sb_prefix_compression b"
    "sb_keys_for_bloom b' = sb_keys_for_bloom b" "sb_record_count b' = sb_record_count b"
    "sb_first_key b' = sb_first_key b" "sb_last_key b' = sb_last_key b" "sb_prev_key b' = sb_prev_key b"
    "sb_timestamp b' = sb_timestamp b" "length (sb_writer b) \<le> length (sb_writer b')"
  using assms
  by (auto simp: flush_current_block_def Let_def dest!: seal_spec [OF assms(2,3)] split: if_splits)


text \<open>A flush of a non-empty block, unfolded.\<close>

definition flushed :: "('bl, 'c) crates \<Rightarrow> bytes \<Rightarrow> block \<Rightarrow> bytes \<Rightarrow> nat \<Rightarrow> sst_builder \<Rightarrow> sst_builder" where
  "flushed X k c w n b =
     b\<lparr>sb_rng := n, sb_writer := sb_writer b @ w @ u32_to_le (x_crc32 X w),
       sb_block_metas := sb_block_metas b @ [\<lparr>bm_first_key = k, bm_offset = sb_current_offset b,
         bm_size = word_of_nat (length w) + 4,
         bm_uncompressed_size = word_of_nat (length (block_encode (x_crc32 X) c))\<rparr>],
       sb_current_offset := sb_current_offset b + (word_of_nat (length w) + 4),
       sb_current_block := block_new (sc_block_size (sb_config b))\<rparr>"

lemma flush_unfold:
  assumes "flush_current_block X rng b = Ok b'" "blk_offsets (sb_current_block b) \<noteq> []"
    "extract_first_key_from_block X b = Ok k" "aes_law X" "rng_law rng"
  obtains c w n where
    "(if sb_prefix_compression b then compress_keys (sb_current_block b) else Ok (sb_current_block b)) = Ok c"
    "decrypt_block X (sb_encryptor b) w = Ok (x_compress_prepend_size X (block_encode (x_crc32 X) c))"
    "b' = flushed X k c w n b"
  using assms
  by (auto simp: flush_current_block_def Let_def flushed_def dest!: seal_spec [OF assms(4,5)] split: if_splits)

lemma sealed_chunkI:
  assumes "records_match X cur evs" "evs \<noteq> []" "lz4_law X" "block_size_ok evs"
    and "decrypt_block X e w = Ok (x_compress_prepend_size X (block_encode (x_crc32 X) c))"
    and "block_decode (x_crc32 X) (block_encode (x_crc32 X) c) = Ok d" "block_holds evs d"
    and "length (block_encode (x_crc32 X) c) < 2 ^ 32" "length w + 4 < 2 ^ 32"
  shows "sealed_chunk X e cur \<lparr>bm_first_key = fst (hd evs), bm_offset = off, bm_size = word_of_nat (length w) + 4,
      bm_uncompressed_size = word_of_nat (length (block_encode (x_crc32 X) c))\<rparr> (w @ u32_to_le (x_crc32 X w))"
proof -
  have "cur \<noteq> []" "fst (hd evs) = fst (hd cur)"
    using assms(1,2) records_match_keys [OF assms(1)] by (cases cur; cases evs; simp)+
  moreover have "x_decompress_size_prepended X (x_compress_prepend_size X (block_encode (x_crc32 X) c))
      = Some (block_encode (x_crc32 X) c)"
    using assms(3,8) by (simp add: lz4_law_def)
  ultimately show ?thesis
    using assms unfolding sealed_chunk_def by (auto simp: word_of_nat_plus_4 unat_of_nat_small)
qed

lemma flush_inv:
  assumes inv: "body_inv X enc kvs cur segs b" and flush: "flush_current_block X rng b = Ok b'"
    and laws: "crate_laws X rng" and cfg: "valid_config cfg" "builder_wf cfg b"
    and entries: "\<forall>e\<in>set kvs. valid_entry X cfg e" "strict_keys kvs" and small: "length (sb_writer b') < 2 ^ 32"
  shows "\<exists>segs'. body_inv X enc kvs [] segs' b'"
proof -
  obtain evs where evs: "block_holds evs (sb_current_block b)" "records_match X cur evs"
    "fitting (sc_block_size cfg) evs"
    using inv cfg(2) by (auto simp: body_inv_def builder_wf_def)
  show ?thesis
  proof (cases evs)
    case Nil
    then have "blk_offsets (sb_current_block b) = []" "cur = []"
      using evs by (simp_all add: block_holds_def raw_block_def)
    then show ?thesis using flush inv by (auto simp: flush_current_block_def)
  next
    case (Cons kv evs')
    obtain k v where kv: "kv = (k, v)" by (cases kv)
    have off: "blk_offsets (sb_current_block b) \<noteq> []" and ne: "evs \<noteq> []"
      using evs(1) Cons by (simp_all add: block_holds_def raw_block_def)
    have fits: "\<forall>kv\<in>set evs. entry_fits kv" and keys: "map fst evs = map fst cur"
      using records_match_fits [OF evs(2)] records_match_keys [OF evs(2)] by auto
    have fk: "extract_first_key_from_block X b = Ok (fst (hd evs))"
      using extract_first_key_eq [of k v evs' b X] evs(1) fits Cons kv by simp
    obtain c w n where c: "(if sb_prefix_compression b then compress_keys (sb_current_block b)
          else Ok (sb_current_block b)) = Ok c"
      and dec: "decrypt_block X (sb_encryptor b) w = Ok (x_compress_prepend_size X (block_encode (x_crc32 X) c))"
      and b': "b' = flushed X (fst (hd evs)) c w n b"
      using flush_unfold [OF flush off fk] laws by (auto simp: crate_laws_def)
    have pre: "strict_keys evs \<and> fst (hd evs) \<noteq> []" if "sb_prefix_compression b"
    proof -
      have "strict_keys cur" "\<forall>x\<in>set cur. fst x \<noteq> []"
        using inv entries that cfg(2) by (auto simp: body_inv_def sorted_wrt_append valid_entry_def builder_wf_def)
      then show ?thesis using keys ne by (cases cur; cases evs; simp)
    qed
    have flags: "blk_flags (sb_current_block b) = 0" using inv by (simp add: body_inv_def)
    obtain d where d: "block_decode (x_crc32 X) (block_encode (x_crc32 X) c) = Ok d" "block_holds evs d"
      and size: "length (block_encode (x_crc32 X) c) < 2 ^ 32"
      using block_sealing [OF evs(1) flags evs(3) _ fits ne pre c] cfg(1) by (auto simp: valid_config_def)
    have ok: "block_size_ok evs"
      using cfg(1) by (intro fitting_size_ok(1) [OF evs(3) _ fits]) (simp add: valid_config_def)
    have len: "length (sb_writer b) + (length w + 4) < 2 ^ 32" using small by (simp add: b' flushed_def)
    have lz4: "lz4_law X" using laws by (simp add: crate_laws_def)
    have "sealed_chunk X (sb_encryptor b) cur \<lparr>bm_first_key = fst (hd evs), bm_offset = sb_current_offset b,
        bm_size = word_of_nat (length w) + 4,
        bm_uncompressed_size = word_of_nat (length (block_encode (x_crc32 X) c))\<rparr> (w @ u32_to_le (x_crc32 X w))"
      (is "sealed_chunk _ _ _ ?m ?chunk")
      using len by (intro sealed_chunkI [OF evs(2) ne lz4 ok dec d size]) simp
    moreover have "unat (sb_current_offset b + (word_of_nat (length w) + 4)) = length (sb_writer b) + (length w + 4)"
    proof (rule unat_add_small)
      show "unat (sb_current_offset b) = length (sb_writer b)" using inv by (simp add: body_inv_def)
      show "unat (word_of_nat (length w) + 4 :: u64) = length w + 4" using len by (intro word_of_nat_plus_4) simp
      show "length (sb_writer b) + (length w + 4) < 2 ^ 64" using len by simp
    qed
    ultimately have "body_inv X enc kvs [] (segs @ [(cur, ?m, ?chunk)]) b'"
      using inv by (simp add: body_inv_def b' flushed_def laid_out_append add.assoc fitting_def
          block_new_def block_holds_def raw_block_def)
    then show ?thesis by blast
  qed
qed


lemma body_inv_add:
  assumes inv: "body_inv X enc kvs cur segs b" and v: "x_encode_record X r = Some v" "postcard_law X"
    and entry: "valid_entry X cfg (k, r)" and add: "block_add k v (sb_current_block b) = (True, blk)"
  shows "body_inv X enc (kvs @ [(k, r)]) (cur @ [(k, r)]) segs (b\<lparr>sb_current_block := blk\<rparr>)"
proof -
  obtain evs where evs: "block_holds evs (sb_current_block b)" "records_match X cur evs"
    and size: "blk_block_size (sb_current_block b) = sc_block_size (sb_config b)"
    using inv by (auto simp: body_inv_def)
  have "entry_fits (k, v)" using entry v by (simp add: valid_entry_def entry_fits_def)
  moreover have "x_decode_record X v = Some r" using v by (simp add: postcard_law_def)
  ultimately have "records_match X (cur @ [(k, r)]) (evs @ [(k, v)])"
    using records_match_snoc evs(2) by blast
  then show ?thesis
    using inv block_add_holds [OF evs(1) add] block_add_fitting [OF evs(1) add size]
    by (auto simp: body_inv_def)
qed

lemma strict_keys_snoc: "strict_keys kvs \<Longrightarrow> (kvs \<noteq> [] \<Longrightarrow> fst (last kvs) < k) \<Longrightarrow> strict_keys (kvs @ [(k, v)])"
proof (induction kvs)
  case (Cons x xs)
  show ?case
  proof (cases "xs = []")
    case False
    have "fst x < fst (last xs)" using Cons.prems(1) last_in_set [OF False] by simp
    also have "\<dots> < k" using Cons.prems(2) False by simp
    finally have "fst x < k" .
    with Cons False show ?thesis by simp
  qed (use Cons in simp)
qed simp

lemma sb_place_cases:
  assumes "sb_place X rng k v b = Ok b'"
  obtains blk where "block_add k v (sb_current_block b) = (True, blk)" "b' = b\<lparr>sb_current_block := blk\<rparr>"
    | b2 blk where "flush_current_block X rng b = Ok b2" "block_add k v (sb_current_block b2) = (True, blk)"
      "b' = b2\<lparr>sb_current_block := blk\<rparr>"
proof (cases "block_add k v (sb_current_block b)")
  case (Pair ok blk)
  show ?thesis
  proof (cases ok)
    case True
    then show ?thesis using assms Pair that(1) by (simp add: sb_place_def)
  next
    case False
    then obtain b2 where b2: "flush_current_block X rng b = Ok b2"
      "(case block_add k v (sb_current_block b2) of (True, blk) \<Rightarrow> Ok (b2\<lparr>sb_current_block := blk\<rparr>)
        | (False, _) \<Rightarrow> Err CompactionFailed) = Ok b'"
      using assms Pair by (auto simp: sb_place_def)
    obtain ok2 blk2 where "block_add k v (sb_current_block b2) = (ok2, blk2)" by fastforce
    with b2 show ?thesis using that(2) by (cases ok2) auto
  qed
qed

lemma sb_place_spec:
  assumes inv: "body_inv X enc kvs cur segs b" and wf: "builder_wf cfg b" "valid_config cfg"
    and place: "sb_place X rng k v b = Ok b'" and laws: "crate_laws X rng" and v: "x_encode_record X r = Some v"
    and entries: "\<forall>e\<in>set kvs. valid_entry X cfg e" "strict_keys kvs" "valid_entry X cfg (k, r)"
    and small: "length (sb_writer b') < 2 ^ 32"
  shows "\<exists>cur' segs'. body_inv X enc (kvs @ [(k, r)]) cur' segs' b'"
proof -
  have law: "postcard_law X" using laws by (simp add: crate_laws_def)
  from place show ?thesis
  proof (cases rule: sb_place_cases)
    case 1
    then show ?thesis using body_inv_add [OF inv v law entries(3)] by blast
  next
    case (2 b2 blk)
    then obtain segs' where inv2: "body_inv X enc kvs [] segs' b2"
      using flush_inv [OF inv 2(1) laws wf(2,1) entries(1,2)] small by auto
    show ?thesis using body_inv_add [OF inv2 v law entries(3) 2(2)] 2(3) by blast
  qed
qed

lemma sb_place_keys:
  assumes "sb_place X rng k v b = Ok b'" "aes_law X" "rng_law rng"
  shows "sb_config b' = sb_config b" "sb_prefix_compression b' = sb_prefix_compression b"
    "sb_keys_for_bloom b' = sb_keys_for_bloom b" "sb_record_count b' = sb_record_count b"
    "sb_first_key b' = sb_first_key b" "sb_last_key b' = sb_last_key b" "sb_prev_key b' = sb_prev_key b"
    "sb_timestamp b' = sb_timestamp b" "length (sb_writer b) \<le> length (sb_writer b')"
proof -
  have "sb_config b' = sb_config b \<and> sb_prefix_compression b' = sb_prefix_compression b \<and>
    sb_keys_for_bloom b' = sb_keys_for_bloom b \<and> sb_record_count b' = sb_record_count b \<and>
    sb_first_key b' = sb_first_key b \<and> sb_last_key b' = sb_last_key b \<and> sb_prev_key b' = sb_prev_key b \<and>
    sb_timestamp b' = sb_timestamp b \<and> length (sb_writer b) \<le> length (sb_writer b')"
    using assms(1)
  proof (cases rule: sb_place_cases)
    case (2 b2 blk)
    then show ?thesis using flush_keys [OF 2(1) assms(2,3)] by simp
  qed simp
  then show "sb_config b' = sb_config b" "sb_prefix_compression b' = sb_prefix_compression b"
    "sb_keys_for_bloom b' = sb_keys_for_bloom b" "sb_record_count b' = sb_record_count b"
    "sb_first_key b' = sb_first_key b" "sb_last_key b' = sb_last_key b" "sb_prev_key b' = sb_prev_key b"
    "sb_timestamp b' = sb_timestamp b" "length (sb_writer b) \<le> length (sb_writer b')" by auto
qed

lemma sb_add_spec:
  assumes inv: "body_inv X enc kvs cur segs b" "keys_inv kvs b" and wf: "builder_wf cfg b" "valid_config cfg"
    and add: "sb_add X rng k r b = Ok b'" and laws: "crate_laws X rng"
    and entries: "\<forall>e\<in>set (kvs @ [(k, r)]). valid_entry X cfg e" and small: "length (sb_writer b') < 2 ^ 32"
  shows "(\<exists>cur' segs'. body_inv X enc (kvs @ [(k, r)]) cur' segs' b') \<and> keys_inv (kvs @ [(k, r)]) b' \<and> builder_wf cfg b'"
proof -
  let ?b1 = "b\<lparr>sb_prev_key := Some k, sb_first_key := (if sb_first_key b = None then Some k else sb_first_key b),
    sb_last_key := Some k\<rparr>"
  obtain v b3 where v: "x_encode_record X r = Some v" and place: "sb_place X rng k v ?b1 = Ok b3"
    and b': "b' = b3\<lparr>sb_keys_for_bloom := sb_keys_for_bloom b3 @ [k], sb_record_count := sb_record_count b3 + 1\<rparr>"
    and last: "kvs \<noteq> [] \<Longrightarrow> fst (last kvs) < k"
    using add inv(2) by (auto simp: sb_add_def encode_record_def Let_def keys_inv_def not_le split: if_splits)
  have order: "strict_keys kvs" using inv(2) by (simp add: keys_inv_def)
  have order': "strict_keys (kvs @ [(k, r)])" using strict_keys_snoc [OF order last] .
  have inv1: "body_inv X enc kvs cur segs ?b1" and wf1: "builder_wf cfg ?b1"
    using inv(1) wf by (simp_all add: body_inv_def builder_wf_def)
  have "\<exists>cur' segs'. body_inv X enc (kvs @ [(k, r)]) cur' segs' b3"
    using sb_place_spec [OF inv1 wf1 wf(2) place laws v _ order] entries small b' by simp
  moreover note keys = sb_place_keys [OF place]
  have "keys_inv (kvs @ [(k, r)]) b'"
    using inv(2) order' keys laws by (auto simp: keys_inv_def b' crate_laws_def)
  ultimately show ?thesis
    using keys laws wf1 by (auto simp: b' builder_wf_def body_inv_def crate_laws_def)
qed


lemma sb_add_mono:
  assumes "sb_add X rng k r b = Ok b'" "crate_laws X rng"
  shows "length (sb_writer b) \<le> length (sb_writer b')" "sb_timestamp b' = sb_timestamp b"
  using assms sb_place_keys(8,9) [where X = X and rng = rng]
  by (auto simp: sb_add_def Let_def crate_laws_def split: if_splits) force+

lemma sb_add_all_mono:
  "sb_add_all X rng kvs b = Ok b' \<Longrightarrow> crate_laws X rng \<Longrightarrow>
     length (sb_writer b) \<le> length (sb_writer b') \<and> sb_timestamp b' = sb_timestamp b"
proof (induction kvs arbitrary: b)
  case (Cons kv kvs)
  obtain k r where kv: "kv = (k, r)" by (cases kv)
  with Cons.prems obtain b1 where b1: "sb_add X rng k r b = Ok b1" "sb_add_all X rng kvs b1 = Ok b'" by auto
  show ?case
    using Cons.IH [OF b1(2) Cons.prems(2)] sb_add_mono [OF b1(1) Cons.prems(2)] by simp
qed simp

lemma sb_add_all_spec:
  assumes "body_inv X enc done cur segs b" "keys_inv done b" "builder_wf cfg b" "valid_config cfg"
    and "sb_add_all X rng kvs b = Ok b'" "crate_laws X rng"
    and "\<forall>e\<in>set (done @ kvs). valid_entry X cfg e" "length (sb_writer b') < 2 ^ 32"
  shows "(\<exists>cur' segs'. body_inv X enc (done @ kvs) cur' segs' b') \<and> keys_inv (done @ kvs) b' \<and> builder_wf cfg b'"
  using assms
proof (induction kvs arbitrary: "done" cur segs b)
  case (Cons kv kvs)
  obtain k r where kv: "kv = (k, r)" by (cases kv)
  with Cons.prems(5) obtain b1 where b1: "sb_add X rng k r b = Ok b1" "sb_add_all X rng kvs b1 = Ok b'" by auto
  have small: "length (sb_writer b1) < 2 ^ 32"
    using sb_add_all_mono [OF b1(2) Cons.prems(6)] Cons.prems(8) by simp
  have "(\<exists>cur' segs'. body_inv X enc (done @ [(k, r)]) cur' segs' b1) \<and> keys_inv (done @ [(k, r)]) b1 \<and> builder_wf cfg b1"
    using Cons.prems(7) kv by (intro sb_add_spec [OF Cons.prems(1-4) b1(1) Cons.prems(6) _ small]) auto
  then obtain cur' segs' where inv1: "body_inv X enc (done @ [(k, r)]) cur' segs' b1"
    "keys_inv (done @ [(k, r)]) b1" "builder_wf cfg b1" by blast
  have "(\<exists>cur'' segs''. body_inv X enc ((done @ [(k, r)]) @ kvs) cur'' segs'' b')
      \<and> keys_inv ((done @ [(k, r)]) @ kvs) b' \<and> builder_wf cfg b'"
    using Cons.prems(7) kv by (intro Cons.IH [OF inv1 Cons.prems(4) b1(2) Cons.prems(6) _ Cons.prems(8)]) auto
  then show ?case using kv by simp
qed auto

subsection \<open>The finished file\<close>

text \<open>
  The shape of a file that the builder has finished: the blocks \<open>segs\<close>, the metadata block \<open>meta\<close> in
  its sealed form \<open>mw\<close>, and the footer with its offset.
\<close>

definition meta_offset :: "segment list \<Rightarrow> nat" where
  "meta_offset segs = 8 + length (seg_bytes segs)"

definition sst_file ::
  "('bl, 'c) crates \<Rightarrow> encryption_config \<Rightarrow> (bytes \<times> log_record) list \<Rightarrow> segment list \<Rightarrow> meta_block \<Rightarrow> bytes
   \<Rightarrow> bytes \<Rightarrow> bool" where
  "sst_file X enc kvs segs meta mw file \<longleftrightarrow>
     kvs = seg_ents segs \<and> segs \<noteq> [] \<and> strict_keys kvs \<and> laid_out 8 segs \<and>
     (\<forall>(ents, m, c)\<in>set segs. sealed_chunk X (encryptor_new enc) ents m c) \<and>
     file = (if ec_enabled enc then SST_MAGIC_V2_ENCRYPTED else SST_MAGIC_V2) @ seg_bytes segs @ mw
            @ u64_to_le (word_of_nat (meta_offset segs)) \<and>
     (\<exists>bytes. x_encode_meta X meta = Some bytes \<and> length bytes \<le> MAX_METADATA_BYTES \<and>
        decrypt_block X (encryptor_new enc) mw = Ok (x_compress_prepend_size X bytes) \<and>
        length mw \<le> length (x_compress_prepend_size X bytes) + 28) \<and>
     mb_blocks meta = map (\<lambda>s. fst (snd s)) segs \<and> mb_min_key meta = fst (hd kvs) \<and>
     mb_max_key meta = fst (last kvs) \<and> mb_record_count meta = word_of_nat (length kvs) \<and>
     (\<exists>bl. mb_bloom_filter_data meta = x_bloom_to_bytes X bl \<and> (\<forall>k\<in>fst ` set kvs. x_bloom_check X bl k))"

lemma sst_fileD:
  assumes "sst_file X enc kvs segs meta mw file"
  shows "kvs = seg_ents segs" "segs \<noteq> []" "strict_keys kvs" "laid_out 8 segs"
    "\<forall>(ents, m, c)\<in>set segs. sealed_chunk X (encryptor_new enc) ents m c"
    "file = (if ec_enabled enc then SST_MAGIC_V2_ENCRYPTED else SST_MAGIC_V2) @ seg_bytes segs @ mw
            @ u64_to_le (word_of_nat (meta_offset segs))"
    "\<exists>bytes. x_encode_meta X meta = Some bytes \<and> length bytes \<le> MAX_METADATA_BYTES \<and>
        decrypt_block X (encryptor_new enc) mw = Ok (x_compress_prepend_size X bytes) \<and>
        length mw \<le> length (x_compress_prepend_size X bytes) + 28"
    "mb_blocks meta = map (\<lambda>s. fst (snd s)) segs" "mb_min_key meta = fst (hd kvs)"
    "mb_max_key meta = fst (last kvs)" "mb_record_count meta = word_of_nat (length kvs)"
    "\<exists>bl. mb_bloom_filter_data meta = x_bloom_to_bytes X bl \<and> (\<forall>k\<in>fst ` set kvs. x_bloom_check X bl k)"
  using assms unfolding sst_file_def by blast+

lemma bloom_fold: "bloom_law X \<Longrightarrow> k \<in> set ks \<or> x_bloom_check X bl k \<Longrightarrow> x_bloom_check X (fold (x_bloom_set X) ks bl) k"
  by (induction ks arbitrary: bl) (auto simp: bloom_law_def)


lemma sb_finish_spec:
  assumes inv: "body_inv X enc kvs cur segs b" "keys_inv kvs b" and wf: "builder_wf cfg b" "valid_config cfg"
    and fin: "sb_finish X rng b = Ok file" and laws: "crate_laws X rng"
    and entries: "\<forall>e\<in>set kvs. valid_entry X cfg e" and small: "length file < 2 ^ 32"
  shows "\<exists>segs' meta mw. sst_file X enc kvs segs' meta mw file \<and> mb_timestamp meta = sb_timestamp b"
proof -
  have law: "aes_law X" "rng_law rng" "bloom_law X" using laws by (simp_all add: crate_laws_def)
  obtain b1 bl mn mx bytes mw b2 where flush: "flush_current_block X rng b = Ok b1" and metas: "sb_block_metas b1 \<noteq> []"
    and keys: "sb_first_key b1 = Some mn" "sb_last_key b1 = Some mx"
    and bytes: "length bytes \<le> MAX_METADATA_BYTES"
      "x_encode_meta X \<lparr>mb_blocks = sb_block_metas b1,
        mb_bloom_filter_data = x_bloom_to_bytes X (fold (x_bloom_set X) (sb_keys_for_bloom b1) bl), mb_min_key = mn,
        mb_max_key = mx, mb_record_count = sb_record_count b1, mb_timestamp = sb_timestamp b1\<rparr> = Some bytes"
      (is "x_encode_meta X ?meta = _")
    and seal: "seal X rng b1 (x_compress_prepend_size X bytes) = Ok (mw, b2)"
    and eq: "file = sb_writer b2 @ mw @ u64_to_le (sb_current_offset b2)"
    using fin by (auto simp: sb_finish_def build_bloom_filter_def encode_meta_def not_less split: if_splits)
  have b2: "sb_writer b2 = sb_writer b1" "sb_current_offset b2 = sb_current_offset b1"
    and dec: "decrypt_block X (sb_encryptor b1) mw = Ok (x_compress_prepend_size X bytes)"
      "length mw \<le> length (x_compress_prepend_size X bytes) + 28"
    using seal_spec [OF law(1,2) seal] by auto
  have order: "strict_keys kvs" using inv(2) by (simp add: keys_inv_def)
  have "length (sb_writer b1) < 2 ^ 32" using small by (simp add: eq b2)
  then obtain segs' where inv1: "body_inv X enc kvs [] segs' b1"
    using flush_inv [OF inv(1) flush laws wf(2,1) entries order] by blast
  note same = flush_keys [OF flush law(1,2)]
  have kvs: "kvs = seg_ents segs'" and writer: "unat (sb_current_offset b1) = length (sb_writer b1)"
    "sb_writer b1 = (if ec_enabled enc then SST_MAGIC_V2_ENCRYPTED else SST_MAGIC_V2) @ seg_bytes segs'"
    using inv1 by (simp_all add: body_inv_def)
  have "length (sb_writer b1) = 8 + length (seg_bytes segs')" using writer(2) by simp
  then have "sb_current_offset b1 = word_of_nat (8 + length (seg_bytes segs'))"
    using writer(1) by (metis of_nat_unat ucast_id)
  then have "sb_current_offset b1 = word_of_nat (meta_offset segs')" unfolding meta_offset_def .
  then have "file = (if ec_enabled enc then SST_MAGIC_V2_ENCRYPTED else SST_MAGIC_V2) @ seg_bytes segs' @ mw
      @ u64_to_le (word_of_nat (meta_offset segs'))"
    using eq b2 writer(2) by simp
  moreover have "\<forall>k\<in>fst ` set kvs. x_bloom_check X (fold (x_bloom_set X) (sb_keys_for_bloom b1) bl) k"
    using inv(2) same bloom_fold [OF law(3)] by (auto simp: keys_inv_def)
  moreover have "mn = fst (hd kvs)" "mx = fst (last kvs)"
    using inv(2) keys same by (auto simp: keys_inv_def split: if_splits)
  ultimately have "sst_file X enc kvs segs' ?meta mw file"
    using inv1 metas bytes dec order inv(2) same
    unfolding sst_file_def by (auto simp: body_inv_def keys_inv_def)
  then show ?thesis using same by (intro exI [of _ segs'] exI [of _ ?meta]) auto
qed

lemma sb_new_inv:
  "body_inv X enc [] [] [] (sb_new cfg ts enc)" "keys_inv [] (sb_new cfg ts enc)"
  "builder_wf cfg (sb_new cfg ts enc)"
  by (simp_all add: body_inv_def keys_inv_def builder_wf_def sb_new_def Let_def encryptor_new_def block_new_def
      block_holds_def raw_block_def fitting_def)

lemma sst_build_file:
  assumes "sst_build X rng cfg ts enc kvs = Ok file" "crate_laws X rng" "valid_config cfg"
    and "\<forall>e\<in>set kvs. valid_entry X cfg e" "length file < 2 ^ 32"
  shows "\<exists>segs meta mw. sst_file X enc kvs segs meta mw file \<and> mb_timestamp meta = ts"
proof -
  obtain b where b: "sb_add_all X rng kvs (sb_new cfg ts enc) = Ok b" and fin: "sb_finish X rng b = Ok file"
    using assms(1) by (auto simp: sst_build_def)
  have "length (sb_writer b) \<le> length file"
  proof -
    obtain b1 b2 mw w where "flush_current_block X rng b = Ok b1" "seal X rng b1 w = Ok (mw, b2)"
      "file = sb_writer b2 @ mw @ u64_to_le (sb_current_offset b2)"
      using fin by (auto simp: sb_finish_def split: if_splits)
    then show ?thesis
      using flush_keys(9) [of X rng b b1] seal_spec [of X rng b1 w mw b2] assms(2) by (auto simp: crate_laws_def)
  qed
  with assms(5) have "length (sb_writer b) < 2 ^ 32" by simp
  then obtain cur segs where "body_inv X enc kvs cur segs b" "keys_inv kvs b" "builder_wf cfg b"
    using sb_add_all_spec [OF sb_new_inv assms(3) b assms(2)] assms(4) by auto
  moreover have "sb_timestamp b = ts"
    using sb_add_all_mono [OF b assms(2)] by (simp add: sb_new_def Let_def)
  ultimately show ?thesis
    using sb_finish_spec [OF _ _ _ assms(3) fin assms(2,4,5)] by blast
qed

end
