(* ===== verification/Sstable_Metadata.thy ===== *)
theory Sstable_Metadata
  imports Sstable_Builder
begin

text \<open>
  \<open>src/storage/metadata.rs\<close>: reading and validating the metadata block of an SSTable. What is shown:
  it accepts every file that the builder finishes and returns the metadata that was written, and
  whatever it accepts has an index that lies inside the data area, in order and without overlap.
\<close>

text \<open>The loop over the block index.\<close>

fun check_blocks :: "u64 \<Rightarrow> bytes \<Rightarrow> u64 \<Rightarrow> bytes option \<Rightarrow> block_meta list \<Rightarrow> unit outcome" where
  "check_blocks offset max_key previous_end previous_key [] = Ok ()"
| "check_blocks offset max_key previous_end previous_key (block # blocks) =
     (if bm_size block < 4
         \<or> bm_offset block < previous_end
         \<or> (2 ^ 64 \<le> unat (bm_offset block) + unat (bm_size block)
             \<or> unat offset < unat (bm_offset block) + unat (bm_size block))
         \<or> max_key < bm_first_key block
         \<or> (case previous_key of None \<Rightarrow> False | Some key \<Rightarrow> bm_first_key block \<le> key)
      then Err InvalidSstableFormat
      else check_blocks offset max_key (bm_offset block + ucast (bm_size block))
             (Some (bm_first_key block)) blocks)"

definition metadata_limit :: nat where
  "metadata_limit = MAX_METADATA_BYTES + MAX_METADATA_BYTES div 255 + 64"

definition metadata_read ::
  "('bl, 'c) crates \<Rightarrow> bytes \<Rightarrow> encryption_config \<Rightarrow> (meta_block \<times> encryptor) outcome" where
  "metadata_read X file encryption =
     (let len = length file
      in if len < 16 then Err InvalidSstableFormat
         else and_then (file_read_exact file 0 8) (\<lambda>magic.
           and_then (if magic = SST_MAGIC_V2 then Ok encryptor_disabled
                     else if magic = SST_MAGIC_V2_ENCRYPTED then Ok (encryptor_new encryption)
                     else Err InvalidSstableFormat) (\<lambda>encryptor.
           and_then (file_read_exact file (len - 8) 8) (\<lambda>footer.
           let offset = u64_from_le footer
           in if unat offset < 8 \<or> len - 8 \<le> unat offset then Err InvalidSstableFormat
              else
                (let size = len - 8 - unat offset
                 in if metadata_limit < size then Err InvalidArgument
                    else and_then (file_read_exact file (unat offset) size) (\<lambda>data.
                      and_then (if magic = SST_MAGIC_V2_ENCRYPTED then decrypt_for_recovery X encryptor data
                                else Ok data) (\<lambda>compressed.
                      if length compressed < 4 then Err InvalidSstableFormat
                      else if MAX_METADATA_BYTES < unat (u32_from_le (take 4 compressed)) then Err InvalidArgument
                      else and_then (ok_or DecompressionFailed (x_decompress_size_prepended X compressed)) (\<lambda>bytes.
                        and_then (decode_meta X bytes) (\<lambda>meta.
                        if mb_blocks meta = [] \<or> mb_record_count meta = 0 \<or> mb_max_key meta < mb_min_key meta
                           \<or> bm_first_key (mb_blocks meta ! 0) \<noteq> mb_min_key meta
                        then Err InvalidSstableFormat
                        else and_then (check_blocks offset (mb_max_key meta) 8 None (mb_blocks meta)) (\<lambda>_.
                          Ok (meta, encryptor)))))))))))"

definition metadata_bloom :: "('bl, 'c) crates \<Rightarrow> bytes \<Rightarrow> 'bl option" where
  "metadata_bloom X bytes = x_bloom_from_bytes X bytes"

subsection \<open>Files of the builder are accepted\<close>

lemma sealed_chunk_size: "sealed_chunk X e ents m c \<Longrightarrow> 4 \<le> length c \<and> unat (bm_size m) = length c"
  by (auto simp: sealed_chunk_def)

lemma check_blocks_laid_out:
  assumes "laid_out off segs" "\<forall>(ents, m, c)\<in>set segs. sealed_chunk X e ents m c" "unat pend = off"
    and "off + length (seg_bytes segs) \<le> unat mo" "unat mo < 2 ^ 32" "strict_keys (seg_ents segs)"
    and "\<forall>x\<in>set (seg_ents segs). fst x \<le> mx" "\<forall>k x. prev = Some k \<longrightarrow> x \<in> set (seg_ents segs) \<longrightarrow> k < fst x"
  shows "check_blocks mo mx pend prev (map (\<lambda>s. fst (snd s)) segs) = Ok ()"
  using assms
proof (induction segs arbitrary: off pend prev)
  case (Cons s segs)
  obtain ents m c where s: "s = (ents, m, c)" by (cases s)
  have sealed: "sealed_chunk X e ents m c" using Cons.prems(2) s by simp
  then obtain kv rest where ents: "ents = kv # rest" and fk: "bm_first_key m = fst kv"
    by (cases ents) (auto simp: sealed_chunk_def)
  have size: "4 \<le> length c" "unat (bm_size m) = length c" using sealed_chunk_size [OF sealed] by auto
  have off: "unat (bm_offset m) = off" "off + length c \<le> unat mo" using Cons.prems(1,4) s by simp_all
  have pend': "unat (bm_offset m + ucast (bm_size m)) = off + length c"
  proof (rule unat_add_small [OF off(1)])
    show "unat (ucast (bm_size m) :: u64) = length c" using size by simp
  qed (use off Cons.prems(5) in simp)
  have order: "strict_keys (ents @ seg_ents segs)" using Cons.prems(6) s by simp
  have later: "\<forall>y\<in>set (seg_ents segs). fst kv < fst y"
    using order unfolding strict_keys_append ents by (simp del: set_concat)
  have "check_blocks mo mx (bm_offset m + ucast (bm_size m)) (Some (bm_first_key m)) (map (\<lambda>s. fst (snd s)) segs) = Ok ()"
  proof (rule Cons.IH [OF _ _ pend'])
    show "\<forall>k x. Some (bm_first_key m) = Some k \<longrightarrow> x \<in> set (seg_ents segs) \<longrightarrow> k < fst x"
      using later fk by (simp del: set_concat split_paired_All)
    show "strict_keys (seg_ents segs)" using order by (simp only: strict_keys_append)
  qed (use Cons.prems s in \<open>auto simp: add.assoc\<close>)
  moreover have "\<not> bm_size m < 4" "\<not> bm_offset m < pend"
    using size off Cons.prems(3) by (simp_all add: word_less_nat_alt)
  moreover have kv: "kv \<in> set (seg_ents (s # segs))" using s ents by simp
  moreover have "\<not> mx < fst kv" using Cons.prems(7) kv by (metis not_less)
  moreover have "\<not> fst kv \<le> k" if "prev = Some k" for k using Cons.prems(8) kv that by (metis not_le)
  ultimately show ?case
    using s off size Cons.prems(5) fk by (auto split: option.splits)
qed simp


lemma check_index:
  assumes f: "sst_file X enc kvs segs meta mw file"
    and off: "unat (word_of_nat (meta_offset segs) :: u64) = meta_offset segs" "meta_offset segs < 2 ^ 32"
  shows "check_blocks (word_of_nat (meta_offset segs)) (mb_max_key meta) 8 None (mb_blocks meta) = Ok ()"
proof -
  note d = sst_fileD [OF f]
  show ?thesis
    unfolding d(8,10)
  proof (rule check_blocks_laid_out [OF d(4,5)])
    show "8 + length (seg_bytes segs) \<le> unat (word_of_nat (meta_offset segs) :: u64)"
      unfolding off(1) by (simp add: meta_offset_def)
    show "unat (word_of_nat (meta_offset segs) :: u64) < 2 ^ 32" unfolding off(1) by (rule off(2))
    show "strict_keys (seg_ents segs)" using d(1,3) by simp
    show "\<forall>x\<in>set (seg_ents segs). fst x \<le> fst (last kvs)"
      using strict_keys_last [OF d(3)] unfolding d(1) by blast
  qed simp_all
qed

lemma sst_file_meta:
  assumes f: "sst_file X enc kvs segs meta mw file" and small: "length kvs < 2 ^ 64"
  shows "kvs \<noteq> []" "mb_blocks meta \<noteq> []" "mb_record_count meta \<noteq> 0" "\<not> mb_max_key meta < mb_min_key meta"
    "bm_first_key (mb_blocks meta ! 0) = mb_min_key meta"
proof -
  note d = sst_fileD [OF f]
  obtain ents m c segs' where segs: "segs = (ents, m, c) # segs'"
    using d(2) by (cases segs) auto
  then have sealed: "ents \<noteq> []" "bm_first_key m = fst (hd ents)"
    using d(5) by (auto simp: sealed_chunk_def)
  have kvs: "kvs = ents @ seg_ents segs'" using d(1) segs by simp
  with sealed show ne: "kvs \<noteq> []" by simp
  show "mb_blocks meta \<noteq> []" using d(8) segs by simp
  show "bm_first_key (mb_blocks meta ! 0) = mb_min_key meta"
    using d(8,9) segs sealed kvs by simp
  have "unat (word_of_nat (length kvs) :: u64) = length kvs" using small by (rule unat_of_nat_small)
  with ne have "(word_of_nat (length kvs) :: u64) \<noteq> 0" by (metis length_0_conv unsigned_0)
  then show "mb_record_count meta \<noteq> 0" using d(11) by simp
  have "fst (hd kvs) \<le> fst (last kvs)"
    using ne by (intro strict_keys_last [OF d(3)]) simp
  then show "\<not> mb_max_key meta < mb_min_key meta" using d(9,10) by simp
qed

lemma file_reads:
  assumes f: "sst_file X enc kvs segs meta mw file" and mw: "mw \<noteq> []"
  shows "file_read_exact file 0 8 = Ok (if ec_enabled enc then SST_MAGIC_V2_ENCRYPTED else SST_MAGIC_V2)"
    and "file_read_exact file (length file - 8) 8 = Ok (u64_to_le (word_of_nat (meta_offset segs)))"
    and "file_read_exact file (meta_offset segs) (length mw) = Ok mw"
    and "length file = meta_offset segs + length mw + 8"
  unfolding sst_fileD(6) [OF f] using mw by (simp_all add: file_read_exact_def meta_offset_def)

lemma metadata_read_file:
  assumes f: "sst_file X enc kvs segs meta mw file" and laws: "crate_laws X rng"
    and small: "length file < 2 ^ 32" "length kvs < 2 ^ 64"
  shows "metadata_read X file enc = Ok (meta, encryptor_new enc)"
proof -
  let ?off = "word_of_nat (meta_offset segs) :: u64"
  obtain bytes where bytes: "x_encode_meta X meta = Some bytes" "length bytes \<le> MAX_METADATA_BYTES"
    "decrypt_block X (encryptor_new enc) mw = Ok (x_compress_prepend_size X bytes)"
    "length mw \<le> length (x_compress_prepend_size X bytes) + 28"
    using sst_fileD(7) [OF f] by blast
  have lz: "x_decompress_size_prepended X (x_compress_prepend_size X bytes) = Some bytes"
    "take 4 (x_compress_prepend_size X bytes) = u32_to_le (word_of_nat (length bytes))"
    "length (x_compress_prepend_size X bytes) \<le> length bytes + length bytes div 255 + 20"
    using laws bytes(2) by (simp_all add: crate_laws_def lz4_law_def MAX_METADATA_BYTES_def)
  have limit: "length mw \<le> metadata_limit"
    using bytes(4) lz(3) bytes(2) div_le_mono [OF bytes(2), of 255] by (simp add: metadata_limit_def)
  from lz have len4: "\<not> length (x_compress_prepend_size X bytes) < 4"
    by (metis length_take length_u_to_le(2) min_less_iff_conj not_less_iff_gr_or_eq)
  then have mw: "mw \<noteq> []"
    using bytes(3) by (auto simp: decrypt_block_def encryptor_new_def split: if_splits)
  note reads = file_reads [OF f mw]
  have off': "meta_offset segs < 2 ^ 32" "\<not> meta_offset segs < 8"
    using small(1) reads(4) by (simp_all add: meta_offset_def)
  then have off: "unat ?off = meta_offset segs" by (intro unat_of_nat_small) simp
  have "(if (if ec_enabled enc then SST_MAGIC_V2_ENCRYPTED else SST_MAGIC_V2) = SST_MAGIC_V2 then Ok encryptor_disabled
      else if (if ec_enabled enc then SST_MAGIC_V2_ENCRYPTED else SST_MAGIC_V2) = SST_MAGIC_V2_ENCRYPTED
        then Ok (encryptor_new enc) else Err InvalidSstableFormat) = Ok (encryptor_new enc)"
    and "(if (if ec_enabled enc then SST_MAGIC_V2_ENCRYPTED else SST_MAGIC_V2) = SST_MAGIC_V2_ENCRYPTED
      then decrypt_for_recovery X (encryptor_new enc) mw else Ok mw) = Ok (x_compress_prepend_size X bytes)"
    using bytes(3) decrypt_for_recovery_enabled [OF _ bytes(3)]
    by (auto simp: encryptor_new_def encryptor_disabled_def decrypt_block_def)
  moreover have "decode_meta X bytes = Ok meta"
    using laws bytes(1) by (simp add: decode_meta_def crate_laws_def postcard_law_def)
  moreover have "unat (u32_from_le (take 4 (x_compress_prepend_size X bytes))) = length bytes"
    unfolding lz(2) using bytes(2) by (simp add: unat_of_nat_small MAX_METADATA_BYTES_def)
  ultimately show ?thesis
    using reads off off' mw limit len4 bytes(2) lz(1) check_index [OF f off off'(1)] sst_file_meta [OF f small(2)]
    unfolding metadata_read_def Let_def by simp
qed


subsection \<open>What is accepted is sound\<close>

definition block_before :: "block_meta \<Rightarrow> block_meta \<Rightarrow> bool" where
  "block_before a b \<longleftrightarrow>
     unat (bm_offset a) + unat (bm_size a) \<le> unat (bm_offset b) \<and> bm_first_key a < bm_first_key b"

lemma check_blocks_sound:
  "check_blocks mo mx pend prev bs = Ok () \<Longrightarrow>
     (\<forall>b\<in>set bs. unat pend \<le> unat (bm_offset b) \<and> 4 \<le> unat (bm_size b)
        \<and> unat (bm_offset b) + unat (bm_size b) \<le> unat mo \<and> bm_first_key b \<le> mx
        \<and> (\<forall>k. prev = Some k \<longrightarrow> k < bm_first_key b))
     \<and> sorted_wrt block_before bs"
proof (induction bs arbitrary: pend prev)
  case (Cons b bs)
  let ?stop = "bm_offset b + ucast (bm_size b)"
  from Cons.prems have head: "\<not> bm_size b < 4" "\<not> bm_offset b < pend"
    "unat (bm_offset b) + unat (bm_size b) < 2 ^ 64" "unat (bm_offset b) + unat (bm_size b) \<le> unat mo"
    "bm_first_key b \<le> mx" "\<And>k. prev = Some k \<Longrightarrow> k < bm_first_key b"
    and rest: "check_blocks mo mx ?stop (Some (bm_first_key b)) bs = Ok ()"
    by (auto simp: not_less not_le split: if_splits option.splits)
  have "unat ?stop = unat (bm_offset b) + unat (bm_size b)"
    using head(3) by (intro unat_add_small) simp_all
  with Cons.IH [OF rest] head show ?case
    by (fastforce simp: word_less_nat_alt not_less block_before_def intro: less_trans)
qed simp

subsection \<open>An example table\<close>

text \<open>
  A concrete instance for the witnesses: crates that store everything as it is, with a metadata
  codec for the one metadata block that the example table has.
\<close>

definition demo_meta :: meta_block where
  "demo_meta =
     \<lparr>mb_blocks = [\<lparr>bm_first_key = [1], bm_offset = 8, bm_size = 28, bm_uncompressed_size = 20\<rparr>],
      mb_bloom_filter_data = [], mb_min_key = [1], mb_max_key = [1], mb_record_count = 1, mb_timestamp = 0\<rparr>"

definition demo_crates :: "(unit, unit) crates" where
  "demo_crates = plain_crates\<lparr>x_encode_meta := (\<lambda>m. if m = demo_meta then Some [9] else None),
     x_decode_meta := (\<lambda>bs. if bs = [9] then Some demo_meta else None)\<rparr>"

definition demo_config :: storage_config where
  "demo_config = \<lparr>sc_block_size = 64, sc_bloom_false_positive_rate = 0, sc_prefix_compression_enabled = False\<rparr>"

definition demo_entries :: "(bytes \<times> log_record) list" where
  "demo_entries = [([1], log_record_new 0 [1] [2])]"

definition demo_file :: bytes where
  "demo_file = SST_MAGIC_V2 @ [20, 0, 0, 0, 1, 0, 1, 2, 0, 1, 2, 0, 0, 0, 0, 1, 0, 0, 0, 0, 16, 0, 0, 0, 24, 0, 0, 0]
     @ [1, 0, 0, 0, 9] @ [36, 0, 0, 0, 0, 0, 0, 0]"

definition demo_block :: block where
  "demo_block = \<lparr>blk_data = [1, 0, 1, 2, 0, 1, 2], blk_offsets = [0], blk_block_size = 64, blk_flags = 0\<rparr>"

definition demo_encoded :: bytes where
  "demo_encoded = [1, 0, 1, 2, 0, 1, 2, 0, 0, 0, 0, 1, 0, 0, 0, 0, 16, 0, 0, 0]"

lemma demo_add:
  "block_add [1] [1, 2] (block_new 64) = (True, demo_block)"
  "block_encode (x_crc32 demo_crates) demo_block = demo_encoded" "blk_offsets demo_block \<noteq> []"
  "x_encode_record demo_crates (log_record_new 0 [1] [2]) = Some [1, 2]"
  by code_simp+

lemma demo_seal:
  "u16_at demo_encoded 0 = Ok 1" "slice demo_encoded 2 3 = Ok [1]" "length demo_encoded = 20"
  "x_compress_prepend_size demo_crates demo_encoded = [20, 0, 0, 0] @ demo_encoded"
  "u32_to_le (x_crc32 demo_crates ([20, 0, 0, 0] @ demo_encoded)) = [24, 0, 0, 0]"
  "u64_to_le 36 = [36, 0, 0, 0, 0, 0, 0, 0]" "x_compress_prepend_size demo_crates [9] = [1, 0, 0, 0, 9]"
  "x_encode_meta demo_crates demo_meta = Some [9]" "x_bloom_new demo_crates 1 rate = Some ()"
  "x_bloom_to_bytes demo_crates () = []" "\<not> MAX_METADATA_BYTES < 1"
  by code_simp+

lemma demo_build_rate:
  "sst_build demo_crates (\<lambda>_. None) (demo_config\<lparr>sc_bloom_false_positive_rate := rate\<rparr>) 0 encryption_default demo_entries = Ok demo_file"
  using demo_add demo_seal
  by (simp add: sst_build_def demo_entries_def sb_add_def sb_new_def sb_place_def encode_record_def demo_config_def
      encryption_default_def encryptor_new_def Let_def sb_finish_def flush_current_block_def
      extract_first_key_from_block_def seal_def build_bloom_filter_def encode_meta_def demo_meta_def
      demo_file_def demo_encoded_def)

lemma demo_build: "sst_build demo_crates (\<lambda>_. None) demo_config 0 encryption_default demo_entries = Ok demo_file"
  using demo_build_rate [of 0] by (simp add: demo_config_def)

lemma demo_laws: "crate_laws demo_crates (\<lambda>_. None)"
  by (auto simp: crate_laws_def demo_crates_def plain_crates_def postcard_law_def plain_codec lz4_law_def aes_law_def
      bloom_law_def cache_law_def rng_law_def split: if_splits)

lemma demo_sizes:
  "valid_config demo_config" "\<forall>e\<in>set demo_entries. valid_entry demo_crates demo_config e"
  "length demo_file < 2 ^ 32" "length demo_entries < 2 ^ 64" "x_cache_get demo_crates c k = None"
  by (simp_all add: valid_config_def demo_config_def demo_entries_def valid_entry_def demo_crates_def plain_encode_def Let_def
      plain_crates_def demo_file_def)

subsection \<open>Properties\<close>

text \<open>Every SSTable that the builder finishes is accepted by \<open>metadata::read\<close> with the same
  encryption settings, and the metadata read back describe exactly the entries that were added:
  their number, the smallest and the largest key, and the timestamp.\<close>

lemma metadata_accepts_built_file:
  assumes "sst_build X rng cfg ts enc kvs = Ok file" and "crate_laws X rng" and "valid_config cfg"
    and "\<forall>e\<in>set kvs. valid_entry X cfg e" and "length file < 2 ^ 32" and "length kvs < 2 ^ 64"
  shows "\<exists>meta. metadata_read X file enc = Ok (meta, encryptor_new enc)
    \<and> unat (mb_record_count meta) = length kvs \<and> mb_min_key meta = fst (hd kvs)
    \<and> mb_max_key meta = fst (last kvs) \<and> mb_timestamp meta = ts"
proof -
  obtain segs meta mw where f: "sst_file X enc kvs segs meta mw file" "mb_timestamp meta = ts"
    using sst_build_file [OF assms(1-5)] by blast
  from metadata_read_file [OF f(1) assms(2,5,6)] show ?thesis
    using sst_fileD(9,10,11) [OF f(1)] f(2) unat_of_nat_small(3) [OF assms(6)] by auto
qed

text \<open>C27: an index that \<open>metadata::read\<close> accepts can be trusted: it is not empty, every block lies
  inside the data area of the file, blocks do not overlap, and their first keys are strictly
  increasing.\<close>

theorem metadata_read_sound:
  assumes "metadata_read X file enc = Ok (meta, e)"
  shows "mb_blocks meta \<noteq> [] \<and> sorted_wrt block_before (mb_blocks meta) \<and>
    (\<forall>b\<in>set (mb_blocks meta). 8 \<le> unat (bm_offset b) \<and> 4 \<le> unat (bm_size b) \<and>
       unat (bm_offset b) + unat (bm_size b) < length file - 8)"
proof -
  obtain offset where "mb_blocks meta \<noteq> []" and off: "unat offset < length file - 8"
    and "check_blocks offset (mb_max_key meta) 8 None (mb_blocks meta) = Ok ()"
    using assms by (auto simp: metadata_read_def Let_def not_le split: if_splits)
  with check_blocks_sound [OF this(3)] show ?thesis by fastforce
qed


theorem metadata_read_sound_witness:
  "\<exists>meta e. metadata_read demo_crates demo_file encryption_default = Ok (meta, e)
     \<and> sorted_wrt block_before (mb_blocks meta)"
proof -
  obtain segs meta mw where f: "sst_file demo_crates encryption_default demo_entries segs meta mw demo_file"
    using sst_build_file [OF demo_build demo_laws demo_sizes(1-3)] by blast
  have "metadata_read demo_crates demo_file encryption_default = Ok (meta, encryptor_new encryption_default)"
    by (rule metadata_read_file [OF f demo_laws demo_sizes(3,4)])
  with metadata_read_sound [OF this] show ?thesis by blast
qed

end
