(* ===== verification/Rust_Std.thy ===== *)
theory Rust_Std
  imports Prelude
begin

text \<open>
  The parts of the Rust standard library that the storage code leans on, written out:
  \<^item> \<open>Ordering\<close> and comparison, \<open>slice::binary_search_by\<close> and \<open>slice::partition_point\<close>, with
    the search loop of the library and its contract on sorted input;
  \<^item> \<open>BTreeMap\<close> as an association list kept in strictly increasing key order;
  \<^item> \<open>BufReader\<close> over a file: a buffer of at most \<open>buf_capacity\<close> bytes that is refilled only when
    it is empty;
  \<^item> \<open>String::from_utf8_lossy\<close>, with its replacement of ill-formed sequences.
\<close>

subsection \<open>Comparison and binary search\<close>

datatype ordering = Less | Equal | Greater

definition cmp :: "'a::linorder \<Rightarrow> 'a \<Rightarrow> ordering" where
  "cmp a b = (if a < b then Less else if a = b then Equal else Greater)"

text \<open>
  The loop of \<open>slice::binary_search_by\<close>: \<open>probe i\<close> is the comparison of element \<open>i\<close>. The range
  \<open>[base, base + len)\<close> is halved until one element is left.
\<close>

function bsearch_loop :: "(nat \<Rightarrow> ordering) \<Rightarrow> nat \<Rightarrow> nat \<Rightarrow> nat" where
  "bsearch_loop probe base len =
     (if 1 < len
      then (let half = len div 2; mid = base + half
            in bsearch_loop probe (if probe mid = Greater then base else mid) (len - half))
      else base)"
  by pat_completeness auto
termination
  by (relation "measure (\<lambda>(_, _, len). len)") auto

declare bsearch_loop.simps [simp del]

text \<open>\<open>Inr i\<close> is \<open>Ok(i)\<close>, a hit; \<open>Inl i\<close> is \<open>Err(i)\<close>, the insertion point.\<close>

definition binary_search_by :: "('a \<Rightarrow> ordering) \<Rightarrow> 'a list \<Rightarrow> nat + nat" where
  "binary_search_by f xs =
     (if xs = [] then Inl 0
      else (let base = bsearch_loop (\<lambda>i. f (xs ! i)) 0 (length xs)
            in case f (xs ! base) of
                 Equal \<Rightarrow> Inr base
               | Less \<Rightarrow> Inl (base + 1)
               | Greater \<Rightarrow> Inl base))"

definition partition_point :: "('a \<Rightarrow> bool) \<Rightarrow> 'a list \<Rightarrow> nat" where
  "partition_point P xs =
     (case binary_search_by (\<lambda>x. if P x then Less else Greater) xs of
        Inr i \<Rightarrow> i | Inl i \<Rightarrow> i)"

subsection \<open>Ordered maps\<close>

type_synonym ('k, 'v) btree_map = "('k \<times> 'v) list"

fun btree_insert :: "'k::linorder \<Rightarrow> 'v \<Rightarrow> ('k, 'v) btree_map \<Rightarrow> ('k, 'v) btree_map" where
  "btree_insert k v [] = [(k, v)]"
| "btree_insert k v ((k', v') # m) =
     (if k < k' then (k, v) # (k', v') # m
      else if k = k' then (k, v) # m
      else (k', v') # btree_insert k v m)"

definition btree_collect :: "('k::linorder \<times> 'v) list \<Rightarrow> ('k, 'v) btree_map" where
  "btree_collect kvs = fold (\<lambda>(k, v). btree_insert k v) kvs []"

subsection \<open>Binary heap\<close>

text \<open>
  \<open>BinaryHeap\<close>: a collection from which \<open>peek\<close> and \<open>pop\<close> take a greatest element of the given
  comparison. The order in which the list has the elements does not matter to its users, whose
  elements are all different.
\<close>

primrec heap_max :: "('a \<Rightarrow> 'a \<Rightarrow> ordering) \<Rightarrow> 'a \<Rightarrow> 'a list \<Rightarrow> 'a" where
  "heap_max c x [] = x"
| "heap_max c x (y # ys) = heap_max c (if c x y = Less then y else x) ys"

definition heap_peek :: "('a \<Rightarrow> 'a \<Rightarrow> ordering) \<Rightarrow> 'a list \<Rightarrow> 'a option" where
  "heap_peek c h = (case h of [] \<Rightarrow> None | x # xs \<Rightarrow> Some (heap_max c x xs))"

definition heap_pop :: "('a \<Rightarrow> 'a \<Rightarrow> ordering) \<Rightarrow> 'a list \<Rightarrow> ('a \<times> 'a list) option" where
  "heap_pop c h = (case heap_peek c h of None \<Rightarrow> None | Some x \<Rightarrow> Some (x, remove1 x h))"

definition heap_push :: "'a \<Rightarrow> 'a list \<Rightarrow> 'a list" where
  "heap_push x h = x # h"

subsection \<open>Buffered file reader\<close>

text \<open>
  \<open>BufReader::new(file)\<close>: \<open>br_buf\<close> is what has been read from the file and not yet consumed,
  \<open>br_file\<close> what has not been read from the file. \<open>fill_buf\<close> reads from the file only when the
  buffer is empty, and then at most the capacity (\<open>DEFAULT_BUF_SIZE\<close>, 8 KiB).
\<close>

definition buf_capacity :: nat where
  "buf_capacity = 8192"

record buf_reader =
  br_buf :: bytes
  br_file :: bytes

definition buf_reader_new :: "bytes \<Rightarrow> buf_reader" where
  "buf_reader_new file = \<lparr>br_buf = [], br_file = file\<rparr>"

definition fill_buf :: "buf_reader \<Rightarrow> buf_reader" where
  "fill_buf r =
     (if br_buf r = []
      then \<lparr>br_buf = take buf_capacity (br_file r), br_file = drop buf_capacity (br_file r)\<rparr>
      else r)"

text \<open>
  \<open>read_exact\<close> of \<open>n\<close> bytes: \<open>None\<close> is \<open>UnexpectedEof\<close>. A request that finds the buffer empty and
  is at least as long as the buffer goes straight to the file; otherwise the buffer is refilled
  and drained. Either way what was buffered comes first.
\<close>

function read_exact :: "nat \<Rightarrow> buf_reader \<Rightarrow> (bytes \<times> buf_reader) option" where
  "read_exact n r =
     (if n = 0 then Some ([], r)
      else if br_buf r = [] \<and> br_file r = [] then None
      else if br_buf r = [] \<and> buf_capacity \<le> n then
        (let got = take n (br_file r)
         in case read_exact (n - length got) (r\<lparr>br_file := drop n (br_file r)\<rparr>) of
              None \<Rightarrow> None
            | Some (rest, r') \<Rightarrow> Some (got @ rest, r'))
      else
        (let r1 = fill_buf r; got = take n (br_buf r1)
         in case read_exact (n - length got) (r1\<lparr>br_buf := drop n (br_buf r1)\<rparr>) of
              None \<Rightarrow> None
            | Some (rest, r') \<Rightarrow> Some (got @ rest, r')))"
  by pat_completeness auto
termination
  by (relation "measure fst") (auto simp: fill_buf_def buf_capacity_def split: if_splits)

declare read_exact.simps [simp del]

subsection \<open>UTF-8\<close>

definition is_continuation :: "u8 \<Rightarrow> bool" where
  "is_continuation b \<longleftrightarrow> 0x80 \<le> b \<and> b \<le> 0xBF"

text \<open>The second byte that may follow the first byte of a three- or four-byte sequence.\<close>

definition second_ok :: "u8 \<Rightarrow> u8 \<Rightarrow> bool" where
  "second_ok b c \<longleftrightarrow>
     (b = 0xE0 \<and> 0xA0 \<le> c \<and> c \<le> 0xBF) \<or>
     (0xE1 \<le> b \<and> b \<le> 0xEC \<and> is_continuation c) \<or>
     (b = 0xED \<and> 0x80 \<le> c \<and> c \<le> 0x9F) \<or>
     (0xEE \<le> b \<and> b \<le> 0xEF \<and> is_continuation c) \<or>
     (b = 0xF0 \<and> 0x90 \<le> c \<and> c \<le> 0xBF) \<or>
     (0xF1 \<le> b \<and> b \<le> 0xF3 \<and> is_continuation c) \<or>
     (b = 0xF4 \<and> 0x80 \<le> c \<and> c \<le> 0x8F)"

text \<open>
  The next chunk of the input: whether it is a well-formed sequence, and how many bytes it takes.
  An ill-formed chunk is the longest prefix that could have begun a well-formed sequence.
\<close>

definition utf8_step :: "bytes \<Rightarrow> bool \<times> nat" where
  "utf8_step bs =
     (let b0 = bs ! 0;
          at = (\<lambda>i. if i < length bs then bs ! i else 0)
      in if b0 < 0x80 then (True, 1)
         else if 0xC2 \<le> b0 \<and> b0 \<le> 0xDF then
           (if is_continuation (at 1) then (True, 2) else (False, 1))
         else if 0xE0 \<le> b0 \<and> b0 \<le> 0xEF then
           (if \<not> second_ok b0 (at 1) then (False, 1)
            else if \<not> is_continuation (at 2) then (False, 2)
            else (True, 3))
         else if 0xF0 \<le> b0 \<and> b0 \<le> 0xF4 then
           (if \<not> second_ok b0 (at 1) then (False, 1)
            else if \<not> is_continuation (at 2) then (False, 2)
            else if \<not> is_continuation (at 3) then (False, 3)
            else (True, 4))
         else (False, 1))"

definition replacement_char :: bytes where
  "replacement_char = [0xEF, 0xBF, 0xBD]"

function from_utf8_lossy :: "bytes \<Rightarrow> bytes" where
  "from_utf8_lossy bs =
     (if bs = [] then []
      else (let (valid, n) = utf8_step bs
            in (if valid then take n bs else replacement_char) @ from_utf8_lossy (drop n bs)))"
  by pat_completeness auto
termination
  by (relation "measure length") (auto simp: utf8_step_def Let_def split: if_splits)

declare from_utf8_lossy.simps [simp del]

definition is_utf8 :: "bytes \<Rightarrow> bool" where
  "is_utf8 bs \<longleftrightarrow> from_utf8_lossy bs = bs"

definition starts_with :: "bytes \<Rightarrow> bytes \<Rightarrow> bool" where
  "starts_with p bs \<longleftrightarrow> take (length p) bs = p"

subsection \<open>Facts about binary search\<close>

text \<open>
  What the loop ends with, for any comparison that is \<open>Greater\<close> from some point on: an index of
  the range to the right of which everything is \<open>Greater\<close>, and that is not \<open>Greater\<close> itself
  unless it is the start.
\<close>

lemma bsearch_loop_stop: "\<not> 1 < len \<Longrightarrow> bsearch_loop probe base len = base"
  by (simp add: bsearch_loop.simps)

lemma bsearch_loop_step:
  "1 < len \<Longrightarrow> bsearch_loop probe base len =
     bsearch_loop probe (if probe (base + len div 2) = Greater then base else base + len div 2)
       (len - len div 2)"
  by (simp add: bsearch_loop.simps [of probe base len] Let_def)

lemma bsearch_loop_spec:
  assumes mono: "\<And>i j. i \<le> j \<Longrightarrow> j < n \<Longrightarrow> probe i = Greater \<Longrightarrow> probe j = Greater"
    and "0 < len" and "\<And>i. base + len \<le> i \<Longrightarrow> i < n \<Longrightarrow> probe i = Greater"
    and "base = 0 \<or> probe base \<noteq> Greater"
  shows "base \<le> bsearch_loop probe base len \<and> bsearch_loop probe base len < base + len
    \<and> (bsearch_loop probe base len = 0 \<or> probe (bsearch_loop probe base len) \<noteq> Greater)
    \<and> (\<forall>i. bsearch_loop probe base len < i \<longrightarrow> i < n \<longrightarrow> probe i = Greater)"
  using assms(2-4)
proof (induction len arbitrary: base rule: less_induct)
  case (less len)
  show ?case
  proof (cases "1 < len")
    case False
    with less.prems(1) have "len = 1" by simp
    with less.prems(2,3) show ?thesis
      unfolding bsearch_loop_stop [OF False] by (simp add: Suc_le_eq)
  next
    case True
    define half where "half = len div 2"
    define b where "b = (if probe (base + half) = Greater then base else base + half)"
    have half: "0 < half" "half < len" using True by (simp_all add: half_def)
    have b: "base \<le> b" "b + (len - half) \<le> base + len" using half by (simp_all add: b_def)
    have right: "probe i = Greater" if "b + (len - half) \<le> i" "i < n" for i
    proof (cases "probe (base + half) = Greater")
      case True
      have "base + half \<le> i" using that(1) True by (simp add: b_def half_def)
      then show ?thesis using mono that(2) True by blast
    next
      case False
      with that(1) half have "base + len \<le> i" by (simp add: b_def)
      then show ?thesis using less.prems(2) that(2) by blast
    qed
    have left: "b = 0 \<or> probe b \<noteq> Greater" using less.prems(3) by (simp add: b_def)
    have step: "bsearch_loop probe base len = bsearch_loop probe b (len - half)"
      using bsearch_loop_step [OF True] by (simp add: b_def half_def)
    have "len - half < len" "0 < len - half" using half by simp_all
    from less.IH [OF this right left] b show ?thesis unfolding step by auto
  qed
qed

text \<open>The search only looks at elements of the slice.\<close>

lemma bsearch_loop_cong:
  "(\<And>i. base \<le> i \<Longrightarrow> i < base + len \<Longrightarrow> p i = q i) \<Longrightarrow> bsearch_loop p base len = bsearch_loop q base len"
proof (induction len arbitrary: base rule: less_induct)
  case (less len)
  show ?case
  proof (cases "1 < len")
    case True
    define half where "half = len div 2"
    define b where "b = (if q (base + half) = Greater then base else base + half)"
    have half: "0 < half" "half < len" using True by (simp_all add: half_def)
    have "p (base + half) = q (base + half)" using half by (intro less.prems) simp_all
    moreover have "bsearch_loop p b (len - half) = bsearch_loop q b (len - half)"
      using half by (intro less.IH less.prems) (auto simp: b_def split: if_splits)
    ultimately show ?thesis
      unfolding bsearch_loop_step [OF True] half_def [symmetric] by (simp add: b_def)
  next
    case False
    then show ?thesis by (simp add: bsearch_loop_stop)
  qed
qed

lemma binary_search_by_cong:
  assumes "\<And>x. x \<in> set xs \<Longrightarrow> f x = g x"
  shows "binary_search_by f xs = binary_search_by g xs"
proof (cases "xs = []")
  case False
  have eq: "bsearch_loop (\<lambda>i. f (xs ! i)) 0 (length xs) = bsearch_loop (\<lambda>i. g (xs ! i)) 0 (length xs)"
    by (rule bsearch_loop_cong) (simp add: assms)
  have "bsearch_loop (\<lambda>i. g (xs ! i)) 0 (length xs) < length xs"
    using bsearch_loop_spec [of 0 "\<lambda>i. g (xs ! i)" "length xs" 0] False by auto
  then show ?thesis using assms False by (simp add: binary_search_by_def Let_def eq)
qed (simp add: binary_search_by_def)

text \<open>On a slice whose elements compare \<open>Less\<close>, then \<open>Equal\<close>, then \<open>Greater\<close>, a hit is found.\<close>

lemma cmp_iff [simp]:
  "cmp a b = Less \<longleftrightarrow> a < b" "cmp a b = Equal \<longleftrightarrow> a = b" "cmp a b = Greater \<longleftrightarrow> b < a"
  by (auto simp: cmp_def)

lemma binary_search_by_hit:
  assumes sorted: "sorted_wrt (<) (map g xs)" and i: "i < length xs" "g (xs ! i) = k"
  shows "binary_search_by (\<lambda>x. cmp (g x) k) xs = Inr i"
proof -
  have less: "g (xs ! a) < g (xs ! b)" if "a < b" "b < length xs" for a b
    using sorted that by (simp add: sorted_wrt_iff_nth_less)
  define b where "b = bsearch_loop (\<lambda>i. cmp (g (xs ! i)) k) 0 (length xs)"
  have mono: "k < g (xs ! j)" if "a \<le> j" "j < length xs" "k < g (xs ! a)" for a j
    using less [of a j] that by (cases "a = j") auto
  have "0 < length xs" using i(1) by auto
  from bsearch_loop_spec [where probe = "\<lambda>i. cmp (g (xs ! i)) k" and n = "length xs", OF _ this, of 0]
  have spec: "b < length xs" "b = 0 \<or> \<not> k < g (xs ! b)"
    "\<And>i. b < i \<Longrightarrow> i < length xs \<Longrightarrow> k < g (xs ! i)"
    unfolding b_def cmp_iff using mono by auto
  have "\<not> b < i" using spec(3) [of i] i by auto
  moreover have "\<not> i < b" using less [of i b] spec(1,2) i by auto
  ultimately have "b = i" by simp
  with i have "cmp (g (xs ! b)) k = Equal" "xs \<noteq> []" by auto
  with \<open>b = i\<close> show ?thesis
    unfolding binary_search_by_def Let_def b_def [symmetric] by (simp add: cmp_def)
qed

lemma binary_search_by_miss:
  assumes "k \<notin> g ` set xs"
  shows "\<exists>j. binary_search_by (\<lambda>x. cmp (g x) k) xs = Inl j"
proof (cases "xs = []")
  case True
  then show ?thesis by (simp add: binary_search_by_def)
next
  case False
  define b where "b = bsearch_loop (\<lambda>i. cmp (g (xs ! i)) k) 0 (length xs)"
  have "b < length xs"
    using bsearch_loop_spec [of 0 "\<lambda>i. cmp (g (xs ! i)) k" "length xs" 0] False
    by (auto simp: b_def)
  then have "cmp (g (xs ! b)) k \<noteq> Equal"
    using assms by (auto simp: cmp_def)
  with False show ?thesis
    by (auto simp: binary_search_by_def Let_def b_def [symmetric] split: ordering.splits)
qed

text \<open>\<open>partition_point\<close> splits a slice on which the predicate holds exactly on a prefix.\<close>

lemma partition_point_spec:
  assumes "\<forall>i j. i \<le> j \<longrightarrow> j < length xs \<longrightarrow> P (xs ! j) \<longrightarrow> P (xs ! i)"
  shows "partition_point P xs \<le> length xs"
    and "i < partition_point P xs \<Longrightarrow> P (xs ! i)"
    and "partition_point P xs \<le> i \<Longrightarrow> i < length xs \<Longrightarrow> \<not> P (xs ! i)"
proof -
  define b where "b = bsearch_loop (\<lambda>i. if P (xs ! i) then Less else Greater) 0 (length xs)"
  have pp: "partition_point P xs = (if xs = [] then 0 else if P (xs ! b) then b + 1 else b)"
    by (simp add: partition_point_def binary_search_by_def Let_def b_def)
  have mono: "\<not> P (xs ! j)" if "i \<le> j" "j < length xs" "\<not> P (xs ! i)" for i j
    using assms that by blast
  have gt: "(if Q then Less else Greater) = Greater \<longleftrightarrow> \<not> Q" for Q by simp
  have "b < length xs \<and> (b = 0 \<or> P (xs ! b)) \<and> (\<forall>i. b < i \<longrightarrow> i < length xs \<longrightarrow> \<not> P (xs ! i))"
    if "0 < length xs"
    using bsearch_loop_spec [where probe = "\<lambda>i. if P (xs ! i) then Less else Greater"
        and n = "length xs" and base = 0, OF _ that, unfolded gt, OF mono]
    unfolding b_def by auto
  then have spec: "xs \<noteq> [] \<Longrightarrow> b < length xs" "xs \<noteq> [] \<Longrightarrow> b = 0 \<or> P (xs ! b)"
    "\<And>i. xs \<noteq> [] \<Longrightarrow> b < i \<Longrightarrow> i < length xs \<Longrightarrow> \<not> P (xs ! i)" by simp_all
  show "partition_point P xs \<le> length xs" using spec(1) pp by (cases "xs = []") auto
  show "P (xs ! i)" if i: "i < partition_point P xs"
  proof (cases "xs = []")
    case False
    with i pp spec(2) have "P (xs ! b)" "i \<le> b" by (auto split: if_splits)
    with spec(1) [OF False] assms show ?thesis by blast
  qed (use i pp in simp)
  show "\<not> P (xs ! i)" if i: "partition_point P xs \<le> i" "i < length xs"
  proof (cases "P (xs ! b)")
    case True
    with i pp have "b < i" "xs \<noteq> []" by (auto split: if_splits)
    with spec(3) i show ?thesis by blast
  next
    case False
    with i pp have "b \<le> i" "xs \<noteq> []" by (auto split: if_splits)
    with spec(3) i False show ?thesis by (cases "b = i") auto
  qed
qed

lemma partition_point_append:
  assumes "\<forall>x\<in>set xs. P x" and "\<forall>y\<in>set ys. \<not> P y"
  shows "partition_point P (xs @ ys) = length xs"
proof -
  let ?zs = "xs @ ys"
  have P_iff: "P (?zs ! i) \<longleftrightarrow> i < length xs" if "i < length ?zs" for i
    using that assms by (auto simp: nth_append)
  have pre: "\<forall>i j. i \<le> j \<longrightarrow> j < length ?zs \<longrightarrow> P (?zs ! j) \<longrightarrow> P (?zs ! i)"
    using P_iff by (metis dual_order.trans le_less_trans)
  note spec = partition_point_spec [OF pre]
  show ?thesis
  proof (rule antisym)
    show "partition_point P ?zs \<le> length xs"
    proof (rule ccontr)
      assume "\<not> ?thesis"
      then have lt: "length xs < partition_point P ?zs" by simp
      then have "P (?zs ! length xs)" by (rule spec(2))
      with lt spec(1) P_iff [of "length xs"] show False by (cases "ys = []") simp_all
    qed
    show "length xs \<le> partition_point P ?zs"
    proof (rule ccontr)
      assume "\<not> ?thesis"
      then have lt: "partition_point P ?zs < length xs" by simp
      then have "\<not> P (?zs ! partition_point P ?zs)" by (intro spec(3)) auto
      with lt P_iff [of "partition_point P ?zs"] show False by simp
    qed
  qed
qed

lemma partition_point_sorted:
  fixes g :: "'a \<Rightarrow> 'b::linorder"
  assumes "sorted_wrt (<) (map g xs)"
  shows "partition_point (\<lambda>x. g x \<le> k) xs = length (takeWhile (\<lambda>x. g x \<le> k) xs)"
proof -
  have "\<forall>y\<in>set (dropWhile (\<lambda>x. g x \<le> k) xs). \<not> g y \<le> k"
    using assms
  proof (induction xs)
    case (Cons x xs)
    show ?case
    proof (cases "g x \<le> k")
      case True
      have "sorted_wrt (<) (map g xs)" using Cons.prems by simp
      from Cons.IH [OF this] True show ?thesis by (simp only: dropWhile.simps if_True)
    next
      case False
      then have "k < g x" by simp
      moreover have "\<forall>y\<in>set xs. g x < g y" using Cons.prems by simp
      ultimately have "\<forall>y\<in>set xs. k < g y" by (meson less_trans)
      then show ?thesis using False by (simp add: not_le)
    qed
  qed simp
  note after = this
  have "\<forall>x\<in>set (takeWhile (\<lambda>x. g x \<le> k) xs). g x \<le> k"
    by (blast dest: set_takeWhileD)
  from partition_point_append [OF this after] show ?thesis unfolding takeWhile_dropWhile_id .
qed

subsection \<open>Facts about ordered maps\<close>

lemma set_btree_insert_keys: "fst ` set (btree_insert k v m) = insert k (fst ` set m)"
  by (induction k v m rule: btree_insert.induct) auto

lemma ball_keys: "(\<forall>x\<in>set m. P (fst x)) \<longleftrightarrow> (\<forall>k\<in>fst ` set m. P k)"
  by auto

lemma strict_btree_insert: "strict_keys m \<Longrightarrow> strict_keys (btree_insert k v m)"
proof (induction k v m rule: btree_insert.induct)
  case (2 k v k' v' m)
  have "\<forall>x\<in>set (btree_insert k v m). k' < fst x" if "k' < k"
    unfolding ball_keys set_btree_insert_keys using 2(2) that by auto
  then show ?case using 2 by (auto intro: less_trans)
qed simp

lemma map_of_btree_insert: "map_of (btree_insert k v m) = (map_of m)(k \<mapsto> v)"
  by (induction k v m rule: btree_insert.induct) (auto simp: fun_eq_iff)

lemma btree_insert_above:
  "\<forall>x\<in>set m. fst x < k \<Longrightarrow> btree_insert k v m = m @ [(k, v)]"
  by (induction k v m rule: btree_insert.induct) auto

lemma strict_keys_map_of_eq:
  assumes "strict_keys xs" "strict_keys ys" "map_of xs = map_of ys"
  shows "xs = ys"
proof -
  have d: "distinct (map fst xs)" "distinct (map fst ys)"
    using assms by (auto intro: strict_keys_distinct)
  have "set xs = set ys"
    using assms(3) d by (simp add: map_of_inject_set)
  moreover have "sorted (map fst xs)" "sorted (map fst ys)"
    using assms by (simp_all add: strict_sorted_imp_sorted)
  ultimately show ?thesis
    using d by (intro map_sorted_distinct_set_unique [where f = fst]) (auto simp: inj_on_def distinct_map)
qed


subsection \<open>Facts about the binary heap\<close>

lemma heap_max_in: "heap_max c x xs \<in> insert x (set xs)"
  by (induction xs arbitrary: x) fastforce+

lemma heap_max_greatest:
  assumes trans: "\<And>x y z. c x y \<noteq> Less \<Longrightarrow> c y z \<noteq> Less \<Longrightarrow> c x z \<noteq> Less"
    and anti: "\<And>x y. c x y = Less \<Longrightarrow> c y x \<noteq> Less" and refl: "\<And>x. c x x \<noteq> Less"
    and "y \<in> insert x (set xs)"
  shows "c (heap_max c x xs) y \<noteq> Less"
  using assms(4)
proof (induction xs arbitrary: x y)
  case Nil
  then show ?case by (simp add: refl)
next
  case (Cons z xs)
  let ?w = "if c x z = Less then z else x"
  have w: "c (heap_max c ?w xs) ?w \<noteq> Less" using Cons.IH [of ?w ?w] by simp
  have "c ?w x \<noteq> Less" "c ?w z \<noteq> Less" using anti refl by auto
  with w have "c (heap_max c ?w xs) x \<noteq> Less" "c (heap_max c ?w xs) z \<noteq> Less"
    using trans by blast+
  moreover have "c (heap_max c ?w xs) y \<noteq> Less" if "y \<in> set xs" using Cons.IH [of y ?w] that by simp
  ultimately show ?case using Cons.prems by auto
qed

lemma heap_peek_None [simp]: "heap_peek c h = None \<longleftrightarrow> h = []"
  by (simp add: heap_peek_def split: list.splits)

lemma heap_peek_Nil [simp]: "heap_peek c [] = None"
  by simp

lemma heap_peek_in: "heap_peek c h = Some x \<Longrightarrow> x \<in> set h"
  using heap_max_in by (fastforce simp: heap_peek_def split: list.splits)

lemma heap_pop_Some: "heap_pop c h = Some (x, h') \<longleftrightarrow> heap_peek c h = Some x \<and> h' = remove1 x h"
  by (auto simp: heap_pop_def split: option.splits)

lemma heap_pop_None [simp]: "heap_pop c h = None \<longleftrightarrow> h = []"
  by (cases "heap_peek c h") (auto simp: heap_pop_def)

lemma heap_pop_Nil [simp]: "heap_pop c [] = None"
  by simp

end
