(* ===== verification/Sstable_Reader.thy ===== *)
theory Sstable_Reader
  imports Sstable_Metadata Rust_Std
begin

text \<open>
  \<open>src/storage/reader.rs\<close>: point reads and range scans of an SSTable, through the block cache of
  \<open>src/storage/cache.rs\<close>.

  The cache is a state that the reads thread through; its operations are those of the crate
  \<open>moka\<close>. Whether the file could be memory-mapped is an input of \<open>open\<close>; the mapping has the
  contents of the file. The table id, a hash of the path, is an input too.

  What is shown: a table that was built and opened returns for every key exactly the record that
  was added, and for a range exactly the records of the range in order, whatever the cache does.
\<close>

record 'bl sst_reader =
  rd_metadata :: meta_block
  rd_bloom_filter :: "'bl option"
  rd_file :: bytes
  rd_table_id :: u64
  rd_encryptor :: encryptor
  rd_mmap :: "bytes option"

definition rd_open ::
  "('bl, 'c) crates \<Rightarrow> bytes \<Rightarrow> encryption_config \<Rightarrow> u64 \<Rightarrow> bool \<Rightarrow> 'bl sst_reader outcome" where
  "rd_open X file encryption table_id mmap_works =
     and_then (metadata_read X file encryption) (\<lambda>(metadata, encryptor).
       Ok \<lparr>rd_metadata = metadata,
           rd_bloom_filter = metadata_bloom X (mb_bloom_filter_data metadata),
           rd_file = file,
           rd_table_id = table_id,
           rd_encryptor = encryptor,
           rd_mmap = (if mmap_works then Some file else None)\<rparr>)"

definition might_contain :: "('bl, 'c) crates \<Rightarrow> 'bl sst_reader \<Rightarrow> bytes \<Rightarrow> bool" where
  "might_contain X rd key =
     (case rd_bloom_filter rd of None \<Rightarrow> True | Some bf \<Rightarrow> x_bloom_check X bf key)"

text \<open>The bytes of a block and its stored checksum, from the mapping or from the file.\<close>

definition read_on_disk :: "'bl sst_reader \<Rightarrow> nat \<Rightarrow> nat \<Rightarrow> nat \<Rightarrow> (bytes \<times> u32) outcome" where
  "read_on_disk rd offset full_size on_disk_size =
     (let from_file =
            and_then (file_read_exact (rd_file rd) offset on_disk_size) (\<lambda>on_disk_data.
              and_then (file_read_exact (rd_file rd) (offset + on_disk_size) 4) (\<lambda>crc32_bytes.
                Ok (on_disk_data, u32_from_le crc32_bytes)))
      in case rd_mmap rd of
           Some mmap \<Rightarrow>
             if offset + full_size \<le> length mmap then
               and_then (slice mmap offset (offset + on_disk_size)) (\<lambda>data.
                 and_then (u32_at mmap (offset + on_disk_size)) (\<lambda>stored_crc32. Ok (data, stored_crc32)))
             else from_file
         | None \<Rightarrow> from_file)"

definition read_and_decompress_block :: "('bl, 'c) crates \<Rightarrow> 'bl sst_reader \<Rightarrow> block_meta \<Rightarrow> bytes outcome" where
  "read_and_decompress_block X rd bm =
     (if unat (bm_size bm) < 4 then Panic
      else and_then (read_on_disk rd (unat (bm_offset bm)) (unat (bm_size bm)) (unat (bm_size bm) - 4))
        (\<lambda>(on_disk_data, stored_crc32).
          if x_crc32 X on_disk_data \<noteq> stored_crc32 then Err CorruptedData
          else and_then (if en_enabled (rd_encryptor rd) then decrypt_block X (rd_encryptor rd) on_disk_data
                         else Ok on_disk_data) (\<lambda>compressed_block.
            and_then (ok_or DecompressionFailed (x_decompress_size_prepended X compressed_block)) (\<lambda>decompressed.
              if length decompressed \<noteq> unat (bm_uncompressed_size bm) then Err CorruptedData
              else Ok decompressed))))"

text \<open>\<open>GlobalBlockCache::get\<close> and \<open>put\<close>, keyed by table id and block index.\<close>

definition cache_get :: "('bl, 'c) crates \<Rightarrow> 'c \<Rightarrow> u64 \<Rightarrow> nat \<Rightarrow> bytes option" where
  "cache_get X c table_id block_idx = x_cache_get X c (table_id, block_idx)"

definition cache_put :: "('bl, 'c) crates \<Rightarrow> 'c \<Rightarrow> u64 \<Rightarrow> nat \<Rightarrow> bytes \<Rightarrow> 'c" where
  "cache_put X c table_id block_idx data = x_cache_insert X (table_id, block_idx) data c"

text \<open>\<open>iter().position(...)\<close>\<close>

fun position :: "('a \<Rightarrow> bool) \<Rightarrow> 'a list \<Rightarrow> nat option" where
  "position P [] = None"
| "position P (x # xs) = (if P x then Some 0 else map_option Suc (position P xs))"

definition read_block ::
  "('bl, 'c) crates \<Rightarrow> 'bl sst_reader \<Rightarrow> block_meta \<Rightarrow> 'c \<Rightarrow> bytes outcome \<times> 'c" where
  "read_block X rd bm c =
     (let block_idx = (case position (\<lambda>b. bm_offset b = bm_offset bm) (mb_blocks (rd_metadata rd)) of
                         Some i \<Rightarrow> i | None \<Rightarrow> 0)
      in case cache_get X c (rd_table_id rd) block_idx of
           Some cached \<Rightarrow> (Ok cached, c)
         | None \<Rightarrow>
             (case read_and_decompress_block X rd bm of
                Ok block_data \<Rightarrow> (Ok block_data, cache_put X c (rd_table_id rd) block_idx block_data)
              | Err e \<Rightarrow> (Err e, c)
              | Panic \<Rightarrow> (Panic, c)))"

definition read_block_by_key :: "'bl sst_reader \<Rightarrow> bytes \<Rightarrow> block_meta option" where
  "read_block_by_key rd key =
     (let blocks = mb_blocks (rd_metadata rd);
          idx = partition_point (\<lambda>b. bm_first_key b \<le> key) blocks
      in if idx = 0 then None
         else if idx - 1 < length blocks then Some (blocks ! (idx - 1)) else None)"

definition extract_key_at_offset :: "bytes \<Rightarrow> nat \<Rightarrow> bytes option" where
  "extract_key_at_offset data offset =
     (if length data < offset + 2 then None
      else (let key_len = unat (u16_from_le (take 2 (drop offset data)))
            in if length data < offset + 2 + key_len then None
               else Some (take key_len (drop (offset + 2) data))))"

definition search_in_block :: "('bl, 'c) crates \<Rightarrow> block \<Rightarrow> bytes \<Rightarrow> log_record option outcome" where
  "search_in_block X block key =
     (case binary_search_by (\<lambda>offset.
             case extract_key_at_offset (blk_data block) (unat offset) of
               Some entry_key \<Rightarrow> cmp entry_key key
             | None \<Rightarrow> Less) (blk_offsets block) of
        Inl _ \<Rightarrow> Ok None
      | Inr pos \<Rightarrow>
          (let data = blk_data block; offset = unat (blk_offsets block ! pos)
           in and_then (u16_at data offset) (\<lambda>kl.
              let val_len_offset = offset + 2 + unat kl
              in and_then (u16_at data val_len_offset) (\<lambda>vl.
                 if length data < val_len_offset + 2 + unat vl then Err CorruptedData
                 else and_then (slice data (val_len_offset + 2) (val_len_offset + 2 + unat vl)) (\<lambda>entry_value.
                   and_then (decode_record X entry_value) (\<lambda>record. Ok (Some record)))))))"

definition rd_get :: "('bl, 'c) crates \<Rightarrow> 'bl sst_reader \<Rightarrow> bytes \<Rightarrow> 'c \<Rightarrow> log_record option outcome \<times> 'c" where
  "rd_get X rd key c =
     (if \<not> might_contain X rd key then (Ok None, c)
      else case read_block_by_key rd key of
             None \<Rightarrow> (Ok None, c)
           | Some block_meta \<Rightarrow>
               (case read_block X rd block_meta c of
                  (block_data, c') \<Rightarrow>
                    (and_then block_data (\<lambda>d. and_then (block_decode (x_crc32 X) d) (\<lambda>block.
                       search_in_block X block key)), c')))"

text \<open>The loop over the entries of one block; \<open>break\<close> returns what has been collected.\<close>

fun scan_entries ::
  "('bl, 'c) crates \<Rightarrow> bytes \<Rightarrow> bytes option \<Rightarrow> bytes option \<Rightarrow> u32 list \<Rightarrow> (bytes \<times> log_record) list
   \<Rightarrow> (bytes \<times> log_record) list outcome" where
  "scan_entries X data start stop [] records = Ok records"
| "scan_entries X data start stop (off # offsets) records =
     (let offset = unat off
      in if length data < offset + 2 then Ok records
         else and_then (u16_at data offset) (\<lambda>kl.
           let key_len = unat kl
           in if length data < offset + 2 + key_len + 2 then Ok records
              else and_then (slice data (offset + 2) (offset + 2 + key_len)) (\<lambda>key.
                if (case start of Some start_key \<Rightarrow> key < start_key | None \<Rightarrow> False)
                then scan_entries X data start stop offsets records
                else if (case stop of Some end_key \<Rightarrow> end_key \<le> key | None \<Rightarrow> False) then Ok records
                else
                  (let val_len_offset = offset + 2 + key_len
                   in and_then (u16_at data val_len_offset) (\<lambda>vl.
                      if length data < val_len_offset + 2 + unat vl then Ok records
                      else and_then (slice data (val_len_offset + 2) (val_len_offset + 2 + unat vl)) (\<lambda>val.
                        and_then (decode_record X val) (\<lambda>record.
                          scan_entries X data start stop offsets (records @ [(key, record)]))))))))"

fun scan_blocks ::
  "('bl, 'c) crates \<Rightarrow> 'bl sst_reader \<Rightarrow> bytes option \<Rightarrow> bytes option \<Rightarrow> block_meta list
   \<Rightarrow> (bytes \<times> log_record) list \<Rightarrow> 'c \<Rightarrow> (bytes \<times> log_record) list outcome \<times> 'c" where
  "scan_blocks X rd start stop [] records c = (Ok records, c)"
| "scan_blocks X rd start stop (bm # bms) records c =
     (if (case stop of Some end_key \<Rightarrow> end_key \<le> bm_first_key bm | None \<Rightarrow> False) then (Ok records, c)
      else case read_block X rd bm c of
             (block_data, c') \<Rightarrow>
               (case and_then block_data (\<lambda>d. and_then (block_decode (x_crc32 X) d) (\<lambda>block.
                       scan_entries X (blk_data block) start stop (blk_offsets block) records)) of
                  Ok records' \<Rightarrow> scan_blocks X rd start stop bms records' c'
                | Err e \<Rightarrow> (Err e, c')
                | Panic \<Rightarrow> (Panic, c')))"

definition scan_range ::
  "('bl, 'c) crates \<Rightarrow> 'bl sst_reader \<Rightarrow> bytes option \<Rightarrow> bytes option \<Rightarrow> 'c
   \<Rightarrow> (bytes \<times> log_record) list outcome \<times> 'c" where
  "scan_range X rd start stop c =
     (let blocks = mb_blocks (rd_metadata rd);
          start_block_idx =
            (case start of
               Some start_key \<Rightarrow>
                 (let idx = partition_point (\<lambda>b. bm_first_key b \<le> start_key) blocks
                  in if idx = 0 then 0 else idx - 1)
             | None \<Rightarrow> 0)
      in scan_blocks X rd start stop (drop start_block_idx blocks) [] c)"

definition rd_scan :: "('bl, 'c) crates \<Rightarrow> 'bl sst_reader \<Rightarrow> 'c \<Rightarrow> (bytes \<times> log_record) list outcome \<times> 'c" where
  "rd_scan X rd c = scan_range X rd None None c"


subsection \<open>Entries of a decoded block\<close>

lemma raw_block_at:
  assumes "block_size_ok evs" "i < length evs"
  shows "drop (unat (snd (raw_block evs) ! i)) (fst (raw_block evs))
    = entry_bytes (evs ! i) @ concat (map entry_bytes (drop (Suc i) evs))"
proof -
  have split: "evs = take i evs @ evs ! i # drop (Suc i) evs" using assms(2) by (rule id_take_nth_drop)
  let ?n = "length (concat (map entry_bytes (take i evs)))"
  have total: "length (concat (map entry_bytes evs)) = ?n + length (concat (map entry_bytes (evs ! i # drop (Suc i) evs)))"
    by (subst split) simp
  then have "?n < 2 ^ 32" using assms(1) by (simp add: block_size_ok_def)
  moreover have "snd (raw_block evs) ! i = word_of_nat ?n"
  proof -
    have "chunk_offsets 0 (map entry_bytes evs) = chunk_offsets 0 (map entry_bytes (take i evs))
        @ chunk_offsets ?n (map entry_bytes (evs ! i # drop (Suc i) evs))"
      by (subst split) (simp only: map_append chunk_offsets_append add_0)
    then show ?thesis using assms(2) by (simp add: raw_block_def nth_append)
  qed
  ultimately have "unat (snd (raw_block evs) ! i) = ?n" by (simp add: unat_of_nat_small)
  moreover have "fst (raw_block evs) = concat (map entry_bytes (take i evs))
      @ entry_bytes (evs ! i) @ concat (map entry_bytes (drop (Suc i) evs))"
    unfolding raw_block_def by (subst split) simp
  ultimately show ?thesis by simp
qed

lemma extract_key_at:
  assumes "drop n data = entry_bytes (k, v) @ rest" "entry_fits (k, v)"
  shows "extract_key_at_offset data n = Some k"
proof -
  note at = entry_at [OF assms]
  from at(1) have "u16_from_le (take 2 (drop n data)) = word_of_nat (length k)"
    by (simp add: u16_at_def slice_eq_Ok)
  moreover have "take (length k) (drop (n + 2) data) = k" using at(2) by (simp add: slice_eq_Ok)
  ultimately show ?thesis using at(5,7) by (simp add: extract_key_at_offset_def Let_def)
qed

text \<open>A stored entry that a read at its offset finds.\<close>

lemma block_entry:
  assumes "block_holds evs d" "block_size_ok evs" "i < length evs" "evs ! i = (k, v)"
  shows "\<exists>rest. drop (unat (blk_offsets d ! i)) (blk_data d) = entry_bytes (k, v) @ rest" "entry_fits (k, v)"
  using raw_block_at [OF assms(2,3)] assms nth_mem [OF assms(3)] by (auto simp: block_holds_def block_size_ok_def)

lemma records_match_nth:
  "records_match X ents evs \<Longrightarrow> length evs = length ents \<and>
     (\<forall>i<length ents. fst (evs ! i) = fst (ents ! i) \<and> x_decode_record X (snd (evs ! i)) = Some (snd (ents ! i)))"
  by (auto simp: records_match_def list_all2_conv_all_nth case_prod_beta)

lemma search_in_block_correct:
  assumes d: "block_holds evs d" "block_size_ok evs" and m: "records_match X ents evs" and strict: "strict_keys ents"
  shows "search_in_block X d key = Ok (map_of ents key)"
proof -
  let ?key = "\<lambda>off. the (extract_key_at_offset (blk_data d) (unat off))"
  have len: "length (blk_offsets d) = length evs" "length evs = length ents"
    using block_holds_length [OF d(1)] records_match_nth [OF m] by simp_all
  have at: "extract_key_at_offset (blk_data d) (unat (blk_offsets d ! i)) = Some (fst (ents ! i))"
    if "i < length ents" for i
  proof -
    obtain k v where kv: "evs ! i = (k, v)" by fastforce
    moreover have "fst (evs ! i) = fst (ents ! i)" using records_match_nth [OF m] that by blast
    ultimately have "k = fst (ents ! i)" by simp
    then show ?thesis using block_entry [OF d _ kv] that len extract_key_at by auto
  qed
  have keys: "map ?key (blk_offsets d) = map fst ents"
    using at len by (intro nth_equalityI) simp_all
  have search: "binary_search_by (\<lambda>offset. case extract_key_at_offset (blk_data d) (unat offset) of
      Some entry_key \<Rightarrow> cmp entry_key key | None \<Rightarrow> Less) (blk_offsets d)
    = binary_search_by (\<lambda>off. cmp (?key off) key) (blk_offsets d)"
    using at len by (intro binary_search_by_cong) (auto simp: in_set_conv_nth)
  show ?thesis
  proof (cases "key \<in> fst ` set ents")
    case False
    then have "key \<notin> ?key ` set (blk_offsets d)" using keys by (metis list.set_map)
    then obtain j where "binary_search_by (\<lambda>off. cmp (?key off) key) (blk_offsets d) = Inl j"
      using binary_search_by_miss by blast
    moreover have "map_of ents key = None" using False by (simp add: map_of_eq_None_iff)
    ultimately show ?thesis by (simp add: search_in_block_def search)
  next
    case True
    then obtain i where i: "i < length ents" "fst (ents ! i) = key" by (auto simp: in_set_conv_nth)
    have "binary_search_by (\<lambda>off. cmp (?key off) key) (blk_offsets d) = Inr i"
      using binary_search_by_hit [of ?key "blk_offsets d" i key] strict keys i len at by simp
    moreover obtain v where v: "evs ! i = (key, v)" "x_decode_record X v = Some (snd (ents ! i))"
      using records_match_nth [OF m] i by (cases "evs ! i") auto
    moreover obtain rest where "drop (unat (blk_offsets d ! i)) (blk_data d) = entry_bytes (key, v) @ rest"
      and "entry_fits (key, v)"
      using block_entry [OF d _ v(1)] i len by auto
    note entry_at [OF this]
    moreover have "map_of ents key = Some (snd (ents ! i))" using strict_keys_lookup [OF strict i(1)] i(2) by simp
    ultimately show ?thesis by (simp add: search_in_block_def search Let_def decode_record_def)
  qed
qed


subsection \<open>Reading a block of a finished file\<close>

text \<open>Block data from which the given entries can be read.\<close>

definition block_reads :: "('bl, 'c) crates \<Rightarrow> bytes \<Rightarrow> (bytes \<times> log_record) list \<Rightarrow> bool" where
  "block_reads X data ents \<longleftrightarrow>
     (\<exists>d evs. block_decode (x_crc32 X) data = Ok d \<and> block_holds evs d \<and> block_size_ok evs \<and> records_match X ents evs)"

definition reader_for :: "encryption_config \<Rightarrow> meta_block \<Rightarrow> bytes \<Rightarrow> 'bl sst_reader \<Rightarrow> bool" where
  "reader_for enc meta file rd \<longleftrightarrow>
     rd_metadata rd = meta \<and> rd_file rd = file \<and> rd_encryptor rd = encryptor_new enc \<and>
     (rd_mmap rd = None \<or> rd_mmap rd = Some file)"

lemma read_on_disk_at:
  assumes rd: "rd_file rd = file" "rd_mmap rd = None \<or> rd_mmap rd = Some file"
    and at: "drop off file = w @ u32_to_le x @ rest"
  shows "read_on_disk rd off (length w + 4) (length w) = Ok (w, x)"
proof -
  have len: "length file = off + length w + 4 + length rest" using drop_length [OF at] by simp
  have at2: "drop (off + length w) file = u32_to_le x @ rest" using drop_step [OF at] .
  have "file_read_exact file off (length w) = Ok w" "file_read_exact file (off + length w) 4 = Ok (u32_to_le x)"
    using at at2 len by (simp_all add: file_read_exact_in)
  moreover have "slice file off (off + length w) = Ok w" "u32_at file (off + length w) = Ok x"
    using slice_drop [OF at] u32_at_drop [OF at2] len by simp_all
  ultimately show ?thesis using rd len by (auto simp: read_on_disk_def Let_def)
qed

lemma laid_out_nth:
  "laid_out off segs \<Longrightarrow> i < length segs \<Longrightarrow>
     unat (bm_offset (fst (snd (segs ! i)))) = off + length (seg_bytes (take i segs))"
proof (induction segs arbitrary: off i)
  case (Cons s segs)
  then show ?case by (cases i) (auto simp: add.assoc)
qed simp

lemma chunk_at:
  assumes f: "sst_file X enc kvs segs meta mw file" and i: "i < length segs" "segs ! i = (ents, m, c)"
  shows "\<exists>rest. drop (unat (bm_offset m)) file = c @ rest"
proof -
  have "segs = take i segs @ segs ! i # drop (Suc i) segs" using i(1) by (rule id_take_nth_drop)
  then have bytes: "seg_bytes segs = seg_bytes (take i segs) @ c @ seg_bytes (drop (Suc i) segs)"
    by (metis (no_types, lifting) concat.simps(2) concat_append i(2) list.simps(9) map_append snd_conv)
  have "unat (bm_offset m) = 8 + length (seg_bytes (take i segs))"
    using laid_out_nth [OF sst_fileD(4) [OF f] i(1)] i(2) by simp
  then show ?thesis unfolding sst_fileD(6) [OF f] bytes by simp
qed

lemma read_and_decompress_correct:
  assumes f: "sst_file X enc kvs segs meta mw file" and rd: "reader_for enc meta file rd"
    and i: "i < length segs" "segs ! i = (ents, m, c)"
  shows "\<exists>data. read_and_decompress_block X rd m = Ok data \<and> block_reads X data ents"
proof -
  have "sealed_chunk X (encryptor_new enc) ents m c"
    using sst_fileD(5) [OF f] nth_mem [OF i(1)] i(2) by auto
  then obtain w cb data d evs where size: "unat (bm_size m) = length c" and c: "c = w @ u32_to_le (x_crc32 X w)"
    and dec: "decrypt_block X (encryptor_new enc) w = Ok cb" "x_decompress_size_prepended X cb = Some data"
      "length data = unat (bm_uncompressed_size m)"
    and block: "block_decode (x_crc32 X) data = Ok d" "block_holds evs d" "block_size_ok evs" "records_match X ents evs"
    by (auto simp: sealed_chunk_def)
  obtain rest where "drop (unat (bm_offset m)) file = w @ u32_to_le (x_crc32 X w) @ rest"
    using chunk_at [OF f i] c by auto
  then have "read_on_disk rd (unat (bm_offset m)) (unat (bm_size m)) (unat (bm_size m) - 4) = Ok (w, x_crc32 X w)"
    using read_on_disk_at [of rd "file" "unat (bm_offset m)" w] rd size c by (auto simp: reader_for_def)
  moreover have "(if en_enabled (rd_encryptor rd) then decrypt_block X (rd_encryptor rd) w else Ok w) = Ok cb"
    using dec(1) rd by (auto simp: reader_for_def decrypt_block_def)
  moreover have "\<not> unat (bm_size m) < 4" using size c by simp
  ultimately have "read_and_decompress_block X rd m = Ok data"
    using dec(2,3) by (simp add: read_and_decompress_block_def)
  then show ?thesis using block by (auto simp: block_reads_def)
qed

subsection \<open>The block cache\<close>

text \<open>Whatever the cache has for a block of this table is the data of that block.\<close>

definition cache_coherent :: "('bl, 'c) crates \<Rightarrow> u64 \<Rightarrow> segment list \<Rightarrow> 'c \<Rightarrow> bool" where
  "cache_coherent X table_id segs c \<longleftrightarrow>
     (\<forall>i data. i < length segs \<longrightarrow> cache_get X c table_id i = Some data \<longrightarrow> block_reads X data (fst (segs ! i)))"

lemma position_nth: "i < length xs \<Longrightarrow> P (xs ! i) \<Longrightarrow> \<forall>j<i. \<not> P (xs ! j) \<Longrightarrow> position P xs = Some i"
proof (induction xs arbitrary: i)
  case (Cons x xs)
  then show ?case by (cases i) fastforce+
qed simp

lemma block_position:
  assumes f: "sst_file X enc kvs segs meta mw file" and i: "i < length segs" "segs ! i = (ents, m, c)"
  shows "position (\<lambda>b. bm_offset b = bm_offset m) (mb_blocks meta) = Some i"
proof (rule position_nth)
  have blocks: "mb_blocks meta ! j = fst (snd (segs ! j))" if "j < length segs" for j
    using sst_fileD(8) [OF f] that by simp
  show "i < length (mb_blocks meta)" using sst_fileD(8) [OF f] i(1) by simp
  show "bm_offset (mb_blocks meta ! i) = bm_offset m" using blocks [OF i(1)] i(2) by simp
  show "\<forall>j<i. bm_offset (mb_blocks meta ! j) \<noteq> bm_offset m"
  proof (intro allI impI notI)
    fix j assume j: "j < i" and eq: "bm_offset (mb_blocks meta ! j) = bm_offset m"
    have at: "unat (bm_offset (fst (snd (segs ! n)))) = 8 + length (seg_bytes (take n segs))" if "n < length segs" for n
      using laid_out_nth [OF sst_fileD(4) [OF f] that] .
    have "take (Suc j) segs = take j segs @ [segs ! j]" using j i(1) by (simp add: take_Suc_conv_app_nth)
    moreover have "take i segs = take (Suc j) segs @ take (i - Suc j) (drop (Suc j) segs)"
      using j by (metis Suc_leI append_take_drop_id le_add_diff_inverse take_add)
    moreover have "4 \<le> length (snd (snd (segs ! j)))"
      using sst_fileD(5) [OF f] nth_mem [of j segs] j i(1) sealed_chunk_size by (fastforce split: prod.splits)
    ultimately have "length (seg_bytes (take j segs)) < length (seg_bytes (take i segs))"
      by (cases "snd (snd (segs ! j)) = []") simp_all
    with at [of j] at [OF i(1)] j i eq blocks [of j] show False by simp
  qed
qed

lemma read_block_correct:
  assumes f: "sst_file X enc kvs segs meta mw file" and rd: "reader_for enc meta file rd" and law: "cache_law X"
    and c: "cache_coherent X (rd_table_id rd) segs c" and i: "i < length segs" "segs ! i = (ents, m, ch)"
  shows "\<exists>data c'. read_block X rd m c = (Ok data, c') \<and> block_reads X data ents \<and> cache_coherent X (rd_table_id rd) segs c'"
proof -
  have pos: "position (\<lambda>b. bm_offset b = bm_offset m) (mb_blocks (rd_metadata rd)) = Some i"
    using block_position [OF f i] rd by (simp add: reader_for_def)
  obtain data where data: "read_and_decompress_block X rd m = Ok data" "block_reads X data ents"
    using read_and_decompress_correct [OF f rd i] by blast
  show ?thesis
  proof (cases "cache_get X c (rd_table_id rd) i")
    case None
    have "cache_coherent X (rd_table_id rd) segs (cache_put X c (rd_table_id rd) i data)"
      using c law data i unfolding cache_coherent_def cache_get_def cache_put_def cache_law_def
      by (metis (mono_tags, lifting) fst_conv old.prod.inject)
    then show ?thesis using None data pos by (simp add: read_block_def)
  next
    case (Some cached)
    then show ?thesis using c pos i by (auto simp: read_block_def cache_coherent_def)
  qed
qed


subsection \<open>The sparse index\<close>

abbreviation seg_first :: "segment \<Rightarrow> bytes" where
  "seg_first s \<equiv> fst (hd (fst s))"

definition segs_ok :: "segment list \<Rightarrow> bool" where
  "segs_ok segs \<longleftrightarrow> (\<forall>s\<in>set segs. fst s \<noteq> []) \<and> strict_keys (seg_ents segs)"

lemma segs_ok_Cons:
  assumes "segs_ok (s # segs)"
  shows "segs_ok segs" "strict_keys (fst s)" "\<forall>x\<in>set (fst s). seg_first s \<le> fst x"
    "\<forall>x\<in>set (fst s). \<forall>y\<in>set (seg_ents segs). fst x < fst y"
proof -
  have "strict_keys (fst s @ seg_ents segs)" and ne: "fst s \<noteq> []" "\<forall>s\<in>set segs. fst s \<noteq> []"
    using assms by (simp_all add: segs_ok_def)
  then have a: "strict_keys (fst s)" "strict_keys (seg_ents segs)"
    "\<forall>x\<in>set (fst s). \<forall>y\<in>set (seg_ents segs). fst x < fst y"
    unfolding strict_keys_append by blast+
  then show "segs_ok segs" "strict_keys (fst s)" "\<forall>x\<in>set (fst s). \<forall>y\<in>set (seg_ents segs). fst x < fst y"
    using ne by (simp_all add: segs_ok_def)
  show "\<forall>x\<in>set (fst s). seg_first s \<le> fst x"
    using a(1) ne(1) by (cases "fst s") (auto simp: less_imp_le)
qed

lemma segs_ok_first_less:
  assumes "segs_ok (s # segs)" "t \<in> set segs"
  shows "\<forall>x\<in>set (fst s). fst x < seg_first t"
proof -
  have "fst t \<noteq> []" using assms by (simp add: segs_ok_def)
  then have "hd (fst t) \<in> set (seg_ents segs)" using assms(2) by (auto intro!: bexI [of _ t])
  then show ?thesis using segs_ok_Cons(4) [OF assms(1)] by blast
qed

lemma segs_ok_firsts: "segs_ok segs \<Longrightarrow> sorted_wrt (<) (map seg_first segs)"
proof (induction segs)
  case (Cons s segs)
  have "hd (fst s) \<in> set (fst s)" using Cons.prems by (simp add: segs_ok_def)
  then have "\<forall>t\<in>set segs. seg_first s < seg_first t" using segs_ok_first_less [OF Cons.prems] by blast
  then show ?case using Cons.IH [OF segs_ok_Cons(1) [OF Cons.prems]] by simp
qed simp

text \<open>Before the block that the index picks, keys are smaller; after it, they are larger.\<close>

lemma seg_after: "segs_ok segs \<Longrightarrow> \<forall>s\<in>set segs. k < seg_first s \<Longrightarrow> \<forall>x\<in>set (seg_ents segs). k < fst x"
proof (induction segs)
  case (Cons s segs)
  then have "\<forall>x\<in>set (seg_ents segs). k < fst x" using segs_ok_Cons(1) by simp
  moreover have "\<forall>x\<in>set (fst s). k < fst x"
    using segs_ok_Cons(3) [OF Cons.prems(1)] Cons.prems(2) by (auto intro: less_le_trans)
  ultimately show ?case by (simp add: ball_Un)
qed simp

lemma seg_before:
  assumes "segs_ok (A @ s # B)" "seg_first s \<le> k"
  shows "\<forall>x\<in>set (seg_ents A). fst x < k"
proof -
  have "strict_keys (seg_ents A @ (fst s @ seg_ents B))" and "fst s \<noteq> []"
    using assms(1) by (simp_all add: segs_ok_def)
  then have "\<forall>x\<in>set (seg_ents A). fst x < seg_first s"
    unfolding strict_keys_append by (metis UnI1 hd_in_set set_append)
  then show ?thesis using assms(2) by (blast intro: less_le_trans)
qed

lemma segs_ok_append: "segs_ok (A @ B) \<Longrightarrow> segs_ok A \<and> segs_ok B"
  by (auto simp: segs_ok_def sorted_wrt_append)

text \<open>The split of the blocks at a key, as the index search makes it.\<close>

lemma index_split:
  assumes ok: "segs_ok segs" and fk: "\<forall>s\<in>set segs. bm_first_key (fst (snd s)) = seg_first s"
  obtains A B where "segs = A @ B" "partition_point (\<lambda>b. bm_first_key b \<le> k) (map (\<lambda>s. fst (snd s)) segs) = length A"
    "\<forall>s\<in>set A. seg_first s \<le> k" "\<forall>x\<in>set (seg_ents B). k < fst x"
proof
  let ?A = "takeWhile (\<lambda>s. seg_first s \<le> k) segs" and ?B = "dropWhile (\<lambda>s. seg_first s \<le> k) segs"
  show split: "segs = ?A @ ?B" by simp
  show "\<forall>s\<in>set ?A. seg_first s \<le> k" by (auto dest: set_takeWhileD)
  have keys: "map bm_first_key (map (\<lambda>s. fst (snd s)) segs) = map seg_first segs" using fk by simp
  have "takeWhile (\<lambda>b. bm_first_key b \<le> k) (map (\<lambda>s. fst (snd s)) segs) = map (\<lambda>s. fst (snd s)) ?A"
    unfolding takeWhile_map by (intro arg_cong [where f = "map _"] takeWhile_cong) (simp_all add: fk)
  then show "partition_point (\<lambda>b. bm_first_key b \<le> k) (map (\<lambda>s. fst (snd s)) segs) = length ?A"
    using partition_point_sorted [of bm_first_key "map (\<lambda>s. fst (snd s)) segs" k] segs_ok_firsts [OF ok]
    unfolding keys by simp
  have okB: "segs_ok ?B" using ok segs_ok_append split by metis
  have "\<forall>s\<in>set ?B. k < seg_first s"
  proof (cases ?B)
    case (Cons t ts)
    then have "k < seg_first t" by (metis hd_dropWhile list.discI list.sel(1) not_le)
    moreover have "\<forall>s\<in>set ts. seg_first t < seg_first s" using segs_ok_firsts [OF okB] Cons by simp
    ultimately show ?thesis unfolding Cons by auto
  next
    case Nil
    show ?thesis unfolding Nil by simp
  qed
  then show "\<forall>x\<in>set (seg_ents ?B). k < fst x" using seg_after [OF okB] by blast
qed


lemma sst_file_segs:
  assumes "sst_file X enc kvs segs meta mw file"
  shows "segs_ok segs" "\<forall>s\<in>set segs. bm_first_key (fst (snd s)) = seg_first s"
proof -
  note d = sst_fileD [OF assms]
  have "fst s \<noteq> [] \<and> bm_first_key (fst (snd s)) = seg_first s" if "s \<in> set segs" for s
    using d(5) that by (cases s) (auto simp: sealed_chunk_def)
  then show "segs_ok segs" "\<forall>s\<in>set segs. bm_first_key (fst (snd s)) = seg_first s"
    using d(1,3) by (auto simp: segs_ok_def)
qed

lemma map_of_outside: "\<forall>x\<in>set xs. fst x \<noteq> k \<Longrightarrow> map_of xs k = None"
  by (auto simp: map_of_eq_None_iff)

lemma map_of_middle:
  "\<forall>x\<in>set xs. fst x \<noteq> k \<Longrightarrow> \<forall>z\<in>set zs. fst z \<noteq> k \<Longrightarrow> map_of (xs @ ys @ zs) k = map_of ys k"
  by (simp add: map_of_append map_add_def map_of_outside split: option.splits)

lemma search_block_reads:
  "block_reads X data ents \<Longrightarrow> strict_keys ents \<Longrightarrow>
     and_then (block_decode (x_crc32 X) data) (\<lambda>block. search_in_block X block key) = Ok (map_of ents key)"
  using search_in_block_correct by (auto simp: block_reads_def)

lemma rd_get_correct:
  assumes f: "sst_file X enc kvs segs meta mw file" and rd: "reader_for enc meta file rd" and law: "cache_law X"
    and c: "cache_coherent X (rd_table_id rd) segs c" and bloom: "\<forall>k\<in>fst ` set kvs. might_contain X rd k"
  shows "\<exists>c'. rd_get X rd key c = (Ok (map_of kvs key), c') \<and> cache_coherent X (rd_table_id rd) segs c'"
proof -
  note ok = sst_file_segs [OF f]
  have blocks: "mb_blocks (rd_metadata rd) = map (\<lambda>s. fst (snd s)) segs" and kvs: "kvs = seg_ents segs"
    using sst_fileD(1,8) [OF f] rd by (simp_all add: reader_for_def)
  obtain A B where AB: "segs = A @ B" "\<forall>x\<in>set (seg_ents B). key < fst x" "\<forall>s\<in>set A. seg_first s \<le> key"
    and idx: "partition_point (\<lambda>b. bm_first_key b \<le> key) (map (\<lambda>s. fst (snd s)) segs) = length A"
    using index_split [OF ok] by metis
  have after: "\<forall>x\<in>set (seg_ents B). fst x \<noteq> key" using AB(2) by auto
  show ?thesis
  proof (cases "might_contain X rd key")
    case False
    then have "map_of kvs key = None" using bloom by (auto simp: map_of_eq_None_iff)
    with False c show ?thesis by (simp add: rd_get_def)
  next
    case True
    show ?thesis
    proof (cases A rule: rev_cases)
      case Nil
      then have "map_of kvs key = None" using after AB(1) kvs by (intro map_of_outside) simp
      then show ?thesis using Nil True c idx by (simp add: rd_get_def read_block_by_key_def blocks)
    next
      case (snoc A' s)
      obtain ents m ch where s: "s = (ents, m, ch)" by (cases s)
      have segs: "segs = A' @ s # B" using AB(1) snoc by simp
      have "\<forall>x\<in>set (seg_ents A'). fst x < key" using seg_before [of A' s B key] ok(1) AB(3) segs snoc by simp
      then have before: "\<forall>x\<in>set (seg_ents A'). fst x \<noteq> key" by auto
      have i: "length A' < length segs" "segs ! length A' = (ents, m, ch)" using segs s by simp_all
      have "map_of kvs key = map_of ents key"
        using map_of_middle [OF before after, of ents] segs s kvs by simp
      moreover have "segs_ok (s # B)" using segs_ok_append [of A' "s # B"] ok(1) unfolding segs by blast
      then have "strict_keys ents" using segs_ok_Cons(2) s by fastforce
      moreover have "read_block_by_key rd key = Some m"
        using idx snoc s segs by (simp add: read_block_by_key_def blocks nth_append)
      moreover obtain data c' where "read_block X rd m c = (Ok data, c')" "block_reads X data ents"
        "cache_coherent X (rd_table_id rd) segs c'"
        using read_block_correct [OF f rd law c i] by blast
      ultimately show ?thesis
        using True search_block_reads [of X data ents key] by (auto simp: rd_get_def)
    qed
  qed
qed


subsection \<open>Range scans\<close>

definition in_range :: "bytes option \<Rightarrow> bytes option \<Rightarrow> bytes \<Rightarrow> bool" where
  "in_range start stop k \<longleftrightarrow>
     (case start of Some s \<Rightarrow> s \<le> k | None \<Rightarrow> True) \<and> (case stop of Some e \<Rightarrow> k < e | None \<Rightarrow> True)"

text \<open>An entry of a block, at an offset.\<close>

definition entry_stored :: "('bl, 'c) crates \<Rightarrow> bytes \<Rightarrow> u32 \<Rightarrow> bytes \<times> log_record \<Rightarrow> bool" where
  "entry_stored X data off e \<longleftrightarrow>
     (\<exists>v rest. drop (unat off) data = entry_bytes (fst e, v) @ rest \<and> entry_fits (fst e, v)
        \<and> x_decode_record X v = Some (snd e))"

lemma block_entries_stored:
  assumes "block_holds evs d" "block_size_ok evs" "records_match X ents evs"
  shows "list_all2 (entry_stored X (blk_data d)) (blk_offsets d) ents"
proof (rule list_all2_all_nthI)
  note m = records_match_nth [OF assms(3)]
  show len: "length (blk_offsets d) = length ents" using block_holds_length [OF assms(1)] m by simp
  fix i assume "i < length (blk_offsets d)"
  then have i: "i < length ents" "i < length evs" using len m by simp_all
  obtain k v where kv: "evs ! i = (k, v)" by fastforce
  have "fst (evs ! i) = fst (ents ! i)" "x_decode_record X (snd (evs ! i)) = Some (snd (ents ! i))"
    using m i(1) by blast+
  then show "entry_stored X (blk_data d) (blk_offsets d ! i) (ents ! i)"
    using block_entry [OF assms(1,2) i(2) kv] kv by (auto simp: entry_stored_def)
qed

lemma filter_beyond:
  assumes "strict_keys ((k, r) # es)" "stop = Some e" "e \<le> k"
  shows "filter (\<lambda>x. in_range start stop (fst x)) ((k, r) # es) = []"
proof -
  have "\<forall>x\<in>set ((k, r) # es). \<not> fst x < e" using assms by (auto simp: not_less dest: order_trans)
  then show ?thesis using assms(2) by (auto simp: in_range_def filter_empty_conv)
qed

lemma scan_entries_correct:
  "list_all2 (entry_stored X data) offs ents \<Longrightarrow> strict_keys ents \<Longrightarrow>
     scan_entries X data start stop offs recs = Ok (recs @ filter (\<lambda>x. in_range start stop (fst x)) ents)"
proof (induction offs ents arbitrary: recs rule: list_all2_induct)
  case (Cons off offs e ents)
  obtain k r where e: "e = (k, r)" by (cases e)
  obtain v rest where at: "drop (unat off) data = entry_bytes (k, v) @ rest" "entry_fits (k, v)"
    and dec: "x_decode_record X v = Some r"
    using Cons.hyps(1) e by (auto simp: entry_stored_def)
  note entry = entry_at [OF at]
  have IH: "scan_entries X data start stop offs recs' = Ok (recs' @ filter (\<lambda>x. in_range start stop (fst x)) ents)" for recs'
    using Cons by simp
  show ?case
  proof (cases "case start of Some s \<Rightarrow> k < s | None \<Rightarrow> False")
    case True
    then have "\<not> in_range start stop k" by (auto simp: in_range_def split: option.splits)
    then show ?thesis using True entry IH e by (simp add: Let_def)
  next
    case False
    note lower = False
    show ?thesis
    proof (cases "case stop of Some e \<Rightarrow> e \<le> k | None \<Rightarrow> False")
      case True
      then obtain x where "stop = Some x" "x \<le> k" by (auto split: option.splits)
      then have "filter (\<lambda>x. in_range start stop (fst x)) (e # ents) = []"
        using filter_beyond [of k r ents] Cons.prems e by simp
      then show ?thesis using lower True entry e by (simp add: Let_def)
    next
      case False
      with lower have "in_range start stop k" by (auto simp: in_range_def not_less not_le split: option.splits)
      then show ?thesis using lower False entry IH e dec by (simp add: Let_def decode_record_def)
    qed
  qed
qed simp

lemma scan_block_reads:
  "block_reads X data ents \<Longrightarrow> strict_keys ents \<Longrightarrow>
     and_then (block_decode (x_crc32 X) data) (\<lambda>block.
       scan_entries X (blk_data block) start stop (blk_offsets block) recs)
     = Ok (recs @ filter (\<lambda>x. in_range start stop (fst x)) ents)"
  by (auto simp: block_reads_def scan_entries_correct block_entries_stored)

lemma scan_blocks_correct:
  assumes f: "sst_file X enc kvs segs meta mw file" and rd: "reader_for enc meta file rd" and law: "cache_law X"
    and "cache_coherent X (rd_table_id rd) segs c" "segs = pre @ suf"
  shows "\<exists>c'. scan_blocks X rd start stop (map (\<lambda>s. fst (snd s)) suf) recs c
      = (Ok (recs @ filter (\<lambda>x. in_range start stop (fst x)) (seg_ents suf)), c')
    \<and> cache_coherent X (rd_table_id rd) segs c'"
  using assms(4,5)
proof (induction suf arbitrary: pre recs c)
  case (Cons s suf)
  obtain ents m ch where s: "s = (ents, m, ch)" by (cases s)
  have i: "length pre < length segs" "segs ! length pre = (ents, m, ch)" using Cons.prems(2) s by simp_all
  have ok: "segs_ok (s # suf)" using sst_file_segs(1) [OF f] segs_ok_append [of pre] Cons.prems(2) by blast
  have fk: "bm_first_key m = seg_first s" using sst_file_segs(2) [OF f] Cons.prems(2) s by fastforce
  have strict: "strict_keys ents" using segs_ok_Cons(2) [OF ok] s by simp
  show ?case
  proof (cases "case stop of Some e \<Rightarrow> e \<le> bm_first_key m | None \<Rightarrow> False")
    case True
    then obtain e where e: "stop = Some e" "e \<le> seg_first s" using fk by (auto split: option.splits)
    have "strict_keys (seg_ents (s # suf))" "seg_ents (s # suf) \<noteq> []" using ok by (auto simp: segs_ok_def)
    then obtain k r es where es: "seg_ents (s # suf) = (k, r) # es" by (cases "seg_ents (s # suf)") auto
    have "k = seg_first s" using es ok by (cases "fst s") (auto simp: segs_ok_def)
    moreover have "strict_keys ((k, r) # es)" using ok unfolding segs_ok_def es by blast
    ultimately have "filter (\<lambda>x. in_range start stop (fst x)) (seg_ents (s # suf)) = []"
      unfolding es using e by (intro filter_beyond) simp_all
    then show ?thesis using True s Cons.prems(1) by (auto simp: fk)
  next
    case False
    obtain data c1 where read: "read_block X rd m c = (Ok data, c1)" "block_reads X data ents"
      "cache_coherent X (rd_table_id rd) segs c1"
      using read_block_correct [OF f rd law Cons.prems(1) i] by blast
    obtain c2 where "scan_blocks X rd start stop (map (\<lambda>s. fst (snd s)) suf)
        (recs @ filter (\<lambda>x. in_range start stop (fst x)) ents) c1
      = (Ok ((recs @ filter (\<lambda>x. in_range start stop (fst x)) ents)
          @ filter (\<lambda>x. in_range start stop (fst x)) (seg_ents suf)), c2)"
      "cache_coherent X (rd_table_id rd) segs c2"
      using Cons.IH [OF read(3), of "pre @ [s]" "recs @ filter (\<lambda>x. in_range start stop (fst x)) ents"]
        Cons.prems(2) by auto
    then show ?thesis using False s read(1) by (auto simp: scan_block_reads [OF read(2) strict])
  qed
qed simp


lemma scan_range_correct:
  assumes f: "sst_file X enc kvs segs meta mw file" and rd: "reader_for enc meta file rd" and law: "cache_law X"
    and c: "cache_coherent X (rd_table_id rd) segs c"
  shows "\<exists>c'. scan_range X rd start stop c = (Ok (filter (\<lambda>x. in_range start stop (fst x)) kvs), c')
    \<and> cache_coherent X (rd_table_id rd) segs c'"
proof -
  note ok = sst_file_segs [OF f]
  let ?P = "\<lambda>x. in_range start stop (fst x)"
  have blocks: "mb_blocks (rd_metadata rd) = map (\<lambda>s. fst (snd s)) segs" and kvs: "kvs = seg_ents segs"
    using sst_fileD(1,8) [OF f] rd by (simp_all add: reader_for_def)
  define n where "n = (case start of
      Some start_key \<Rightarrow>
        (let idx = partition_point (\<lambda>b. bm_first_key b \<le> start_key) (map (\<lambda>s. fst (snd s)) segs)
         in if idx = 0 then 0 else idx - 1)
    | None \<Rightarrow> 0)"
  have skipped: "filter ?P (seg_ents (take n segs)) = []"
  proof (cases start)
    case (Some k)
    obtain A B where AB: "segs = A @ B" "\<forall>s\<in>set A. seg_first s \<le> k"
      and idx: "partition_point (\<lambda>b. bm_first_key b \<le> k) (map (\<lambda>s. fst (snd s)) segs) = length A"
      using index_split [OF ok] by metis
    show ?thesis
    proof (cases A rule: rev_cases)
      case Nil
      then show ?thesis using Some idx by (simp add: n_def)
    next
      case (snoc A' s)
      have "\<forall>x\<in>set (seg_ents A'). fst x < k" using seg_before [of A' s B k] ok(1) AB snoc by simp
      moreover have "take n segs = A'" using Some idx snoc AB(1) by (simp add: n_def)
      ultimately show ?thesis using Some by (fastforce simp: in_range_def filter_empty_conv)
    qed
  qed (simp add: n_def)
  have "kvs = seg_ents (take n segs) @ seg_ents (drop n segs)"
    unfolding kvs by (metis append_take_drop_id concat_append map_append)
  then have "filter ?P kvs = filter ?P (seg_ents (drop n segs))" using skipped by simp
  moreover have "scan_range X rd start stop c
      = scan_blocks X rd start stop (map (\<lambda>s. fst (snd s)) (drop n segs)) [] c"
    by (simp add: scan_range_def blocks n_def drop_map Let_def)
  ultimately show ?thesis
    using scan_blocks_correct [OF f rd law c, of "take n segs" "drop n segs" start stop "[]"] by simp
qed

subsection \<open>Properties\<close>

text \<open>The reader that \<open>open\<close> returns for a finished file.\<close>

lemma rd_open_file:
  assumes f: "sst_file X enc kvs segs meta mw file" and laws: "crate_laws X rng"
    and small: "length file < 2 ^ 32" "length kvs < 2 ^ 64"
  shows "\<exists>rd. rd_open X file enc tid mm = Ok rd \<and> reader_for enc meta file rd \<and> rd_table_id rd = tid
    \<and> (\<forall>k\<in>fst ` set kvs. might_contain X rd k)"
proof -
  obtain bl where bl: "mb_bloom_filter_data meta = x_bloom_to_bytes X bl" "\<forall>k\<in>fst ` set kvs. x_bloom_check X bl k"
    using sst_fileD(12) [OF f] by blast
  have law: "x_bloom_from_bytes X (x_bloom_to_bytes X bl) = Some bl' \<Longrightarrow> x_bloom_check X bl k \<Longrightarrow> x_bloom_check X bl' k"
    for bl' k using laws by (auto simp: crate_laws_def bloom_law_def)
  show ?thesis
    using metadata_read_file [OF f laws small] bl law
    by (auto simp: rd_open_def reader_for_def might_contain_def metadata_bloom_def split: option.splits)
qed

text \<open>C8: an SSTable that has been built and opened returns, for every key, exactly the record that
  was added under it, and nothing for a key that was not added. This holds whether the file is
  memory-mapped or not, with or without encryption and prefix compression, for any cache that
  starts without blocks of this table.\<close>

theorem sstable_get_correct:
  assumes "sst_build X rng cfg ts enc kvs = Ok file" and "crate_laws X rng" and "valid_config cfg"
    and "\<forall>e\<in>set kvs. valid_entry X cfg e" and "length file < 2 ^ 32" and "length kvs < 2 ^ 64"
    and "\<forall>i. x_cache_get X c (tid, i) = None"
  shows "\<exists>rd c'. rd_open X file enc tid mm = Ok rd \<and> rd_get X rd key c = (Ok (map_of kvs key), c')"
proof -
  obtain segs meta mw where f: "sst_file X enc kvs segs meta mw file"
    using sst_build_file [OF assms(1-5)] by blast
  obtain rd where rd: "rd_open X file enc tid mm = Ok rd" "reader_for enc meta file rd" "rd_table_id rd = tid"
    "\<forall>k\<in>fst ` set kvs. might_contain X rd k"
    using rd_open_file [OF f assms(2,5,6)] by blast
  have "cache_coherent X (rd_table_id rd) segs c"
    using assms(7) rd(3) by (simp add: cache_coherent_def cache_get_def)
  then show ?thesis
    using rd_get_correct [OF f rd(2) _ _ rd(4)] rd(1) assms(2) by (auto simp: crate_laws_def)
qed

theorem sstable_get_correct_witness:
  "\<exists>rd c'. rd_open demo_crates demo_file encryption_default 3 True = Ok rd \<and>
     rd_get demo_crates rd [1] () = (Ok (Some (log_record_new 0 [1] [2])), c')"
  using sstable_get_correct [OF demo_build demo_laws demo_sizes(1-4), of "()" 3 True "[1]"] demo_sizes(5)
  by (simp add: demo_entries_def)

text \<open>C14: a range scan of an SSTable returns exactly the records whose keys lie in the range, from the
  lower bound (included) to the upper bound (excluded), in increasing key order, each once.\<close>

theorem sstable_scan_correct:
  assumes "sst_build X rng cfg ts enc kvs = Ok file" and "crate_laws X rng" and "valid_config cfg"
    and "\<forall>e\<in>set kvs. valid_entry X cfg e" and "length file < 2 ^ 32" and "length kvs < 2 ^ 64"
    and "\<forall>i. x_cache_get X c (tid, i) = None"
  shows "strict_keys kvs \<and> (\<exists>rd c'. rd_open X file enc tid mm = Ok rd \<and>
    scan_range X rd start stop c = (Ok (filter (\<lambda>e. in_range start stop (fst e)) kvs), c'))"
proof -
  obtain segs meta mw where f: "sst_file X enc kvs segs meta mw file"
    using sst_build_file [OF assms(1-5)] by blast
  obtain rd where rd: "rd_open X file enc tid mm = Ok rd" "reader_for enc meta file rd" "rd_table_id rd = tid"
    using rd_open_file [OF f assms(2,5,6)] by blast
  have coherent: "cache_coherent X (rd_table_id rd) segs c" and law: "cache_law X"
    using assms(2,7) rd(3) by (simp_all add: cache_coherent_def cache_get_def crate_laws_def)
  from scan_range_correct [OF f rd(2) law coherent, of start stop] show ?thesis
    using rd(1) sst_fileD(3) [OF f] by auto
qed


theorem sstable_scan_correct_witness:
  "\<exists>rd c'. rd_open demo_crates demo_file encryption_default 3 False = Ok rd \<and>
     scan_range demo_crates rd (Some [0]) (Some [2]) () = (Ok demo_entries, c')"
  using sstable_scan_correct [OF demo_build demo_laws demo_sizes(1-4), of "()" 3 False "Some [0]" "Some [2]"]
    demo_sizes(5)
  by (simp add: demo_entries_def in_range_def)

end
