(* ===== verification/Storage_Iterator.thy ===== *)
theory Storage_Iterator
  imports Log_Record Rust_Std
begin

text \<open>
  The trait \<open>StorageIterator\<close> of \<open>src/core/iterators.rs\<close> as an interface, and its three plain
  implementations: \<open>MemTableIterator\<close> (\<open>src/storage/iterator.rs\<close>), \<open>TableIterator\<close>
  (\<open>src/core/table.rs\<close>) and the boxed trait object \<open>Box<dyn StorageIterator>\<close>, which in the
  program holds one of these two.

  The contract: an iterator stands for the list of entries that are still to come; \<open>next\<close> drops
  the first, \<open>seek\<close> drops those with smaller keys. An entry is a key, a value and, where the
  storage has it, the whole record.
\<close>

type_synonym ientry = "bytes \<times> bytes \<times> log_record option"

subsection \<open>\<open>MemTableIterator\<close>\<close>

record memtable_iterator =
  mi_entries :: "(bytes \<times> log_record) list"
  mi_pos :: nat

definition memtable_iterator_new :: "(bytes \<times> log_record) list \<Rightarrow> memtable_iterator" where
  "memtable_iterator_new es = \<lparr>mi_entries = es, mi_pos = 0\<rparr>"

definition mi_record :: "memtable_iterator \<Rightarrow> log_record option" where
  "mi_record it =
     (if mi_pos it < length (mi_entries it) then Some (snd (mi_entries it ! mi_pos it)) else None)"

definition mi_key :: "memtable_iterator \<Rightarrow> bytes" where
  "mi_key it =
     (if mi_pos it < length (mi_entries it) then fst (mi_entries it ! mi_pos it) else [])"

definition mi_value :: "memtable_iterator \<Rightarrow> bytes" where
  "mi_value it =
     (if mi_pos it < length (mi_entries it) then lr_value (snd (mi_entries it ! mi_pos it)) else [])"

definition mi_is_valid :: "memtable_iterator \<Rightarrow> bool" where
  "mi_is_valid it \<longleftrightarrow> mi_pos it < length (mi_entries it)"

definition mi_next :: "memtable_iterator \<Rightarrow> memtable_iterator" where
  "mi_next it = it\<lparr>mi_pos := mi_pos it + 1\<rparr>"

function mi_seek :: "bytes \<Rightarrow> memtable_iterator \<Rightarrow> memtable_iterator" where
  "mi_seek key it =
     (if mi_pos it < length (mi_entries it) \<and> fst (mi_entries it ! mi_pos it) < key
      then mi_seek key (it\<lparr>mi_pos := mi_pos it + 1\<rparr>)
      else it)"
  by pat_completeness auto
termination
  by (relation "measure (\<lambda>(_, it). length (mi_entries it) - mi_pos it)") auto

declare mi_seek.simps [simp del]

definition mi_remaining :: "memtable_iterator \<Rightarrow> ientry list" where
  "mi_remaining it = map (\<lambda>(k, r). (k, lr_value r, Some r)) (drop (mi_pos it) (mi_entries it))"

subsection \<open>\<open>TableIterator\<close>\<close>

text \<open>\<open>btree_map::Iter\<close> is the list of pairs that it has not handed out yet.\<close>

record table_iterator =
  ti_inner :: "(bytes \<times> bytes) list"
  ti_current :: "(bytes \<times> bytes) option"

definition ti_next :: "table_iterator \<Rightarrow> table_iterator" where
  "ti_next it =
     (case ti_inner it of
        [] \<Rightarrow> it\<lparr>ti_current := None\<rparr>
      | x # xs \<Rightarrow> \<lparr>ti_inner = xs, ti_current = Some x\<rparr>)"

definition table_iterator_new :: "(bytes, bytes) btree_map \<Rightarrow> table_iterator" where
  "table_iterator_new data = ti_next \<lparr>ti_inner = data, ti_current = None\<rparr>"

definition ti_key :: "table_iterator \<Rightarrow> bytes" where
  "ti_key it = (case ti_current it of Some (k, _) \<Rightarrow> k | None \<Rightarrow> [])"

definition ti_value :: "table_iterator \<Rightarrow> bytes" where
  "ti_value it = (case ti_current it of Some (_, v) \<Rightarrow> v | None \<Rightarrow> [])"

definition ti_is_valid :: "table_iterator \<Rightarrow> bool" where
  "ti_is_valid it \<longleftrightarrow> ti_current it \<noteq> None"

text \<open>The size that every \<open>next\<close> of a live iterator decreases.\<close>

definition ti_weight :: "table_iterator \<Rightarrow> nat" where
  "ti_weight it = 2 * length (ti_inner it) + (if ti_current it = None then 0 else 1)"

lemma ti_weight_next: "ti_is_valid it \<or> ti_is_valid (ti_next it) \<Longrightarrow> ti_weight (ti_next it) < ti_weight it"
  by (cases "ti_inner it") (auto simp: ti_weight_def ti_next_def ti_is_valid_def)

function ti_seek :: "bytes \<Rightarrow> table_iterator \<Rightarrow> table_iterator" where
  "ti_seek key it =
     (if ti_is_valid it \<and> ti_key it < key then ti_seek key (ti_next it) else it)"
  by pat_completeness auto
termination
  by (relation "measure (\<lambda>(_, it). ti_weight it)") (auto simp: ti_weight_next)

declare ti_seek.simps [simp del]

definition ti_remaining :: "table_iterator \<Rightarrow> ientry list" where
  "ti_remaining it =
     (case ti_current it of
        None \<Rightarrow> []
      | Some kv \<Rightarrow> map (\<lambda>(k, v). (k, v, None)) (kv # ti_inner it))"

text \<open>\<open>current\<close> is empty only when the inner iterator has run out.\<close>

definition ti_wf :: "table_iterator \<Rightarrow> bool" where
  "ti_wf it \<longleftrightarrow> (ti_current it = None \<longrightarrow> ti_inner it = [])"

subsection \<open>\<open>Box<dyn StorageIterator>\<close>\<close>

datatype box_iter = BoxMem memtable_iterator | BoxTable table_iterator

primrec bi_record :: "box_iter \<Rightarrow> log_record option" where
  "bi_record (BoxMem it) = mi_record it"
| "bi_record (BoxTable it) = None"

primrec bi_next :: "box_iter \<Rightarrow> box_iter" where
  "bi_next (BoxMem it) = BoxMem (mi_next it)"
| "bi_next (BoxTable it) = BoxTable (ti_next it)"

primrec bi_key :: "box_iter \<Rightarrow> bytes" where
  "bi_key (BoxMem it) = mi_key it"
| "bi_key (BoxTable it) = ti_key it"

primrec bi_value :: "box_iter \<Rightarrow> bytes" where
  "bi_value (BoxMem it) = mi_value it"
| "bi_value (BoxTable it) = ti_value it"

primrec bi_is_valid :: "box_iter \<Rightarrow> bool" where
  "bi_is_valid (BoxMem it) \<longleftrightarrow> mi_is_valid it"
| "bi_is_valid (BoxTable it) \<longleftrightarrow> ti_is_valid it"

primrec bi_seek :: "bytes \<Rightarrow> box_iter \<Rightarrow> box_iter" where
  "bi_seek key (BoxMem it) = BoxMem (mi_seek key it)"
| "bi_seek key (BoxTable it) = BoxTable (ti_seek key it)"

primrec bi_remaining :: "box_iter \<Rightarrow> ientry list" where
  "bi_remaining (BoxMem it) = mi_remaining it"
| "bi_remaining (BoxTable it) = ti_remaining it"

primrec bi_wf :: "box_iter \<Rightarrow> bool" where
  "bi_wf (BoxMem it) \<longleftrightarrow> True"
| "bi_wf (BoxTable it) \<longleftrightarrow> ti_wf it"

primrec bi_weight :: "box_iter \<Rightarrow> nat" where
  "bi_weight (BoxMem it) = length (mi_entries it) - mi_pos it"
| "bi_weight (BoxTable it) = ti_weight it"

subsection \<open>The contract\<close>

locale storage_iterator =
  fixes is_valid :: "'i \<Rightarrow> bool"
    and key :: "'i \<Rightarrow> bytes"
    and value_of :: "'i \<Rightarrow> bytes"
    and record_of :: "'i \<Rightarrow> log_record option"
    and advance :: "'i \<Rightarrow> 'i"
    and seek :: "bytes \<Rightarrow> 'i \<Rightarrow> 'i"
    and wf :: "'i \<Rightarrow> bool"
    and remaining :: "'i \<Rightarrow> ientry list"
  assumes valid_iff: "wf it \<Longrightarrow> is_valid it \<longleftrightarrow> remaining it \<noteq> []"
    and head: "wf it \<Longrightarrow> remaining it = (k, v, r) # es \<Longrightarrow> key it = k \<and> value_of it = v \<and> record_of it = r"
    and next_wf: "wf it \<Longrightarrow> wf (advance it)"
    and next_remaining: "wf it \<Longrightarrow> remaining (advance it) = tl (remaining it)"
    and seek_wf: "wf it \<Longrightarrow> wf (seek k it)"
    and seek_remaining:
      "wf it \<Longrightarrow> remaining (seek k it) = dropWhile (\<lambda>e. fst e < k) (remaining it)"
begin

text \<open>Advancing \<open>n\<close> times.\<close>

lemma nexts_wf: "wf it \<Longrightarrow> wf ((advance ^^ n) it)"
  by (induction n) (simp_all add: next_wf)

lemma nexts_remaining: "wf it \<Longrightarrow> remaining ((advance ^^ n) it) = drop n (remaining it)"
  by (induction n) (simp_all add: next_remaining nexts_wf drop_Suc tl_drop)

lemma nexts_valid: "wf it \<Longrightarrow> is_valid ((advance ^^ n) it) \<longleftrightarrow> n < length (remaining it)"
  using valid_iff [OF nexts_wf] nexts_remaining by auto

lemma nexts_entry:
  assumes "wf it" "n < length (remaining it)"
  shows "(key ((advance ^^ n) it), value_of ((advance ^^ n) it), record_of ((advance ^^ n) it)) = remaining it ! n"
proof -
  have "remaining ((advance ^^ n) it) = remaining it ! n # drop (Suc n) (remaining it)"
    using assms by (simp add: nexts_remaining Cons_nth_drop_Suc)
  with assms head [OF nexts_wf, of it n] show ?thesis by (cases "remaining it ! n") auto
qed

text \<open>After a seek on sorted entries, exactly the entries from the sought key on are left.\<close>

lemma seek_sorted:
  assumes "wf it" "sorted_wrt (<) (map fst (remaining it))"
  shows "remaining (seek k it) = filter (\<lambda>e. k \<le> fst e) (remaining it)"
proof -
  have "dropWhile (\<lambda>e. fst e < k) es = filter (\<lambda>e. k \<le> fst e) es"
    if "sorted_wrt (<) (map fst es)" for es :: "ientry list"
    using that by (induction es) (auto simp: not_less intro!: filter_True [symmetric] dest: order_trans)
  then show ?thesis using assms seek_remaining by simp
qed

end


subsection \<open>The implementations meet the contract\<close>

lemma mi_seek_remaining: "mi_remaining (mi_seek k it) = dropWhile (\<lambda>e. fst e < k) (mi_remaining it)"
proof (induction k it rule: mi_seek.induct)
  case (1 k it)
  show ?case
  proof (cases "mi_pos it < length (mi_entries it)")
    case True
    then have "drop (mi_pos it) (mi_entries it)
        = mi_entries it ! mi_pos it # drop (Suc (mi_pos it)) (mi_entries it)"
      by (simp add: Cons_nth_drop_Suc)
    then show ?thesis
      using 1 True by (simp add: mi_seek.simps [of k it] mi_remaining_def split: prod.split)
  next
    case False
    then show ?thesis by (simp add: mi_seek.simps mi_remaining_def)
  qed
qed

lemma mi_next_remaining: "mi_remaining (mi_next it) = tl (mi_remaining it)"
  by (simp add: mi_remaining_def mi_next_def drop_Suc drop_tl map_tl)

interpretation mem_iter: storage_iterator mi_is_valid mi_key mi_value mi_record mi_next mi_seek
  "\<lambda>_. True" mi_remaining
proof
  fix it k v r es
  assume "mi_remaining it = (k, v, r) # es"
  moreover from this have "mi_pos it < length (mi_entries it)"
    by (cases "mi_pos it < length (mi_entries it)") (simp_all add: mi_remaining_def)
  ultimately show "mi_key it = k \<and> mi_value it = v \<and> mi_record it = r"
    using Cons_nth_drop_Suc [of "mi_pos it" "mi_entries it", symmetric]
    by (auto simp: mi_remaining_def mi_key_def mi_value_def mi_record_def split: prod.splits)
next
  fix it show "mi_is_valid it \<longleftrightarrow> mi_remaining it \<noteq> []"
    by (simp add: mi_is_valid_def mi_remaining_def not_le)
qed (simp_all add: mi_next_remaining mi_seek_remaining)

lemma ti_next_wf: "ti_wf it \<Longrightarrow> ti_wf (ti_next it)"
  by (auto simp: ti_wf_def ti_next_def split: list.splits)

lemma ti_next_remaining: "ti_wf it \<Longrightarrow> ti_remaining (ti_next it) = tl (ti_remaining it)"
  by (auto simp: ti_wf_def ti_next_def ti_remaining_def split: list.splits option.splits)

lemma ti_seek_spec:
  "ti_wf it \<Longrightarrow> ti_wf (ti_seek k it)
     \<and> ti_remaining (ti_seek k it) = dropWhile (\<lambda>e. fst e < k) (ti_remaining it)"
proof (induction k it rule: ti_seek.induct)
  case (1 k it)
  show ?case
  proof (cases "ti_is_valid it \<and> ti_key it < k")
    case True
    then have "dropWhile (\<lambda>e. fst e < k) (ti_remaining it)
        = dropWhile (\<lambda>e. fst e < k) (tl (ti_remaining it))"
      by (auto simp: ti_remaining_def ti_is_valid_def ti_key_def)
    then show ?thesis
      using 1 True by (simp add: ti_seek.simps [of k it] ti_next_wf ti_next_remaining)
  next
    case False
    then show ?thesis
      using "1.prems" by (auto simp: ti_seek.simps [of k it] ti_remaining_def ti_is_valid_def ti_key_def
          split: option.splits)
  qed
qed

interpretation table_iter: storage_iterator ti_is_valid ti_key ti_value "\<lambda>_. None" ti_next ti_seek
  ti_wf ti_remaining
proof
  fix it k v r es
  assume "ti_remaining it = (k, v, r) # es"
  then show "ti_key it = k \<and> ti_value it = v \<and> None = r"
    by (auto simp: ti_remaining_def ti_key_def ti_value_def split: option.splits)
next
  fix it show "ti_is_valid it \<longleftrightarrow> ti_remaining it \<noteq> []"
    by (simp add: ti_is_valid_def ti_remaining_def split: option.splits)
qed (simp_all add: ti_next_wf ti_next_remaining ti_seek_spec)

interpretation box_iter: storage_iterator bi_is_valid bi_key bi_value bi_record bi_next bi_seek
  bi_wf bi_remaining
proof
  fix it k v r es
  assume "bi_wf it" "bi_remaining it = (k, v, r) # es"
  then show "bi_key it = k \<and> bi_value it = v \<and> bi_record it = r"
    by (cases it) (simp_all add: mem_iter.head table_iter.head)
next
  fix it show "bi_wf it \<Longrightarrow> bi_is_valid it \<longleftrightarrow> bi_remaining it \<noteq> []"
    by (cases it) (simp_all add: mem_iter.valid_iff table_iter.valid_iff)
next
  fix it show "bi_wf it \<Longrightarrow> bi_wf (bi_next it)"
    by (cases it) (simp_all add: ti_next_wf)
next
  fix it show "bi_wf it \<Longrightarrow> bi_remaining (bi_next it) = tl (bi_remaining it)"
    by (cases it) (simp_all add: mem_iter.next_remaining ti_next_remaining)
next
  fix it k show "bi_wf it \<Longrightarrow> bi_wf (bi_seek k it)"
    by (cases it) (simp_all add: ti_seek_spec)
next
  fix it k show "bi_wf it \<Longrightarrow> bi_remaining (bi_seek k it) = dropWhile (\<lambda>e. fst e < k) (bi_remaining it)"
    by (cases it) (simp_all add: mi_seek_remaining ti_seek_spec)
qed

text \<open>Advancing a live iterator makes it lighter, which is what bounds the merge loops.\<close>

lemma bi_weight_next:
  "bi_is_valid it \<or> bi_is_valid (bi_next it) \<Longrightarrow> bi_weight (bi_next it) < bi_weight it"
  by (cases it) (auto simp: mi_is_valid_def mi_next_def ti_weight_next)

lemma memtable_iterator_new_remaining:
  "mi_remaining (memtable_iterator_new es) = map (\<lambda>(k, r). (k, lr_value r, Some r)) es"
  by (simp add: mi_remaining_def memtable_iterator_new_def)

lemma table_iterator_new_spec:
  "ti_wf (table_iterator_new data)"
  "ti_remaining (table_iterator_new data) = map (\<lambda>(k, v). (k, v, None)) data"
  by (auto simp: table_iterator_new_def ti_next_def ti_wf_def ti_remaining_def split: list.splits)

end
