(* ===== verification/Merge_Iterator.thy ===== *)
theory Merge_Iterator
  imports Storage_Iterator
begin

text \<open>
  The merging iterator of \<open>src/core/iterators.rs\<close>: a heap of boxed iterators, numbered by age
  (index 0 is the newest), from which the smallest key comes out first and, among equal keys, the
  one of the newest iterator. What is shown: it yields every key once, in increasing order, with
  the entry of the newest iterator that has the key, and it meets the iterator contract itself.
\<close>

record heap_entry =
  he_iter :: box_iter
  he_index :: nat

definition cmp_heap_entry :: "heap_entry \<Rightarrow> heap_entry \<Rightarrow> ordering" where
  "cmp_heap_entry self other =
     (let ord = cmp (bi_key (he_iter other)) (bi_key (he_iter self))
      in if ord = Equal then cmp (he_index other) (he_index self) else ord)"

record merge_iterator =
  mg_heap :: "heap_entry list"
  mg_current_key :: "bytes option"

text \<open>The entry that is popped, advanced and pushed back if it is still valid.\<close>

definition advance_entry :: "heap_entry \<Rightarrow> heap_entry list \<Rightarrow> heap_entry list" where
  "advance_entry e h =
     (let e' = e\<lparr>he_iter := bi_next (he_iter e)\<rparr>
      in if bi_is_valid (he_iter e') then heap_push e' h else h)"

text \<open>Total weight of a heap; it bounds the loops below.\<close>

definition heap_weight :: "heap_entry list \<Rightarrow> nat" where
  "heap_weight h = (\<Sum>e\<leftarrow>h. bi_weight (he_iter e) + 1)"

lemma heap_weight_advance:
  assumes "heap_pop c h = Some (e, h')"
  shows "heap_weight (advance_entry e h') < heap_weight h"
proof -
  have e: "e \<in> set h" and h': "h' = remove1 e h"
    using assms by (auto simp: heap_pop_Some heap_peek_in)
  have "heap_weight h = heap_weight h' + bi_weight (he_iter e) + 1"
    using e unfolding h' heap_weight_def by (simp add: sum_list_map_remove1)
  moreover have "bi_weight (bi_next (he_iter e)) < bi_weight (he_iter e)"
    if "bi_is_valid (bi_next (he_iter e))"
    using that by (simp add: bi_weight_next)
  ultimately show ?thesis
    by (auto simp: advance_entry_def Let_def heap_push_def heap_weight_def)
qed

function skip_duplicates :: "merge_iterator \<Rightarrow> merge_iterator" where
  "skip_duplicates m =
     (case heap_pop cmp_heap_entry (mg_heap m) of
        None \<Rightarrow> m
      | Some (t, h) \<Rightarrow>
          (if mg_current_key m = Some (bi_key (he_iter t))
           then skip_duplicates (m\<lparr>mg_heap := advance_entry t h\<rparr>)
           else m))"
  by pat_completeness auto
termination
  by (relation "measure (\<lambda>m. heap_weight (mg_heap m))") (auto simp: heap_weight_advance)

declare skip_duplicates.simps [simp del]

definition merge_iterator_new :: "box_iter list \<Rightarrow> merge_iterator" where
  "merge_iterator_new iters =
     (let heap = fold (\<lambda>(index, it) h.
                   if bi_is_valid it then heap_push \<lparr>he_iter = it, he_index = index\<rparr> h else h)
                 (enumerate 0 iters) []
      in skip_duplicates \<lparr>mg_heap = heap, mg_current_key = None\<rparr>)"

definition mg_record :: "merge_iterator \<Rightarrow> log_record option" where
  "mg_record m =
     (case heap_peek cmp_heap_entry (mg_heap m) of None \<Rightarrow> None | Some e \<Rightarrow> bi_record (he_iter e))"

definition mg_next :: "merge_iterator \<Rightarrow> merge_iterator" where
  "mg_next m =
     skip_duplicates
       (case heap_pop cmp_heap_entry (mg_heap m) of
          None \<Rightarrow> m
        | Some (t, h) \<Rightarrow>
            \<lparr>mg_heap = advance_entry t h, mg_current_key = Some (bi_key (he_iter t))\<rparr>)"

definition mg_key :: "merge_iterator \<Rightarrow> bytes" where
  "mg_key m =
     (case heap_peek cmp_heap_entry (mg_heap m) of Some e \<Rightarrow> bi_key (he_iter e) | None \<Rightarrow> [])"

definition mg_value :: "merge_iterator \<Rightarrow> bytes" where
  "mg_value m =
     (case heap_peek cmp_heap_entry (mg_heap m) of Some e \<Rightarrow> bi_value (he_iter e) | None \<Rightarrow> [])"

definition mg_is_valid :: "merge_iterator \<Rightarrow> bool" where
  "mg_is_valid m \<longleftrightarrow> mg_heap m \<noteq> []"

definition mg_seek :: "bytes \<Rightarrow> merge_iterator \<Rightarrow> merge_iterator" where
  "mg_seek key m =
     (let heap = fold (\<lambda>e h.
                   let e' = e\<lparr>he_iter := bi_seek key (he_iter e)\<rparr>
                   in if bi_is_valid (he_iter e') then heap_push e' h else h)
                 (mg_heap m) []
      in skip_duplicates \<lparr>mg_heap = heap, mg_current_key = None\<rparr>)"

subsection \<open>Weights\<close>

lemma skip_duplicates_weight: "heap_weight (mg_heap (skip_duplicates m)) \<le> heap_weight (mg_heap m)"
proof (induction m rule: skip_duplicates.induct)
  case (1 m)
  show ?case
  proof (cases "heap_pop cmp_heap_entry (mg_heap m)")
    case None
    then show ?thesis by (simp add: skip_duplicates.simps [of m])
  next
    case (Some p)
    obtain t h where p: "p = (t, h)" by (cases p)
    show ?thesis
      using 1 [OF Some [unfolded p] refl] heap_weight_advance [OF Some [unfolded p]] Some p
      by (auto simp: skip_duplicates.simps [of m])
  qed
qed

definition mg_weight :: "merge_iterator \<Rightarrow> nat" where
  "mg_weight m = heap_weight (mg_heap m)"

lemma mg_weight_next: "mg_is_valid m \<Longrightarrow> mg_weight (mg_next m) < mg_weight m"
proof -
  assume "mg_is_valid m"
  then obtain t h where pop: "heap_pop cmp_heap_entry (mg_heap m) = Some (t, h)"
    by (cases "heap_pop cmp_heap_entry (mg_heap m)") (auto simp: mg_is_valid_def)
  then show ?thesis
    using skip_duplicates_weight
      [of "\<lparr>mg_heap = advance_entry t h, mg_current_key = Some (bi_key (he_iter t))\<rparr>"]
      heap_weight_advance [OF pop]
    by (simp add: mg_next_def mg_weight_def)
qed

text \<open>What a loop \<open>while it.is_valid() { ...; it.next() }\<close> visits.\<close>

function mg_collect :: "merge_iterator \<Rightarrow> ientry list" where
  "mg_collect m =
     (if mg_is_valid m then (mg_key m, mg_value m, mg_record m) # mg_collect (mg_next m) else [])"
  by pat_completeness auto
termination
  by (relation "measure mg_weight") (auto simp: mg_weight_next)

declare mg_collect.simps [simp del]


subsection \<open>What a heap holds\<close>

definition heap_ok :: "heap_entry list \<Rightarrow> bool" where
  "heap_ok h \<longleftrightarrow>
     distinct (map he_index h) \<and>
     (\<forall>e\<in>set h. bi_wf (he_iter e) \<and> bi_remaining (he_iter e) \<noteq> [] \<and> strict_keys (bi_remaining (he_iter e)))"

text \<open>The entry that iterator number \<open>i\<close> still has for a key.\<close>

definition holds_at :: "heap_entry list \<Rightarrow> nat \<Rightarrow> bytes \<Rightarrow> bytes \<times> log_record option \<Rightarrow> bool" where
  "holds_at h i k x \<longleftrightarrow> (\<exists>e\<in>set h. he_index e = i \<and> map_of (bi_remaining (he_iter e)) k = Some x)"

text \<open>The entry of the newest iterator that has the key.\<close>

definition newest_at :: "heap_entry list \<Rightarrow> bytes \<Rightarrow> bytes \<times> log_record option \<Rightarrow> bool" where
  "newest_at h k x \<longleftrightarrow> (\<exists>i. holds_at h i k x \<and> (\<forall>j<i. \<forall>y. \<not> holds_at h j k y))"

lemma newest_at_cong:
  "(\<And>i x. holds_at h i k x \<longleftrightarrow> holds_at h' i k x) \<Longrightarrow> newest_at h k x \<longleftrightarrow> newest_at h' k x"
  by (simp add: newest_at_def)

lemma heap_ok_index: "heap_ok h \<Longrightarrow> e \<in> set h \<Longrightarrow> t \<in> set h \<Longrightarrow> he_index e = he_index t \<Longrightarrow> e = t"
  unfolding heap_ok_def distinct_map by (blast dest: inj_onD)

lemma heap_ok_distinct: "heap_ok h \<Longrightarrow> distinct h"
  by (simp add: heap_ok_def distinct_map)

lemma entry_head:
  assumes "heap_ok h" "e \<in> set h"
  shows "\<exists>es. bi_remaining (he_iter e) = (bi_key (he_iter e), bi_value (he_iter e), bi_record (he_iter e)) # es
    \<and> (\<forall>x\<in>set es. bi_key (he_iter e) < fst x)"
proof -
  obtain k v r es where e: "bi_remaining (he_iter e) = (k, v, r) # es"
    using assms by (cases "bi_remaining (he_iter e)") (auto simp: heap_ok_def)
  moreover have "bi_wf (he_iter e)" "strict_keys (bi_remaining (he_iter e))"
    using assms by (simp_all add: heap_ok_def)
  ultimately show ?thesis using box_iter.head [OF _ e] by auto
qed

lemma entry_keys:
  assumes "heap_ok h" "e \<in> set h" "map_of (bi_remaining (he_iter e)) k = Some x"
  shows "bi_key (he_iter e) \<le> k"
  using entry_head [OF assms(1,2)] assms(3) by (fastforce dest!: map_of_SomeD intro: less_imp_le)

lemma holds_at_head:
  "heap_ok h \<Longrightarrow> t \<in> set h \<Longrightarrow>
     holds_at h (he_index t) (bi_key (he_iter t)) (bi_value (he_iter t), bi_record (he_iter t))"
  using entry_head [of h t] by (auto simp: holds_at_def)

lemma heap_top_least:
  assumes "heap_peek cmp_heap_entry h = Some t"
  shows "t \<in> set h" and "e \<in> set h \<Longrightarrow> bi_key (he_iter t) \<le> bi_key (he_iter e)"
    and "e \<in> set h \<Longrightarrow> bi_key (he_iter e) = bi_key (he_iter t) \<Longrightarrow> he_index t \<le> he_index e"
proof -
  have less: "cmp_heap_entry a b = Less \<longleftrightarrow> bi_key (he_iter b) < bi_key (he_iter a)
      \<or> bi_key (he_iter b) = bi_key (he_iter a) \<and> he_index b < he_index a" for a b
    by (auto simp: cmp_heap_entry_def Let_def)
  show "t \<in> set h" using assms by (rule heap_peek_in)
  have "cmp_heap_entry t e \<noteq> Less" if "e \<in> set h"
  proof -
    obtain x xs where h: "h = x # xs" "t = heap_max cmp_heap_entry x xs"
      using assms by (auto simp: heap_peek_def split: list.splits)
    show ?thesis
      unfolding h(2) by (rule heap_max_greatest) (use that h(1) in \<open>auto simp: less\<close>)
  qed
  then show "e \<in> set h \<Longrightarrow> bi_key (he_iter t) \<le> bi_key (he_iter e)"
    and "e \<in> set h \<Longrightarrow> bi_key (he_iter e) = bi_key (he_iter t) \<Longrightarrow> he_index t \<le> he_index e"
    by (auto simp: less)
qed

lemma holds_at_from_top:
  assumes ok: "heap_ok h" and peek: "heap_peek cmp_heap_entry h = Some t" and "holds_at h i k x"
  shows "bi_key (he_iter t) \<le> k" and "k = bi_key (he_iter t) \<Longrightarrow> he_index t \<le> i"
proof -
  obtain e where e: "e \<in> set h" "he_index e = i" "map_of (bi_remaining (he_iter e)) k = Some x"
    using assms(3) by (auto simp: holds_at_def)
  have le: "bi_key (he_iter t) \<le> bi_key (he_iter e)" "bi_key (he_iter e) \<le> k"
    using heap_top_least(2) [OF peek e(1)] entry_keys [OF ok e(1,3)] .
  then show "bi_key (he_iter t) \<le> k" by (rule order_trans)
  show "he_index t \<le> i" if "k = bi_key (he_iter t)"
    using heap_top_least(3) [OF peek e(1)] le that e(2) by simp
qed

lemma newest_at_top:
  assumes ok: "heap_ok h" and peek: "heap_peek cmp_heap_entry h = Some t"
  shows "newest_at h (bi_key (he_iter t)) x \<longleftrightarrow> x = (bi_value (he_iter t), bi_record (he_iter t))"
proof -
  let ?k = "bi_key (he_iter t)" and ?x = "(bi_value (he_iter t), bi_record (he_iter t))"
  have t: "t \<in> set h" using peek by (rule heap_top_least)
  have at: "map_of (bi_remaining (he_iter t)) ?k = Some ?x" using entry_head [OF ok t] by auto
  have unique: "y = ?x" if "holds_at h (he_index t) ?k y" for y
    using that at unfolding holds_at_def by (auto dest!: heap_ok_index [OF ok _ t])
  have older: "he_index t \<le> i" if "holds_at h i ?k y" for i y
    using holds_at_from_top(2) [OF ok peek that] by simp
  from unique older holds_at_head [OF ok t] show ?thesis unfolding newest_at_def by (metis le_neq_implies_less not_le)
qed


subsection \<open>Advancing the top of the heap\<close>

lemma set_advance_entry:
  assumes "heap_ok h" "t \<in> set h"
  shows "set (advance_entry t (remove1 t h)) = (set h - {t}) \<union>
    (if bi_is_valid (bi_next (he_iter t)) then {t\<lparr>he_iter := bi_next (he_iter t)\<rparr>} else {})"
  using heap_ok_distinct [OF assms(1)] by (auto simp: advance_entry_def Let_def heap_push_def)

lemma heap_ok_advance:
  assumes ok: "heap_ok h" and t: "t \<in> set h"
  shows "heap_ok (advance_entry t (remove1 t h))"
proof -
  have rem: "bi_remaining (bi_next (he_iter t)) = tl (bi_remaining (he_iter t))"
    and wf: "bi_wf (bi_next (he_iter t))" and strict: "strict_keys (bi_remaining (he_iter t))"
    using ok t by (simp_all add: heap_ok_def box_iter.next_remaining box_iter.next_wf)
  have set: "set (remove1 t h) = set h - {t}" using heap_ok_distinct [OF ok] by simp
  have "he_index t \<notin> he_index ` set (remove1 t h)"
    unfolding set using heap_ok_index [OF ok _ t] by fastforce
  moreover have "distinct (map he_index (remove1 t h))"
    using ok unfolding heap_ok_def by (metis distinct_map distinct_remove1 inj_on_subset set_remove1_subset)
  moreover have "strict_keys (tl (bi_remaining (he_iter t)))"
    using strict by (cases "bi_remaining (he_iter t)") auto
  ultimately show ?thesis
    using ok wf rem box_iter.valid_iff [OF wf]
    by (auto simp: heap_ok_def advance_entry_def Let_def heap_push_def set simp del: set_remove1_eq)
qed

lemma holds_at_advance:
  assumes ok: "heap_ok h" and t: "t \<in> set h" and k: "k \<noteq> bi_key (he_iter t)"
  shows "holds_at (advance_entry t (remove1 t h)) i k x \<longleftrightarrow> holds_at h i k x"
proof -
  have wf: "bi_wf (he_iter t)" using ok t by (simp add: heap_ok_def)
  have same: "map_of (bi_remaining (bi_next (he_iter t))) k = map_of (bi_remaining (he_iter t)) k"
    using entry_head [OF ok t] k by (auto simp: box_iter.next_remaining [OF wf])
  have gone: "map_of (bi_remaining (he_iter t)) k = None" if "\<not> bi_is_valid (bi_next (he_iter t))"
    using that same box_iter.valid_iff [OF box_iter.next_wf [OF wf]] by simp
  have "holds_at h i k x \<longleftrightarrow> (\<exists>e\<in>set h - {t}. he_index e = i \<and> map_of (bi_remaining (he_iter e)) k = Some x)
      \<or> he_index t = i \<and> map_of (bi_remaining (he_iter t)) k = Some x"
    using t by (auto simp: holds_at_def)
  moreover have "holds_at (advance_entry t (remove1 t h)) i k x \<longleftrightarrow>
      (\<exists>e\<in>set h - {t}. he_index e = i \<and> map_of (bi_remaining (he_iter e)) k = Some x)
      \<or> bi_is_valid (bi_next (he_iter t)) \<and> he_index t = i
        \<and> map_of (bi_remaining (bi_next (he_iter t))) k = Some x"
    unfolding holds_at_def set_advance_entry [OF ok t] by auto
  ultimately show ?thesis using same gone by auto
qed

text \<open>All keys still to come are beyond \<open>c\<close> (strictly, or not).\<close>

definition beyond :: "bytes \<Rightarrow> heap_entry list \<Rightarrow> bool" where
  "beyond c h \<longleftrightarrow> (\<forall>i k x. holds_at h i k x \<longrightarrow> c < k)"

definition from_on :: "bytes \<Rightarrow> heap_entry list \<Rightarrow> bool" where
  "from_on c h \<longleftrightarrow> (\<forall>i k x. holds_at h i k x \<longrightarrow> c \<le> k)"

lemma from_onD: "from_on c h \<Longrightarrow> holds_at h i k x \<Longrightarrow> c \<le> k"
  unfolding from_on_def by blast

lemma beyondD: "beyond c h \<Longrightarrow> holds_at h i k x \<Longrightarrow> c < k"
  unfolding beyond_def by blast

lemma from_on_advance:
  assumes ok: "heap_ok h" and t: "t \<in> set h" and "from_on c h"
  shows "from_on c (advance_entry t (remove1 t h))"
proof -
  have "map_of (bi_remaining (bi_next (he_iter t))) k = Some x \<Longrightarrow> bi_key (he_iter t) \<le> k" for k x
    using ok t entry_head [OF ok t]
    by (fastforce simp: heap_ok_def box_iter.next_remaining intro: less_imp_le dest!: map_of_SomeD)
  moreover have "c \<le> bi_key (he_iter t)"
    using from_onD [OF assms(3) holds_at_head [OF ok t]] .
  ultimately have new: "map_of (bi_remaining (bi_next (he_iter t))) k = Some x \<Longrightarrow> c \<le> k" for k x
    by (blast intro: order_trans)
  have "e \<in> set h \<Longrightarrow> map_of (bi_remaining (he_iter e)) k = Some x \<Longrightarrow> c \<le> k" for e k x
    using from_onD [OF assms(3), of "he_index e"] unfolding holds_at_def by blast
  with new show ?thesis
    unfolding from_on_def holds_at_def set_advance_entry [OF ok t] by (auto split: if_splits)
qed


lemma skip_duplicates_spec:
  assumes "heap_ok (mg_heap m)" "mg_current_key m = Some c" "from_on c (mg_heap m)"
  shows "heap_ok (mg_heap (skip_duplicates m)) \<and> mg_current_key (skip_duplicates m) = Some c
    \<and> beyond c (mg_heap (skip_duplicates m))
    \<and> (\<forall>i k x. c < k \<longrightarrow> holds_at (mg_heap (skip_duplicates m)) i k x = holds_at (mg_heap m) i k x)"
  using assms
proof (induction m rule: skip_duplicates.induct)
  case (1 m)
  let ?h = "mg_heap m"
  show ?case
  proof (cases "heap_pop cmp_heap_entry ?h")
    case None
    then show ?thesis
      using "1.prems" by (simp add: skip_duplicates.simps [of m] beyond_def holds_at_def)
  next
    case (Some p)
    obtain t h where p: "p = (t, h)" by (cases p)
    then have peek: "heap_peek cmp_heap_entry ?h = Some t" and h: "h = remove1 t ?h"
      using Some by (simp_all add: heap_pop_Some)
    have t: "t \<in> set ?h" using peek by (rule heap_peek_in)
    let ?m = "m\<lparr>mg_heap := advance_entry t h\<rparr>"
    show ?thesis
    proof (cases "bi_key (he_iter t) = c")
      case True
      then have step: "skip_duplicates m = skip_duplicates ?m"
        using Some p "1.prems"(2) by (simp add: skip_duplicates.simps [of m])
      have "heap_ok (mg_heap ?m)" "from_on c (mg_heap ?m)"
        using heap_ok_advance from_on_advance "1.prems"(1,3) t h by simp_all
      moreover have "holds_at (mg_heap ?m) i k x = holds_at ?h i k x" if "c < k" for i k x
        using holds_at_advance [OF "1.prems"(1) t] that True h by simp
      ultimately show ?thesis
        using "1.IH" [OF Some p [symmetric]] True "1.prems"(2) unfolding step by simp
    next
      case False
      then have step: "skip_duplicates m = m"
        using Some p "1.prems"(2) by (simp add: skip_duplicates.simps [of m])
      have "c < bi_key (he_iter t)"
        using from_onD [OF "1.prems"(3) holds_at_head [OF "1.prems"(1) t]] False by simp
      then have "beyond c ?h"
        using holds_at_from_top(1) [OF "1.prems"(1) peek] by (auto simp: beyond_def intro: less_le_trans)
      then show ?thesis using step "1.prems" by simp
    qed
  qed
qed

lemma skip_duplicates_None: "mg_current_key m = None \<Longrightarrow> skip_duplicates m = m"
  by (simp add: skip_duplicates.simps [of m] split: option.splits)

subsection \<open>The invariant, and what the iterator yields\<close>

definition mg_wf :: "merge_iterator \<Rightarrow> bool" where
  "mg_wf m \<longleftrightarrow> heap_ok (mg_heap m) \<and> (\<forall>c. mg_current_key m = Some c \<longrightarrow> beyond c (mg_heap m))"

lemma mg_next_spec:
  assumes "mg_wf m" "mg_is_valid m"
  shows "mg_wf (mg_next m) \<and> beyond (mg_key m) (mg_heap (mg_next m))
    \<and> (\<forall>i k x. mg_key m < k \<longrightarrow> holds_at (mg_heap (mg_next m)) i k x = holds_at (mg_heap m) i k x)"
proof -
  let ?h = "mg_heap m"
  have ok: "heap_ok ?h" using assms(1) by (simp add: mg_wf_def)
  obtain t where peek: "heap_peek cmp_heap_entry ?h = Some t"
    using assms(2) by (cases "heap_peek cmp_heap_entry ?h") (auto simp: mg_is_valid_def)
  have t: "t \<in> set ?h" and key: "mg_key m = bi_key (he_iter t)"
    using heap_top_least(1) [OF peek] peek by (simp_all add: mg_key_def)
  let ?m = "\<lparr>mg_heap = advance_entry t (remove1 t ?h), mg_current_key = Some (mg_key m)\<rparr>"
  have nxt: "mg_next m = skip_duplicates ?m"
    using peek key by (simp add: mg_next_def heap_pop_def)
  have "from_on (mg_key m) ?h"
    using holds_at_from_top(1) [OF ok peek] by (auto simp: from_on_def key)
  then have "from_on (mg_key m) (mg_heap ?m)" "heap_ok (mg_heap ?m)"
    using from_on_advance [OF ok t] heap_ok_advance [OF ok t] by simp_all
  moreover have "holds_at (mg_heap ?m) i k x = holds_at ?h i k x" if "mg_key m < k" for i k x
    using holds_at_advance [OF ok t] that key by simp
  ultimately show ?thesis
    using skip_duplicates_spec [of ?m "mg_key m"] unfolding nxt mg_wf_def by simp
qed

lemma mg_collect_spec:
  "mg_wf m \<Longrightarrow> strict_keys (mg_collect m) \<and>
     (\<forall>k x. map_of (mg_collect m) k = Some x \<longleftrightarrow> newest_at (mg_heap m) k x)"
proof (induction m rule: mg_collect.induct)
  case (1 m)
  show ?case
  proof (cases "mg_is_valid m")
    case False
    then show ?thesis
      by (simp add: mg_collect.simps [of m] mg_is_valid_def newest_at_def holds_at_def)
  next
    case True
    let ?h = "mg_heap m" and ?n = "mg_next m"
    have ok: "heap_ok ?h" using "1.prems" by (simp add: mg_wf_def)
    obtain t where peek: "heap_peek cmp_heap_entry ?h = Some t"
      using True by (cases "heap_peek cmp_heap_entry ?h") (auto simp: mg_is_valid_def)
    note nxt = mg_next_spec [OF "1.prems" True]
    have IH: "strict_keys (mg_collect ?n)"
      "\<And>k x. map_of (mg_collect ?n) k = Some x \<longleftrightarrow> newest_at (mg_heap ?n) k x"
      using "1.IH" [OF True] nxt by blast+
    have top: "newest_at ?h (mg_key m) x \<longleftrightarrow> x = (mg_value m, mg_record m)" for x
      using newest_at_top [OF ok peek] peek by (simp add: mg_key_def mg_value_def mg_record_def)
    have least: "holds_at ?h i k x \<Longrightarrow> mg_key m \<le> k" for i k x
      using holds_at_from_top(1) [OF ok peek] peek by (simp add: mg_key_def)
    have rest: "newest_at (mg_heap ?n) k x \<longleftrightarrow> mg_key m < k \<and> newest_at ?h k x" for k x
    proof (cases "mg_key m < k")
      case True
      with nxt have "newest_at (mg_heap ?n) k x \<longleftrightarrow> newest_at ?h k x" by (intro newest_at_cong) blast
      with True show ?thesis by simp
    next
      case False
      with nxt show ?thesis by (auto simp: newest_at_def dest: beyondD)
    qed
    have later: "mg_key m < fst e" if "e \<in> set (mg_collect ?n)" for e
    proof -
      have "map_of (mg_collect ?n) (fst e) \<noteq> None" using that by (auto simp: map_of_eq_None_iff)
      then show ?thesis using IH(2) rest by auto
    qed
    have "newest_at ?h k x \<Longrightarrow> k \<noteq> mg_key m \<Longrightarrow> mg_key m < k" for k x
      unfolding newest_at_def using least by (metis order.not_eq_order_implies_strict)
    then show ?thesis
      using IH later top rest True by (auto simp: mg_collect.simps [of m])
  qed
qed


lemma mg_collect_map_of: "mg_wf m \<Longrightarrow> map_of (mg_collect m) k = Some x \<longleftrightarrow> newest_at (mg_heap m) k x"
  using mg_collect_spec [of m] by blast

subsection \<open>Construction and seeking\<close>

lemma fold_push_if: "fold (\<lambda>e h. if P e then heap_push (f e) h else h) es h = rev (map f (filter P es)) @ h"
  by (induction es arbitrary: h) (simp_all add: heap_push_def)

lemma merge_iterator_new_heap:
  "mg_heap (merge_iterator_new iters) =
     rev (map (\<lambda>(i, it). \<lparr>he_iter = it, he_index = i\<rparr>)
       (filter (\<lambda>(i, it). bi_is_valid it) (enumerate 0 iters)))"
  "mg_current_key (merge_iterator_new iters) = None"
proof -
  have "fold (\<lambda>(index, it) h. if bi_is_valid it then heap_push \<lparr>he_iter = it, he_index = index\<rparr> h else h)
      = fold (\<lambda>e h. if (case e of (i, it) \<Rightarrow> bi_is_valid it)
          then heap_push (case e of (i, it) \<Rightarrow> \<lparr>he_iter = it, he_index = i\<rparr>) h else h)"
    by (intro arg_cong [where f = fold] ext) (simp split: prod.split)
  then show "mg_heap (merge_iterator_new iters) =
     rev (map (\<lambda>(i, it). \<lparr>he_iter = it, he_index = i\<rparr>)
       (filter (\<lambda>(i, it). bi_is_valid it) (enumerate 0 iters)))"
    and "mg_current_key (merge_iterator_new iters) = None"
    by (simp_all add: merge_iterator_new_def skip_duplicates_None fold_push_if)
qed

definition iters_ok :: "box_iter list \<Rightarrow> bool" where
  "iters_ok iters \<longleftrightarrow> (\<forall>it\<in>set iters. bi_wf it \<and> strict_keys (bi_remaining it))"

lemma merge_iterator_new_wf:
  assumes "iters_ok iters"
  shows "mg_wf (merge_iterator_new iters)"
proof -
  have "distinct (map fst (filter (\<lambda>(i, it). bi_is_valid it) (enumerate 0 iters)))"
    by (simp add: distinct_map_filter)
  moreover have "map he_index (mg_heap (merge_iterator_new iters))
      = rev (map fst (filter (\<lambda>(i, it). bi_is_valid it) (enumerate 0 iters)))"
    by (simp add: merge_iterator_new_heap rev_map case_prod_beta o_def)
  ultimately show ?thesis
    using assms merge_iterator_new_heap(2) [of iters] box_iter.valid_iff
    by (auto simp: mg_wf_def heap_ok_def merge_iterator_new_heap in_set_enumerate_eq iters_ok_def)
qed

lemma merge_iterator_new_holds:
  assumes "iters_ok iters"
  shows "holds_at (mg_heap (merge_iterator_new iters)) i k x \<longleftrightarrow>
    i < length iters \<and> map_of (bi_remaining (iters ! i)) k = Some x"
proof -
  have "bi_is_valid (iters ! i)" if "i < length iters" "map_of (bi_remaining (iters ! i)) k = Some x"
    using that assms box_iter.valid_iff by (fastforce simp: iters_ok_def)
  then show ?thesis
    by (auto simp: holds_at_def merge_iterator_new_heap in_set_enumerate_eq image_iff)
qed

lemma merge_new_map_of:
  assumes "iters_ok iters"
  shows "map_of (mg_collect (merge_iterator_new iters)) k
    = first_some (map (\<lambda>it. map_of (bi_remaining it) k) iters)"
proof -
  have "map_of (mg_collect (merge_iterator_new iters)) k = Some x
      \<longleftrightarrow> first_some (map (\<lambda>it. map_of (bi_remaining it) k) iters) = Some x" for x
    unfolding mg_collect_map_of [OF merge_iterator_new_wf [OF assms]]
      newest_at_def merge_iterator_new_holds [OF assms] first_some_Some
    by (fastforce simp: not_Some_eq [symmetric])
  then show ?thesis by (metis not_None_eq)
qed

lemma mg_seek_heap:
  "mg_heap (mg_seek key m) = rev (map (\<lambda>e. e\<lparr>he_iter := bi_seek key (he_iter e)\<rparr>)
     (filter (\<lambda>e. bi_is_valid (bi_seek key (he_iter e))) (mg_heap m)))"
  "mg_current_key (mg_seek key m) = None"
  using fold_push_if [of "\<lambda>e. bi_is_valid (bi_seek key (he_iter e))"
      "\<lambda>e. e\<lparr>he_iter := bi_seek key (he_iter e)\<rparr>" "mg_heap m" "[]"]
  by (simp_all add: mg_seek_def skip_duplicates_None Let_def)

lemma map_of_filter_key: "map_of (filter (\<lambda>e. P (fst e)) es) k = (if P k then map_of es k else None)"
  by (induction es) auto

lemma mg_seek_spec:
  assumes "mg_wf m"
  shows "mg_wf (mg_seek key m)"
    and "holds_at (mg_heap (mg_seek key m)) i k x \<longleftrightarrow> key \<le> k \<and> holds_at (mg_heap m) i k x"
proof -
  have ok: "distinct (map he_index (mg_heap m))"
    "\<And>e. e \<in> set (mg_heap m) \<Longrightarrow> bi_wf (he_iter e) \<and> strict_keys (bi_remaining (he_iter e))"
    using assms by (simp_all add: mg_wf_def heap_ok_def)
  have rem: "bi_remaining (bi_seek key (he_iter e)) = filter (\<lambda>x. key \<le> fst x) (bi_remaining (he_iter e))"
    if "e \<in> set (mg_heap m)" for e
    using ok(2) [OF that] by (simp add: box_iter.seek_sorted)
  have "distinct (map he_index (mg_heap (mg_seek key m)))"
    using ok(1) by (simp add: mg_seek_heap rev_map [symmetric] o_def distinct_map_filter)
  then show "mg_wf (mg_seek key m)"
    using ok(2) rem strict_keys_filter
    by (auto simp: mg_wf_def heap_ok_def mg_seek_heap box_iter.seek_wf box_iter.valid_iff [OF box_iter.seek_wf])
  show "holds_at (mg_heap (mg_seek key m)) i k x \<longleftrightarrow> key \<le> k \<and> holds_at (mg_heap m) i k x"
  proof -
    have look: "map_of (bi_remaining (bi_seek key (he_iter e))) k
        = (if key \<le> k then map_of (bi_remaining (he_iter e)) k else None)" if "e \<in> set (mg_heap m)" for e
      unfolding rem [OF that] by (rule map_of_filter_key)
    have valid: "bi_is_valid (bi_seek key (he_iter e))"
      if "e \<in> set (mg_heap m)" "map_of (bi_remaining (bi_seek key (he_iter e))) k = Some x" for e
      using that ok(2) box_iter.valid_iff [OF box_iter.seek_wf] by fastforce
    have "holds_at (mg_heap (mg_seek key m)) i k x \<longleftrightarrow>
        (\<exists>e\<in>set (mg_heap m). bi_is_valid (bi_seek key (he_iter e)) \<and> he_index e = i
          \<and> map_of (bi_remaining (bi_seek key (he_iter e))) k = Some x)"
      by (auto simp: holds_at_def mg_seek_heap)
    also have "\<dots> \<longleftrightarrow> (\<exists>e\<in>set (mg_heap m). he_index e = i
          \<and> map_of (bi_remaining (bi_seek key (he_iter e))) k = Some x)"
      using valid by blast
    also have "\<dots> \<longleftrightarrow> key \<le> k \<and> holds_at (mg_heap m) i k x"
      unfolding holds_at_def using look by auto
    finally show ?thesis .
  qed
qed

lemma mg_seek_collect:
  assumes "mg_wf m"
  shows "mg_collect (mg_seek key m) = filter (\<lambda>e. key \<le> fst e) (mg_collect m)"
proof (rule strict_keys_map_of_eq)
  note collect = mg_collect_spec [OF assms] mg_collect_spec [OF mg_seek_spec(1) [OF assms]]
  show "strict_keys (mg_collect (mg_seek key m))" "strict_keys (filter (\<lambda>e. key \<le> fst e) (mg_collect m))"
    using collect strict_keys_filter by blast+
  have "newest_at (mg_heap (mg_seek key m)) k x \<longleftrightarrow> key \<le> k \<and> newest_at (mg_heap m) k x" for k x
    unfolding newest_at_def mg_seek_spec(2) [OF assms] by blast
  then have "map_of (mg_collect (mg_seek key m)) k = Some x
      \<longleftrightarrow> map_of (filter (\<lambda>e. key \<le> fst e) (mg_collect m)) k = Some x" for k x
    unfolding map_of_filter_key mg_collect_map_of [OF mg_seek_spec(1) [OF assms]]
    by (simp add: mg_collect_map_of [OF assms])
  then show "map_of (mg_collect (mg_seek key m)) = map_of (filter (\<lambda>e. key \<le> fst e) (mg_collect m))"
    by (intro ext) (metis not_None_eq)
qed

lemma dropWhile_strict_keys:
  "strict_keys es \<Longrightarrow> dropWhile (\<lambda>e. fst e < k) es = filter (\<lambda>e. k \<le> fst e) es"
  by (induction es) (auto simp: not_less intro!: filter_True [symmetric] dest: order_trans)

text \<open>A merged iterator is a storage iterator again.\<close>

interpretation merge: storage_iterator mg_is_valid mg_key mg_value mg_record mg_next mg_seek
  mg_wf mg_collect
proof
  fix m k v r es
  assume "mg_collect m = (k, v, r) # es"
  then show "mg_key m = k \<and> mg_value m = v \<and> mg_record m = r"
    by (simp add: mg_collect.simps [of m] split: if_splits)
next
  fix m show "mg_is_valid m \<longleftrightarrow> mg_collect m \<noteq> []" by (simp add: mg_collect.simps [of m])
next
  fix m assume wf: "mg_wf m"
  then show "mg_wf (mg_next m)"
    using mg_next_spec [OF wf] by (cases "mg_is_valid m")
      (auto simp: mg_next_def mg_is_valid_def skip_duplicates.simps [of m])
  show "mg_collect (mg_next m) = tl (mg_collect m)"
    by (cases "mg_is_valid m")
      (auto simp: mg_collect.simps [of m] mg_next_def mg_is_valid_def skip_duplicates.simps [of m])
  fix k
  show "mg_wf (mg_seek k m)" using wf by (rule mg_seek_spec)
  show "mg_collect (mg_seek k m) = dropWhile (\<lambda>e. fst e < k) (mg_collect m)"
    using mg_collect_spec [OF wf] by (simp add: mg_seek_collect [OF wf] dropWhile_strict_keys)
qed

subsection \<open>Properties\<close>

text \<open>C10: the merging iterator over iterators with strictly increasing keys yields every key once, in
  strictly increasing order, and for each key the entry of the first iterator (the newest) that
  has it; keys that no iterator has do not appear.\<close>

theorem merge_iterator_correct:
  assumes "iters_ok iters"
  shows "strict_keys (mg_collect (merge_iterator_new iters)) \<and>
    map_of (mg_collect (merge_iterator_new iters)) k
      = first_some (map (\<lambda>it. map_of (bi_remaining it) k) iters)"
  using mg_collect_spec [OF merge_iterator_new_wf [OF assms]] merge_new_map_of [OF assms] by blast

theorem merge_iterator_correct_witness:
  "let its = [BoxTable (table_iterator_new [([1], [10]), ([3], [30])]),
              BoxTable (table_iterator_new [([1], [11]), ([2], [21])])]
   in iters_ok its \<and> map_of (mg_collect (merge_iterator_new its)) [1] = Some ([10], None)"
  using merge_iterator_correct [of "[BoxTable (table_iterator_new [([1], [10]), ([3], [30])]),
      BoxTable (table_iterator_new [([1], [11]), ([2], [21])])]" "[1]"]
  by (simp add: iters_ok_def table_iterator_new_spec)

text \<open>Seeking a merging iterator moves it to the first key that is not smaller than the sought
  one: what it yields afterwards is what it would have yielded, without the smaller keys.\<close>

lemma merge_iterator_seek:
  assumes "iters_ok iters"
  shows "mg_collect (mg_seek key (merge_iterator_new iters))
    = filter (\<lambda>e. key \<le> fst e) (mg_collect (merge_iterator_new iters))"
  using mg_seek_collect [OF merge_iterator_new_wf [OF assms]] .

end
