(* ===== verification/Memtable.thy ===== *)
theory Memtable
  imports Storage_Iterator
begin

text \<open>
  \<open>src/core/memtable.rs\<close>: the in-memory table of the latest writes.

  The concurrent hash map \<open>DashMap\<close> is an association list with distinct keys. Nothing of the
  model depends on its order: the code sorts whatever it reads out of the map.
\<close>

record memtable =
  mt_data :: "(bytes \<times> log_record) list"
  mt_size_bytes :: nat
  mt_max_size_bytes :: nat
  mt_range_tombstones :: "range_tombstone list"

definition memtable_new :: "nat \<Rightarrow> memtable" where
  "memtable_new max_size_bytes =
     \<lparr>mt_data = [], mt_size_bytes = 0, mt_max_size_bytes = max_size_bytes, mt_range_tombstones = []\<rparr>"

definition estimate_size :: "log_record \<Rightarrow> nat" where
  "estimate_size r = length (lr_key r) + length (lr_value r) + 51"

definition mt_insert :: "log_record \<Rightarrow> memtable \<Rightarrow> memtable" where
  "mt_insert r m =
     (let record_size = estimate_size r;
          size = (case map_of (mt_data m) (lr_key r) of
                    Some old \<Rightarrow> mt_size_bytes m - estimate_size old
                  | None \<Rightarrow> mt_size_bytes m)
      in m\<lparr>mt_data := AList.update (lr_key r) r (mt_data m),
           mt_size_bytes := usize_saturating_add size record_size\<rparr>)"

definition mt_put :: "u128 \<Rightarrow> bytes \<Rightarrow> bytes \<Rightarrow> memtable \<Rightarrow> memtable" where
  "mt_put now key value m = mt_insert (log_record_new now key value) m"

definition mt_delete :: "u128 \<Rightarrow> bytes \<Rightarrow> memtable \<Rightarrow> memtable" where
  "mt_delete now key m = mt_insert (tombstone now key) m"

definition should_flush :: "memtable \<Rightarrow> bool" where
  "should_flush m \<longleftrightarrow> mt_max_size_bytes m \<le> mt_size_bytes m"

definition mt_get :: "memtable \<Rightarrow> bytes \<Rightarrow> log_record option" where
  "mt_get m key = map_of (mt_data m) key"

text \<open>\<open>iter_ordered\<close>; \<open>iter\<close> wraps the same entries in a \<open>MemTableIterator\<close>.\<close>

definition iter_ordered :: "memtable \<Rightarrow> (bytes \<times> log_record) list" where
  "iter_ordered m = sort_key fst (mt_data m)"

definition mt_iter :: "memtable \<Rightarrow> memtable_iterator" where
  "mt_iter m = memtable_iterator_new (sort_key fst (mt_data m))"

definition mt_iter_from :: "memtable \<Rightarrow> bytes \<Rightarrow> memtable_iterator" where
  "mt_iter_from m start_key =
     memtable_iterator_new (sort_key fst (filter (\<lambda>e. start_key \<le> fst e) (mt_data m)))"

definition add_range_tombstone :: "range_tombstone \<Rightarrow> memtable \<Rightarrow> memtable" where
  "add_range_tombstone rt m = m\<lparr>mt_range_tombstones := mt_range_tombstones m @ [rt]\<rparr>"

definition iterator_max :: "'a::linorder list \<Rightarrow> 'a option" where
  "iterator_max xs = (if xs = [] then None else Some (Max (set xs)))"

definition max_covering_range_tombstone :: "memtable \<Rightarrow> bytes \<Rightarrow> u128 option" where
  "max_covering_range_tombstone m key =
     iterator_max (map rt_timestamp
       (filter (\<lambda>rt. rt_start_key rt \<le> key \<and> key < rt_end_key rt) (mt_range_tombstones m)))"

definition contains_range_tombstone :: "memtable \<Rightarrow> bytes \<Rightarrow> bool" where
  "contains_range_tombstone m key \<longleftrightarrow> max_covering_range_tombstone m key \<noteq> None"

definition mt_clear :: "memtable \<Rightarrow> nat \<times> memtable" where
  "mt_clear m =
     (length (mt_data m), m\<lparr>mt_data := [], mt_range_tombstones := [], mt_size_bytes := 0\<rparr>)"

subsection \<open>Well-formed memtables\<close>

text \<open>Every key is stored once, under the key of its record, and the size is the exact sum.\<close>

definition data_size :: "(bytes \<times> log_record) list \<Rightarrow> nat" where
  "data_size d = (\<Sum>e\<leftarrow>d. estimate_size (snd e))"

definition wf_memtable :: "memtable \<Rightarrow> bool" where
  "wf_memtable m \<longleftrightarrow>
     distinct (map fst (mt_data m)) \<and> (\<forall>e\<in>set (mt_data m). lr_key (snd e) = fst e)
     \<and> mt_size_bytes m = data_size (mt_data m)"

lemma data_size_update:
  assumes "distinct (map fst d)"
  shows "data_size (AList.update k r d) + (case map_of d k of Some old \<Rightarrow> estimate_size old | None \<Rightarrow> 0)
    = data_size d + estimate_size r"
  using assms by (induction d) (auto simp: data_size_def split: option.splits)

lemma set_update_sub: "set (AList.update k v d) \<subseteq> insert (k, v) (set d)"
  by (induction d) auto

lemma mt_get_insert [simp]: "mt_get (mt_insert r m) k = (if k = lr_key r then Some r else mt_get m k)"
  by (simp add: mt_get_def mt_insert_def Let_def update_conv')

lemma range_tombstones_insert [simp]: "mt_range_tombstones (mt_insert r m) = mt_range_tombstones m"
  by (simp add: mt_insert_def Let_def)

lemma max_size_insert [simp]: "mt_max_size_bytes (mt_insert r m) = mt_max_size_bytes m"
  by (simp add: mt_insert_def Let_def)

lemma wf_memtable_new [simp]: "wf_memtable (memtable_new n)" and mt_get_new [simp]: "mt_get (memtable_new n) k = None"
  by (simp_all add: wf_memtable_def memtable_new_def data_size_def mt_get_def)

lemma wf_mt_insert:
  assumes wf: "wf_memtable m" and bound: "mt_size_bytes m + estimate_size r \<le> usize_max"
  shows "wf_memtable (mt_insert r m)"
proof -
  let ?old = "case map_of (mt_data m) (lr_key r) of Some old \<Rightarrow> estimate_size old | None \<Rightarrow> 0"
  have d: "distinct (map fst (mt_data m))" and sz: "mt_size_bytes m = data_size (mt_data m)"
    using wf by (simp_all add: wf_memtable_def)
  have upd: "data_size (AList.update (lr_key r) r (mt_data m)) + ?old = mt_size_bytes m + estimate_size r"
    using data_size_update [OF d] sz by simp
  have "?old \<le> mt_size_bytes m"
    unfolding sz data_size_def
    by (force split: option.splits dest!: map_of_SomeD intro!: member_le_sum_list)
  then have "mt_size_bytes (mt_insert r m) = data_size (mt_data (mt_insert r m))"
    using upd bound by (auto simp: mt_insert_def Let_def usize_saturating_add_def split: option.splits)
  moreover have "lr_key (snd e) = fst e" if "e \<in> set (mt_data (mt_insert r m))" for e
    using that wf set_update_sub [of "lr_key r" r "mt_data m"]
    by (auto simp: wf_memtable_def mt_insert_def Let_def)
  ultimately show ?thesis
    using d by (simp add: wf_memtable_def mt_insert_def Let_def distinct_update)
qed

lemma mt_get_key: "wf_memtable m \<Longrightarrow> mt_get m k = Some r \<Longrightarrow> lr_key r = k"
  by (auto simp: wf_memtable_def mt_get_def dest!: map_of_SomeD)

subsection \<open>Ordered snapshots\<close>

lemma map_of_sort_key: "distinct (map fst d) \<Longrightarrow> map_of (sort_key fst d) = map_of d"
  by (rule map_of_inject_set [THEN iffD2]) (auto simp: distinct_map inj_on_def)

lemma strict_keys_sort_key: "distinct (map fst d) \<Longrightarrow> strict_keys (sort_key fst d)"
  by (simp add: strict_sorted_iff distinct_map inj_on_def)

lemma iter_ordered_strict: "wf_memtable m \<Longrightarrow> strict_keys (iter_ordered m)"
  and map_of_iter_ordered: "wf_memtable m \<Longrightarrow> map_of (iter_ordered m) = mt_get m"
  by (simp_all add: wf_memtable_def iter_ordered_def strict_keys_sort_key map_of_sort_key
      mt_get_def fun_eq_iff)

lemma mt_iter_from_eq_seek:
  assumes "wf_memtable m"
  shows "mi_remaining (mt_iter_from m k) = mi_remaining (mi_seek k (mt_iter m))"
proof -
  have "strict_keys (sort_key fst (mt_data m))"
    using assms by (simp add: wf_memtable_def strict_keys_sort_key)
  then show ?thesis
    by (subst mem_iter.seek_sorted)
      (simp_all add: mt_iter_def mt_iter_from_def memtable_iterator_new_remaining
        filter_map filter_sort o_def case_prod_beta)
qed


subsection \<open>Properties\<close>

text \<open>Inserting a record keeps the memtable well-formed (distinct keys, each record under its own
  key, \<open>size_bytes\<close> the exact sum of the record sizes) as long as the accounting does not saturate,
  and afterwards a lookup returns the inserted record at its key and what it returned before
  everywhere else.\<close>

lemma memtable_insert_correct:
  assumes "wf_memtable m" and "mt_size_bytes m + estimate_size r \<le> usize_max"
  shows "wf_memtable (mt_insert r m) \<and>
    (\<forall>k. mt_get (mt_insert r m) k = (if k = lr_key r then Some r else mt_get m k))"
  using assms wf_mt_insert by simp

end
