(* ===== verification/Table.thy ===== *)
theory Table
  imports Sstable_Reader Merge_Iterator Memtable
begin

text \<open>
  \<open>src/core/table.rs\<close>: a table as the engine keeps it, the key range and Bloom filter of an SSTable
  file together with an optional in-memory copy of the values (\<open>data\<close>). The table iterator is in
  \<open>Storage_Iterator\<close>.

  Paths are file names in the table directory. \<open>File::open\<close> of a path that has no file is an I/O
  error of kind \<open>NotFound\<close>.
\<close>

type_synonym path = string
type_synonym disk = "path \<Rightarrow> bytes option"

record 'bl table =
  tb_data :: "(bytes, bytes) btree_map"
  tb_level :: nat
  tb_path :: "path option"
  tb_min_key :: bytes
  tb_max_key :: bytes
  tb_bloom_filter :: "'bl option"

datatype 'bl table_load = Healthy "'bl table" | DegradedBloom "'bl table" | Corrupt lsm_error

text \<open>The double \<open>0.01\<close>.\<close>

definition FP_RATE :: f64 where "FP_RATE = 0x3F847AE147AE147B"

definition tb_clone :: "('bl, 'c) crates \<Rightarrow> 'bl table \<Rightarrow> 'bl table" where
  "tb_clone X t =
     t\<lparr>tb_bloom_filter :=
         (case tb_bloom_filter t of
            None \<Rightarrow> None
          | Some bf \<Rightarrow> x_bloom_from_bytes X (x_bloom_to_bytes X bf))\<rparr>"

definition tb_build :: "('bl, 'c) crates \<Rightarrow> (bytes, bytes) btree_map \<Rightarrow> 'bl table" where
  "tb_build X data =
     \<lparr>tb_data = data, tb_level = 0, tb_path = None,
      tb_min_key = (if data = [] then [] else fst (hd data)),
      tb_max_key = (if data = [] then [] else fst (last data)),
      tb_bloom_filter =
        (if data = [] then None
         else case x_bloom_new X (length data) FP_RATE of
                None \<Rightarrow> None
              | Some bf \<Rightarrow> Some (fold (x_bloom_set X) (map fst data) bf))\<rparr>"

definition with_level :: "nat \<Rightarrow> 'bl table \<Rightarrow> 'bl table" where
  "with_level level t = t\<lparr>tb_level := level\<rparr>"

definition from_sstable_path ::
  "('bl, 'c) crates \<Rightarrow> disk \<Rightarrow> path \<Rightarrow> encryption_config option \<Rightarrow> 'bl table outcome" where
  "from_sstable_path X disk path encryption =
     and_then (ok_or (Io NotFoundKind) (disk path)) (\<lambda>file.
       and_then (metadata_read X file (case encryption of None \<Rightarrow> encryption_default | Some e \<Rightarrow> e)) (\<lambda>(meta, _).
         Ok \<lparr>tb_data = [], tb_level = 1, tb_path = Some path,
             tb_min_key = mb_min_key meta, tb_max_key = mb_max_key meta,
             tb_bloom_filter = metadata_bloom X (mb_bloom_filter_data meta)\<rparr>))"

definition load_for_recovery ::
  "('bl, 'c) crates \<Rightarrow> disk \<Rightarrow> path \<Rightarrow> encryption_config \<Rightarrow> 'bl table_load outcome" where
  "load_for_recovery X disk path encryption =
     (case from_sstable_path X disk path (Some encryption) of
        Ok table \<Rightarrow> Ok (if tb_bloom_filter table = None then DegradedBloom table else Healthy table)
      | Err e \<Rightarrow>
          (if e = InvalidSstableFormat \<or> e = CorruptedData \<or> e = DecompressionFailed \<or> e = Codec
              \<or> e = Io UnexpectedEof
           then Ok (Corrupt e) else Err e)
      | Panic \<Rightarrow> Panic)"

definition tb_size :: "'bl table \<Rightarrow> nat" where
  "tb_size t = sum_list (map (\<lambda>(k, v). length k + length v) (tb_data t))"

definition tb_iter :: "'bl table \<Rightarrow> table_iterator" where
  "tb_iter t = table_iterator_new (tb_data t)"

subsection \<open>Writing a table file\<close>

text \<open>
  The callers of the builder create the file, add every entry and finish it. When that fails, the
  builder is dropped and the file keeps what had been written up to then.
\<close>

fun sb_written ::
  "('bl, 'c) crates \<Rightarrow> (nat \<Rightarrow> bytes option) \<Rightarrow> (bytes \<times> log_record) list \<Rightarrow> sst_builder \<Rightarrow> bytes" where
  "sb_written X rng [] b = (case flush_current_block X rng b of Ok b' \<Rightarrow> sb_writer b' | _ \<Rightarrow> sb_writer b)"
| "sb_written X rng ((k, r) # kvs) b =
     (case sb_add X rng k r b of Ok b' \<Rightarrow> sb_written X rng kvs b' | _ \<Rightarrow> sb_writer b)"

definition write_sst ::
  "('bl, 'c) crates \<Rightarrow> (nat \<Rightarrow> bytes option) \<Rightarrow> storage_config \<Rightarrow> u128 \<Rightarrow> encryption_config \<Rightarrow> path
   \<Rightarrow> (bytes \<times> log_record) list \<Rightarrow> disk \<Rightarrow> unit outcome \<times> disk" where
  "write_sst X rng config timestamp encryption path kvs disk =
     (let partial = sb_written X rng kvs (sb_new config timestamp encryption)
      in case sst_build X rng config timestamp encryption kvs of
           Ok file \<Rightarrow> (Ok (), disk(path \<mapsto> file))
         | Err e \<Rightarrow> (Err e, disk(path \<mapsto> partial))
         | Panic \<Rightarrow> (Panic, disk(path \<mapsto> partial)))"

text \<open>Decimal digits, for file names.\<close>

fun show_dec :: "nat \<Rightarrow> string" where
  "show_dec n = (if n < 10 then [char_of (48 + n)] else show_dec (n div 10) @ [char_of (48 + n mod 10)])"

declare show_dec.simps [simp del]

definition sst_name :: "string \<Rightarrow> u128 \<Rightarrow> path" where
  "sst_name prefix timestamp = prefix @ ''_'' @ show_dec (unat timestamp) @ ''.sst''"

subsection \<open>Tables of files that the builder wrote\<close>

lemma strict_keys_bounds:
  "strict_keys (kvs :: (bytes \<times> 'v) list) \<Longrightarrow> k \<in> fst ` set kvs \<Longrightarrow> fst (hd kvs) \<le> k \<and> k \<le> fst (last kvs)"
  by (cases kvs) (auto dest: strict_keys_last intro: less_imp_le)

lemma map_of_values: "map_of (map (\<lambda>(k, r). (k, lr_value r)) ents) key = map_option lr_value (map_of ents key)"
  by (induction ents) auto

lemma sst_file_not_Nil: "sst_file X enc kvs segs meta mw file \<Longrightarrow> kvs \<noteq> []"
  using sst_file_segs [of X enc kvs segs meta mw "file"] sst_fileD(1,2) [of X enc kvs segs meta mw "file"]
  by (cases segs) (auto simp: segs_ok_def)

text \<open>
  A catalogue says which segments the file of a path is made of. It is what the files on disk mean;
  the program does not have it.
\<close>

type_synonym catalogue = "path \<Rightarrow> segment list option"

definition files_ok :: "('bl, 'c) crates \<Rightarrow> encryption_config \<Rightarrow> disk \<Rightarrow> catalogue \<Rightarrow> bool" where
  "files_ok X enc disk cat \<longleftrightarrow>
     (\<forall>p segs. cat p = Some segs \<longrightarrow>
        (\<exists>meta mw file. disk p = Some file \<and> sst_file X enc (seg_ents segs) segs meta mw file \<and>
           length file < 2 ^ 32 \<and> length (seg_ents segs) < 2 ^ 64))"

text \<open>
  A table of the catalogue: its range and filter come from its file, and the in-memory values, if
  there are any, are those of the records in the file.
\<close>

definition tb_ents :: "catalogue \<Rightarrow> 'bl table \<Rightarrow> (bytes \<times> log_record) list" where
  "tb_ents cat t = (case tb_path t of None \<Rightarrow> [] | Some p \<Rightarrow> (case cat p of None \<Rightarrow> [] | Some segs \<Rightarrow> seg_ents segs))"

definition table_ok :: "('bl, 'c) crates \<Rightarrow> catalogue \<Rightarrow> 'bl table \<Rightarrow> bool" where
  "table_ok X cat t \<longleftrightarrow>
     (\<exists>p segs. tb_path t = Some p \<and> cat p = Some segs) \<and>
     tb_min_key t = fst (hd (tb_ents cat t)) \<and> tb_max_key t = fst (last (tb_ents cat t)) \<and>
     (\<forall>bf k. tb_bloom_filter t = Some bf \<longrightarrow> k \<in> fst ` set (tb_ents cat t) \<longrightarrow> x_bloom_check X bf k) \<and>
     (tb_data t = [] \<or> tb_data t = map (\<lambda>(k, r). (k, lr_value r)) (tb_ents cat t))"

lemma table_okE:
  assumes "table_ok X cat t" "files_ok X enc disk cat"
  obtains p segs meta mw "file" where "tb_path t = Some p" "cat p = Some segs" "tb_ents cat t = seg_ents segs"
    "disk p = Some file" "sst_file X enc (tb_ents cat t) segs meta mw file" "length file < 2 ^ 32"
    "length (tb_ents cat t) < 2 ^ 64"
  using assms by (fastforce simp: table_ok_def files_ok_def tb_ents_def)

lemma table_ok_strict:
  assumes "table_ok X cat t" "files_ok X enc disk cat"
  shows "strict_keys (tb_ents cat t)" "tb_ents cat t \<noteq> []"
proof -
  obtain p segs meta mw "file" where f: "sst_file X enc (tb_ents cat t) segs meta mw file"
    using table_okE [OF assms] by metis
  show "strict_keys (tb_ents cat t)" using sst_fileD(3) [OF f] .
  show "tb_ents cat t \<noteq> []" using sst_file_not_Nil [OF f] .
qed

text \<open>A key outside the range of a table is not in it.\<close>

lemma table_ok_range:
  assumes "table_ok X cat t" "files_ok X enc disk cat" "key < tb_min_key t \<or> tb_max_key t < key"
  shows "map_of (tb_ents cat t) key = None"
proof -
  have key: "fst (hd (tb_ents cat t)) \<le> k \<and> k \<le> fst (last (tb_ents cat t))" if "k \<in> fst ` set (tb_ents cat t)" for k
    using strict_keys_bounds [OF table_ok_strict(1) [OF assms(1,2)]] that by blast
  have "tb_min_key t = fst (hd (tb_ents cat t))" "tb_max_key t = fst (last (tb_ents cat t))"
    using assms(1) by (simp_all add: table_ok_def)
  then show ?thesis using key assms(3) by (force simp: map_of_None_iff)
qed

lemma table_ok_bloom:
  "table_ok X cat t \<Longrightarrow> tb_bloom_filter t = Some bf \<Longrightarrow> \<not> x_bloom_check X bf key \<Longrightarrow> map_of (tb_ents cat t) key = None"
  by (auto simp: table_ok_def map_of_None_iff)

lemma table_ok_data:
  assumes "table_ok X cat t" "map_of (tb_data t) key = Some v"
  shows "\<exists>r. map_of (tb_ents cat t) key = Some r \<and> lr_value r = v"
  using assms by (auto simp: table_ok_def map_of_values)

lemma from_sst_file:
  assumes f: "sst_file X enc kvs segs meta mw file" and laws: "crate_laws X rng"
    and small: "length file < 2 ^ 32" "length kvs < 2 ^ 64" and disk: "disk path = Some file"
  shows "\<exists>t. from_sstable_path X disk path (Some enc) = Ok t \<and> tb_path t = Some path \<and> tb_data t = [] \<and>
    (\<forall>cat. cat path = Some segs \<longrightarrow> table_ok X cat t)"
proof -
  obtain bl where bl: "mb_bloom_filter_data meta = x_bloom_to_bytes X bl" "\<forall>k\<in>fst ` set kvs. x_bloom_check X bl k"
    using sst_fileD(12) [OF f] by blast
  have law: "x_bloom_from_bytes X (x_bloom_to_bytes X bl) = Some bl' \<Longrightarrow> x_bloom_check X bl k \<Longrightarrow> x_bloom_check X bl' k"
    for bl' k using laws by (auto simp: crate_laws_def bloom_law_def)
  let ?t = "\<lparr>tb_data = [], tb_level = 1, tb_path = Some path, tb_min_key = mb_min_key meta,
    tb_max_key = mb_max_key meta, tb_bloom_filter = metadata_bloom X (mb_bloom_filter_data meta)\<rparr>"
  have "from_sstable_path X disk path (Some enc) = Ok ?t"
    using metadata_read_file [OF f laws small] disk by (auto simp: from_sstable_path_def)
  moreover have "table_ok X cat ?t" if "cat path = Some segs" for cat
    using sst_fileD(1,9,10) [OF f] bl law that by (auto simp: table_ok_def tb_ents_def metadata_bloom_def)
  ultimately show ?thesis by fastforce
qed

lemma from_sstable_path_ok:
  assumes build: "sst_build X rng cfg ts enc kvs = Ok file" and laws: "crate_laws X rng" "valid_config cfg"
    and small: "\<forall>e\<in>set kvs. valid_entry X cfg e" "length file < 2 ^ 32" "length kvs < 2 ^ 64"
    and disk: "disk path = Some file"
  shows "\<exists>t segs meta mw. from_sstable_path X disk path (Some enc) = Ok t \<and> sst_file X enc kvs segs meta mw file \<and>
    tb_path t = Some path \<and> tb_data t = [] \<and> (\<forall>cat. table_ok X (cat(path \<mapsto> segs)) t)"
proof -
  obtain segs meta mw where f: "sst_file X enc kvs segs meta mw file"
    using sst_build_file [OF build laws small(1,2)] by blast
  obtain t where t: "from_sstable_path X disk path (Some enc) = Ok t" "tb_path t = Some path" "tb_data t = []"
    "\<forall>cat. cat path = Some segs \<longrightarrow> table_ok X cat t"
    using from_sst_file [OF f laws(1) small(2,3), of disk path] disk by blast
  then have "table_ok X (cat(path \<mapsto> segs)) t" for cat by simp
  with t f show ?thesis by blast
qed

lemma write_sst_table:
  assumes w: "write_sst X rng cfg ts enc path kvs disk = (Ok u, disk1)" and laws: "crate_laws X rng" "valid_config cfg"
    and valid: "\<forall>e\<in>set kvs. valid_entry X cfg e" "length kvs < 2 ^ 64"
    and small: "\<forall>file. disk1 path = Some file \<longrightarrow> length file < 2 ^ 32"
  shows "\<exists>file t segs meta mw. disk1 = disk(path \<mapsto> file) \<and> length file < 2 ^ 32 \<and>
    from_sstable_path X disk1 path (Some enc) = Ok t \<and> sst_file X enc kvs segs meta mw file \<and>
    tb_path t = Some path \<and> tb_data t = [] \<and> (\<forall>cat. table_ok X (cat(path \<mapsto> segs)) t)"
proof -
  from w obtain "file" where f: "sst_build X rng cfg ts enc kvs = Ok file" "disk1 = disk(path \<mapsto> file)"
    by (auto simp: write_sst_def Let_def split: outcome.splits)
  then have d: "disk1 path = Some file" and len: "length file < 2 ^ 32" using small by simp_all
  from from_sstable_path_ok [of X rng cfg ts enc kvs "file" disk1 path, OF f(1) laws valid(1) len valid(2) d]
  show ?thesis using f(2) len by blast
qed

end
