(* ===== verification/Version_Set.thy ===== *)
theory Version_Set
  imports Table
begin

text \<open>
  \<open>src/core/engine/version_set.rs\<close>: the tables of every column family, oldest first, with the
  key-value cache in front of them and the set of files that could not be read.

  The hash maps are association lists. The operations that the source runs on \<open>&self\<close> but that
  change a cache or the quarantine set return the changed version set. What is outside the sources
  (the cache crate, the hash that names a table in the block cache, whether files can be mapped) is
  the record \<open>host\<close>.
\<close>

record ('bl, 'c, 'k) host =
  h_crates :: "('bl, 'c) crates"
  h_cache_new :: 'c
  h_kv_new :: 'k
  h_kv_get :: "'k \<Rightarrow> bytes \<Rightarrow> bytes option"
  h_kv_insert :: "bytes \<Rightarrow> bytes \<Rightarrow> 'k \<Rightarrow> 'k"
  h_kv_invalidate_all :: "'k \<Rightarrow> 'k"
  h_path_hash :: "path \<Rightarrow> u64"
  h_mmap_works :: bool

text \<open>The key-value cache returns nothing or what was last inserted, and nothing after it is cleared.\<close>

definition kv_law :: "('bl, 'c, 'k) host \<Rightarrow> bool" where
  "kv_law H \<longleftrightarrow>
     (\<forall>c k v k' w. h_kv_get H (h_kv_insert H k v c) k' = Some w \<longrightarrow>
        (if k' = k then w = v else h_kv_get H c k' = Some w)) \<and>
     (\<forall>c k. h_kv_get H (h_kv_invalidate_all H c) k = None) \<and> (\<forall>k. h_kv_get H (h_kv_new H) k = None)"

record ('bl, 'c, 'k) version_set =
  vs_kv_cache :: 'k
  vs_tables :: "(string \<times> 'bl table list) list"
  vs_block_cache :: "'c option"
  vs_encryption :: encryption_config
  vs_compaction_generation :: u64
  vs_quarantined :: "path list"
  vs_quarantined_count :: u64
  vs_recovered_count :: u64
  vs_unreadable_count :: u64
  vs_degraded_bloom_count :: u64

definition vs_new :: "('bl, 'c, 'k) host \<Rightarrow> encryption_config \<Rightarrow> 'c option \<Rightarrow> ('bl, 'c, 'k) version_set" where
  "vs_new H encryption block_cache =
     \<lparr>vs_kv_cache = h_kv_new H, vs_tables = [], vs_block_cache = block_cache, vs_encryption = encryption,
      vs_compaction_generation = 0, vs_quarantined = [], vs_quarantined_count = 0, vs_recovered_count = 0,
      vs_unreadable_count = 0, vs_degraded_bloom_count = 0\<rparr>"

definition get_cached :: "('bl, 'c, 'k) host \<Rightarrow> ('bl, 'c, 'k) version_set \<Rightarrow> bytes \<Rightarrow> bytes option" where
  "get_cached H vs key = h_kv_get H (vs_kv_cache vs) key"

definition put_cached ::
  "('bl, 'c, 'k) host \<Rightarrow> bytes \<Rightarrow> bytes \<Rightarrow> ('bl, 'c, 'k) version_set \<Rightarrow> ('bl, 'c, 'k) version_set" where
  "put_cached H key value vs = vs\<lparr>vs_kv_cache := h_kv_insert H key value (vs_kv_cache vs)\<rparr>"

definition clear_cache :: "('bl, 'c, 'k) host \<Rightarrow> ('bl, 'c, 'k) version_set \<Rightarrow> ('bl, 'c, 'k) version_set" where
  "clear_cache H vs = vs\<lparr>vs_kv_cache := h_kv_invalidate_all H (vs_kv_cache vs)\<rparr>"

text \<open>\<open>SstableReader::open_with_encryption\<close> on a path.\<close>

definition open_reader ::
  "('bl, 'c, 'k) host \<Rightarrow> disk \<Rightarrow> encryption_config \<Rightarrow> path \<Rightarrow> 'bl sst_reader outcome" where
  "open_reader H disk enc path =
     and_then (ok_or (Io NotFoundKind) (disk path)) (\<lambda>file.
       rd_open (h_crates H) file enc (h_path_hash H path) (h_mmap_works H))"

text \<open>Without a shared block cache, a reader gets a cache of its own.\<close>

definition block_cache_of :: "('bl, 'c, 'k) host \<Rightarrow> ('bl, 'c, 'k) version_set \<Rightarrow> 'c" where
  "block_cache_of H vs = (case vs_block_cache vs of Some c \<Rightarrow> c | None \<Rightarrow> h_cache_new H)"

definition keep_block_cache :: "'c \<Rightarrow> ('bl, 'c, 'k) version_set \<Rightarrow> ('bl, 'c, 'k) version_set" where
  "keep_block_cache c vs = vs\<lparr>vs_block_cache := map_option (\<lambda>_. c) (vs_block_cache vs)\<rparr>"

definition open_record_reader ::
  "('bl, 'c, 'k) host \<Rightarrow> disk \<Rightarrow> path \<Rightarrow> ('bl, 'c, 'k) version_set \<Rightarrow> 'bl sst_reader outcome" where
  "open_record_reader H disk path vs =
     (if path \<in> set (vs_quarantined vs) then Err InvalidSstableFormat
      else open_reader H disk (vs_encryption vs) path)"

definition bloom_rejects :: "('bl, 'c, 'k) host \<Rightarrow> 'bl table \<Rightarrow> bytes \<Rightarrow> bool" where
  "bloom_rejects H t key =
     (case tb_bloom_filter t of None \<Rightarrow> False | Some bf \<Rightarrow> \<not> x_bloom_check (h_crates H) bf key)"

text \<open>\<open>get_record\<close>: the loop over the tables of a column family, newest first.\<close>

fun record_lookup ::
  "('bl, 'c, 'k) host \<Rightarrow> disk \<Rightarrow> bytes \<Rightarrow> 'bl table list \<Rightarrow> ('bl, 'c, 'k) version_set
   \<Rightarrow> (log_record option \<times> ('bl, 'c, 'k) version_set) outcome" where
  "record_lookup H disk key [] vs = Ok (None, vs)"
| "record_lookup H disk key (t # ts) vs =
     (if tb_min_key t \<noteq> [] \<and> key < tb_min_key t \<or> tb_max_key t \<noteq> [] \<and> tb_max_key t < key \<or> bloom_rejects H t key
      then record_lookup H disk key ts vs
      else case tb_path t of
        Some path \<Rightarrow>
          and_then (open_record_reader H disk path vs) (\<lambda>rd.
            case rd_get (h_crates H) rd key (block_cache_of H vs) of
              (res, c) \<Rightarrow>
                and_then res (\<lambda>found.
                  case found of
                    Some record \<Rightarrow> Ok (Some record, keep_block_cache c vs)
                  | None \<Rightarrow> record_lookup H disk key ts (keep_block_cache c vs)))
      | None \<Rightarrow>
          (case map_of (tb_data t) key of
             Some value \<Rightarrow>
               Ok (Some ((log_record_new 0 key value)\<lparr>lr_timestamp := 0, lr_is_deleted := (value = [])\<rparr>), vs)
           | None \<Rightarrow> record_lookup H disk key ts vs))"

definition vs_get_record ::
  "('bl, 'c, 'k) host \<Rightarrow> disk \<Rightarrow> string \<Rightarrow> bytes \<Rightarrow> ('bl, 'c, 'k) version_set
   \<Rightarrow> (log_record option \<times> ('bl, 'c, 'k) version_set) outcome" where
  "vs_get_record H disk cf key vs =
     (case map_of (vs_tables vs) cf of
        None \<Rightarrow> Ok (None, vs)
      | Some tables \<Rightarrow> record_lookup H disk key (rev tables) vs)"

text \<open>\<open>get\<close>: an unreadable file is put in quarantine and passed over.\<close>

definition quarantine_path :: "path \<Rightarrow> ('bl, 'c, 'k) version_set \<Rightarrow> ('bl, 'c, 'k) version_set" where
  "quarantine_path path vs = vs\<lparr>vs_quarantined := List.insert path (vs_quarantined vs)\<rparr>"

fun value_lookup ::
  "('bl, 'c, 'k) host \<Rightarrow> disk \<Rightarrow> u128 \<Rightarrow> bytes \<Rightarrow> 'bl table list \<Rightarrow> ('bl, 'c, 'k) version_set
   \<Rightarrow> (bytes option \<times> ('bl, 'c, 'k) version_set) outcome" where
  "value_lookup H disk now key [] vs = Ok (None, vs)"
| "value_lookup H disk now key (t # ts) vs =
     (if tb_min_key t \<noteq> [] \<and> tb_max_key t \<noteq> [] \<and> (key < tb_min_key t \<or> tb_max_key t < key)
         \<or> bloom_rejects H t key
      then value_lookup H disk now key ts vs
      else case map_of (tb_data t) key of
        Some (b # bs) \<Rightarrow> Ok (Some (b # bs), put_cached H key (b # bs) vs)
      | in_memory \<Rightarrow>
          (case tb_path t of
             None \<Rightarrow> if in_memory = None then value_lookup H disk now key ts vs else Ok (None, vs)
           | Some path \<Rightarrow>
               if path \<in> set (vs_quarantined vs) then value_lookup H disk now key ts vs
               else case vs_block_cache vs of
                 None \<Rightarrow> value_lookup H disk now key ts vs
               | Some cache \<Rightarrow>
                   (case open_reader H disk (vs_encryption vs) path of
                      Ok rd \<Rightarrow>
                        (case rd_get (h_crates H) rd key cache of
                           (Ok (Some record), c) \<Rightarrow>
                             (let vs1 = vs\<lparr>vs_block_cache := Some c\<rparr>
                              in if lr_is_deleted record then Ok (None, vs1)
                                 else if is_expired_at record now then value_lookup H disk now key ts vs1
                                 else Ok (Some (lr_value record), put_cached H key (lr_value record) vs1))
                         | (Ok None, c) \<Rightarrow> value_lookup H disk now key ts (vs\<lparr>vs_block_cache := Some c\<rparr>)
                         | (Err e, c) \<Rightarrow>
                             value_lookup H disk now key ts (quarantine_path path (vs\<lparr>vs_block_cache := Some c\<rparr>))
                         | (Panic, c) \<Rightarrow> Panic)
                    | Err e \<Rightarrow> value_lookup H disk now key ts (quarantine_path path vs)
                    | Panic \<Rightarrow> Panic)))"

definition vs_get ::
  "('bl, 'c, 'k) host \<Rightarrow> disk \<Rightarrow> u128 \<Rightarrow> string \<Rightarrow> bytes \<Rightarrow> ('bl, 'c, 'k) version_set
   \<Rightarrow> (bytes option \<times> ('bl, 'c, 'k) version_set) outcome" where
  "vs_get H disk now cf key vs =
     (case get_cached H vs key of
        Some cached \<Rightarrow> Ok (if cached = [] then None else Some cached, vs)
      | None \<Rightarrow>
          (case map_of (vs_tables vs) cf of
             None \<Rightarrow> Ok (None, vs)
           | Some cf_tables \<Rightarrow> value_lookup H disk now key (rev cf_tables) vs))"

definition is_quarantined :: "path \<Rightarrow> ('bl, 'c, 'k) version_set \<Rightarrow> bool" where
  "is_quarantined path vs \<longleftrightarrow> path \<in> set (vs_quarantined vs)"

definition quarantined_len :: "('bl, 'c, 'k) version_set \<Rightarrow> nat" where
  "quarantined_len vs = length (vs_quarantined vs)"

text \<open>Moving a file into the quarantine directory replaces what has its name there.\<close>

fun move_quarantined :: "path list \<Rightarrow> disk \<Rightarrow> nat \<Rightarrow> nat \<times> disk" where
  "move_quarantined [] disk moved = (moved, disk)"
| "move_quarantined (path # paths) disk moved =
     (case disk path of
        None \<Rightarrow> move_quarantined paths disk moved
      | Some file \<Rightarrow> move_quarantined paths (disk(path := None, ''quarantine/'' @ path := Some file)) (moved + 1))"

definition evacuate_quarantined ::
  "disk \<Rightarrow> ('bl, 'c, 'k) version_set \<Rightarrow> nat \<times> disk \<times> ('bl, 'c, 'k) version_set" where
  "evacuate_quarantined disk vs =
     (case move_quarantined (vs_quarantined vs) disk 0 of
        (moved, disk') \<Rightarrow> (moved, disk', vs\<lparr>vs_quarantined := []\<rparr>))"

text \<open>\<open>scan\<close> over the in-memory values; the limit is checked after every entry looked at.\<close>

fun scan_memory ::
  "bytes option \<Rightarrow> bytes option \<Rightarrow> nat option \<Rightarrow> (bytes \<times> bytes) list \<Rightarrow> (bytes \<times> bytes) list
   \<Rightarrow> (bytes \<times> bytes) list" where
  "scan_memory lower upper limit [] results = results"
| "scan_memory lower upper limit ((k, v) # kvs) results =
     (let results' =
        (if (case lower of None \<Rightarrow> True | Some lb \<Rightarrow> lb \<le> k) \<and> (case upper of None \<Rightarrow> True | Some ub \<Rightarrow> k < ub)
         then results @ [(k, v)] else results)
      in if (case limit of None \<Rightarrow> False | Some l \<Rightarrow> l \<le> length results') then results'
         else scan_memory lower upper limit kvs results')"

definition vs_scan ::
  "string \<Rightarrow> bytes option \<Rightarrow> bytes option \<Rightarrow> nat option \<Rightarrow> ('bl, 'c, 'k) version_set \<Rightarrow> (bytes \<times> bytes) list" where
  "vs_scan cf lower upper limit vs =
     (case map_of (vs_tables vs) cf of
        None \<Rightarrow> []
      | Some cf_tables \<Rightarrow> scan_memory lower upper limit (concat (map tb_data (rev cf_tables))) [])"

text \<open>\<open>entry(cf).or_default()\<close>\<close>

definition cf_tables :: "('bl, 'c, 'k) version_set \<Rightarrow> string \<Rightarrow> 'bl table list" where
  "cf_tables vs cf = (case map_of (vs_tables vs) cf of None \<Rightarrow> [] | Some ts \<Rightarrow> ts)"

definition add_table ::
  "('bl, 'c, 'k) host \<Rightarrow> string \<Rightarrow> 'bl table \<Rightarrow> ('bl, 'c, 'k) version_set \<Rightarrow> ('bl, 'c, 'k) version_set" where
  "add_table H cf t vs =
     (let vs1 = vs\<lparr>vs_tables := AList.update cf (cf_tables vs cf @ [t]) (vs_tables vs)\<rparr>;
          vs2 = clear_cache H vs1
      in vs2\<lparr>vs_compaction_generation := vs_compaction_generation vs2 + 1\<rparr>)"

definition table_count :: "string \<Rightarrow> ('bl, 'c, 'k) version_set \<Rightarrow> nat" where
  "table_count cf vs = length (cf_tables vs cf)"

definition table_iters :: "string \<Rightarrow> ('bl, 'c, 'k) version_set \<Rightarrow> table_iterator list" where
  "table_iters cf vs = map tb_iter (rev (cf_tables vs cf))"

definition table_iters_in_range ::
  "string \<Rightarrow> bytes option \<Rightarrow> bytes option \<Rightarrow> ('bl, 'c, 'k) version_set \<Rightarrow> table_iterator list" where
  "table_iters_in_range cf lower upper vs =
     map tb_iter (List.filter (\<lambda>t.
       if tb_min_key t = [] \<or> tb_max_key t = [] then True
       else if (case lower of Some lb \<Rightarrow> tb_max_key t < lb | None \<Rightarrow> False) then False
       else if (case upper of Some ub \<Rightarrow> ub \<le> tb_min_key t | None \<Rightarrow> False) then False
       else True) (rev (cf_tables vs cf)))"

text \<open>\<open>record_iters_in_range\<close>: whole records from the files, bare values from tables without one.\<close>

fun record_iters ::
  "('bl, 'c, 'k) host \<Rightarrow> disk \<Rightarrow> bytes option \<Rightarrow> bytes option \<Rightarrow> 'bl table list \<Rightarrow> box_iter list
   \<Rightarrow> ('bl, 'c, 'k) version_set \<Rightarrow> (box_iter list \<times> ('bl, 'c, 'k) version_set) outcome" where
  "record_iters H disk lower upper [] iterators vs = Ok (iterators, vs)"
| "record_iters H disk lower upper (t # ts) iterators vs =
     (if tb_max_key t \<noteq> [] \<and> (case lower of Some lb \<Rightarrow> tb_max_key t < lb | None \<Rightarrow> False)
         \<or> tb_min_key t \<noteq> [] \<and> (case upper of Some ub \<Rightarrow> ub \<le> tb_min_key t | None \<Rightarrow> False)
      then record_iters H disk lower upper ts iterators vs
      else case tb_path t of
        Some path \<Rightarrow>
          and_then (open_record_reader H disk path vs) (\<lambda>rd.
            case scan_range (h_crates H) rd lower upper (block_cache_of H vs) of
              (res, c) \<Rightarrow>
                and_then res (\<lambda>records.
                  record_iters H disk lower upper ts
                    (iterators @ [BoxMem (memtable_iterator_new records)]) (keep_block_cache c vs)))
      | None \<Rightarrow> record_iters H disk lower upper ts (iterators @ [BoxTable (tb_iter t)]) vs)"

definition record_iters_in_range ::
  "('bl, 'c, 'k) host \<Rightarrow> disk \<Rightarrow> string \<Rightarrow> bytes option \<Rightarrow> bytes option \<Rightarrow> ('bl, 'c, 'k) version_set
   \<Rightarrow> (box_iter list \<times> ('bl, 'c, 'k) version_set) outcome" where
  "record_iters_in_range H disk cf lower upper vs =
     (case map_of (vs_tables vs) cf of
        None \<Rightarrow> Ok ([], vs)
      | Some tables \<Rightarrow> record_iters H disk lower upper (rev tables) [] vs)"

definition record_count :: "string \<Rightarrow> ('bl, 'c, 'k) version_set \<Rightarrow> nat" where
  "record_count cf vs = sum_list (map (\<lambda>t. length (tb_data t)) (cf_tables vs cf))"

definition drain_tables ::
  "('bl, 'c, 'k) host \<Rightarrow> string \<Rightarrow> ('bl, 'c, 'k) version_set \<Rightarrow> 'bl table list \<times> ('bl, 'c, 'k) version_set" where
  "drain_tables H cf vs = (cf_tables vs cf, clear_cache H (vs\<lparr>vs_tables := AList.delete cf (vs_tables vs)\<rparr>))"

definition remove_and_add_table ::
  "string \<Rightarrow> 'bl table \<Rightarrow> ('bl, 'c, 'k) version_set \<Rightarrow> ('bl, 'c, 'k) version_set" where
  "remove_and_add_table cf new_table vs =
     vs\<lparr>vs_tables := AList.update cf [new_table] (vs_tables vs),
        vs_compaction_generation := vs_compaction_generation vs + 1\<rparr>"

definition get_tables :: "('bl, 'c, 'k) host \<Rightarrow> string \<Rightarrow> ('bl, 'c, 'k) version_set \<Rightarrow> 'bl table list" where
  "get_tables H cf vs = map (tb_clone (h_crates H)) (cf_tables vs cf)"

text \<open>
  \<open>atomic_replace_groups\<close>: first the indices that go and the tables that come in at the smallest
  index of each group, then one pass over the old tables.
\<close>

fun collect_groups ::
  "nat \<Rightarrow> (nat list \<times> 'bl table list) list \<Rightarrow> nat list \<times> (nat, 'bl table list) btree_map
   \<Rightarrow> nat list \<times> (nat, 'bl table list) btree_map" where
  "collect_groups n [] s = s"
| "collect_groups n ((indices, outputs) # groups) (removed, replacements) =
     (let valid = List.filter (\<lambda>i. i < n) indices
      in if valid = [] then collect_groups n groups (removed, replacements)
         else collect_groups n groups (removed @ valid, btree_insert (Min (set valid)) outputs replacements))"

fun replace_pass ::
  "nat list \<Rightarrow> (nat, 'bl table list) btree_map \<Rightarrow> nat \<Rightarrow> 'bl table list \<Rightarrow> 'bl table list \<times> path list" where
  "replace_pass removed replacements i [] = ([], [])"
| "replace_pass removed replacements i (t # ts) =
     (case replace_pass removed replacements (Suc i) ts of
        (updated, removed_paths) \<Rightarrow>
          (let outputs = (case map_of replacements i of Some os \<Rightarrow> os | None \<Rightarrow> [])
           in if i \<in> set removed
              then (outputs @ updated, (case tb_path t of Some p \<Rightarrow> [p] | None \<Rightarrow> []) @ removed_paths)
              else (outputs @ t # updated, removed_paths)))"

definition atomic_replace_groups ::
  "('bl, 'c, 'k) host \<Rightarrow> string \<Rightarrow> (nat list \<times> 'bl table list) list \<Rightarrow> ('bl, 'c, 'k) version_set
   \<Rightarrow> path list \<times> ('bl, 'c, 'k) version_set" where
  "atomic_replace_groups H cf groups vs =
     (case map_of (vs_tables vs) cf of
        None \<Rightarrow> ([], vs)
      | Some tables \<Rightarrow>
          (case collect_groups (length tables) groups ([], []) of
             (removed, replacements) \<Rightarrow>
               if removed = [] then ([], vs)
               else case replace_pass removed replacements 0 tables of
                 (updated, removed_paths) \<Rightarrow>
                   (removed_paths,
                    clear_cache H (vs\<lparr>vs_tables := AList.update cf updated (vs_tables vs),
                                      vs_compaction_generation := vs_compaction_generation vs + 1\<rparr>))))"

definition atomic_replace ::
  "('bl, 'c, 'k) host \<Rightarrow> string \<Rightarrow> nat list \<Rightarrow> 'bl table list \<Rightarrow> ('bl, 'c, 'k) version_set
   \<Rightarrow> path list \<times> ('bl, 'c, 'k) version_set" where
  "atomic_replace H cf indices new_tables vs = atomic_replace_groups H cf [(indices, new_tables)] vs"

record version_stats =
  vst_num_tables :: nat
  vst_total_size :: nat
  vst_total_records :: nat
  vst_sst_kb :: nat
  vst_sst_files :: nat
  vst_sst_records :: nat
  vst_max_levels_reached :: nat
  vst_num_tables_at_max :: nat

definition vs_stats :: "string \<Rightarrow> ('bl, 'c, 'k) version_set \<Rightarrow> version_stats" where
  "vs_stats cf vs =
     (let ts = cf_tables vs cf; size = sum_list (map tb_size ts); records = record_count cf vs
      in \<lparr>vst_num_tables = length ts, vst_total_size = size, vst_total_records = records,
          vst_sst_kb = size div 1024, vst_sst_files = length ts, vst_sst_records = records,
          vst_max_levels_reached = 0, vst_num_tables_at_max = 0\<rparr>)"

definition column_families :: "('bl, 'c, 'k) version_set \<Rightarrow> string list" where
  "column_families vs = map fst (vs_tables vs)"

end
