(* ===== verification/Compaction.thy ===== *)
theory Compaction
  imports Version_Set
begin

text \<open>
  \<open>src/core/engine/compaction.rs\<close>: which tables are merged together, and the merge.

  The strategy object is its type: the objects are always built with their default settings. Time
  spent is left out of the metrics; the clock is read once per compaction.
\<close>

datatype compaction_strategy_type = SizeTiered | Leveled | LazyLeveling

record compaction_options =
  cp_strategy_type :: compaction_strategy_type
  cp_compaction_threshold :: nat
  cp_max_tables_per_compaction :: nat
  cp_max_concurrent_compactions :: nat

definition compaction_options_default :: compaction_options where
  "compaction_options_default =
     \<lparr>cp_strategy_type = SizeTiered, cp_compaction_threshold = 4, cp_max_tables_per_compaction = 8,
      cp_max_concurrent_compactions = 2\<rparr>"

record compaction_metrics =
  cm_bytes_read :: u64
  cm_bytes_written :: u64
  cm_files_merged :: nat

definition is_key_in_range_tombstones :: "bytes \<Rightarrow> range_tombstone list \<Rightarrow> bool" where
  "is_key_in_range_tombstones key tombstones \<longleftrightarrow>
     (\<exists>rt\<in>set tombstones. rt_start_key rt \<le> key \<and> key < rt_end_key rt)"

text \<open>The merge loop: the key-value pairs that go into the new table, in the order of the merge.\<close>

function merge_loop :: "range_tombstone list \<Rightarrow> merge_iterator \<Rightarrow> (bytes \<times> bytes) list" where
  "merge_loop rts m =
     (if mg_is_valid m
      then let key = mg_key m; value = mg_value m
           in if value \<noteq> []
              then if is_key_in_range_tombstones key rts then merge_loop rts (mg_next m)
                   else (key, value) # merge_loop rts (mg_next m)
              else merge_loop rts (mg_next m)
      else [])"
  by pat_completeness auto
termination
  by (relation "measure (\<lambda>(_, m). mg_weight m)") (auto simp: mg_weight_next)

declare merge_loop.simps [simp del]

definition execute_compaction ::
  "('bl, 'c) crates \<Rightarrow> (nat \<Rightarrow> bytes option) \<Rightarrow> u128 \<Rightarrow> 'bl table list \<Rightarrow> storage_config \<Rightarrow> encryption_config
   \<Rightarrow> string \<Rightarrow> nat option \<Rightarrow> range_tombstone list \<Rightarrow> disk \<Rightarrow> ('bl table list \<times> compaction_metrics) outcome \<times> disk" where
  "execute_compaction X rng now tables config encryption output_prefix level rts disk =
     (let metrics = \<lparr>cm_bytes_read = sum_list (map (\<lambda>t. word_of_nat (tb_size t)) tables), cm_bytes_written = 0,
                     cm_files_merged = length tables\<rparr>
      in if tables = [] then (Ok ([], metrics), disk)
         else
           (let output_path = sst_name output_prefix now;
                merged = merge_loop rts (merge_iterator_new (map (\<lambda>t. BoxTable (tb_iter t)) (rev tables)));
                merged_data = btree_collect merged;
                kvs = map (\<lambda>(k, v). (k, log_record_new now k v)) merged
            in if merged = []
               then (Ok ([], metrics), disk(output_path \<mapsto> sb_writer (sb_new config now encryption)))
               else case write_sst X rng config now encryption output_path kvs disk of
                 (Ok _, disk1) \<Rightarrow>
                   (and_then (from_sstable_path X disk1 output_path (Some encryption)) (\<lambda>t.
                      Ok ([t\<lparr>tb_data := merged_data, tb_level := (case level of None \<Rightarrow> tb_level t | Some l \<Rightarrow> l)\<rparr>],
                          metrics\<lparr>cm_bytes_written :=
                            (case disk1 output_path of None \<Rightarrow> 0 | Some file \<Rightarrow> word_of_nat (length file))\<rparr>)),
                    disk1)
               | (Err e, disk1) \<Rightarrow> (Err e, disk1)
               | (Panic, disk1) \<Rightarrow> (Panic, disk1)))"

subsection \<open>Picking tables\<close>

definition bucket_size_of :: "nat \<Rightarrow> nat" where
  "bucket_size_of sz =
     (if sz < 64 * 1024 then 64 * 1024
      else if sz < 256 * 1024 then 256 * 1024
      else if sz < 1024 * 1024 then 1024 * 1024
      else usize_max)"

fun push_bucket :: "nat \<Rightarrow> nat \<Rightarrow> (nat \<times> nat list) list \<Rightarrow> (nat \<times> nat list) list" where
  "push_bucket bs idx [] = [(bs, [idx])]"
| "push_bucket bs idx ((b, is) # buckets) =
     (if b = bs then (b, is @ [idx]) # buckets else (b, is) # push_bucket bs idx buckets)"

definition group_into_buckets :: "'bl table list \<Rightarrow> nat \<Rightarrow> nat list list" where
  "group_into_buckets tables bucket_threshold =
     map snd (List.filter (\<lambda>(_, indices). bucket_threshold \<le> length indices)
       (fold (\<lambda>(idx, t). push_bucket (bucket_size_of (tb_size t)) idx) (enumerate 0 tables) []))"

definition l0_indices :: "'bl table list \<Rightarrow> nat list" where
  "l0_indices tables = map fst (List.filter (\<lambda>(_, t). tb_level t = 0) (enumerate 0 tables))"

text \<open>The defaults: \<open>min_tables_to_merge\<close> is 2 and \<open>level_multiplier\<close> is 10.\<close>

definition leveled_pick_tables :: "'bl table list \<Rightarrow> nat list list" where
  "leveled_pick_tables tables = (if 10 \<le> length (l0_indices tables) then [l0_indices tables] else [])"

definition lazy_pick_tables :: "('bl, 'c) crates \<Rightarrow> 'bl table list \<Rightarrow> nat list list" where
  "lazy_pick_tables X tables =
     (let l0 = l0_indices tables
      in if l0 \<noteq> []
         then map (\<lambda>bucket. map (\<lambda>i. l0 ! i) (List.filter (\<lambda>i. i < length l0) bucket))
                (group_into_buckets (map (\<lambda>i. tb_clone X (tables ! i)) l0) 2)
         else leveled_pick_tables tables)"

definition pick_compaction :: "('bl, 'c) crates \<Rightarrow> compaction_strategy_type \<Rightarrow> 'bl table list \<Rightarrow> nat list list" where
  "pick_compaction X strategy tables =
     (case strategy of
        SizeTiered \<Rightarrow> group_into_buckets tables 2
      | Leveled \<Rightarrow> leveled_pick_tables tables
      | LazyLeveling \<Rightarrow> lazy_pick_tables X tables)"

definition execute_strategy ::
  "('bl, 'c) crates \<Rightarrow> (nat \<Rightarrow> bytes option) \<Rightarrow> u128 \<Rightarrow> compaction_strategy_type \<Rightarrow> 'bl table list \<Rightarrow> storage_config
   \<Rightarrow> encryption_config \<Rightarrow> range_tombstone list \<Rightarrow> disk \<Rightarrow> ('bl table list \<times> compaction_metrics) outcome \<times> disk" where
  "execute_strategy X rng now strategy tables config encryption rts disk =
     (let size_tiered = execute_compaction X rng now tables config encryption ''sst'' None rts disk;
          leveled = execute_compaction X rng now tables config encryption ''sst_L1'' (Some 1) rts disk
      in case strategy of
           SizeTiered \<Rightarrow> size_tiered
         | Leveled \<Rightarrow> leveled
         | LazyLeveling \<Rightarrow> if \<exists>t\<in>set tables. tb_level t = 0 then size_tiered else leveled)"

record compaction =
  cc_strategy :: compaction_strategy_type
  cc_options :: compaction_options
  cc_storage_config :: storage_config

definition compaction_new ::
  "compaction_strategy_type \<Rightarrow> compaction_options \<Rightarrow> storage_config \<Rightarrow> compaction" where
  "compaction_new strategy options config =
     \<lparr>cc_strategy = strategy, cc_options = options, cc_storage_config = config\<rparr>"

text \<open>Cloning rebuilds the strategy from the options.\<close>

definition compaction_clone :: "compaction \<Rightarrow> compaction" where
  "compaction_clone c = c\<lparr>cc_strategy := cp_strategy_type (cc_options c)\<rparr>"

definition compact ::
  "('bl, 'c) crates \<Rightarrow> (nat \<Rightarrow> bytes option) \<Rightarrow> u128 \<Rightarrow> compaction \<Rightarrow> nat list \<Rightarrow> 'bl table list
   \<Rightarrow> encryption_config \<Rightarrow> range_tombstone list \<Rightarrow> disk \<Rightarrow> ('bl table list \<times> compaction_metrics) outcome \<times> disk" where
  "compact X rng now c indices all_tables encryption rts disk =
     (let tables = map (\<lambda>i. tb_clone X (all_tables ! i)) (List.filter (\<lambda>i. i < length all_tables) indices)
      in if tables = []
         then (Ok ([], \<lparr>cm_bytes_read = 0, cm_bytes_written = 0, cm_files_merged = 0\<rparr>), disk)
         else execute_strategy X rng now (cc_strategy c) tables (cc_storage_config c) encryption rts disk)"

end
