(* ===== verification/Wal.thy ===== *)
theory Wal
  imports Encryption Memtable
begin

text \<open>
  \<open>src/storage/wal.rs\<close>: the write-ahead log.

  A log is its file contents, how many of its bytes have been fsynced, the count of writes since the
  last fsync, and its settings. Every write of the source flushes its buffer to the file before it
  returns, so the file has all written bytes; a crash can lose those that are not yet fsynced.
  Recovery reads the file through a \<open>BufReader\<close>, whose refills are modelled (\<open>Rust_Std\<close>), because
  the code branches on how much of the buffer is left.

  The decoders of the two oldest frame formats are parameters, like the other codecs.
\<close>

definition WAL_SYNC_INTERVAL :: nat where "WAL_SYNC_INTERVAL = 4"
definition MAX_WAL_RECORD_BYTES :: nat where "MAX_WAL_RECORD_BYTES = 32 * 1024 * 1024"

record log_record_v0 =
  v0_key :: bytes
  v0_value :: bytes
  v0_timestamp :: u128
  v0_is_deleted :: bool

definition from_v0 :: "log_record_v0 \<Rightarrow> log_record" where
  "from_v0 v =
     \<lparr>lr_key = v0_key v, lr_value = v0_value v, lr_timestamp = v0_timestamp v, lr_is_deleted = v0_is_deleted v,
      lr_column_family = None, lr_expires_at = None, lr_range_start = None, lr_range_end = None\<rparr>"

record log_record_v1 =
  v1_key :: bytes
  v1_value :: bytes
  v1_timestamp :: u128
  v1_is_deleted :: bool
  v1_column_family :: "string option"

definition from_v1 :: "log_record_v1 \<Rightarrow> log_record" where
  "from_v1 v =
     \<lparr>lr_key = v1_key v, lr_value = v1_value v, lr_timestamp = v1_timestamp v, lr_is_deleted = v1_is_deleted v,
      lr_column_family = v1_column_family v, lr_expires_at = None, lr_range_start = None, lr_range_end = None\<rparr>"

record legacy_codec =
  lc_decode_v0 :: "bytes \<Rightarrow> log_record_v0 option"
  lc_decode_v1 :: "bytes \<Rightarrow> log_record_v1 option"

record wal =
  wal_file :: bytes
  wal_synced :: nat
  wal_batch_count :: nat
  wal_encryptor :: encryptor
  wal_sync_interval :: nat
  wal_rng :: nat

text \<open>The file of a column family, and opening it with what it already contains.\<close>

definition wal_file_name :: "string \<Rightarrow> string" where
  "wal_file_name cf = (if cf = ''default'' \<or> cf = [] then ''wal.log'' else ''wal-'' @ cf @ ''.log'')"

definition wal_open :: "bytes \<Rightarrow> encryption_config \<Rightarrow> wal" where
  "wal_open contents encryption =
     \<lparr>wal_file = contents, wal_synced = length contents, wal_batch_count = 0,
      wal_encryptor = encryptor_new encryption, wal_sync_interval = WAL_SYNC_INTERVAL, wal_rng = 0\<rparr>"

definition set_sync_interval :: "nat \<Rightarrow> wal \<Rightarrow> wal" where
  "set_sync_interval interval w = w\<lparr>wal_sync_interval := interval\<rparr>"

subsection \<open>Writing\<close>

text \<open>\<open>[length: u32 LE][version: u8][payload][crc32: u32 LE]\<close>\<close>

definition wal_frame :: "('bl, 'c) crates \<Rightarrow> u8 \<Rightarrow> bytes \<Rightarrow> bytes" where
  "wal_frame X version payload =
     (let length_bytes = u32_to_le (1 + word_of_nat (length payload))
      in length_bytes @ [version] @ payload @ u32_to_le (x_crc32 X (length_bytes @ [version] @ payload)))"

definition encode_frame ::
  "('bl, 'c) crates \<Rightarrow> (nat \<Rightarrow> bytes option) \<Rightarrow> encryptor \<Rightarrow> nat \<Rightarrow> log_record \<Rightarrow> (bytes \<times> nat) outcome" where
  "encode_frame X rng e draws r =
     and_then (encode_record X r) (\<lambda>serialized.
       if en_enabled e then
         and_then (encrypt_block X e (rng draws) serialized) (\<lambda>encrypted. Ok (wal_frame X 3 encrypted, draws + 1))
       else Ok (wal_frame X 2 serialized, draws))"

definition write_record ::
  "('bl, 'c) crates \<Rightarrow> (nat \<Rightarrow> bytes option) \<Rightarrow> log_record \<Rightarrow> wal \<Rightarrow> wal outcome" where
  "write_record X rng r w =
     and_then (encode_frame X rng (wal_encryptor w) (wal_rng w) r) (\<lambda>(frame, draws).
       let file = wal_file w @ frame; count = wal_batch_count w + 1
       in if wal_sync_interval w \<le> count
          then Ok (w\<lparr>wal_file := file, wal_rng := draws, wal_batch_count := 0, wal_synced := length file\<rparr>)
          else Ok (w\<lparr>wal_file := file, wal_rng := draws, wal_batch_count := count\<rparr>))"

fun encode_frames ::
  "('bl, 'c) crates \<Rightarrow> (nat \<Rightarrow> bytes option) \<Rightarrow> encryptor \<Rightarrow> nat \<Rightarrow> log_record list \<Rightarrow> (bytes list \<times> nat) outcome" where
  "encode_frames X rng e draws [] = Ok ([], draws)"
| "encode_frames X rng e draws (r # rs) =
     and_then (encode_frame X rng e draws r) (\<lambda>(frame, draws1).
       and_then (encode_frames X rng e draws1 rs) (\<lambda>(frames, draws2). Ok (frame # frames, draws2)))"

definition write_batch ::
  "('bl, 'c) crates \<Rightarrow> (nat \<Rightarrow> bytes option) \<Rightarrow> log_record list \<Rightarrow> wal \<Rightarrow> wal outcome" where
  "write_batch X rng rs w =
     (if rs = [] then Ok w
      else and_then (encode_frames X rng (wal_encryptor w) (wal_rng w) rs) (\<lambda>(frames, draws).
        let file = wal_file w @ concat frames
        in Ok (w\<lparr>wal_file := file, wal_rng := draws, wal_batch_count := 0, wal_synced := length file\<rparr>)))"

definition wal_sync :: "wal \<Rightarrow> wal" where
  "wal_sync w = w\<lparr>wal_synced := length (wal_file w), wal_batch_count := 0\<rparr>"

definition wal_clear :: "wal \<Rightarrow> wal" where
  "wal_clear w = w\<lparr>wal_file := [], wal_synced := 0\<rparr>"

text \<open>\<open>archive\<close> returns the contents that the archive file has.\<close>

definition wal_archive :: "wal \<Rightarrow> bytes \<times> wal" where
  "wal_archive w = (wal_file w, w\<lparr>wal_file := [], wal_synced := 0\<rparr>)"

definition exceeds_max_size :: "wal \<Rightarrow> nat \<Rightarrow> bool" where
  "exceeds_max_size w max_size \<longleftrightarrow> max_size < length (wal_file w)"

subsection \<open>Recovery\<close>

definition br_remaining :: "buf_reader \<Rightarrow> nat" where
  "br_remaining r = length (br_buf r) + length (br_file r)"

lemma fill_buf_remaining [simp]: "br_remaining (fill_buf r) = br_remaining r"
proof (cases "br_buf r = []")
  case True
  have "length (take buf_capacity (br_file r)) + length (drop buf_capacity (br_file r)) = length (br_file r)"
    by (metis append_take_drop_id length_append)
  then show ?thesis using True by (simp only: fill_buf_def br_remaining_def if_True buf_reader.simps) simp
qed (simp add: fill_buf_def)

lemma read_exact_remaining: "read_exact n r = Some (bs, r') \<Longrightarrow> length bs = n \<and> br_remaining r' + n = br_remaining r"
proof (induction n r arbitrary: bs r' rule: read_exact.induct)
  case (1 n r)
  show ?case
  proof (cases "n = 0 \<or> br_buf r = [] \<and> br_file r = []")
    case True
    then have "read_exact n r = (if n = 0 then Some ([], r) else None)"
      by (auto simp: read_exact.simps [of n r])
    then show ?thesis using "1.prems" by (simp split: if_splits)
  next
    case False
    show ?thesis
    proof (cases "br_buf r = [] \<and> buf_capacity \<le> n")
      case True
      let ?got = "take n (br_file r)" and ?r1 = "r\<lparr>br_file := drop n (br_file r)\<rparr>"
      obtain rest where rest: "read_exact (n - length ?got) ?r1 = Some (rest, r')" "bs = ?got @ rest"
        using "1.prems" False True by (auto simp: read_exact.simps [of n r] Let_def split: option.splits)
      have "length rest = n - length ?got \<and> br_remaining r' + (n - length ?got) = br_remaining ?r1"
        using "1.IH"(1) [OF _ _ _ refl rest(1)] False True by auto
      then show ?thesis using rest(2) by (auto simp: br_remaining_def)
    next
      case False2: False
      let ?f = "fill_buf r"
      let ?got = "take n (br_buf ?f)" and ?r1 = "?f\<lparr>br_buf := drop n (br_buf ?f)\<rparr>"
      obtain rest where rest: "read_exact (n - length ?got) ?r1 = Some (rest, r')" "bs = ?got @ rest"
        using "1.prems" False False2 by (auto simp: read_exact.simps [of n r] Let_def split: option.splits)
      have "length rest = n - length ?got \<and> br_remaining r' + (n - length ?got) = br_remaining ?r1"
        using "1.IH"(2) [OF _ _ _ refl refl rest(1)] False False2 by auto
      moreover have "br_remaining ?r1 + length ?got = br_remaining r"
        using fill_buf_remaining [of r] by (simp add: br_remaining_def)
      ultimately show ?thesis using rest(2) by auto
    qed
  qed
qed

text \<open>
  \<open>resync_after_invalid_length\<close>: skip a byte, look whether a frame could start at the next, at most
  \<open>n\<close> times. \<open>None\<close> is \<open>Ok(false)\<close>.
\<close>

fun resync :: "nat \<Rightarrow> buf_reader \<Rightarrow> nat \<Rightarrow> nat \<Rightarrow> (buf_reader \<times> nat) option" where
  "resync 0 r pos file_size = None"
| "resync (Suc n) r pos file_size =
     (case read_exact 1 r of
        None \<Rightarrow> None
      | Some (_, r1) \<Rightarrow>
          (let pos1 = pos + 1; r2 = fill_buf r1; buf = br_buf r2
           in if 5 \<le> length buf \<and>
                 (let candidate = unat (u32_from_le (take 4 buf))
                  in 35 \<le> candidate \<and> candidate \<le> MAX_WAL_RECORD_BYTES \<and> pos1 + 4 + candidate \<le> file_size
                     \<and> buf ! 4 \<le> 3)
              then Some (r2, pos1)
              else resync n r2 pos1 file_size))"


lemma resync_remaining: "resync n r pos fs = Some (r', pos') \<Longrightarrow> br_remaining r' < br_remaining r"
proof (induction n r pos fs rule: resync.induct)
  case (2 n r pos fs)
  obtain bs r1 where r1: "read_exact 1 r = Some (bs, r1)" using 2 by (auto split: option.splits)
  have less: "br_remaining (fill_buf r1) < br_remaining r"
    using read_exact_remaining [OF r1] by simp
  show ?case
  proof (cases "r' = fill_buf r1 \<and> pos' = pos + 1")
    case False
    then have "resync n (fill_buf r1) (pos + 1) fs = Some (r', pos')"
      using "2.prems" r1 by (auto simp: Let_def split: if_splits)
    with "2.IH" [OF r1 refl refl refl refl] show ?thesis using less "2.prems" r1 False
      by (auto simp: Let_def split: if_splits)
  qed (use less in simp)
qed simp

text \<open>The payload of a frame whose checksum is right; \<open>None\<close> is a frame that is skipped.\<close>

definition decode_payload ::
  "('bl, 'c) crates \<Rightarrow> legacy_codec \<Rightarrow> encryptor \<Rightarrow> u8 \<Rightarrow> bytes \<Rightarrow> log_record option outcome" where
  "decode_payload X L e version payload =
     (if version = 0 then Ok (map_option from_v0 (lc_decode_v0 L payload))
      else if version = 1 then Ok (map_option from_v1 (lc_decode_v1 L payload))
      else if version = 2 then Ok (x_decode_record X payload)
      else if version = 3 then
        and_then (decrypt_for_recovery X e payload) (\<lambda>decrypted.
          and_then (decode_record X decrypted) (\<lambda>r. Ok (Some r)))
      else Ok None)"

text \<open>One round of the recovery loop: stop, or go on behind a frame with what it held.\<close>

datatype recover_step = Done | Next buf_reader nat "log_record option"

definition after_bad_length :: "buf_reader \<Rightarrow> nat \<Rightarrow> nat \<Rightarrow> recover_step outcome" where
  "after_bad_length r pos file_size =
     (case resync MAX_WAL_RECORD_BYTES r pos file_size of
        None \<Rightarrow> Ok Done
      | Some (r', pos') \<Rightarrow> Ok (Next r' pos' None))"

definition recover_step ::
  "('bl, 'c) crates \<Rightarrow> legacy_codec \<Rightarrow> encryptor \<Rightarrow> nat \<Rightarrow> buf_reader \<Rightarrow> nat \<Rightarrow> recover_step outcome" where
  "recover_step X L e file_size r pos =
     (let r0 = fill_buf r
      in if length (br_buf r0) < 4 then Ok Done
         else case read_exact 4 r0 of
           None \<Rightarrow> Err (Io UnexpectedEof)
         | Some (lengthbuf, r1) \<Rightarrow>
             (let pos1 = pos + 4; len = unat (u32_from_le lengthbuf)
              in if len = 0 \<or> MAX_WAL_RECORD_BYTES < len then after_bad_length r1 pos1 file_size
                 else if file_size < pos1 + (1 + (len - 1) + 4) then after_bad_length r1 pos1 file_size
                 else case read_exact 1 r1 of
                   None \<Rightarrow> Err (Io UnexpectedEof)
                 | Some (versionbuf, r2) \<Rightarrow>
                     (case read_exact (len - 1) r2 of
                        None \<Rightarrow> Ok Done
                      | Some (payload, r3) \<Rightarrow>
                          (case read_exact 4 r3 of
                             None \<Rightarrow> Ok Done
                           | Some (checksumbuf, r4) \<Rightarrow>
                               (let pos2 = pos1 + 1 + (len - 1) + 4
                                in if u32_from_le checksumbuf \<noteq> x_crc32 X (lengthbuf @ versionbuf @ payload)
                                   then Ok (Next r4 pos2 None)
                                   else and_then (decode_payload X L e (versionbuf ! 0) payload) (\<lambda>rec.
                                     Ok (Next r4 pos2 rec)))))))"

lemma recover_step_remaining:
  assumes "recover_step X L e fs r pos = Ok (Next r' pos' rec)"
  shows "br_remaining r' < br_remaining r"
proof -
  obtain lb r1 where r1: "read_exact 4 (fill_buf r) = Some (lb, r1)"
    using assms by (auto simp: recover_step_def Let_def split: if_splits option.splits)
  have less: "br_remaining r1 < br_remaining r" using read_exact_remaining [OF r1] by simp
  have bad: "after_bad_length r1 p fs = Ok (Next r' pos' rec) \<Longrightarrow> br_remaining r' < br_remaining r1" for p
    using resync_remaining by (auto simp: after_bad_length_def split: option.splits)
  show ?thesis
  proof (cases "\<exists>p. after_bad_length r1 p fs = Ok (Next r' pos' rec)")
    case True
    then show ?thesis using bad less by (auto intro: less_trans)
  next
    case False
    then obtain n vb r2 m pl r3 cb where
      "read_exact n r1 = Some (vb, r2)" "read_exact m r2 = Some (pl, r3)" "read_exact 4 r3 = Some (cb, r')"
      using assms r1
      by (simp add: recover_step_def Let_def split: if_splits option.splits prod.splits)
    from this [THEN read_exact_remaining] less show ?thesis by linarith
  qed
qed

function recover_loop ::
  "('bl, 'c) crates \<Rightarrow> legacy_codec \<Rightarrow> encryptor \<Rightarrow> nat \<Rightarrow> buf_reader \<Rightarrow> nat \<Rightarrow> log_record list
   \<Rightarrow> log_record list outcome" where
  "recover_loop X L e file_size r pos records =
     and_then (recover_step X L e file_size r pos) (\<lambda>st.
       case st of
         Done \<Rightarrow> Ok records
       | Next r' pos' rec \<Rightarrow>
           recover_loop X L e file_size r' pos'
             (records @ (case rec of None \<Rightarrow> [] | Some x \<Rightarrow> [x])))"
  by pat_completeness auto
termination
  by (relation "measure (\<lambda>(X, L, e, fs, r, pos, recs). br_remaining r)") (auto simp: recover_step_remaining)

declare recover_loop.simps [simp del]


text \<open>\<open>deduplicate_records\<close>: the hash map from (column family, key) to an index is an association list.\<close>

definition dedup_key :: "log_record \<Rightarrow> string \<times> bytes" where
  "dedup_key r = (case lr_column_family r of None \<Rightarrow> ''default'' | Some cf \<Rightarrow> cf, lr_key r)"

fun dedup_visit ::
  "nat \<times> log_record \<Rightarrow> nat list \<times> ((string \<times> bytes) \<times> nat) list
   \<Rightarrow> nat list \<times> ((string \<times> bytes) \<times> nat) list" where
  "dedup_visit (i, r) (keep, last_occurrence) =
     (if is_range_tombstone r then (keep @ [i], last_occurrence)
      else (keep, AList.update (dedup_key r) i last_occurrence))"

definition deduplicate_records :: "log_record list \<Rightarrow> log_record list" where
  "deduplicate_records records =
     (let (keep, last_occurrence) = fold dedup_visit (enumerate 0 records) ([], [])
      in map ((!) records) (sort (keep @ map snd last_occurrence)))"

text \<open>\<open>recover_locked\<close> flushes and fsyncs the writer first, so it also returns the log.\<close>

definition recover_locked ::
  "('bl, 'c) crates \<Rightarrow> legacy_codec \<Rightarrow> wal \<Rightarrow> (log_record list \<times> wal) outcome" where
  "recover_locked X L w =
     (let file = wal_file w; w1 = w\<lparr>wal_synced := length file\<rparr>
      in and_then (recover_loop X L (wal_encryptor w) (length file) \<lparr>br_buf = [], br_file = file\<rparr> 0 [])
           (\<lambda>records. Ok (deduplicate_records records, w1)))"

definition retain ::
  "('bl, 'c) crates \<Rightarrow> legacy_codec \<Rightarrow> (nat \<Rightarrow> bytes option) \<Rightarrow> (log_record \<Rightarrow> bool) \<Rightarrow> wal \<Rightarrow> wal outcome" where
  "retain X L rng predicate w =
     and_then (recover_locked X L w) (\<lambda>(all_records, w1).
       let survivors = filter predicate all_records
       in and_then (encode_frames X rng (wal_encryptor w1) (wal_rng w1) survivors) (\<lambda>(frames, draws).
            let file = concat frames
            in Ok (w1\<lparr>wal_file := file, wal_synced := length file, wal_rng := draws\<rparr>)))"

subsection \<open>Migration\<close>

text \<open>
  \<open>rewrite_for_migration\<close> reads strictly: any damage is an error. The output log is the one opened at
  the destination; the count of records is returned with it.
\<close>

definition wal_cf_of_file_name :: "string \<Rightarrow> string outcome" where
  "wal_cf_of_file_name name =
     (if name = ''wal.log'' then Ok ''default''
      else let n = length name
           in if 4 \<le> n \<and> take 4 name = ''wal-'' \<and> 4 \<le> n - 4 \<and> drop (n - 4) name = ''.log''
              then let cf = take (n - 8) (drop 4 name)
                   in if cf \<noteq> [] \<and> cf \<noteq> ''default'' then Ok cf
                      else Err InvalidArgument
              else Err InvalidArgument)"

definition migrate_decode ::
  "('bl, 'c) crates \<Rightarrow> legacy_codec \<Rightarrow> encryptor \<Rightarrow> bool \<Rightarrow> u8 \<Rightarrow> bytes \<Rightarrow> log_record outcome" where
  "migrate_decode X L e allow_legacy_zero version payload =
     (if version = 0 then
        (case lc_decode_v0 L payload of None \<Rightarrow> Err Codec | Some v \<Rightarrow> Ok (from_v0 v))
      else if version = 1 then
        (case lc_decode_v1 L payload of None \<Rightarrow> Err Codec | Some v \<Rightarrow> Ok (from_v1 v))
      else if version = 2 then decode_record X payload
      else if version = 3 then
        and_then
          (if decrypt_for_recovery X e payload = Err LegacyEncryptionMigrationRequired \<and> allow_legacy_zero
           then decrypt_block X (encryptor_new \<lparr>ec_key = replicate 32 0, ec_enabled = True\<rparr>) payload
           else decrypt_for_recovery X e payload)
          (decode_record X)
      else Err WalCorruption)"


definition read_frame_strict ::
  "('bl, 'c) crates \<Rightarrow> bytes \<Rightarrow> buf_reader \<Rightarrow> (u8 \<times> bytes \<times> buf_reader) outcome" where
  "read_frame_strict X first r =
     and_then (ok_or (Io UnexpectedEof) (read_exact 3 r)) (\<lambda>(rest, r1).
       let length_bytes = first @ rest; len = unat (u32_from_le length_bytes)
       in if len = 0 \<or> MAX_WAL_RECORD_BYTES < len then Err WalCorruption
          else and_then (ok_or (Io UnexpectedEof) (read_exact 1 r1)) (\<lambda>(version, r2).
            and_then (ok_or (Io UnexpectedEof) (read_exact (len - 1) r2)) (\<lambda>(payload, r3).
              and_then (ok_or (Io UnexpectedEof) (read_exact 4 r3)) (\<lambda>(checksum, r4).
                if x_crc32 X (length_bytes @ version @ payload) \<noteq> u32_from_le checksum then Err WalCorruption
                else Ok (version ! 0, payload, r4)))))"

lemma read_frame_strict_remaining:
  "read_frame_strict X first r = Ok (v, p, r') \<Longrightarrow> br_remaining r' \<le> br_remaining r"
  by (auto simp: read_frame_strict_def Let_def split: if_splits dest!: read_exact_remaining)

function rewrite_loop ::
  "('bl, 'c) crates \<Rightarrow> legacy_codec \<Rightarrow> (nat \<Rightarrow> bytes option) \<Rightarrow> encryptor \<Rightarrow> bool \<Rightarrow> buf_reader \<Rightarrow> wal \<Rightarrow> nat
   \<Rightarrow> (wal \<times> nat) outcome" where
  "rewrite_loop X L rng e allow_legacy_zero r output count =
     (case read_exact 1 r of
        None \<Rightarrow> Ok (wal_sync output, count)
      | Some (first, r1) \<Rightarrow>
          and_then (read_frame_strict X first r1) (\<lambda>(version, payload, r2).
            and_then (migrate_decode X L e allow_legacy_zero version payload) (\<lambda>record.
              let encryption_overhead = (if en_enabled (wal_encryptor output) then 12 + 16 else 0);
                  max_payload = MAX_WAL_RECORD_BYTES - 1 - encryption_overhead
              in and_then (encode_record X record) (\<lambda>encoded.
                   if max_payload < length encoded then Err InvalidArgument
                   else and_then (write_record X rng record output) (\<lambda>output1.
                     rewrite_loop X L rng e allow_legacy_zero r2 output1 (count + 1))))))"
  by pat_completeness auto
termination
  by (relation "measure (\<lambda>(X, L, rng, e, a, r, out, n). br_remaining r)")
    (auto dest!: read_exact_remaining read_frame_strict_remaining)

declare rewrite_loop.simps [simp del]

definition rewrite_for_migration ::
  "('bl, 'c) crates \<Rightarrow> legacy_codec \<Rightarrow> (nat \<Rightarrow> bytes option) \<Rightarrow> bytes \<Rightarrow> string \<Rightarrow> bytes
   \<Rightarrow> encryption_config \<Rightarrow> encryption_config \<Rightarrow> bool \<Rightarrow> (wal \<times> nat) outcome" where
  "rewrite_for_migration X L rng source destination contents source_encryption target_encryption allow_legacy_zero =
     and_then (wal_cf_of_file_name destination) (\<lambda>cf.
       rewrite_loop X L rng (encryptor_new source_encryption) allow_legacy_zero \<lparr>br_buf = [], br_file = source\<rparr>
         (set_sync_interval usize_max (wal_open contents target_encryption)) 0)"

end
