(* ===== verification/Engine_Core.thy ===== *)
theory Engine_Core
  imports Compaction Wal
begin

text \<open>
  \<open>src/core/engine/mod.rs\<close>, part 1: options, the mutable state behind the engine's lock, flushing a
  memtable to a table file, and the writes.

  An operation returns its result together with the state it leaves, also when it fails. The
  association lists stand for hash maps. \<open>co_sst_dir\<close> is what the table directory holds and
  \<open>co_dir\<close> the log files of the database directory that are not open. Readings of the clock and the
  random source are arguments. Replication, change events, metrics and log messages are left out,
  and so is the start of the background threads (\<open>Engine_Steps\<close> has them as steps).
  Byte counts are natural numbers: they stay far below the range of \<open>usize\<close>.
\<close>

definition DEFAULT_SCAN_LIMIT :: nat where "DEFAULT_SCAN_LIMIT = 128"
definition MAX_SCAN_LIMIT :: nat where "MAX_SCAN_LIMIT = 10000"
definition MAX_KEY_SIZE :: nat where "MAX_KEY_SIZE = 4096"
definition MAX_VALUE_SIZE :: nat where "MAX_VALUE_SIZE = 16 * 1024 * 1024"

record engine_options =
  eo_block_size :: nat
  eo_bloom_bits_per_key :: nat
  eo_max_table_size :: nat
  eo_min_table_size_to_compact :: nat
  eo_max_levels :: nat
  eo_level_multiplier :: nat
  eo_write_buffer_size :: nat
  eo_max_write_buffer_number :: nat
  eo_block_cache_size_mb :: nat
  eo_compaction_options :: compaction_options
  eo_default_ttl :: "u128 option"
  eo_encryption :: encryption_config
  eo_wal_sync_interval :: nat

definition engine_options_default :: engine_options where
  "engine_options_default =
     \<lparr>eo_block_size = 4096, eo_bloom_bits_per_key = 10, eo_max_table_size = 1024 * 1024,
      eo_min_table_size_to_compact = 64, eo_max_levels = 7, eo_level_multiplier = 4,
      eo_write_buffer_size = 64 * 1024, eo_max_write_buffer_number = 4, eo_block_cache_size_mb = 64,
      eo_compaction_options = compaction_options_default, eo_default_ttl = None,
      eo_encryption = encryption_default, eo_wal_sync_interval = WAL_SYNC_INTERVAL\<rparr>"

text \<open>The settings that flushes, snapshots and the compaction object give to the table builder.\<close>

definition storage_config_of :: "engine_options \<Rightarrow> storage_config" where
  "storage_config_of options =
     \<lparr>sc_block_size = eo_block_size options, sc_bloom_false_positive_rate = FP_RATE,
      sc_prefix_compression_enabled = False\<rparr>"

definition write_buffer_limit :: "engine_options \<Rightarrow> nat" where
  "write_buffer_limit options = eo_write_buffer_size options * eo_max_write_buffer_number options"

record ('bl, 'c, 'k) engine_core =
  co_memtables :: "(string \<times> memtable list) list"
  co_memtable_bytes :: "(string \<times> nat) list"
  co_version_set :: "('bl, 'c, 'k) version_set"
  co_compaction :: compaction
  co_wals :: "(string \<times> wal) list"
  co_range_tombstones :: "(string \<times> range_tombstone list) list"
  co_encryption :: encryption_config
  co_wal_sync_interval :: nat
  co_sst_dir :: disk
  co_dir :: "string \<Rightarrow> bytes option"

text \<open>Sequencing of operations that keep their state when they fail.\<close>

fun bind_st :: "'a outcome \<times> 's \<Rightarrow> ('a \<Rightarrow> 's \<Rightarrow> 'b outcome \<times> 's) \<Rightarrow> 'b outcome \<times> 's" where
  "bind_st (Ok a, s) f = f a s"
| "bind_st (Err e, s) f = (Err e, s)"
| "bind_st (Panic, s) f = (Panic, s)"

text \<open>An operation of the version set on the state that holds it.\<close>

definition on_version_set ::
  "(('bl, 'c, 'k) version_set \<Rightarrow> ('a \<times> ('bl, 'c, 'k) version_set) outcome) \<Rightarrow> ('bl, 'c, 'k) engine_core
   \<Rightarrow> 'a outcome \<times> ('bl, 'c, 'k) engine_core" where
  "on_version_set f core =
     (case f (co_version_set core) of
        Ok (a, vs) \<Rightarrow> (Ok a, core\<lparr>co_version_set := vs\<rparr>)
      | Err e \<Rightarrow> (Err e, core)
      | Panic \<Rightarrow> (Panic, core))"

subsection \<open>Logs and memtables of a column family\<close>

definition wal_handle :: "string \<Rightarrow> ('bl, 'c, 'k) engine_core \<Rightarrow> wal outcome \<times> ('bl, 'c, 'k) engine_core" where
  "wal_handle cf core =
     (let core1 =
        (if map_of (co_wals core) cf \<noteq> None then core
         else let contents = (case co_dir core (wal_file_name cf) of None \<Rightarrow> [] | Some bs \<Rightarrow> bs);
                  wal = set_sync_interval (co_wal_sync_interval core) (wal_open contents (co_encryption core))
              in core\<lparr>co_wals := AList.update cf wal (co_wals core)\<rparr>)
      in (ok_or InvalidArgument (map_of (co_wals core1) cf), core1))"

definition on_wal ::
  "string \<Rightarrow> (wal \<Rightarrow> wal outcome) \<Rightarrow> ('bl, 'c, 'k) engine_core \<Rightarrow> unit outcome \<times> ('bl, 'c, 'k) engine_core" where
  "on_wal cf f core =
     bind_st (wal_handle cf core) (\<lambda>w core1.
       case f w of
         Ok w' \<Rightarrow> (Ok (), core1\<lparr>co_wals := AList.update cf w' (co_wals core1)\<rparr>)
       | Err e \<Rightarrow> (Err e, core1)
       | Panic \<Rightarrow> (Panic, core1))"

definition memtables_of :: "('bl, 'c, 'k) engine_core \<Rightarrow> string \<Rightarrow> memtable list" where
  "memtables_of core cf = (case map_of (co_memtables core) cf of None \<Rightarrow> [] | Some ms \<Rightarrow> ms)"

definition bytes_of :: "('bl, 'c, 'k) engine_core \<Rightarrow> string \<Rightarrow> nat" where
  "bytes_of core cf = (case map_of (co_memtable_bytes core) cf of None \<Rightarrow> 0 | Some n \<Rightarrow> n)"

definition tombstones_of :: "('bl, 'c, 'k) engine_core \<Rightarrow> string \<Rightarrow> range_tombstone list" where
  "tombstones_of core cf = (case map_of (co_range_tombstones core) cf of None \<Rightarrow> [] | Some rts \<Rightarrow> rts)"

text \<open>The last memtable of a column family; \<open>or_default\<close> and \<open>new_unlimited\<close> when there is none.\<close>

definition on_memtable ::
  "string \<Rightarrow> (memtable \<Rightarrow> memtable) \<Rightarrow> ('bl, 'c, 'k) engine_core \<Rightarrow> ('bl, 'c, 'k) engine_core" where
  "on_memtable cf f core =
     (let ms = memtables_of core cf; ms1 = (if ms = [] then [memtable_new usize_max] else ms)
      in core\<lparr>co_memtables := AList.update cf (butlast ms1 @ [f (last ms1)]) (co_memtables core)\<rparr>)"

definition add_bytes :: "string \<Rightarrow> nat \<Rightarrow> ('bl, 'c, 'k) engine_core \<Rightarrow> ('bl, 'c, 'k) engine_core" where
  "add_bytes cf n core = core\<lparr>co_memtable_bytes := AList.update cf (bytes_of core cf + n) (co_memtable_bytes core)\<rparr>"

subsection \<open>Flushing\<close>

definition TTL_PREFIX :: bytes where "TTL_PREFIX = as_bytes ''__ttl:''"

definition ttl_key :: "bytes \<Rightarrow> bytes" where
  "ttl_key key = TTL_PREFIX @ from_utf8_lossy key"

text \<open>The entries of the table file: unexpired records and, for those that expire, their side entry.\<close>

definition flush_entries :: "u128 \<Rightarrow> memtable \<Rightarrow> (bytes \<times> log_record) list" where
  "flush_entries now mem =
     sort_key fst (concat (map (\<lambda>(key, record).
         if is_expired_at record now then []
         else (key, record) #
           (case lr_expires_at record of
              None \<Rightarrow> []
            | Some expires_at \<Rightarrow> [(ttl_key key, log_record_new now (ttl_key key) (u128_to_le expires_at))]))
       (sort_key fst (mt_data mem))))"

definition flush_raw_data :: "u128 \<Rightarrow> memtable \<Rightarrow> (bytes \<times> log_record) list \<Rightarrow> (bytes, bytes) btree_map" where
  "flush_raw_data now mem combined =
     fold (\<lambda>(key, record) m. if starts_with TTL_PREFIX key then btree_insert key (lr_value record) m else m) combined
       (btree_collect (map (\<lambda>(k, r). (k, lr_value r)) (List.filter (\<lambda>(_, r). \<not> is_expired_at r now) (mt_data mem))))"

definition flush_popped ::
  "('bl, 'c, 'k) host \<Rightarrow> (nat \<Rightarrow> bytes option) \<Rightarrow> u128 \<Rightarrow> engine_options \<Rightarrow> string \<Rightarrow> memtable \<Rightarrow> ('bl, 'c, 'k) engine_core
   \<Rightarrow> bool outcome \<times> ('bl, 'c, 'k) engine_core" where
  "flush_popped H rng now options cf mem core =
     (let output_path = sst_name ''flush'' now; combined = flush_entries now mem
      in case write_sst (h_crates H) rng (storage_config_of options) now (eo_encryption options) output_path combined (co_sst_dir core) of
           (res, disk) \<Rightarrow>
             bind_st (res, core\<lparr>co_sst_dir := disk\<rparr>) (\<lambda>_ core1.
             bind_st (from_sstable_path (h_crates H) (co_sst_dir core1) output_path (Some (eo_encryption options)), core1) (\<lambda>t core1.
               let table = t\<lparr>tb_data := flush_raw_data now mem combined, tb_level := 0\<rparr>;
                   core2 = core1\<lparr>co_version_set := add_table H cf table (co_version_set core1)\<rparr>
               in if map_of (co_memtable_bytes core2) cf = None then (Err InvalidArgument, core2)
                  else let core3 = core2\<lparr>co_memtable_bytes := AList.update cf 0 (co_memtable_bytes core2)\<rparr>
                       in bind_st (on_wal cf (\<lambda>w. Ok (wal_clear w)) core3) (\<lambda>_ core4.
                            (Ok (cp_compaction_threshold (eo_compaction_options options) < table_count cf (co_version_set core4)),
                             core4)))))"

definition flush_memtable_impl ::
  "('bl, 'c, 'k) host \<Rightarrow> (nat \<Rightarrow> bytes option) \<Rightarrow> u128 \<Rightarrow> engine_options \<Rightarrow> string \<Rightarrow> ('bl, 'c, 'k) engine_core
   \<Rightarrow> bool outcome \<times> ('bl, 'c, 'k) engine_core" where
  "flush_memtable_impl H rng now options cf core =
     (case map_of (co_memtables core) cf of
        None \<Rightarrow> (Ok False, core)
      | Some memtables \<Rightarrow>
          if memtables = [] then (Ok False, core)
          else if mt_data (last memtables) = []
          then bind_st (on_wal cf (\<lambda>w. Ok (wal_sync w)) core) (\<lambda>_ core1. (Ok False, core1))
          else flush_popped H rng now options cf (last memtables)
                 (core\<lparr>co_memtables := AList.update cf (butlast memtables) (co_memtables core)\<rparr>))"

definition flush_if_full ::
  "('bl, 'c, 'k) host \<Rightarrow> (nat \<Rightarrow> bytes option) \<Rightarrow> u128 \<Rightarrow> engine_options \<Rightarrow> string \<Rightarrow> ('bl, 'c, 'k) engine_core
   \<Rightarrow> bool outcome \<times> ('bl, 'c, 'k) engine_core" where
  "flush_if_full H rng now options cf core =
     (if write_buffer_limit options \<le> bytes_of core cf then flush_memtable_impl H rng now options cf core
      else (Ok False, core))"

subsection \<open>Writes\<close>

text \<open>
  Each write is a phase that appends to the log and a phase that changes the memory. Between the two
  the lock is free. A result \<open>Ok True\<close> asks for a compaction. A handler reads the clock several
  times: \<open>now\<close> stamps what goes into the memory (and drives a flush that follows under the same lock),
  \<open>log_now\<close> the log record of a deletion, \<open>ttl_now\<close> the default expiry.
\<close>

definition put_record :: "engine_options \<Rightarrow> u128 \<Rightarrow> u128 \<Rightarrow> string \<Rightarrow> bytes \<Rightarrow> bytes \<Rightarrow> u128 option \<Rightarrow> log_record" where
  "put_record options now ttl_now cf key value ttl =
     (let r = (case ttl of Some ttl \<Rightarrow> new_with_ttl now key value ttl | None \<Rightarrow> log_record_new now key value);
          record = r\<lparr>lr_column_family := Some cf\<rparr>
      in if lr_expires_at record = None
         then (case eo_default_ttl options of
                 None \<Rightarrow> record
               | Some default_ttl \<Rightarrow> record\<lparr>lr_expires_at := Some (u128_saturating_add ttl_now default_ttl)\<rparr>)
         else record)"

definition log_phase ::
  "('bl, 'c, 'k) host \<Rightarrow> (nat \<Rightarrow> bytes option) \<Rightarrow> string \<Rightarrow> log_record \<Rightarrow> ('bl, 'c, 'k) engine_core
   \<Rightarrow> unit outcome \<times> ('bl, 'c, 'k) engine_core" where
  "log_phase H rng cf record core = on_wal cf (write_record (h_crates H) rng record) core"

definition put_phase ::
  "('bl, 'c, 'k) host \<Rightarrow> (nat \<Rightarrow> bytes option) \<Rightarrow> u128 \<Rightarrow> engine_options \<Rightarrow> string \<Rightarrow> log_record \<Rightarrow> ('bl, 'c, 'k) engine_core
   \<Rightarrow> bool outcome \<times> ('bl, 'c, 'k) engine_core" where
  "put_phase H rng now options cf record core =
     flush_if_full H rng now options cf
       (add_bytes cf (length (lr_key record) + length (lr_value record)) (on_memtable cf (mt_insert record) core))"

definition put_core ::
  "('bl, 'c, 'k) host \<Rightarrow> (nat \<Rightarrow> bytes option) \<Rightarrow> u128 \<Rightarrow> u128 \<Rightarrow> engine_options \<Rightarrow> string \<Rightarrow> bytes \<Rightarrow> bytes \<Rightarrow> u128 option
   \<Rightarrow> ('bl, 'c, 'k) engine_core \<Rightarrow> bool outcome \<times> ('bl, 'c, 'k) engine_core" where
  "put_core H rng now ttl_now options cf key value ttl core =
     (if MAX_KEY_SIZE < length key then (Err InvalidArgument, core)
      else if MAX_VALUE_SIZE < length value then (Err InvalidArgument, core)
      else let record = put_record options now ttl_now cf key value ttl
           in bind_st (log_phase H rng cf record core) (\<lambda>_. put_phase H rng now options cf record))"

definition delete_phase ::
  "('bl, 'c, 'k) host \<Rightarrow> (nat \<Rightarrow> bytes option) \<Rightarrow> u128 \<Rightarrow> engine_options \<Rightarrow> string \<Rightarrow> bytes \<Rightarrow> ('bl, 'c, 'k) engine_core
   \<Rightarrow> bool outcome \<times> ('bl, 'c, 'k) engine_core" where
  "delete_phase H rng now options cf key core =
     flush_if_full H rng now options cf (add_bytes cf (length key) (on_memtable cf (mt_delete now key) core))"

definition delete_core ::
  "('bl, 'c, 'k) host \<Rightarrow> (nat \<Rightarrow> bytes option) \<Rightarrow> u128 \<Rightarrow> u128 \<Rightarrow> engine_options \<Rightarrow> string \<Rightarrow> bytes \<Rightarrow> ('bl, 'c, 'k) engine_core
   \<Rightarrow> bool outcome \<times> ('bl, 'c, 'k) engine_core" where
  "delete_core H rng log_now now options cf key core =
     bind_st (log_phase H rng cf ((tombstone log_now key)\<lparr>lr_column_family := Some cf\<rparr>) core)
       (\<lambda>_. delete_phase H rng now options cf key)"

text \<open>A range deletion is recorded for the column family and in its last memtable.\<close>

definition add_range :: "string \<Rightarrow> range_tombstone \<Rightarrow> ('bl, 'c, 'k) engine_core \<Rightarrow> ('bl, 'c, 'k) engine_core" where
  "add_range cf rt core =
     on_memtable cf (add_range_tombstone rt)
       (core\<lparr>co_range_tombstones := AList.update cf (tombstones_of core cf @ [rt]) (co_range_tombstones core)\<rparr>)"

definition delete_range_cf ::
  "('bl, 'c, 'k) host \<Rightarrow> (nat \<Rightarrow> bytes option) \<Rightarrow> u128 \<Rightarrow> u128 \<Rightarrow> string \<Rightarrow> bytes \<Rightarrow> bytes \<Rightarrow> ('bl, 'c, 'k) engine_core
   \<Rightarrow> unit outcome \<times> ('bl, 'c, 'k) engine_core" where
  "delete_range_cf H rng now log_now cf start stop core =
     (let rt = range_tombstone_new now start stop
      in bind_st (log_phase H rng cf ((mk_range_tombstone log_now start stop)\<lparr>lr_column_family := Some cf\<rparr>) core)
           (\<lambda>_ core1. (Ok (), add_range cf rt core1)))"

text \<open>
  Batches: one log write for all records, then the memtable. The log records and the memtable records
  are made separately, with their own readings of the clock.
\<close>

definition set_batch_cf ::
  "('bl, 'c, 'k) host \<Rightarrow> (nat \<Rightarrow> bytes option) \<Rightarrow> (nat \<Rightarrow> u128) \<Rightarrow> engine_options \<Rightarrow> string \<Rightarrow> (bytes \<times> bytes) list
   \<Rightarrow> ('bl, 'c, 'k) engine_core \<Rightarrow> bool outcome \<times> ('bl, 'c, 'k) engine_core" where
  "set_batch_cf H rng clock options cf items core =
     (let n = length items;
          records = map (\<lambda>(i, key, value). (log_record_new (clock i) key value)\<lparr>lr_column_family := Some cf\<rparr>) (enumerate 0 items)
      in bind_st (on_wal cf (write_batch (h_crates H) rng records) core) (\<lambda>_ core1.
           flush_if_full H rng (clock (2 * n)) options cf
             (fold (\<lambda>(i, key, value) c. add_bytes cf (length key + length value) (on_memtable cf (mt_put (clock i) key value) c))
                (enumerate n items) core1)))"

definition delete_batch_cf ::
  "('bl, 'c, 'k) host \<Rightarrow> (nat \<Rightarrow> bytes option) \<Rightarrow> (nat \<Rightarrow> u128) \<Rightarrow> engine_options \<Rightarrow> string \<Rightarrow> bytes list
   \<Rightarrow> ('bl, 'c, 'k) engine_core \<Rightarrow> bool outcome \<times> ('bl, 'c, 'k) engine_core" where
  "delete_batch_cf H rng clock options cf keys core =
     (let n = length keys;
          records = map (\<lambda>(i, key). (tombstone (clock i) key)\<lparr>lr_column_family := Some cf\<rparr>) (enumerate 0 keys)
      in bind_st (on_wal cf (write_batch (h_crates H) rng records) core) (\<lambda>_ core1.
           flush_if_full H rng (clock (2 * n)) options cf
             (fold (\<lambda>(i, key) c. add_bytes cf (length key) (on_memtable cf (mt_delete (clock i) key) c))
                (enumerate n keys) core1)))"

subsection \<open>Replay\<close>

definition replay_record :: "log_record \<Rightarrow> ('bl, 'c, 'k) engine_core \<Rightarrow> ('bl, 'c, 'k) engine_core" where
  "replay_record record core =
     (let cf = (case lr_column_family record of None \<Rightarrow> ''default'' | Some cf \<Rightarrow> cf)
      in if is_range_tombstone record
         then add_range cf
                \<lparr>rt_start_key = (case lr_range_start record of None \<Rightarrow> [] | Some k \<Rightarrow> k),
                 rt_end_key = (case lr_range_end record of None \<Rightarrow> [] | Some k \<Rightarrow> k), rt_timestamp = lr_timestamp record\<rparr> core
         else add_bytes cf (length (lr_key record) + length (lr_value record)) (on_memtable cf (mt_insert record) core))"

definition replay_wal_records_core :: "log_record list \<Rightarrow> ('bl, 'c, 'k) engine_core \<Rightarrow> ('bl, 'c, 'k) engine_core" where
  "replay_wal_records_core records core = fold replay_record records core"

end
