(* ===== verification/Engine_Read.thy ===== *)
theory Engine_Read
  imports Engine_Core
begin

text \<open>
  \<open>src/core/engine/mod.rs\<close>, part 2: point lookups, scans and what is built on scans, over memtables,
  tables and range tombstones.
\<close>

definition option_max :: "'a::linorder option \<Rightarrow> 'a option \<Rightarrow> 'a option" where
  "option_max x y = (case (x, y) of (Some a, Some b) \<Rightarrow> Some (max a b) | (None, _) \<Rightarrow> y | (Some _, None) \<Rightarrow> x)"

definition covering_range_tombstone_ts :: "('bl, 'c, 'k) engine_core \<Rightarrow> string \<Rightarrow> bytes \<Rightarrow> u128 option" where
  "covering_range_tombstone_ts core cf key =
     (let engine_level = iterator_max (map rt_timestamp
            (List.filter (\<lambda>rt. rt_start_key rt \<le> key \<and> key < rt_end_key rt) (tombstones_of core cf)));
          memtable_level = iterator_max (List.map_filter (\<lambda>mem. max_covering_range_tombstone mem key) (memtables_of core cf))
      in option_max engine_level memtable_level)"

text \<open>The first record that the memtables of a column family have for a key, newest memtable first.\<close>

definition memtable_record :: "('bl, 'c, 'k) engine_core \<Rightarrow> string \<Rightarrow> bytes \<Rightarrow> log_record option" where
  "memtable_record core cf key = first_some (map (\<lambda>mem. mt_get mem key) (rev (memtables_of core cf)))"

definition check_ttl ::
  "('bl, 'c, 'k) host \<Rightarrow> u128 \<Rightarrow> string \<Rightarrow> bytes \<Rightarrow> bytes option \<Rightarrow> ('bl, 'c, 'k) engine_core
   \<Rightarrow> bytes option outcome \<times> ('bl, 'c, 'k) engine_core" where
  "check_ttl H now cf key result core =
     (if result = None then (Ok None, core)
      else bind_st (on_version_set (vs_get H (co_sst_dir core) now cf (ttl_key key)) core) (\<lambda>ttl core1.
        (Ok (case ttl of
               Some ttl_value \<Rightarrow> if length ttl_value = 16 \<and> u128_from_le ttl_value \<le> now then None else result
             | None \<Rightarrow> result), core1)))"

definition get_cf ::
  "('bl, 'c, 'k) host \<Rightarrow> u128 \<Rightarrow> string \<Rightarrow> bytes \<Rightarrow> ('bl, 'c, 'k) engine_core
   \<Rightarrow> bytes option outcome \<times> ('bl, 'c, 'k) engine_core" where
  "get_cf H now cf key core =
     (let covering_tombstone_ts = covering_range_tombstone_ts core cf key
      in case memtable_record core cf key of
           Some v \<Rightarrow>
             (Ok (if (case covering_tombstone_ts of Some ts \<Rightarrow> lr_timestamp v < ts | None \<Rightarrow> False) then None
                  else if lr_is_deleted v then None
                  else if is_expired_at v now then None
                  else Some (lr_value v)), core)
         | None \<Rightarrow>
             bind_st
               (case covering_tombstone_ts of
                  Some tombstone_ts \<Rightarrow>
                    bind_st (on_version_set (vs_get_record H (co_sst_dir core) cf key) core) (\<lambda>found core1.
                      (Ok (case found of
                             None \<Rightarrow> None
                           | Some record \<Rightarrow>
                               if \<not> lr_is_deleted record \<and> \<not> is_expired_at record now \<and> tombstone_ts \<le> lr_timestamp record
                               then Some (lr_value record) else None), core1))
                | None \<Rightarrow> on_version_set (vs_get H (co_sst_dir core) now cf key) core)
               (check_ttl H now cf key))"

subsection \<open>Scans\<close>

text \<open>Only entries without a record, from tables without a file, look at the expiry side entry.\<close>

definition legacy_expired ::
  "('bl, 'c, 'k) host \<Rightarrow> disk \<Rightarrow> u128 \<Rightarrow> string \<Rightarrow> bytes \<Rightarrow> log_record option \<Rightarrow> ('bl, 'c, 'k) version_set
   \<Rightarrow> (bool \<times> ('bl, 'c, 'k) version_set) outcome" where
  "legacy_expired H disk now cf key record vs =
     (case record of
        Some _ \<Rightarrow> Ok (False, vs)
      | None \<Rightarrow>
          and_then (vs_get H disk now cf (ttl_key key) vs) (\<lambda>(value, vs1).
            Ok ((case value of None \<Rightarrow> False | Some v \<Rightarrow> length v = 16 \<and> u128_from_le v \<le> now), vs1)))"

definition hidden :: "u128 \<Rightarrow> (bytes \<Rightarrow> u128 option) \<Rightarrow> bytes \<Rightarrow> bytes \<Rightarrow> log_record option \<Rightarrow> bool" where
  "hidden now covering key value record \<longleftrightarrow>
     (case record of None \<Rightarrow> value = [] | Some r \<Rightarrow> lr_is_deleted r \<or> is_expired_at r now)
     \<or> (case covering key of
          None \<Rightarrow> False
        | Some timestamp \<Rightarrow> (case record of None \<Rightarrow> True | Some r \<Rightarrow> lr_timestamp r < timestamp))"

function visible_loop ::
  "('bl, 'c, 'k) host \<Rightarrow> disk \<Rightarrow> u128 \<Rightarrow> string \<Rightarrow> (bytes \<Rightarrow> u128 option) \<Rightarrow> bytes option \<Rightarrow> bytes option \<Rightarrow> nat
   \<Rightarrow> merge_iterator \<Rightarrow> ('bl, 'c, 'k) version_set \<Rightarrow> ((bytes \<times> bytes) list \<times> ('bl, 'c, 'k) version_set) outcome" where
  "visible_loop H disk now cf covering lower upper limit merged vs =
     (if mg_is_valid merged \<and> 0 < limit
      then let key = mg_key merged
           in if (case upper of Some ub \<Rightarrow> ub \<le> key | None \<Rightarrow> False) then Ok ([], vs)
              else if (case lower of Some lb \<Rightarrow> key < lb | None \<Rightarrow> False) \<or> starts_with TTL_PREFIX key
              then visible_loop H disk now cf covering lower upper limit (mg_next merged) vs
              else and_then (legacy_expired H disk now cf key (mg_record merged) vs) (\<lambda>(expired, vs1).
                if \<not> hidden now covering key (mg_value merged) (mg_record merged) \<and> \<not> expired
                then and_then (visible_loop H disk now cf covering lower upper (limit - 1) (mg_next merged) vs1)
                       (\<lambda>(rest, vs2). Ok ((key, mg_value merged) # rest, vs2))
                else visible_loop H disk now cf covering lower upper limit (mg_next merged) vs1)
      else Ok ([], vs))"
  by pat_completeness auto
termination
  by (relation "measure (\<lambda>(_, _, _, _, _, _, _, _, m, _). mg_weight m)") (auto simp: mg_weight_next)

declare visible_loop.simps [simp del]

text \<open>\<open>for_each_visible_record\<close>: the keys and values that are visited.\<close>

definition for_each_visible_record ::
  "('bl, 'c, 'k) host \<Rightarrow> u128 \<Rightarrow> string \<Rightarrow> bytes option \<Rightarrow> bytes option \<Rightarrow> nat \<Rightarrow> ('bl, 'c, 'k) engine_core
   \<Rightarrow> (bytes \<times> bytes) list outcome \<times> ('bl, 'c, 'k) engine_core" where
  "for_each_visible_record H now cf lower upper limit core =
     (if limit = 0 \<or> (case (lower, upper) of (Some lb, Some ub) \<Rightarrow> ub \<le> lb | _ \<Rightarrow> False) then (Ok [], core)
      else bind_st (on_version_set (record_iters_in_range H (co_sst_dir core) cf lower upper) core) (\<lambda>table_iters core1.
        let iters = map (\<lambda>mem. BoxMem (mt_iter mem)) (rev (memtables_of core1 cf)) @ table_iters
        in on_version_set (visible_loop H (co_sst_dir core1) now cf (covering_range_tombstone_ts core1 cf) lower upper limit
             (merge_iterator_new iters)) core1))"

definition scan_cf ::
  "('bl, 'c, 'k) host \<Rightarrow> u128 \<Rightarrow> string \<Rightarrow> bytes option \<Rightarrow> bytes option \<Rightarrow> nat option \<Rightarrow> ('bl, 'c, 'k) engine_core
   \<Rightarrow> (bytes \<times> bytes) list outcome \<times> ('bl, 'c, 'k) engine_core" where
  "scan_cf H now cf lower upper limit core =
     for_each_visible_record H now cf lower upper (case limit of None \<Rightarrow> MAX_SCAN_LIMIT | Some l \<Rightarrow> l) core"

definition scan_default where
  "scan_default H now core = scan_cf H now ''default'' None None (Some DEFAULT_SCAN_LIMIT) core"

definition keys_default where
  "keys_default H now core =
     bind_st (for_each_visible_record H now ''default'' None None MAX_SCAN_LIMIT core) (\<lambda>kvs core1. (Ok (map fst kvs), core1))"

definition count_default where
  "count_default H now core =
     bind_st (for_each_visible_record H now ''default'' None None usize_max core) (\<lambda>kvs core1. (Ok (length kvs), core1))"

text \<open>\<open>prefix_end\<close>: add one to the last byte that can take it; the bytes after it become zero.\<close>

fun prefix_carry :: "bytes \<Rightarrow> bytes option" where
  "prefix_carry [] = None"
| "prefix_carry (b # bs) =
     (case prefix_carry bs of
        Some bs' \<Rightarrow> Some (b # bs')
      | None \<Rightarrow> if b < 0xFF then Some ((b + 1) # map (\<lambda>_. 0) bs) else None)"

definition prefix_end :: "bytes \<Rightarrow> bytes option" where
  "prefix_end prefix =
     (if prefix = [] then None
      else case prefix_carry prefix of
             Some result \<Rightarrow> Some result
           | None \<Rightarrow> Some (map (\<lambda>_. 0) prefix @ [0]))"

definition search_prefix ::
  "('bl, 'c, 'k) host \<Rightarrow> u128 \<Rightarrow> bytes \<Rightarrow> bytes option \<Rightarrow> nat \<Rightarrow> ('bl, 'c, 'k) engine_core
   \<Rightarrow> ((bytes \<times> bytes) list \<times> bytes option) outcome \<times> ('bl, 'c, 'k) engine_core" where
  "search_prefix H now prefix cursor limit core =
     (let start = (case cursor of Some c \<Rightarrow> c | None \<Rightarrow> prefix);
          scan_extra = (if cursor = None then 1 else 2)
      in bind_st (scan_cf H now ''default'' (Some start) (prefix_end prefix) (Some (limit + scan_extra)) core) (\<lambda>results core1.
           let results = dropWhile (\<lambda>(k, _). cursor = Some k) results;
               page = take limit results;
               new_cursor = (if limit < length results \<and> page \<noteq> [] \<and> is_utf8 (fst (last page)) then Some (fst (last page)) else None)
           in (Ok (page, new_cursor), core1)))"

text \<open>\<open>str::contains\<close> on the text of a key or value.\<close>

fun contains_bytes :: "bytes \<Rightarrow> bytes \<Rightarrow> bool" where
  "contains_bytes sub [] \<longleftrightarrow> sub = []"
| "contains_bytes sub (b # bs) \<longleftrightarrow> starts_with sub (b # bs) \<or> contains_bytes sub bs"

definition search_contains ::
  "('bl, 'c, 'k) host \<Rightarrow> u128 \<Rightarrow> bytes \<Rightarrow> nat \<Rightarrow> ('bl, 'c, 'k) engine_core
   \<Rightarrow> (bytes \<times> bytes) list outcome \<times> ('bl, 'c, 'k) engine_core" where
  "search_contains H now sub limit core =
     bind_st (scan_cf H now ''default'' None None (Some 10000) core) (\<lambda>results core1.
       (Ok (take (min limit 100) (List.filter (\<lambda>(k, _). contains_bytes sub (from_utf8_lossy k)) results)), core1))"

definition value_search ::
  "('bl, 'c, 'k) host \<Rightarrow> u128 \<Rightarrow> bytes \<Rightarrow> nat \<Rightarrow> ('bl, 'c, 'k) engine_core
   \<Rightarrow> (bytes \<times> bytes) list outcome \<times> ('bl, 'c, 'k) engine_core" where
  "value_search H now query limit core =
     bind_st (scan_cf H now ''default'' None None (Some 10000) core) (\<lambda>results core1.
       (Ok (take (min limit 100) (List.filter (\<lambda>(_, v). contains_bytes query (from_utf8_lossy v)) results)), core1))"

end
