(* ===== verification/Recovery.thy ===== *)
theory Recovery
  imports Engine_Core
begin

text \<open>
  \<open>src/core/engine/recovery.rs\<close> and the start of an engine in \<open>mod.rs\<close>: which table files are
  loaded, which are put in quarantine, and the replay of the logs.

  Paths are names relative to the table directory; the quarantine directory is the prefix
  \<open>quarantine/\<close>. The order in which the operating system lists a directory, the JSON text of a
  quarantine reason and the parsed manifest are arguments. Every listed entry is a regular file.
\<close>

subsection \<open>File names\<close>

text \<open>\<open>Path::components\<close> and \<open>Path::extension\<close> of Unix paths.\<close>

datatype path_component = RootDir | CurDir | ParentDir | Normal string

fun split_on :: "char \<Rightarrow> string \<Rightarrow> string list" where
  "split_on c [] = [[]]"
| "split_on c (x # xs) =
     (if x = c then [] # split_on c xs else (x # hd (split_on c xs)) # tl (split_on c xs))"

definition path_components :: "string \<Rightarrow> path_component list" where
  "path_components name =
     (let parts = split_on (CHR ''/'') name
      in (if take 1 name = ''/'' then [RootDir] else if hd parts = ''.'' then [CurDir] else []) @
         map (\<lambda>p. if p = ''..'' then ParentDir else Normal p) (List.filter (\<lambda>p. p \<noteq> [] \<and> p \<noteq> ''.'') parts))"

definition path_extension :: "string \<Rightarrow> string option" where
  "path_extension name =
     (let comps = path_components name
      in if comps = [] then None
         else case last comps of
           Normal f \<Rightarrow>
             (let parts = split_on (CHR ''.'') f
              in if length parts < 2 \<or> butlast parts = [[]] then None else Some (last parts))
         | _ \<Rightarrow> None)"

definition table_path :: "string \<Rightarrow> path outcome" where
  "table_path name =
     (let comps = path_components name
      in if length comps \<noteq> 1 \<or> (case hd comps of Normal _ \<Rightarrow> False | _ \<Rightarrow> True) \<or> path_extension name \<noteq> Some ''sst''
         then Err InvalidArgument
         else Ok name)"

subsection \<open>Inspection and quarantine\<close>

record 'bl candidate =
  cd_cf :: string
  cd_path :: path
  cd_outcome :: "'bl table_load"

fun inspect_loop ::
  "('bl, 'c) crates \<Rightarrow> disk \<Rightarrow> encryption_config \<Rightarrow> path list \<Rightarrow> (string \<times> path) list \<Rightarrow> 'bl candidate list outcome" where
  "inspect_loop X disk enc seen [] = Ok []"
| "inspect_loop X disk enc seen ((cf, p) # paths) =
     (if p \<in> set seen then Err InvalidArgument
      else if disk p = None then Err (Io NotFoundKind)
      else and_then (load_for_recovery X disk p enc) (\<lambda>load.
             and_then (inspect_loop X disk enc (p # seen) paths) (\<lambda>candidates.
               Ok (\<lparr>cd_cf = cf, cd_path = p, cd_outcome = load\<rparr> # candidates))))"

definition inspect :: "('bl, 'c) crates \<Rightarrow> disk \<Rightarrow> encryption_config \<Rightarrow> (string \<times> path) list \<Rightarrow> 'bl candidate list outcome" where
  "inspect X disk enc paths = inspect_loop X disk enc [] paths"

text \<open>
  A free name in the quarantine directory. Names that get here have the extension \<open>sst\<close>, so that
  \<open>with_extension\<close> appends to them.
\<close>

definition reason_path :: "path \<Rightarrow> path" where
  "reason_path target = target @ ''.quarantine-reason''"

function quarantine_target :: "disk \<Rightarrow> path \<Rightarrow> path \<Rightarrow> u64 \<Rightarrow> path outcome" where
  "quarantine_target disk filename target suffix =
     (if disk target \<noteq> None \<or> disk (reason_path target) \<noteq> None
      then if suffix = -1 then Err InvalidArgument
           else quarantine_target disk filename (''quarantine/'' @ show_dec (unat (suffix + 1)) @ ''-'' @ filename) (suffix + 1)
      else Ok target)"
  by pat_completeness auto
termination
proof (relation "measure (\<lambda>(disk, filename, target, suffix). 2 ^ 64 - unat suffix)", simp)
  fix disk :: disk and filename target :: path and suffix :: u64
  assume "suffix \<noteq> -1"
  then have "1 + suffix \<noteq> 0" by (simp add: add_eq_0_iff)
  then have "unat (suffix + 1) = unat suffix + 1" using unatSuc [of suffix] by (simp add: add.commute)
  moreover have "unat suffix < 2 ^ 64" using unsigned_less [of suffix] by simp
  ultimately show "((disk, filename, ''quarantine/'' @ show_dec (unat (suffix + 1)) @ ''-'' @ filename, suffix + 1), disk, filename, target, suffix)
      \<in> measure (\<lambda>(disk, filename, target, suffix). 2 ^ 64 - unat suffix)"
    by simp
qed

declare quarantine_target.simps [simp del]

definition quarantine :: "bytes \<Rightarrow> path \<Rightarrow> disk \<Rightarrow> unit outcome \<times> disk" where
  "quarantine reason path disk =
     (case quarantine_target disk path (''quarantine/'' @ path) 0 of
        Ok target \<Rightarrow>
          (let disk1 = disk(reason_path target \<mapsto> reason)
           in case disk1 path of
                None \<Rightarrow> (Err (Io NotFoundKind), disk1)
              | Some file \<Rightarrow> (Ok (), disk1(path := None, target := Some file)))
      | Err e \<Rightarrow> (Err e, disk)
      | Panic \<Rightarrow> (Panic, disk))"

definition count_quarantined :: "string list \<Rightarrow> u64" where
  "count_quarantined entries = word_of_nat (length (List.filter (\<lambda>e. path_extension e = Some ''sst'') entries))"

definition add_degraded :: "('bl, 'c, 'k) engine_core \<Rightarrow> ('bl, 'c, 'k) engine_core" where
  "add_degraded core =
     core\<lparr>co_version_set := (co_version_set core)\<lparr>vs_degraded_bloom_count := vs_degraded_bloom_count (co_version_set core) + 1\<rparr>\<rparr>"

definition add_unreadable :: "('bl, 'c, 'k) engine_core \<Rightarrow> ('bl, 'c, 'k) engine_core" where
  "add_unreadable core =
     core\<lparr>co_version_set := (co_version_set core)
       \<lparr>vs_quarantined_count := vs_quarantined_count (co_version_set core) + 1,
        vs_unreadable_count := vs_unreadable_count (co_version_set core) + 1\<rparr>\<rparr>"

fun apply_candidates ::
  "('bl, 'c, 'k) host \<Rightarrow> bytes \<Rightarrow> 'bl candidate list \<Rightarrow> ('bl, 'c, 'k) engine_core \<Rightarrow> unit outcome \<times> ('bl, 'c, 'k) engine_core" where
  "apply_candidates H reason [] core = (Ok (), core)"
| "apply_candidates H reason (c # cs) core =
     (case cd_outcome c of
        Healthy t \<Rightarrow> apply_candidates H reason cs (core\<lparr>co_version_set := add_table H (cd_cf c) t (co_version_set core)\<rparr>)
      | DegradedBloom t \<Rightarrow>
          (let core1 = add_degraded core
           in apply_candidates H reason cs (core1\<lparr>co_version_set := add_table H (cd_cf c) t (co_version_set core1)\<rparr>))
      | Corrupt e \<Rightarrow>
          (case quarantine reason (cd_path c) (co_sst_dir core) of
             (res, disk) \<Rightarrow>
               bind_st (res, core\<lparr>co_sst_dir := disk\<rparr>) (\<lambda>_ core1. apply_candidates H reason cs (add_unreadable core1))))"

subsection \<open>Starting an engine\<close>

type_synonym manifest = "(string \<times> string list) list"

record data_dir =
  dd_locked :: bool
  dd_files :: "string \<Rightarrow> bytes option"
  dd_entries :: "string list"
  dd_manifest :: "manifest option"
  dd_sst :: disk
  dd_sst_entries :: "string list"
  dd_quarantine_entries :: "string list"
  dd_reason :: bytes

fun manifest_paths :: "disk \<Rightarrow> (string \<times> string) list \<Rightarrow> (string \<times> path) list outcome" where
  "manifest_paths disk [] = Ok []"
| "manifest_paths disk ((cf, name) # names) =
     and_then (table_path name) (\<lambda>p.
       if disk p = None \<and> disk (''quarantine/'' @ name) \<noteq> None then manifest_paths disk names
       else and_then (manifest_paths disk names) (\<lambda>paths. Ok ((cf, p) # paths)))"

definition manifest_names :: "manifest \<Rightarrow> (string \<times> string) list" where
  "manifest_names m = concat (map (\<lambda>(cf, names). map (Pair cf) names) m)"

definition listed_tables :: "string list \<Rightarrow> (string \<times> path) list" where
  "listed_tables entries = map (Pair ''default'') (List.filter (\<lambda>e. path_extension e = Some ''sst'') entries)"

definition discover_sstables_from_disk ::
  "('bl, 'c, 'k) host \<Rightarrow> data_dir \<Rightarrow> ('bl, 'c, 'k) engine_core \<Rightarrow> unit outcome \<times> ('bl, 'c, 'k) engine_core" where
  "discover_sstables_from_disk H D core =
     (let quarantined = count_quarantined (dd_quarantine_entries D);
          core1 = core\<lparr>co_version_set := (co_version_set core)\<lparr>vs_quarantined_count := quarantined, vs_unreadable_count := quarantined\<rparr>\<rparr>;
          paths = (case dd_manifest D of
                     Some m \<Rightarrow> manifest_paths (co_sst_dir core) (manifest_names m)
                   | None \<Rightarrow> Ok (listed_tables (dd_sst_entries D)))
      in bind_st (and_then paths (\<lambda>ps. inspect (h_crates H) (co_sst_dir core) (co_encryption core) (sort_key (\<lambda>(_, p). as_bytes p) ps)), core1)
           (\<lambda>candidates. apply_candidates H (dd_reason D) candidates))"

text \<open>The name of the column family of a log file, and the logs that are found in the directory.\<close>

definition cf_of_wal_entry :: "string \<Rightarrow> string option" where
  "cf_of_wal_entry name =
     (if take 4 name = ''wal-'' \<and> 8 \<le> length name \<and> drop (length name - 4) name = ''.log''
      then Some (take (length name - 8) (drop 4 name)) else None)"

definition recover_wal ::
  "('bl, 'c, 'k) host \<Rightarrow> legacy_codec \<Rightarrow> engine_options \<Rightarrow> string \<Rightarrow> ('bl, 'c, 'k) engine_core
   \<Rightarrow> unit outcome \<times> ('bl, 'c, 'k) engine_core" where
  "recover_wal H L options cf core =
     (let contents = (case co_dir core (wal_file_name cf) of None \<Rightarrow> [] | Some bs \<Rightarrow> bs);
          wal = set_sync_interval (eo_wal_sync_interval options) (wal_open contents (eo_encryption options))
      in bind_st (recover_locked (h_crates H) L wal, core) (\<lambda>(records, wal1) core.
           (Ok (), replay_wal_records_core records (core\<lparr>co_wals := AList.update cf wal1 (co_wals core)\<rparr>))))"

fun recover_other_wals ::
  "('bl, 'c, 'k) host \<Rightarrow> legacy_codec \<Rightarrow> engine_options \<Rightarrow> string list \<Rightarrow> ('bl, 'c, 'k) engine_core
   \<Rightarrow> unit outcome \<times> ('bl, 'c, 'k) engine_core" where
  "recover_other_wals H L options [] core = (Ok (), core)"
| "recover_other_wals H L options (name # entries) core =
     (case cf_of_wal_entry name of
        None \<Rightarrow> recover_other_wals H L options entries core
      | Some cf \<Rightarrow>
          if cf \<noteq> ''default'' \<and> map_of (co_wals core) cf = None
          then bind_st (recover_wal H L options cf core) (\<lambda>_. recover_other_wals H L options entries)
          else recover_other_wals H L options entries core)"

definition strategy_of_threshold :: "engine_options \<Rightarrow> compaction_strategy_type" where
  "strategy_of_threshold options =
     (if cp_compaction_threshold (eo_compaction_options options) \<le> 4 then SizeTiered else Leveled)"

definition initial_core :: "('bl, 'c, 'k) host \<Rightarrow> engine_options \<Rightarrow> data_dir \<Rightarrow> ('bl, 'c, 'k) engine_core" where
  "initial_core H options D =
     \<lparr>co_memtables = [], co_memtable_bytes = [],
      co_version_set = vs_new H (eo_encryption options) (Some (h_cache_new H)),
      co_compaction = compaction_new (strategy_of_threshold options)
        ((eo_compaction_options options)\<lparr>cp_strategy_type := strategy_of_threshold options\<rparr>) (storage_config_of options),
      co_wals = [], co_range_tombstones = [], co_encryption = eo_encryption options,
      co_wal_sync_interval = eo_wal_sync_interval options, co_sst_dir = dd_sst D, co_dir = dd_files D\<rparr>"

definition new_generic ::
  "('bl, 'c, 'k) host \<Rightarrow> legacy_codec \<Rightarrow> engine_options \<Rightarrow> data_dir \<Rightarrow> unit outcome \<times> ('bl, 'c, 'k) engine_core" where
  "new_generic H L options D =
     (let core = initial_core H options D
      in if ec_enabled (eo_encryption options) \<and> ec_key (eo_encryption options) = replicate 32 0
         then (Err LegacyEncryptionMigrationRequired, core)
         else if dd_locked D then (Err InvalidArgument, core)
         else bind_st (recover_wal H L options ''default'' core) (\<lambda>_ core1.
              bind_st (recover_other_wals H L options (dd_entries D) core1) (\<lambda>_ core2.
              discover_sstables_from_disk H D core2)))"

end
