(* ===== verification/Engine_Admin.thy ===== *)
theory Engine_Admin
  imports Engine_Read Recovery
begin

text \<open>
  \<open>src/core/engine/mod.rs\<close>: compaction under the lock and in background threads, flushing of every
  memtable, snapshots, clean-up of table files, statistics and shutdown.

  A clock that is read repeatedly is a function of the number of the reading.
\<close>

subsection \<open>Compaction\<close>

definition remove_files :: "path list \<Rightarrow> disk \<Rightarrow> disk" where
  "remove_files paths disk = fold (\<lambda>p d. d(p := None)) paths disk"

definition add_metrics :: "compaction_metrics \<Rightarrow> compaction_metrics \<Rightarrow> compaction_metrics" where
  "add_metrics a m =
     \<lparr>cm_bytes_read = cm_bytes_read a + cm_bytes_read m, cm_bytes_written = cm_bytes_written a + cm_bytes_written m,
      cm_files_merged = cm_files_merged a + cm_files_merged m\<rparr>"

definition metrics_default :: compaction_metrics where
  "metrics_default = \<lparr>cm_bytes_read = 0, cm_bytes_written = 0, cm_files_merged = 0\<rparr>"

text \<open>The loop of \<open>compact_cf_core\<close>: the first group that fails ends it.\<close>

fun compact_groups ::
  "('bl, 'c) crates \<Rightarrow> (nat \<Rightarrow> bytes option) \<Rightarrow> (nat \<Rightarrow> u128) \<Rightarrow> nat \<Rightarrow> compaction \<Rightarrow> 'bl table list \<Rightarrow> encryption_config
   \<Rightarrow> range_tombstone list \<Rightarrow> nat list list \<Rightarrow> compaction_metrics \<Rightarrow> disk
   \<Rightarrow> ((nat list \<times> 'bl table list) list \<times> compaction_metrics) outcome \<times> disk" where
  "compact_groups X rng clock n c tables enc rts [] all_metrics disk = (Ok ([], all_metrics), disk)"
| "compact_groups X rng clock n c tables enc rts (indices # groups) all_metrics disk =
     bind_st (compact X rng (clock n) c indices tables enc rts disk) (\<lambda>(new_tables, metrics) disk1.
     bind_st (compact_groups X rng clock (Suc n) c tables enc rts groups (add_metrics all_metrics metrics) disk1) (\<lambda>(replacements, all') disk2.
       (Ok ((indices, new_tables) # replacements, all'), disk2)))"

text \<open>Replacing the merged tables and deleting their files.\<close>

definition replace_and_remove ::
  "('bl, 'c, 'k) host \<Rightarrow> string \<Rightarrow> (nat list \<times> 'bl table list) list \<Rightarrow> ('bl, 'c, 'k) engine_core \<Rightarrow> ('bl, 'c, 'k) engine_core" where
  "replace_and_remove H cf replacements core =
     (case atomic_replace_groups H cf replacements (co_version_set core) of
        (removed_paths, vs) \<Rightarrow> core\<lparr>co_version_set := vs, co_sst_dir := remove_files removed_paths (co_sst_dir core)\<rparr>)"

definition compact_cf_core ::
  "('bl, 'c, 'k) host \<Rightarrow> (nat \<Rightarrow> bytes option) \<Rightarrow> (nat \<Rightarrow> u128) \<Rightarrow> engine_options \<Rightarrow> string \<Rightarrow> ('bl, 'c, 'k) engine_core
   \<Rightarrow> compaction_metrics option outcome \<times> ('bl, 'c, 'k) engine_core" where
  "compact_cf_core H rng clock options cf core =
     (let tables = get_tables H cf (co_version_set core); c = co_compaction core
      in if length tables < cp_compaction_threshold (cc_options c) then (Ok None, core)
         else let groups = pick_compaction (h_crates H) (cc_strategy c) tables
              in if groups = [] then (Ok None, core)
                 else case compact_groups (h_crates H) rng clock 0 c tables (eo_encryption options) (tombstones_of core cf) groups
                             metrics_default (co_sst_dir core) of
                        (res, disk) \<Rightarrow>
                          bind_st (res, core\<lparr>co_sst_dir := disk\<rparr>) (\<lambda>(replacements, all_metrics) core1.
                            (Ok (Some all_metrics), replace_and_remove H cf replacements core1)))"

fun compact_all ::
  "('bl, 'c, 'k) host \<Rightarrow> (nat \<Rightarrow> bytes option) \<Rightarrow> (nat \<Rightarrow> nat \<Rightarrow> u128) \<Rightarrow> nat \<Rightarrow> engine_options \<Rightarrow> string list \<Rightarrow> ('bl, 'c, 'k) engine_core
   \<Rightarrow> (string \<times> compaction_metrics) list outcome \<times> ('bl, 'c, 'k) engine_core" where
  "compact_all H rng clock n options [] core = (Ok [], core)"
| "compact_all H rng clock n options (cf # cfs) core =
     bind_st (compact_cf_core H rng (clock n) options cf core) (\<lambda>metrics core1.
     bind_st (compact_all H rng clock (Suc n) options cfs core1) (\<lambda>results core2.
       (Ok ((case metrics of Some m \<Rightarrow> [(cf, m)] | None \<Rightarrow> []) @ results), core2)))"

definition compact_every_cf where
  "compact_every_cf H rng clock options core = compact_all H rng clock 0 options (column_families (co_version_set core)) core"

text \<open>
  Background compaction: plans are made under the lock, run without it, and applied under it only if
  the table lists have not changed since.
\<close>

record 'bl compaction_plan =
  pl_cf :: string
  pl_tables :: "'bl table list"
  pl_groups :: "nat list list"
  pl_compaction :: compaction
  pl_options :: engine_options
  pl_range_tombstones :: "range_tombstone list"
  pl_generation :: u64

definition plan_cf ::
  "('bl, 'c, 'k) host \<Rightarrow> engine_options \<Rightarrow> ('bl, 'c, 'k) engine_core \<Rightarrow> string \<Rightarrow> 'bl compaction_plan option" where
  "plan_cf H options core cf =
     (let tables = get_tables H cf (co_version_set core); c = co_compaction core
      in if length tables < cp_compaction_threshold (cc_options c) then None
         else let groups = pick_compaction (h_crates H) (cc_strategy c) tables
              in if groups = [] then None
                 else Some \<lparr>pl_cf = cf, pl_tables = tables, pl_groups = groups, pl_compaction = compaction_clone c,
                            pl_options = options, pl_range_tombstones = tombstones_of core cf,
                            pl_generation = vs_compaction_generation (co_version_set core)\<rparr>)"

definition build_plans ::
  "('bl, 'c, 'k) host \<Rightarrow> engine_options \<Rightarrow> ('bl, 'c, 'k) engine_core \<Rightarrow> 'bl compaction_plan list" where
  "build_plans H options core = List.map_filter (plan_cf H options core) (column_families (co_version_set core))"

text \<open>A group that fails is left out; a panic ends the thread.\<close>

fun run_groups ::
  "('bl, 'c) crates \<Rightarrow> (nat \<Rightarrow> bytes option) \<Rightarrow> (nat \<Rightarrow> u128) \<Rightarrow> nat \<Rightarrow> 'bl compaction_plan \<Rightarrow> nat list list \<Rightarrow> disk
   \<Rightarrow> (nat list \<times> 'bl table list) list outcome \<times> disk" where
  "run_groups X rng clock n p [] disk = (Ok [], disk)"
| "run_groups X rng clock n p (indices # groups) disk =
     (case compact X rng (clock n) (pl_compaction p) indices (pl_tables p) (eo_encryption (pl_options p)) (pl_range_tombstones p) disk of
        (Ok (new_tables, _), disk1) \<Rightarrow>
          bind_st (run_groups X rng clock (Suc n) p groups disk1) (\<lambda>results disk2. (Ok ((indices, new_tables) # results), disk2))
      | (Err e, disk1) \<Rightarrow> run_groups X rng clock (Suc n) p groups disk1
      | (Panic, disk1) \<Rightarrow> (Panic, disk1))"

definition apply_plan ::
  "('bl, 'c, 'k) host \<Rightarrow> 'bl compaction_plan \<Rightarrow> (nat list \<times> 'bl table list) list \<Rightarrow> ('bl, 'c, 'k) engine_core
   \<Rightarrow> ('bl, 'c, 'k) engine_core" where
  "apply_plan H p results core =
     (if pl_generation p \<noteq> vs_compaction_generation (co_version_set core) then core
      else replace_and_remove H (pl_cf p) results core)"

subsection \<open>Flushing everything\<close>

text \<open>
  \<open>flush_all_memtables\<close> loops until no column family has a memtable; a run that does not end is
  \<open>None\<close>.
\<close>

partial_function (option) flush_all_loop ::
  "('bl, 'c, 'k) host \<Rightarrow> (nat \<Rightarrow> bytes option) \<Rightarrow> (nat \<Rightarrow> u128) \<Rightarrow> engine_options \<Rightarrow> nat \<Rightarrow> ('bl, 'c, 'k) engine_core
   \<Rightarrow> (unit outcome \<times> ('bl, 'c, 'k) engine_core) option" where
  "flush_all_loop H rng clock options n core =
     (case find (\<lambda>(_, mems). mems \<noteq> []) (co_memtables core) of
        None \<Rightarrow> Some (Ok (), core)
      | Some (cf, _) \<Rightarrow>
          (case flush_memtable_impl H rng (clock n) options cf core of
             (Ok _, core1) \<Rightarrow> flush_all_loop H rng clock options (Suc n) core1
           | (Err e, core1) \<Rightarrow> Some (Err e, core1)
           | (Panic, core1) \<Rightarrow> Some (Panic, core1)))"

definition flush_all_memtables where
  "flush_all_memtables H rng clock options core = flush_all_loop H rng clock options 0 core"

subsection \<open>Snapshots\<close>

text \<open>
  A backup directory: its files, and the manifest as parsed JSON. The entries of the table directory
  that the operating system lists are an argument.
\<close>

record backup =
  bk_files :: disk
  bk_manifest :: "manifest option"

definition persist_table_to_sstable ::
  "('bl, 'c) crates \<Rightarrow> (nat \<Rightarrow> bytes option) \<Rightarrow> u128 \<Rightarrow> engine_options \<Rightarrow> 'bl table \<Rightarrow> path \<Rightarrow> disk \<Rightarrow> unit outcome \<times> disk" where
  "persist_table_to_sstable X rng now options t path disk =
     write_sst X rng (storage_config_of options) now (eo_encryption options) path
       (map (\<lambda>(k, v). (k, log_record_new now k v)) (tb_data t)) disk"

definition snapshot_file_name :: "string \<Rightarrow> nat \<Rightarrow> 'bl table \<Rightarrow> path" where
  "snapshot_file_name cf i t = (case tb_path t of Some p \<Rightarrow> p | None \<Rightarrow> cf @ ''_'' @ show_dec i @ ''.sst'')"

definition snapshot_table ::
  "('bl, 'c) crates \<Rightarrow> (nat \<Rightarrow> bytes option) \<Rightarrow> u128 \<Rightarrow> engine_options \<Rightarrow> disk \<Rightarrow> string \<Rightarrow> nat \<times> 'bl table \<Rightarrow> disk
   \<Rightarrow> path outcome \<times> disk" where
  "snapshot_table X rng now options disk cf it files =
     (case it of (i, t) \<Rightarrow>
        (let fname = snapshot_file_name cf i t
         in case tb_path t of
              Some p \<Rightarrow>
                (case disk p of
                   None \<Rightarrow> (Err (Io NotFoundKind), files)
                 | Some file \<Rightarrow> (Ok fname, files(fname \<mapsto> file)))
            | None \<Rightarrow> bind_st (persist_table_to_sstable X rng now options t fname files) (\<lambda>_ files1. (Ok fname, files1))))"

fun snapshot_tables ::
  "('bl, 'c) crates \<Rightarrow> (nat \<Rightarrow> bytes option) \<Rightarrow> u128 \<Rightarrow> engine_options \<Rightarrow> disk \<Rightarrow> string \<Rightarrow> (nat \<times> 'bl table) list \<Rightarrow> disk
   \<Rightarrow> path list outcome \<times> disk" where
  "snapshot_tables X rng now options disk cf [] files = (Ok [], files)"
| "snapshot_tables X rng now options disk cf (it # its) files =
     bind_st (snapshot_table X rng now options disk cf it files) (\<lambda>fname files1.
     bind_st (snapshot_tables X rng now options disk cf its files1) (\<lambda>fnames files2. (Ok (fname # fnames), files2)))"

fun snapshot_cfs ::
  "('bl, 'c, 'k) host \<Rightarrow> (nat \<Rightarrow> bytes option) \<Rightarrow> u128 \<Rightarrow> engine_options \<Rightarrow> ('bl, 'c, 'k) engine_core \<Rightarrow> string list \<Rightarrow> disk
   \<Rightarrow> manifest outcome \<times> disk" where
  "snapshot_cfs H rng now options core [] files = (Ok [], files)"
| "snapshot_cfs H rng now options core (cf # cfs) files =
     bind_st (snapshot_tables (h_crates H) rng now options (co_sst_dir core) cf
                (enumerate 0 (get_tables H cf (co_version_set core))) files) (\<lambda>fnames files1.
     bind_st (snapshot_cfs H rng now options core cfs files1) (\<lambda>m files2. (Ok ((cf, fnames) # m), files2)))"

definition copy_orphans :: "string list \<Rightarrow> disk \<Rightarrow> disk \<Rightarrow> disk" where
  "copy_orphans entries disk files =
     fold (\<lambda>e d. if path_extension e = Some ''sst'' \<and> d e = None then d(e := disk e) else d) entries files"

definition saved_wals :: "('bl, 'c, 'k) engine_core \<Rightarrow> (string \<times> bytes) list" where
  "saved_wals core = map (\<lambda>(cf, w). (cf, wal_file w)) (co_wals core)"

definition write_saved_wals :: "(string \<times> bytes) list \<Rightarrow> disk \<Rightarrow> disk" where
  "write_saved_wals saved files =
     (if \<exists>(cf, data)\<in>set saved. data \<noteq> []
      then fold (\<lambda>(cf, data) d. if data = [] then d else d(wal_file_name cf \<mapsto> data)) saved files
      else files(''wal.log'' \<mapsto> []))"

definition create_snapshot ::
  "('bl, 'c, 'k) host \<Rightarrow> (nat \<Rightarrow> bytes option) \<Rightarrow> (nat \<Rightarrow> u128) \<Rightarrow> u128 \<Rightarrow> engine_options \<Rightarrow> string list \<Rightarrow> backup \<Rightarrow> ('bl, 'c, 'k) engine_core
   \<Rightarrow> (unit outcome \<times> ('bl, 'c, 'k) engine_core \<times> backup) option" where
  "create_snapshot H rng clock now options entries backup core =
     (let saved = saved_wals core
      in case flush_all_memtables H rng clock options core of
           None \<Rightarrow> None
         | Some (res, core1) \<Rightarrow>
             Some (bind_st (res, (core1, backup)) (\<lambda>_ _.
               case snapshot_cfs H rng now options core1 (column_families (co_version_set core1)) (bk_files backup) of
                 (res, files) \<Rightarrow>
                   bind_st (res, (core1, backup\<lparr>bk_files := files\<rparr>)) (\<lambda>m _.
                     (Ok (), (core1, backup\<lparr>bk_files := write_saved_wals saved (copy_orphans entries (co_sst_dir core1) files),
                                            bk_manifest := Some m\<rparr>))))))"

text \<open>\<open>restore_snapshot\<close>: inspect everything, refuse conflicts, then copy tables and logs.\<close>

definition snapshot_paths :: "string list \<Rightarrow> backup \<Rightarrow> (string \<times> path) list outcome" where
  "snapshot_paths entries backup =
     (case bk_manifest backup of
        Some m \<Rightarrow> fold (\<lambda>(cf, name) acc. and_then acc (\<lambda>ps. and_then (table_path name) (\<lambda>p. Ok (ps @ [(cf, p)])))) (manifest_names m) (Ok [])
      | None \<Rightarrow> Ok (listed_tables entries))"

definition copy_missing :: "path list \<Rightarrow> disk \<Rightarrow> disk \<Rightarrow> disk" where
  "copy_missing paths files disk = fold (\<lambda>p d. if d p = None then d(p := files p) else d) paths disk"

definition is_wal_name :: "string \<Rightarrow> bool" where
  "is_wal_name name \<longleftrightarrow>
     name = ''wal.log'' \<or> take 4 name = ''wal-'' \<and> 4 \<le> length name \<and> drop (length name - 4) name = ''.log''"

definition copy_wals :: "string list \<Rightarrow> disk \<Rightarrow> disk \<Rightarrow> disk" where
  "copy_wals entries files dir = fold (\<lambda>e d. if is_wal_name e then d(e := files e) else d) entries dir"

text \<open>A log that is open sees the bytes that are copied over its file.\<close>

definition overwrite_wals :: "string list \<Rightarrow> disk \<Rightarrow> (string \<times> wal) list \<Rightarrow> (string \<times> wal) list" where
  "overwrite_wals entries files wals =
     map (\<lambda>(cf, w).
       case files (wal_file_name cf) of
         Some data \<Rightarrow>
           if wal_file_name cf \<in> set entries then (cf, w\<lparr>wal_file := data, wal_synced := 0\<rparr>) else (cf, w)
       | None \<Rightarrow> (cf, w)) wals"

definition restore_snapshot ::
  "('bl, 'c, 'k) host \<Rightarrow> engine_options \<Rightarrow> string list \<Rightarrow> bytes \<Rightarrow> backup \<Rightarrow> manifest option \<Rightarrow> ('bl, 'c, 'k) engine_core
   \<Rightarrow> unit outcome \<times> ('bl, 'c, 'k) engine_core \<times> manifest option" where
  "restore_snapshot H options entries reason backup manifest core =
     bind_st (and_then (snapshot_paths entries backup) (\<lambda>ps. inspect (h_crates H) (bk_files backup) (eo_encryption options) ps), (core, manifest))
       (\<lambda>candidates _.
          let paths = map cd_path candidates
          in if \<exists>p\<in>set paths. co_sst_dir core p \<noteq> None \<and> co_sst_dir core p \<noteq> bk_files backup p
             then (Err InvalidArgument, (core, manifest))
             else let core1 = core\<lparr>co_sst_dir := copy_missing paths (bk_files backup) (co_sst_dir core),
                                   co_dir := copy_wals entries (bk_files backup) (co_dir core),
                                   co_wals := overwrite_wals entries (bk_files backup) (co_wals core)\<rparr>;
                      manifest1 = (case bk_manifest backup of Some m \<Rightarrow> Some m | None \<Rightarrow> manifest)
                  in case apply_candidates H reason candidates core1 of (res, core2) \<Rightarrow> (res, (core2, manifest1)))"

subsection \<open>Clean-up, statistics and shutdown\<close>

definition tracked_paths :: "('bl, 'c, 'k) engine_core \<Rightarrow> path list" where
  "tracked_paths core =
     concat (map (\<lambda>(_, ts). List.map_filter tb_path ts) (vs_tables (co_version_set core)))"

definition reconcile_tables ::
  "string list \<Rightarrow> ('bl, 'c, 'k) engine_core \<Rightarrow> nat \<times> ('bl, 'c, 'k) engine_core" where
  "reconcile_tables entries core =
     (let orphans = List.filter (\<lambda>e. path_extension e = Some ''sst'' \<and> e \<notin> set (tracked_paths core)) entries
      in (length orphans, core\<lparr>co_sst_dir := remove_files orphans (co_sst_dir core)\<rparr>))"

record lsm_stats = version_stats +
  st_wal_kb :: nat
  st_mem_kb :: nat
  st_mem_records :: nat
  st_quarantined_sstables :: nat
  st_recovered_sstables :: nat
  st_unreadable_sstables :: nat
  st_degraded_bloom_sstables :: nat

definition wal_kb_of :: "('bl, 'c, 'k) engine_core \<Rightarrow> nat" where
  "wal_kb_of core = sum_list (map (\<lambda>(_, w). length (wal_file w)) (co_wals core)) div 1024"

definition mem_records_of :: "('bl, 'c, 'k) engine_core \<Rightarrow> string \<Rightarrow> nat" where
  "mem_records_of core cf = sum_list (map (\<lambda>m. length (mt_data m)) (memtables_of core cf))"

definition mem_kb_of :: "('bl, 'c, 'k) engine_core \<Rightarrow> string \<Rightarrow> nat" where
  "mem_kb_of core cf = (if map_of (co_memtables core) cf = None then 0 else bytes_of core cf div 1024)"

definition engine_stats :: "string \<Rightarrow> ('bl, 'c, 'k) engine_core \<Rightarrow> lsm_stats" where
  "engine_stats cf core =
     (let vs = co_version_set core
      in version_stats.extend (vs_stats cf vs)
           (lsm_stats.fields (wal_kb_of core) (mem_kb_of core cf) (mem_records_of core cf) (unat (vs_quarantined_count vs))
              (unat (vs_recovered_count vs)) (unat (vs_unreadable_count vs)) (unat (vs_degraded_bloom_count vs))))"

text \<open>\<open>stats_all\<close> adds up over the column families that have tables; the level counters stay at zero.\<close>

definition engine_stats_all :: "('bl, 'c, 'k) engine_core \<Rightarrow> lsm_stats" where
  "engine_stats_all core =
     (let vs = co_version_set core; cfs = column_families vs; total = (\<lambda>f. sum_list (map (\<lambda>cf. f (vs_stats cf vs)) cfs))
      in \<lparr>vst_num_tables = total vst_num_tables, vst_total_size = total vst_total_size,
          vst_total_records = total vst_total_records, vst_sst_kb = total vst_sst_kb, vst_sst_files = total vst_sst_files,
          vst_sst_records = total vst_sst_records, vst_max_levels_reached = 0, vst_num_tables_at_max = 0,
          st_wal_kb = wal_kb_of core, st_mem_kb = sum_list (map (mem_kb_of core) cfs),
          st_mem_records = sum_list (map (mem_records_of core) cfs),
          st_quarantined_sstables = unat (vs_quarantined_count vs), st_recovered_sstables = unat (vs_recovered_count vs),
          st_unreadable_sstables = unat (vs_unreadable_count vs), st_degraded_bloom_sstables = unat (vs_degraded_bloom_count vs)\<rparr>)"

text \<open>\<open>close\<close> waits for the threads and then syncs every log.\<close>

definition close_core :: "('bl, 'c, 'k) engine_core \<Rightarrow> ('bl, 'c, 'k) engine_core" where
  "close_core core = core\<lparr>co_wals := map (\<lambda>(cf, w). (cf, wal_sync w)) (co_wals core)\<rparr>"

end
