(* ===== verification/Version_Lookup.thy ===== *)
theory Version_Lookup
  imports Version_Set
begin

text \<open>
  Lookups and scans of the version set: what they return in terms of the records in the files, newest
  table first, and that they keep the caches coherent.
\<close>

definition host_laws :: "('bl, 'c, 'k) host \<Rightarrow> bool" where
  "host_laws H \<longleftrightarrow> kv_law H \<and> (\<exists>rng. crate_laws (h_crates H) rng)"

lemma host_lawsD:
  assumes "host_laws H"
  shows "kv_law H" "cache_law (h_crates H)" "\<exists>rng. crate_laws (h_crates H) rng"
  using assms by (auto simp: host_laws_def crate_laws_def)

text \<open>
  The tables are those of the catalogue, no file of the catalogue is in quarantine, and the blocks in
  the shared cache are blocks of these files; different files have different table ids.
\<close>

definition cached_blocks_ok :: "('bl, 'c, 'k) host \<Rightarrow> catalogue \<Rightarrow> 'c \<Rightarrow> bool" where
  "cached_blocks_ok H cat c \<longleftrightarrow>
     (\<forall>p segs. cat p = Some segs \<longrightarrow> cache_coherent (h_crates H) (h_path_hash H p) segs c)"

definition store_ok :: "('bl, 'c, 'k) host \<Rightarrow> disk \<Rightarrow> catalogue \<Rightarrow> ('bl, 'c, 'k) version_set \<Rightarrow> bool" where
  "store_ok H disk cat vs \<longleftrightarrow>
     files_ok (h_crates H) (vs_encryption vs) disk cat \<and> inj_on (h_path_hash H) (dom cat) \<and>
     (\<exists>c. vs_block_cache vs = Some c \<and> cached_blocks_ok H cat c) \<and>
     (\<forall>p\<in>set (vs_quarantined vs). cat p = None) \<and>
     (\<forall>cf. \<forall>t\<in>set (cf_tables vs cf). table_ok (h_crates H) cat t)"

lemma store_okD:
  assumes "store_ok H disk cat vs"
  shows "files_ok (h_crates H) (vs_encryption vs) disk cat" "inj_on (h_path_hash H) (dom cat)"
    "\<exists>c. vs_block_cache vs = Some c \<and> cached_blocks_ok H cat c" "\<forall>p\<in>set (vs_quarantined vs). cat p = None"
    "\<And>cf t. t \<in> set (cf_tables vs cf) \<Longrightarrow> table_ok (h_crates H) cat t"
  using assms by (auto simp: store_ok_def)

subsection \<open>Reads leave the blocks of other tables alone\<close>

definition cache_grows :: "('bl, 'c) crates \<Rightarrow> u64 \<Rightarrow> 'c \<Rightarrow> 'c \<Rightarrow> bool" where
  "cache_grows X tid c c' \<longleftrightarrow>
     (\<forall>tid' i v. tid' \<noteq> tid \<longrightarrow> x_cache_get X c' (tid', i) = Some v \<longrightarrow> x_cache_get X c (tid', i) = Some v)"

lemma cache_grows_refl [simp]: "cache_grows X tid c c"
  by (simp add: cache_grows_def)

lemma cache_grows_trans: "cache_grows X tid c c1 \<Longrightarrow> cache_grows X tid c1 c2 \<Longrightarrow> cache_grows X tid c c2"
  by (simp add: cache_grows_def)

lemma read_block_grows:
  assumes "cache_law X" "read_block X rd bm c = (res, c')"
  shows "cache_grows X (rd_table_id rd) c c'"
proof -
  have "c' = c \<or> (\<exists>i v. c' = x_cache_insert X (rd_table_id rd, i) v c)"
    using assms(2) by (auto simp: read_block_def cache_put_def Let_def split: option.splits outcome.splits)
  then show ?thesis
    using assms(1) unfolding cache_law_def cache_grows_def by (metis (full_types) fst_conv)
qed

lemma rd_get_grows:
  assumes "cache_law X" "rd_get X rd key c = (res, c')"
  shows "cache_grows X (rd_table_id rd) c c'"
  using assms(2) read_block_grows [OF assms(1)]
  by (auto simp: rd_get_def split: if_splits option.splits prod.splits)

lemma scan_blocks_grows:
  assumes "cache_law X"
  shows "scan_blocks X rd start stop bms records c = (res, c') \<Longrightarrow> cache_grows X (rd_table_id rd) c c'"
proof (induction bms arbitrary: records c)
  case (Cons bm bms)
  obtain bd c1 where c1: "read_block X rd bm c = (bd, c1)" by fastforce
  have grows: "cache_grows X (rd_table_id rd) c c1" using read_block_grows [OF assms c1] .
  have "c' = c \<or> c' = c1 \<or> (\<exists>r. scan_blocks X rd start stop bms r c1 = (res, c'))"
    using Cons.prems c1 by (auto split: if_splits option.splits outcome.splits)
  with grows show ?case
    using Cons.IH cache_grows_trans [OF grows] by auto
qed simp

lemma cached_blocks_grow:
  assumes "cached_blocks_ok H cat c" "cache_grows (h_crates H) (h_path_hash H p) c c'"
    and "inj_on (h_path_hash H) (dom cat)" "cat p = Some segs"
    and "cache_coherent (h_crates H) (h_path_hash H p) segs c'"
  shows "cached_blocks_ok H cat c'"
  unfolding cached_blocks_ok_def
proof (intro allI impI)
  fix q segs' assume q: "cat q = Some segs'"
  show "cache_coherent (h_crates H) (h_path_hash H q) segs' c'"
  proof (cases "q = p")
    case True
    then show ?thesis using q assms(4,5) by simp
  next
    case False
    then have "h_path_hash H q \<noteq> h_path_hash H p"
      using assms(3,4) q by (auto dest: inj_onD)
    then show ?thesis
      using assms(1,2) q unfolding cached_blocks_ok_def cache_coherent_def cache_get_def cache_grows_def by blast
  qed
qed

subsection \<open>Reading one file\<close>

lemma store_ok_cache:
  assumes "store_ok H disk cat vs" "cached_blocks_ok H cat c"
  shows "store_ok H disk cat (vs\<lparr>vs_block_cache := Some c\<rparr>)"
  using assms by (simp add: store_ok_def cf_tables_def)

lemma read_file:
  assumes ok: "store_ok H disk cat vs" and laws: "host_laws H" and p: "cat p = Some segs"
    and c: "vs_block_cache vs = Some c"
  shows "\<exists>rd c'. open_reader H disk (vs_encryption vs) p = Ok rd \<and>
      rd_get (h_crates H) rd key c = (Ok (map_of (seg_ents segs) key), c') \<and>
      store_ok H disk cat (vs\<lparr>vs_block_cache := Some c'\<rparr>)"
    and "\<exists>rd c'. open_reader H disk (vs_encryption vs) p = Ok rd \<and>
      scan_range (h_crates H) rd start stop c = (Ok (List.filter (\<lambda>e. in_range start stop (fst e)) (seg_ents segs)), c') \<and>
      store_ok H disk cat (vs\<lparr>vs_block_cache := Some c'\<rparr>)"
proof -
  let ?X = "h_crates H" and ?tid = "h_path_hash H p"
  note law = host_lawsD [OF laws]
  obtain rng where rng: "crate_laws ?X rng" using law(3) by blast
  obtain meta mw "file" where f: "disk p = Some file" "sst_file ?X (vs_encryption vs) (seg_ents segs) segs meta mw file"
    "length file < 2 ^ 32" "length (seg_ents segs) < 2 ^ 64"
    using store_okD(1) [OF ok] p unfolding files_ok_def by blast
  obtain rd where rd: "rd_open ?X file (vs_encryption vs) ?tid (h_mmap_works H) = Ok rd"
    "reader_for (vs_encryption vs) meta file rd" "rd_table_id rd = ?tid"
    "\<forall>k\<in>fst ` set (seg_ents segs). might_contain ?X rd k"
    using rd_open_file [OF f(2) rng f(3,4)] by blast
  have op: "open_reader H disk (vs_encryption vs) p = Ok rd" using f(1) rd(1) by (simp add: open_reader_def)
  have blocks: "cached_blocks_ok H cat c" using store_okD(3) [OF ok] c by auto
  then have coh: "cache_coherent ?X (rd_table_id rd) segs c" using p rd(3) by (simp add: cached_blocks_ok_def)
  have keep: "store_ok H disk cat (vs\<lparr>vs_block_cache := Some c'\<rparr>)"
    if "cache_grows ?X ?tid c c'" "cache_coherent ?X ?tid segs c'" for c'
    using store_ok_cache [OF ok] cached_blocks_grow [OF blocks that(1) store_okD(2) [OF ok] p that(2)] by blast
  obtain c1 where c1: "rd_get ?X rd key c = (Ok (map_of (seg_ents segs) key), c1)" "cache_coherent ?X ?tid segs c1"
    using rd_get_correct [OF f(2) rd(2) law(2) coh rd(4)] rd(3) by auto
  from keep [OF _ c1(2)] rd_get_grows [OF law(2) c1(1)] show "\<exists>rd c'. open_reader H disk (vs_encryption vs) p = Ok rd \<and>
      rd_get ?X rd key c = (Ok (map_of (seg_ents segs) key), c') \<and> store_ok H disk cat (vs\<lparr>vs_block_cache := Some c'\<rparr>)"
    using op c1(1) rd(3) by auto
  obtain c2 where c2: "scan_range ?X rd start stop c = (Ok (List.filter (\<lambda>e. in_range start stop (fst e)) (seg_ents segs)), c2)"
    "cache_coherent ?X ?tid segs c2"
    using scan_range_correct [OF f(2) rd(2) law(2) coh] rd(3) by metis
  have "cache_grows ?X ?tid c c2"
    using scan_blocks_grows [OF law(2), of rd] c2(1) rd(3) by (simp add: scan_range_def Let_def)
  from keep [OF this c2(2)] show "\<exists>rd c'. open_reader H disk (vs_encryption vs) p = Ok rd \<and>
      scan_range ?X rd start stop c = (Ok (List.filter (\<lambda>e. in_range start stop (fst e)) (seg_ents segs)), c') \<and>
      store_ok H disk cat (vs\<lparr>vs_block_cache := Some c'\<rparr>)"
    using op c2(1) by auto
qed

subsection \<open>Lookups\<close>

text \<open>The record of a key in the newest table that has one.\<close>

definition newest :: "catalogue \<Rightarrow> 'bl table list \<Rightarrow> bytes \<Rightarrow> log_record option" where
  "newest cat ts key = first_some (map (\<lambda>t. map_of (tb_ents cat t) key) ts)"

lemma newest_simps [simp]:
  "newest cat [] key = None"
  "newest cat (t # ts) key = (case map_of (tb_ents cat t) key of None \<Rightarrow> newest cat ts key | Some r \<Rightarrow> Some r)"
  by (simp_all add: newest_def split: option.splits)

lemma table_read:
  assumes ok: "store_ok H disk cat vs" and laws: "host_laws H" and t: "table_ok (h_crates H) cat t"
    and c: "vs_block_cache vs = Some c"
  obtains p rd c' where "tb_path t = Some p" "p \<notin> set (vs_quarantined vs)"
    "open_reader H disk (vs_encryption vs) p = Ok rd"
    "rd_get (h_crates H) rd key c = (Ok (map_of (tb_ents cat t) key), c')"
    "store_ok H disk cat (vs\<lparr>vs_block_cache := Some c'\<rparr>)"
proof -
  obtain p segs where p: "tb_path t = Some p" "cat p = Some segs" "tb_ents cat t = seg_ents segs"
    using t by (auto simp: table_ok_def tb_ents_def)
  moreover have "p \<notin> set (vs_quarantined vs)" using store_okD(4) [OF ok] p(2) by auto
  ultimately show ?thesis using read_file(1) [OF ok laws p(2) c] that by metis
qed

lemma skipped_table:
  assumes "table_ok (h_crates H) cat t" "files_ok (h_crates H) enc disk cat"
    and "key < tb_min_key t \<or> tb_max_key t < key \<or> bloom_rejects H t key"
  shows "map_of (tb_ents cat t) key = None"
  using assms table_ok_range [OF assms(1,2)] table_ok_bloom [OF assms(1)]
  by (auto simp: bloom_rejects_def split: option.splits)

lemma record_lookup_correct:
  assumes "store_ok H disk cat vs" "host_laws H" "\<forall>t\<in>set ts. table_ok (h_crates H) cat t"
  shows "\<exists>c. record_lookup H disk key ts vs = Ok (newest cat ts key, vs\<lparr>vs_block_cache := Some c\<rparr>)
    \<and> store_ok H disk cat (vs\<lparr>vs_block_cache := Some c\<rparr>)"
  using assms
proof (induction ts arbitrary: vs)
  case Nil
  obtain c where "vs_block_cache vs = Some c" using store_okD(3) [OF Nil(1)] by blast
  then have "vs\<lparr>vs_block_cache := Some c\<rparr> = vs" by simp
  then show ?case using Nil(1) by (metis newest_simps(1) record_lookup.simps(1))
next
  case (Cons t ts)
  obtain c where c: "vs_block_cache vs = Some c" using store_okD(3) [OF Cons.prems(1)] by blast
  have t: "table_ok (h_crates H) cat t" using Cons.prems(3) by simp
  show ?case
  proof (cases "tb_min_key t \<noteq> [] \<and> key < tb_min_key t \<or> tb_max_key t \<noteq> [] \<and> tb_max_key t < key \<or> bloom_rejects H t key")
    case True
    then have "map_of (tb_ents cat t) key = None"
      using skipped_table [OF t store_okD(1) [OF Cons.prems(1)]] by blast
    then show ?thesis using True Cons by simp
  next
    case False
    obtain p rd c' where rd: "tb_path t = Some p" "p \<notin> set (vs_quarantined vs)"
      "open_reader H disk (vs_encryption vs) p = Ok rd"
      "rd_get (h_crates H) rd key c = (Ok (map_of (tb_ents cat t) key), c')"
      and ok': "store_ok H disk cat (vs\<lparr>vs_block_cache := Some c'\<rparr>)"
      using table_read [OF Cons.prems(1,2) t c] by blast
    have step: "record_lookup H disk key (t # ts) vs = (case map_of (tb_ents cat t) key of
        Some r \<Rightarrow> Ok (Some r, vs\<lparr>vs_block_cache := Some c'\<rparr>)
      | None \<Rightarrow> record_lookup H disk key ts (vs\<lparr>vs_block_cache := Some c'\<rparr>))"
      unfolding record_lookup.simps if_not_P [OF False] using rd c
      by (simp add: open_record_reader_def block_cache_of_def keep_block_cache_def split: option.splits)
    show ?thesis
    proof (cases "map_of (tb_ents cat t) key")
      case None
      then show ?thesis using step Cons.IH [OF ok' Cons.prems(2)] Cons.prems(3) by simp
    next
      case (Some r)
      then show ?thesis using step ok' by auto
    qed
  qed
qed

text \<open>What a reader of values sees of a record that is not expired.\<close>

definition visible :: "log_record option \<Rightarrow> bytes option" where
  "visible found = (case found of None \<Rightarrow> None | Some r \<Rightarrow> if lr_is_deleted r then None else Some (lr_value r))"

definition plain_record :: "u128 \<Rightarrow> log_record \<Rightarrow> bool" where
  "plain_record now r \<longleftrightarrow> \<not> is_expired_at r now \<and> (lr_is_deleted r \<longrightarrow> lr_value r = [])"

lemma value_lookup_correct:
  assumes "store_ok H disk cat vs" "host_laws H" "\<forall>t\<in>set ts. table_ok (h_crates H) cat t"
    and "\<forall>t\<in>set ts. \<forall>r. map_of (tb_ents cat t) key = Some r \<longrightarrow> plain_record now r"
  shows "\<exists>c. value_lookup H disk now key ts vs = Ok (visible (newest cat ts key),
      (case visible (newest cat ts key) of None \<Rightarrow> vs\<lparr>vs_block_cache := Some c\<rparr>
       | Some v \<Rightarrow> put_cached H key v (vs\<lparr>vs_block_cache := Some c\<rparr>)))
    \<and> store_ok H disk cat (vs\<lparr>vs_block_cache := Some c\<rparr>)"
  using assms
proof (induction ts arbitrary: vs)
  case Nil
  obtain c where "vs_block_cache vs = Some c" using store_okD(3) [OF Nil(1)] by blast
  then have "vs\<lparr>vs_block_cache := Some c\<rparr> = vs" by simp
  then show ?case using Nil(1) by (intro exI [of _ c]) (simp add: visible_def)
next
  case (Cons t ts)
  obtain c where c: "vs_block_cache vs = Some c" using store_okD(3) [OF Cons.prems(1)] by blast
  then have same: "vs\<lparr>vs_block_cache := Some c\<rparr> = vs" by simp
  have t: "table_ok (h_crates H) cat t" using Cons.prems(3) by simp
  have plain: "map_of (tb_ents cat t) key = Some r \<Longrightarrow> plain_record now r" for r using Cons.prems(4) by simp
  note IH = Cons.IH [OF _ Cons.prems(2)]
  show ?case
  proof (cases "tb_min_key t \<noteq> [] \<and> tb_max_key t \<noteq> [] \<and> (key < tb_min_key t \<or> tb_max_key t < key) \<or> bloom_rejects H t key")
    case True
    then have "map_of (tb_ents cat t) key = None"
      using skipped_table [OF t store_okD(1) [OF Cons.prems(1)]] by blast
    then show ?thesis using True IH [OF Cons.prems(1)] Cons.prems(3,4) by simp
  next
    case False
    obtain p rd c' where rd: "tb_path t = Some p" "p \<notin> set (vs_quarantined vs)"
      "open_reader H disk (vs_encryption vs) p = Ok rd"
      "rd_get (h_crates H) rd key c = (Ok (map_of (tb_ents cat t) key), c')"
      and ok': "store_ok H disk cat (vs\<lparr>vs_block_cache := Some c'\<rparr>)"
      using table_read [OF Cons.prems(1,2) t c] by blast
    show ?thesis
    proof (cases "\<exists>b bs. map_of (tb_data t) key = Some (b # bs)")
      case True
      then obtain b bs r where v: "map_of (tb_data t) key = Some (b # bs)" "map_of (tb_ents cat t) key = Some r"
        "lr_value r = b # bs" using table_ok_data [OF t] by metis
      have "\<not> lr_is_deleted r" using plain [OF v(2)] v(3) by (auto simp: plain_record_def)
      then show ?thesis
        unfolding value_lookup.simps if_not_P [OF False]
        using v Cons.prems(1) by (intro exI [of _ c]) (simp add: visible_def same)
    next
      case no_mem: False
      have step: "value_lookup H disk now key (t # ts) vs = (case map_of (tb_ents cat t) key of
          Some r \<Rightarrow> Ok (visible (Some r), (case visible (Some r) of None \<Rightarrow> vs\<lparr>vs_block_cache := Some c'\<rparr>
             | Some v \<Rightarrow> put_cached H key v (vs\<lparr>vs_block_cache := Some c'\<rparr>)))
        | None \<Rightarrow> value_lookup H disk now key ts (vs\<lparr>vs_block_cache := Some c'\<rparr>))"
        unfolding value_lookup.simps if_not_P [OF False] using no_mem rd c plain
        by (auto simp: visible_def plain_record_def Let_def split: option.splits list.splits)
      show ?thesis
      proof (cases "map_of (tb_ents cat t) key")
        case None
        have twice: "vs\<lparr>vs_block_cache := Some c', vs_block_cache := x\<rparr> = vs\<lparr>vs_block_cache := x\<rparr>" for x by simp
        have "\<forall>t\<in>set ts. table_ok (h_crates H) cat t"
          "\<forall>t\<in>set ts. \<forall>r. map_of (tb_ents cat t) key = Some r \<longrightarrow> plain_record now r"
          using Cons.prems(3,4) by simp_all
        from IH [OF ok' this] show ?thesis unfolding step None twice by (simp add: None)
      next
        case (Some r)
        then show ?thesis using step ok' by auto
      qed
    qed
  qed
qed

text \<open>The tables of a column family, newest first, as the lookups go through them.\<close>

abbreviation newest_in :: "catalogue \<Rightarrow> ('bl, 'c, 'k) version_set \<Rightarrow> string \<Rightarrow> bytes \<Rightarrow> log_record option" where
  "newest_in cat vs cf key \<equiv> newest cat (rev (cf_tables vs cf)) key"

text \<open>What a read may change: the caches.\<close>

definition same_tables :: "('bl, 'c, 'k) version_set \<Rightarrow> ('bl, 'c, 'k) version_set \<Rightarrow> bool" where
  "same_tables vs vs' \<longleftrightarrow>
     vs_tables vs' = vs_tables vs \<and> vs_encryption vs' = vs_encryption vs \<and> vs_quarantined vs' = vs_quarantined vs \<and>
     vs_compaction_generation vs' = vs_compaction_generation vs"

lemma same_tables_refl [simp]: "same_tables vs vs"
  by (simp add: same_tables_def)

lemma same_tables_trans: "same_tables vs vs1 \<Longrightarrow> same_tables vs1 vs2 \<Longrightarrow> same_tables vs vs2"
  by (simp add: same_tables_def)

lemma same_tables_cf: "same_tables vs vs' \<Longrightarrow> cf_tables vs' cf = cf_tables vs cf"
  by (simp add: same_tables_def cf_tables_def)

lemma same_tables_block_cache [simp]: "same_tables vs (vs\<lparr>vs_block_cache := c\<rparr>)"
  by (simp add: same_tables_def)

lemma vs_get_record_correct:
  assumes ok: "store_ok H disk cat vs" and laws: "host_laws H"
  shows "\<exists>c. vs_get_record H disk cf key vs = Ok (newest_in cat vs cf key, vs\<lparr>vs_block_cache := Some c\<rparr>)
    \<and> store_ok H disk cat (vs\<lparr>vs_block_cache := Some c\<rparr>)"
proof (cases "map_of (vs_tables vs) cf")
  case None
  obtain c where "vs_block_cache vs = Some c" using store_okD(3) [OF ok] by blast
  then have "vs\<lparr>vs_block_cache := Some c\<rparr> = vs" by simp
  then show ?thesis using None ok by (intro exI [of _ c]) (simp add: vs_get_record_def cf_tables_def)
next
  case (Some ts)
  then have "\<forall>t\<in>set (rev ts). table_ok (h_crates H) cat t" using store_okD(5) [OF ok, of _ cf] by (simp add: cf_tables_def)
  from record_lookup_correct [OF ok laws this] Some show ?thesis by (simp add: vs_get_record_def cf_tables_def)
qed

text \<open>The key-value cache holds what a lookup in one column family would return.\<close>

definition kv_coherent ::
  "('bl, 'c, 'k) host \<Rightarrow> catalogue \<Rightarrow> string \<Rightarrow> ('bl, 'c, 'k) version_set \<Rightarrow> bool" where
  "kv_coherent H cat cf vs \<longleftrightarrow>
     (\<forall>k v. get_cached H vs k = Some v \<longrightarrow> v \<noteq> [] \<and> visible (newest_in cat vs cf k) = Some v)"

lemma kv_coherent_put:
  assumes "kv_law H" "kv_coherent H cat cf vs" "visible (newest_in cat vs cf key) = Some v" "v \<noteq> []"
  shows "kv_coherent H cat cf (put_cached H key v vs)"
proof -
  have "get_cached H vs k = Some w \<or> k = key \<and> w = v" if "get_cached H (put_cached H key v vs) k = Some w" for k w
  proof -
    have "h_kv_get H (h_kv_insert H key v (vs_kv_cache vs)) k = Some w" using that by (simp add: get_cached_def put_cached_def)
    then have "if k = key then w = v else h_kv_get H (vs_kv_cache vs) k = Some w"
      using assms(1) unfolding kv_law_def by blast
    then show ?thesis by (simp add: get_cached_def split: if_splits)
  qed
  then show ?thesis
    using assms(2-4) unfolding kv_coherent_def by (auto simp: put_cached_def cf_tables_def)
qed

lemma kv_coherent_block_cache [simp]:
  "kv_coherent H cat cf (vs\<lparr>vs_block_cache := c\<rparr>) = kv_coherent H cat cf vs"
  by (simp add: kv_coherent_def get_cached_def cf_tables_def)

lemma store_ok_put_cached [simp]: "store_ok H disk cat (put_cached H key v vs) = store_ok H disk cat vs"
  by (simp add: store_ok_def put_cached_def cf_tables_def)

definition plain_key :: "catalogue \<Rightarrow> u128 \<Rightarrow> ('bl, 'c, 'k) version_set \<Rightarrow> string \<Rightarrow> bytes \<Rightarrow> bool" where
  "plain_key cat now vs cf key \<longleftrightarrow>
     (\<forall>t\<in>set (cf_tables vs cf). \<forall>r. map_of (tb_ents cat t) key = Some r \<longrightarrow> plain_record now r)"

lemma vs_get_correct:
  assumes ok: "store_ok H disk cat vs" and laws: "host_laws H" and kv: "kv_coherent H cat cf vs"
    and plain: "plain_key cat now vs cf key" and ne: "visible (newest_in cat vs cf key) \<noteq> Some []"
  shows "\<exists>vs'. vs_get H disk now cf key vs = Ok (visible (newest_in cat vs cf key), vs') \<and>
    store_ok H disk cat vs' \<and> kv_coherent H cat cf vs' \<and> same_tables vs vs'"
proof (cases "get_cached H vs key")
  case (Some v)
  then show ?thesis using kv ok by (auto simp: vs_get_def kv_coherent_def)
next
  case uncached: None
  show ?thesis
  proof (cases "map_of (vs_tables vs) cf")
    case None
    then show ?thesis using uncached ok kv by (simp add: vs_get_def cf_tables_def visible_def)
  next
    case (Some ts)
    then have cf: "cf_tables vs cf = ts" by (simp add: cf_tables_def)
    have tok: "\<forall>t\<in>set (rev ts). table_ok (h_crates H) cat t" using store_okD(5) [OF ok, of _ cf] cf by simp
    have pl: "\<forall>t\<in>set (rev ts). \<forall>r. map_of (tb_ents cat t) key = Some r \<longrightarrow> plain_record now r"
      using plain cf by (simp add: plain_key_def)
    let ?v = "visible (newest_in cat vs cf key)"
    obtain c where c: "value_lookup H disk now key (rev ts) vs = Ok (?v,
        (case ?v of None \<Rightarrow> vs\<lparr>vs_block_cache := Some c\<rparr> | Some v \<Rightarrow> put_cached H key v (vs\<lparr>vs_block_cache := Some c\<rparr>)))"
      and ok': "store_ok H disk cat (vs\<lparr>vs_block_cache := Some c\<rparr>)"
      using value_lookup_correct [OF ok laws tok pl] cf by auto
    let ?vs' = "case ?v of None \<Rightarrow> vs\<lparr>vs_block_cache := Some c\<rparr> | Some v \<Rightarrow> put_cached H key v (vs\<lparr>vs_block_cache := Some c\<rparr>)"
    have "kv_coherent H cat cf ?vs'"
      using kv_coherent_put [OF host_lawsD(1) [OF laws], of cat cf "vs\<lparr>vs_block_cache := Some c\<rparr>" key] kv ne
      by (auto simp: cf_tables_def split: option.splits)
    moreover have "same_tables vs ?vs'"
      by (cases ?v) (auto simp: same_tables_def put_cached_def)
    ultimately show ?thesis using uncached Some c ok' by (auto simp: vs_get_def split: option.splits)
  qed
qed

subsection \<open>Scans\<close>

text \<open>The tables that \<open>record_iters_in_range\<close> opens.\<close>

definition touches :: "bytes option \<Rightarrow> bytes option \<Rightarrow> 'bl table \<Rightarrow> bool" where
  "touches lower upper t \<longleftrightarrow>
     \<not> (tb_max_key t \<noteq> [] \<and> (case lower of Some lb \<Rightarrow> tb_max_key t < lb | None \<Rightarrow> False)
        \<or> tb_min_key t \<noteq> [] \<and> (case upper of Some ub \<Rightarrow> ub \<le> tb_min_key t | None \<Rightarrow> False))"

abbreviation ents_in :: "catalogue \<Rightarrow> bytes option \<Rightarrow> bytes option \<Rightarrow> 'bl table \<Rightarrow> (bytes \<times> log_record) list" where
  "ents_in cat lower upper t \<equiv> List.filter (\<lambda>e. in_range lower upper (fst e)) (tb_ents cat t)"

lemma untouched_table:
  assumes t: "table_ok (h_crates H) cat t" "files_ok (h_crates H) enc disk cat" and un: "\<not> touches lower upper t"
  shows "ents_in cat lower upper t = []"
proof -
  have "fst (hd (tb_ents cat t)) \<le> k \<and> k \<le> fst (last (tb_ents cat t))" if "k \<in> fst ` set (tb_ents cat t)" for k
    using strict_keys_bounds [OF table_ok_strict(1) [OF t]] that by blast
  moreover have "tb_min_key t = fst (hd (tb_ents cat t))" "tb_max_key t = fst (last (tb_ents cat t))"
    using t(1) by (simp_all add: table_ok_def)
  ultimately have "\<not> in_range lower upper k" if "k \<in> fst ` set (tb_ents cat t)" for k
    using that un by (fastforce simp: touches_def in_range_def split: option.splits)
  then show ?thesis by (auto simp: filter_empty_conv)
qed

lemma record_iters_correct:
  assumes "store_ok H disk cat vs" "host_laws H" "\<forall>t\<in>set ts. table_ok (h_crates H) cat t"
  shows "\<exists>c. record_iters H disk lower upper ts iterators vs =
      Ok (iterators @ map (\<lambda>t. BoxMem (memtable_iterator_new (ents_in cat lower upper t))) (List.filter (touches lower upper) ts),
          vs\<lparr>vs_block_cache := Some c\<rparr>)
    \<and> store_ok H disk cat (vs\<lparr>vs_block_cache := Some c\<rparr>)"
  using assms
proof (induction ts arbitrary: vs iterators)
  case Nil
  obtain c where "vs_block_cache vs = Some c" using store_okD(3) [OF Nil(1)] by blast
  then have "vs\<lparr>vs_block_cache := Some c\<rparr> = vs" by simp
  then show ?case using Nil(1) by (intro exI [of _ c]) simp
next
  case (Cons t ts)
  obtain c where c: "vs_block_cache vs = Some c" using store_okD(3) [OF Cons.prems(1)] by blast
  have t: "table_ok (h_crates H) cat t" and ts: "\<forall>t\<in>set ts. table_ok (h_crates H) cat t" using Cons.prems(3) by simp_all
  show ?case
  proof (cases "touches lower upper t")
    case False
    then have "record_iters H disk lower upper (t # ts) iterators vs = record_iters H disk lower upper ts iterators vs"
      unfolding touches_def by (simp only: record_iters.simps not_not if_True)
    then show ?thesis using False Cons.IH [OF Cons.prems(1,2) ts] by simp
  next
    case True
    obtain p segs where p: "tb_path t = Some p" "cat p = Some segs" "tb_ents cat t = seg_ents segs"
      using t by (auto simp: table_ok_def tb_ents_def)
    have q: "p \<notin> set (vs_quarantined vs)" using store_okD(4) [OF Cons.prems(1)] p(2) by auto
    obtain rd c' where rd: "open_reader H disk (vs_encryption vs) p = Ok rd"
      "scan_range (h_crates H) rd lower upper c = (Ok (ents_in cat lower upper t), c')"
      and ok': "store_ok H disk cat (vs\<lparr>vs_block_cache := Some c'\<rparr>)"
      using read_file(2) [OF Cons.prems(1,2) p(2) c] p(3) by metis
    have step: "record_iters H disk lower upper (t # ts) iterators vs =
        record_iters H disk lower upper ts (iterators @ [BoxMem (memtable_iterator_new (ents_in cat lower upper t))])
          (vs\<lparr>vs_block_cache := Some c'\<rparr>)"
      using True p(1) q rd c unfolding touches_def record_iters.simps
      by (simp only: if_False) (simp add: open_record_reader_def block_cache_of_def keep_block_cache_def)
    show ?thesis
      using Cons.IH [OF ok' Cons.prems(2) ts, of "iterators @ [BoxMem (memtable_iterator_new (ents_in cat lower upper t))]"] True
      unfolding step by (simp del: record_iters.simps)
  qed
qed

lemma record_iters_in_range_correct:
  assumes ok: "store_ok H disk cat vs" and laws: "host_laws H"
  shows "\<exists>c. record_iters_in_range H disk cf lower upper vs =
      Ok (map (\<lambda>t. BoxMem (memtable_iterator_new (ents_in cat lower upper t)))
            (List.filter (touches lower upper) (rev (cf_tables vs cf))), vs\<lparr>vs_block_cache := Some c\<rparr>)
    \<and> store_ok H disk cat (vs\<lparr>vs_block_cache := Some c\<rparr>)"
proof (cases "map_of (vs_tables vs) cf")
  case None
  obtain c where "vs_block_cache vs = Some c" using store_okD(3) [OF ok] by blast
  then have "vs\<lparr>vs_block_cache := Some c\<rparr> = vs" by simp
  then show ?thesis using None ok by (intro exI [of _ c]) (simp add: record_iters_in_range_def cf_tables_def)
next
  case (Some ts)
  then have "\<forall>t\<in>set (rev ts). table_ok (h_crates H) cat t" using store_okD(5) [OF ok, of _ cf] by (simp add: cf_tables_def)
  from record_iters_correct [OF ok laws this, of lower upper "[]"] Some show ?thesis
    by (simp add: record_iters_in_range_def cf_tables_def)
qed

end
