(* ===== verification/Version_Update.thy ===== *)
theory Version_Update
  imports Version_Lookup
begin

text \<open>
  Changes of the version set: adding a table whose file was just written, replacing groups of tables,
  deleting files that no table refers to. Each keeps the store consistent, and the new newest record
  of every key is given in terms of the old ones.
\<close>

subsection \<open>Files\<close>

lemma tb_ents_upd [simp]: "table_ok X cat t \<Longrightarrow> cat p = None \<Longrightarrow> tb_ents (cat(p \<mapsto> segs)) t = tb_ents cat t"
  by (auto simp: table_ok_def tb_ents_def split: option.splits)

lemma table_ok_upd: "table_ok X cat t \<Longrightarrow> cat p = None \<Longrightarrow> table_ok X (cat(p \<mapsto> segs)) t"
  unfolding table_ok_def [of X "cat(p \<mapsto> segs)"] by (simp only: tb_ents_upd) (auto simp: table_ok_def image_iff)

lemma files_ok_upd:
  assumes "files_ok X enc disk cat" "sst_file X enc kvs segs meta mw file" "length file < 2 ^ 32" "length kvs < 2 ^ 64"
  shows "files_ok X enc (disk(p \<mapsto> file)) (cat(p \<mapsto> segs))"
  using assms sst_fileD(1) [OF assms(2)] unfolding files_ok_def by (auto simp: fun_upd_apply)

text \<open>A name that no table, no cached block and no quarantined file uses.\<close>

definition fresh_path :: "('bl, 'c, 'k) host \<Rightarrow> catalogue \<Rightarrow> path \<Rightarrow> ('bl, 'c, 'k) version_set \<Rightarrow> bool" where
  "fresh_path H cat p vs \<longleftrightarrow>
     cat p = None \<and> h_path_hash H p \<notin> h_path_hash H ` dom cat \<and> p \<notin> set (vs_quarantined vs) \<and>
     (\<forall>c i. vs_block_cache vs = Some c \<longrightarrow> x_cache_get (h_crates H) c (h_path_hash H p, i) = None)"

subsection \<open>Adding a table\<close>

lemma cf_tables_add [simp]: "cf_tables (add_table H cf t vs) cf' = cf_tables vs cf' @ (if cf' = cf then [t] else [])"
  by (simp add: add_table_def clear_cache_def cf_tables_def update_conv')

lemma add_table_fields [simp]:
  "vs_encryption (add_table H cf t vs) = vs_encryption vs" "vs_quarantined (add_table H cf t vs) = vs_quarantined vs"
  "vs_block_cache (add_table H cf t vs) = vs_block_cache vs"
  "vs_compaction_generation (add_table H cf t vs) = vs_compaction_generation vs + 1"
  by (simp_all add: add_table_def clear_cache_def)

text \<open>A new file, a change to a file that no table uses, and a new list of tables.\<close>

lemma store_ok_file:
  assumes ok: "store_ok H disk cat vs" and fresh: "fresh_path H cat p vs"
    and f: "sst_file (h_crates H) (vs_encryption vs) kvs segs meta mw file" "length file < 2 ^ 32" "length kvs < 2 ^ 64"
  shows "store_ok H (disk(p \<mapsto> file)) (cat(p \<mapsto> segs)) vs"
proof -
  obtain c where c: "vs_block_cache vs = Some c" "cached_blocks_ok H cat c" using store_okD(3) [OF ok] by blast
  have p: "cat p = None" "h_path_hash H p \<notin> h_path_hash H ` dom cat" "p \<notin> set (vs_quarantined vs)"
    "\<forall>i. x_cache_get (h_crates H) c (h_path_hash H p, i) = None"
    using fresh c(1) unfolding fresh_path_def by blast+
  have "cached_blocks_ok H (cat(p \<mapsto> segs)) c"
    using c(2) p(4) by (auto simp: cached_blocks_ok_def cache_coherent_def cache_get_def)
  moreover have "table_ok (h_crates H) (cat(p \<mapsto> segs)) t" if "t \<in> set (cf_tables vs cf)" for cf t
    using table_ok_upd [OF store_okD(5) [OF ok that] p(1)] .
  moreover have "inj_on (h_path_hash H) (dom (cat(p \<mapsto> segs)))"
    using store_okD(2) [OF ok] p(1,2) by (auto simp: inj_on_insert)
  ultimately show ?thesis
    using c(1) p(3) store_okD(4) [OF ok] files_ok_upd [OF store_okD(1) [OF ok] f] by (auto simp: store_ok_def)
qed

lemma store_ok_other_file: "store_ok H disk cat vs \<Longrightarrow> cat p = None \<Longrightarrow> store_ok H (disk(p := x)) cat vs"
  unfolding store_ok_def files_ok_def by (metis fun_upd_other option.distinct(1))

lemma store_ok_tables:
  assumes "store_ok H disk cat vs" "\<forall>t\<in>set ts. table_ok (h_crates H) cat t"
    and "vs_encryption vs' = vs_encryption vs" "vs_block_cache vs' = vs_block_cache vs" "vs_quarantined vs' = vs_quarantined vs"
    and "\<And>cf'. cf_tables vs' cf' = (if cf' = cf then ts else cf_tables vs cf')"
  shows "store_ok H disk cat vs'"
  using assms by (auto simp: store_ok_def split: if_splits)

lemma store_ok_add:
  assumes ok: "store_ok H disk cat vs" and fresh: "fresh_path H cat p vs"
    and f: "sst_file (h_crates H) (vs_encryption vs) kvs segs meta mw file" "length file < 2 ^ 32" "length kvs < 2 ^ 64"
    and t: "table_ok (h_crates H) (cat(p \<mapsto> segs)) t"
  shows "store_ok H (disk(p \<mapsto> file)) (cat(p \<mapsto> segs)) (add_table H cf t vs)"
proof -
  note ok' = store_ok_file [OF ok fresh f]
  show ?thesis
    by (rule store_ok_tables [OF ok', where ts = "cf_tables vs cf @ [t]" and cf = cf])
      (use store_okD(5) [OF ok', of _ cf] t in auto)
qed

text \<open>Deleting files that no table refers to.\<close>

definition without :: "path list \<Rightarrow> (path \<Rightarrow> 'a option) \<Rightarrow> path \<Rightarrow> 'a option" where
  "without ps f = (\<lambda>p. if p \<in> set ps then None else f p)"

lemma without_other: "p \<notin> set ps \<Longrightarrow> without ps f p = f p"
  by (simp add: without_def)

lemma tb_ents_without: "tb_path t = Some p \<Longrightarrow> p \<notin> set ps \<Longrightarrow> tb_ents (without ps cat) t = tb_ents cat t"
  by (simp add: tb_ents_def without_def)

lemma store_ok_without:
  assumes ok: "store_ok H disk cat vs"
    and unused: "\<And>cf t p. t \<in> set (cf_tables vs cf) \<Longrightarrow> tb_path t = Some p \<Longrightarrow> p \<notin> set ps"
  shows "store_ok H (without ps disk) (without ps cat) vs"
proof -
  have "table_ok (h_crates H) (without ps cat) t" if t: "t \<in> set (cf_tables vs cf)" for cf t
  proof -
    obtain p segs where p: "tb_path t = Some p" "cat p = Some segs" "p \<notin> set ps"
      using store_okD(5) [OF ok t] unused [OF t] by (auto simp: table_ok_def)
    show ?thesis
      using store_okD(5) [OF ok t] p(1,3) by (simp add: table_ok_def tb_ents_without without_other)
  qed
  moreover have "inj_on (h_path_hash H) (dom (without ps cat))"
    using store_okD(2) [OF ok] by (rule inj_on_subset) (auto simp: without_def split: if_splits)
  moreover have "cached_blocks_ok H (without ps cat) c" if "cached_blocks_ok H cat c" for c
    using that by (simp add: cached_blocks_ok_def without_def)
  moreover have "files_ok (h_crates H) (vs_encryption vs) (without ps disk) (without ps cat)"
    using store_okD(1) [OF ok] by (simp add: files_ok_def without_def)
  ultimately show ?thesis
    using store_okD(3,4) [OF ok] by (auto simp: store_ok_def without_def)
qed

lemma newest_without:
  "(\<And>t p. t \<in> set ts \<Longrightarrow> tb_path t = Some p \<Longrightarrow> p \<notin> set ps) \<Longrightarrow> newest (without ps cat) ts key = newest cat ts key"
proof (induction ts)
  case (Cons t ts)
  then have "tb_ents (without ps cat) t = tb_ents cat t"
    by (cases "tb_path t") (auto simp: tb_ents_def without_def)
  then show ?case using Cons by (auto split: option.splits)
qed simp

lemma newest_upd:
  "\<forall>t\<in>set ts. table_ok X cat t \<Longrightarrow> cat p = None \<Longrightarrow> newest (cat(p \<mapsto> segs)) ts key = newest cat ts key"
  by (induction ts) (auto split: option.splits)

lemma newest_add:
  assumes ok: "store_ok H disk cat vs" and p: "cat p = None" and t: "tb_path t = Some p"
  shows "newest_in (cat(p \<mapsto> segs)) (add_table H cf t vs) cf' key =
    (case (if cf' = cf then map_of (seg_ents segs) key else None) of Some r \<Rightarrow> Some r | None \<Rightarrow> newest_in cat vs cf' key)"
proof -
  have "\<forall>t\<in>set (rev (cf_tables vs cf')). table_ok (h_crates H) cat t" using store_okD(5) [OF ok] by simp
  from newest_upd [OF this p, of segs key] show ?thesis using t by (auto simp: tb_ents_def split: option.splits)
qed

text \<open>A cleared key-value cache agrees with every column family.\<close>

lemma kv_coherent_cleared: "kv_law H \<Longrightarrow> vs_kv_cache vs = h_kv_invalidate_all H c \<Longrightarrow> kv_coherent H cat cf vs"
proof -
  assume "kv_law H" "vs_kv_cache vs = h_kv_invalidate_all H c"
  then have "get_cached H vs k = None" for k unfolding kv_law_def get_cached_def by metis
  then show ?thesis by (simp add: kv_coherent_def)
qed

lemma kv_coherent_add: "kv_law H \<Longrightarrow> kv_coherent H cat cf (add_table H cf' t vs)"
  by (rule kv_coherent_cleared) (simp_all add: add_table_def clear_cache_def)

subsection \<open>Replacing groups of tables\<close>

text \<open>The result of a replacement, table by table: what comes in at an index, and what stays there.\<close>

definition group_outputs :: "(nat list \<times> 'bl table list) list \<Rightarrow> nat \<Rightarrow> 'bl table list" where
  "group_outputs groups i = concat (map snd (List.filter (\<lambda>(is, _). is \<noteq> [] \<and> Min (set is) = i) groups))"

definition groups_ok :: "nat \<Rightarrow> (nat list \<times> 'bl table list) list \<Rightarrow> bool" where
  "groups_ok n groups \<longleftrightarrow>
     distinct (concat (map fst groups)) \<and> (\<forall>(is, _)\<in>set groups. is \<noteq> [] \<and> (\<forall>i\<in>set is. i < n))"

definition replaced :: "(nat list \<times> 'bl table list) list \<Rightarrow> 'bl table list \<Rightarrow> 'bl table list" where
  "replaced groups ts =
     concat (map (\<lambda>(i, t). group_outputs groups i @ (if i \<in> set (concat (map fst groups)) then [] else [t])) (enumerate 0 ts))"

lemma replace_pass_fst:
  "fst (replace_pass removed replacements i ts) =
     concat (map (\<lambda>(i, t). (case map_of replacements i of Some os \<Rightarrow> os | None \<Rightarrow> []) @ (if i \<in> set removed then [] else [t]))
       (enumerate i ts))"
  by (induction removed replacements i ts rule: replace_pass.induct) (auto simp: Let_def split: prod.splits option.splits)

lemma replace_pass_snd:
  "snd (replace_pass removed replacements i ts) =
     List.map_filter (\<lambda>(i, t). if i \<in> set removed then tb_path t else None) (enumerate i ts)"
  by (induction removed replacements i ts rule: replace_pass.induct)
    (auto simp: Let_def map_filter_simps split: prod.splits option.splits)

lemma collect_groups_removed:
  "\<forall>(is, _)\<in>set groups. is \<noteq> [] \<and> (\<forall>i\<in>set is. i < n) \<Longrightarrow>
     fst (collect_groups n groups (removed, m)) = removed @ concat (map fst groups)"
proof (induction groups arbitrary: removed m)
  case (Cons g groups)
  obtain "is" os where g: "g = (is, os)" by (cases g)
  then have "List.filter (\<lambda>i. i < n) is = is" "is \<noteq> []" using Cons.prems by (auto simp: filter_id_conv)
  then show ?case using Cons g by (simp add: Let_def)
qed simp

lemma collect_groups_outputs:
  assumes "groups_ok n groups" "\<forall>i\<in>set (concat (map fst groups)). map_of m i = None"
  shows "map_of (snd (collect_groups n groups (removed, m))) i =
    (if \<exists>g\<in>set groups. Min (set (fst g)) = i then Some (group_outputs groups i) else map_of m i)"
  using assms
proof (induction groups arbitrary: removed m)
  case (Cons g groups)
  obtain "is" os where g: "g = (is, os)" by (cases g)
  have "is": "is \<noteq> []" "List.filter (\<lambda>i. i < n) is = is" "Min (set is) \<in> set is"
    using Cons.prems(1) g by (auto simp: groups_ok_def filter_id_conv)
  have rest: "groups_ok n groups" using Cons.prems(1) g by (auto simp: groups_ok_def)
  have apart: "set is \<inter> set (concat (map fst groups)) = {}" using Cons.prems(1) g by (auto simp: groups_ok_def)
  have mins: "Min (set (fst h)) \<in> set (concat (map fst groups))" if "h \<in> set groups" for h
  proof -
    have "fst h \<noteq> []" using rest that by (cases h) (auto simp: groups_ok_def)
    then show ?thesis using that by (auto intro!: bexI [of _ h])
  qed
  have new: "\<forall>j\<in>set (concat (map fst groups)). map_of (btree_insert (Min (set is)) os m) j = None"
    using Cons.prems(2) apart "is"(3) g by (auto simp: map_of_btree_insert)
  have clash: "\<not> (\<exists>h\<in>set groups. Min (set (fst h)) = Min (set is))" using mins apart "is"(3) by fastforce
  then have none: "group_outputs groups (Min (set is)) = []" by (auto simp: group_outputs_def filter_empty_conv)
  have "group_outputs (g # groups) i = (if Min (set is) = i then os else []) @ group_outputs groups i"
    using g "is"(1) by (simp add: group_outputs_def)
  then show ?case
    using Cons.IH [OF rest new] g "is"(1,2) none clash
    by (cases "i = Min (set is)") (simp_all add: Let_def map_of_btree_insert eq_commute [of i])
qed (simp add: group_outputs_def)

lemma group_outputs_none: "\<not> (\<exists>g\<in>set groups. Min (set (fst g)) = i) \<Longrightarrow> group_outputs groups i = []"
  by (auto simp: group_outputs_def filter_empty_conv)

lemma atomic_replace_groups_eq:
  assumes g: "groups_ok (length (cf_tables vs cf)) groups" "groups \<noteq> []"
  shows "atomic_replace_groups H cf groups vs =
    (List.map_filter (\<lambda>(i, t). if i \<in> set (concat (map fst groups)) then tb_path t else None) (enumerate 0 (cf_tables vs cf)),
     clear_cache H (vs\<lparr>vs_tables := AList.update cf (replaced groups (cf_tables vs cf)) (vs_tables vs),
       vs_compaction_generation := vs_compaction_generation vs + 1\<rparr>))"
proof -
  let ?ts = "cf_tables vs cf"
  obtain "is" os where hd: "(is, os) \<in> set groups" "is \<noteq> []" "\<forall>i\<in>set is. i < length ?ts"
    using g by (cases groups) (auto simp: groups_ok_def)
  then have "?ts \<noteq> []" by (cases "is") auto
  then have ts: "map_of (vs_tables vs) cf = Some ?ts" by (auto simp: cf_tables_def split: option.splits)
  obtain removed m where c: "collect_groups (length ?ts) groups ([], []) = (removed, m)" by fastforce
  have removed: "removed = concat (map fst groups)"
    using collect_groups_removed [of groups "length ?ts" "[]" "[]"] g(1) c by (auto simp: groups_ok_def)
  then have "removed \<noteq> []" using hd by force
  moreover have outs: "(case map_of m i of Some os \<Rightarrow> os | None \<Rightarrow> []) = group_outputs groups i" for i
    using collect_groups_outputs [OF g(1), of "[]" "[]" i] c group_outputs_none [of groups i] by auto
  obtain updated paths where r: "replace_pass removed m 0 ?ts = (updated, paths)" by fastforce
  have "updated = replaced groups ?ts" "paths = List.map_filter (\<lambda>(i, t). if i \<in> set (concat (map fst groups)) then tb_path t else None) (enumerate 0 ?ts)"
    using replace_pass_fst [of removed m 0 ?ts] replace_pass_snd [of removed m 0 ?ts] r outs
    unfolding removed replaced_def by simp_all
  ultimately show ?thesis using ts c r by (simp add: atomic_replace_groups_def)
qed

lemma replaced_range:
  assumes "i < j" "j \<le> length ts"
  shows "replaced [([i..<j], outs)] ts = take i ts @ outs @ drop j ts"
proof -
  let ?f = "\<lambda>(k, t). group_outputs [([i..<j], outs)] k @ (if k \<in> set (concat (map fst [([i..<j], outs)])) then [] else [t])"
  have "Min (set [i..<j]) = i" using assms(1) by (auto intro: Min_eqI)
  then have out: "group_outputs [([i..<j], outs)] k = (if k = i then outs else [])" for k
    using assms(1) by (auto simp: group_outputs_def)
  have keep: "concat (map ?f (enumerate n xs)) = xs" if "n + length xs \<le> i \<or> j \<le> n" for n xs
    using that by (induction xs arbitrary: n) (use assms(1) in \<open>auto simp: out\<close>)
  have gone: "concat (map ?f (enumerate n xs)) = []" if "i < n" "n + length xs \<le> j" for n xs
    using that by (auto simp: out in_set_enumerate_eq)
  obtain t mid where mid: "drop i (take j ts) = t # mid" using assms by (cases "drop i (take j ts)") auto
  have split: "ts = take i ts @ (t # mid) @ drop j ts"
    using mid assms by (metis append_take_drop_id drop_take le_add_diff_inverse less_imp_le take_add append_assoc)
  have len: "length (take i ts) = i" "i + length (t # mid) = j" using assms mid [symmetric] by simp_all
  have "enumerate 0 ts = enumerate 0 (take i ts) @ (i, t) # enumerate (Suc i) mid @ enumerate j (drop j ts)"
    using len by (subst split) (simp add: enumerate_append_eq)
  moreover have "?f (i, t) = outs" using out assms(1) by simp
  ultimately show ?thesis
    unfolding replaced_def using keep [of 0 "take i ts"] keep [of j "drop j ts"] gone [of "Suc i" mid] len by simp
qed

lemma newest_append:
  "newest cat (xs @ ys) key = (case newest cat xs key of None \<Rightarrow> newest cat ys key | Some r \<Rightarrow> Some r)"
  by (induction xs) (auto split: option.splits)

lemma newest_SomeD:
  assumes "newest cat ts key = Some r"
  shows "\<exists>t\<in>set ts. map_of (tb_ents cat t) key = Some r" "\<exists>t\<in>set ts. (key, r) \<in> set (tb_ents cat t)"
proof -
  show "\<exists>t\<in>set ts. map_of (tb_ents cat t) key = Some r"
    using assms by (induction ts) (auto split: option.splits)
  then show "\<exists>t\<in>set ts. (key, r) \<in> set (tb_ents cat t)" by (blast dest: map_of_SomeD)
qed

lemma newest_None: "newest cat ts key = None \<longleftrightarrow> (\<forall>t\<in>set ts. map_of (tb_ents cat t) key = None)"
  by (induction ts) (auto split: option.splits)

end
