(* ===== verification/Version_Store.thy ===== *)
theory Version_Store
  imports Version_Update
begin

text \<open>
  The properties of version-set lookups, and a concrete version set for the witnesses: one column
  family with one table, whose file is the example file of \<open>Sstable_Metadata\<close>.
\<close>

subsection \<open>An example store\<close>

definition demo_host :: "(unit, unit, (bytes \<times> bytes) list) host" where
  "demo_host =
     \<lparr>h_crates = demo_crates, h_cache_new = (), h_kv_new = [], h_kv_get = map_of,
      h_kv_insert = (\<lambda>k v m. (k, v) # m), h_kv_invalidate_all = (\<lambda>_. []),
      h_path_hash = (\<lambda>p. word_of_nat (length p)), h_mmap_works = True\<rparr>"

definition demo_disk :: disk where
  "demo_disk = [''flush_0.sst'' \<mapsto> demo_file]"

definition demo_table :: "unit table" where
  "demo_table =
     \<lparr>tb_data = [([1], [2])], tb_level = 0, tb_path = Some ''flush_0.sst'', tb_min_key = [1], tb_max_key = [1],
      tb_bloom_filter = Some ()\<rparr>"

definition demo_vs :: "(unit, unit, (bytes \<times> bytes) list) version_set" where
  "demo_vs = add_table demo_host ''default'' demo_table (vs_new demo_host encryption_default (Some ()))"

lemma demo_kv: "kv_law demo_host"
  by (auto simp: kv_law_def demo_host_def)

lemma demo_host_crates [simp]: "h_crates demo_host = demo_crates"
  by (simp add: demo_host_def)

lemma demo_host_laws: "host_laws demo_host"
  using demo_laws demo_kv by (auto simp: host_laws_def)

lemma demo_bloom [simp]: "x_bloom_check demo_crates bl k"
  by (simp add: demo_crates_def plain_crates_def)

lemma demo_vs_tables [simp]: "cf_tables demo_vs cf = (if cf = ''default'' then [demo_table] else [])"
  by (simp add: demo_vs_def) (simp add: cf_tables_def vs_new_def)

lemma demo_vs_fields [simp]:
  "vs_encryption demo_vs = encryption_default" "vs_quarantined demo_vs = []" "vs_block_cache demo_vs = Some ()"
  by (simp_all add: demo_vs_def vs_new_def)

lemma demo_store:
  obtains segs where "seg_ents segs = demo_entries" "store_ok demo_host demo_disk [''flush_0.sst'' \<mapsto> segs] demo_vs"
proof -
  let ?vs = "vs_new demo_host encryption_default (Some ())" and ?p = "''flush_0.sst''"
  obtain segs meta mw where f: "sst_file demo_crates encryption_default demo_entries segs meta mw demo_file"
    using sst_build_file [OF demo_build demo_laws demo_sizes(1-3)] by blast
  then have segs: "seg_ents segs = demo_entries" using sst_fileD(1) by metis
  have "store_ok demo_host Map.empty Map.empty ?vs"
    by (simp add: store_ok_def files_ok_def vs_new_def cached_blocks_ok_def cf_tables_def)
  moreover have "fresh_path demo_host Map.empty ?p ?vs"
    using demo_sizes(5) by (simp add: fresh_path_def vs_new_def)
  moreover have "table_ok demo_crates (Map.empty(?p \<mapsto> segs)) demo_table"
    using segs by (simp add: table_ok_def tb_ents_def demo_table_def demo_entries_def log_record_new_def)
  ultimately have "store_ok demo_host (Map.empty(?p \<mapsto> demo_file)) (Map.empty(?p \<mapsto> segs)) demo_vs"
    unfolding demo_vs_def using store_ok_add [of demo_host Map.empty Map.empty ?vs ?p demo_entries segs meta mw demo_file] f demo_sizes(3,4)
    by (simp add: vs_new_def)
  then show ?thesis using that segs by (simp add: demo_disk_def)
qed

lemma demo_kv_coherent: "kv_coherent demo_host cat cf demo_vs"
  unfolding demo_vs_def by (rule kv_coherent_add [OF demo_kv])

lemma demo_newest:
  assumes "seg_ents segs = demo_entries"
  shows "newest_in [''flush_0.sst'' \<mapsto> segs] demo_vs ''default'' key = map_of demo_entries key"
  using assms by (simp add: tb_ents_def demo_table_def split: option.splits)

subsection \<open>Cached values\<close>

definition caches :: "('bl, 'c, 'k) host \<Rightarrow> bytes \<Rightarrow> (bytes option \<times> ('bl, 'c, 'k) version_set) outcome \<Rightarrow> bool" where
  "caches H key res \<longleftrightarrow> (\<forall>v vs'. res = Ok (Some v, vs') \<longrightarrow> (\<exists>vs1. vs' = put_cached H key v vs1))"

lemma caches_simps [simp]:
  "caches H key Panic" "caches H key (Ok (None, vs))" "caches H key (Ok (Some v, put_cached H key v vs))"
  by (auto simp: caches_def)

lemma value_lookup_caches: "caches H key (value_lookup H disk now key ts vs)"
proof (induction ts arbitrary: vs)
  case (Cons t ts)
  show ?case
    by (simp add: Let_def Cons.IH split: option.split list.split outcome.split prod.split)
qed simp

lemma put_cached_found:
  assumes "kv_law H" "get_cached H (put_cached H key v vs) key \<noteq> None"
  shows "get_cached H (put_cached H key v vs) key = Some v"
proof -
  obtain w where w: "h_kv_get H (h_kv_insert H key v (vs_kv_cache vs)) key = Some w"
    using assms(2) by (auto simp: get_cached_def put_cached_def)
  then have "if key = key then w = v else h_kv_get H (vs_kv_cache vs) key = Some w"
    using assms(1) unfolding kv_law_def by blast
  then have "w = v" by simp
  then show ?thesis using w by (simp add: get_cached_def put_cached_def)
qed

subsection \<open>Properties\<close>

text \<open>C34: the key-value cache does not distinguish column families. Once a lookup has cached a value
  under a key, a lookup of that key in any other column family returns this value, whatever the
  other column family holds.\<close>

theorem version_cache_ignores_cf:
  assumes "kv_law H" and "vs_get H disk now cf key vs = Ok (Some (b # bs), vs')" and "get_cached H vs' key \<noteq> None"
  shows "vs_get H disk' now' cf' key vs' = Ok (Some (b # bs), vs')"
proof -
  have "get_cached H vs' key = Some (b # bs)"
  proof (cases "get_cached H vs key")
    case None
    then obtain ts where "value_lookup H disk now key ts vs = Ok (Some (b # bs), vs')"
      using assms(2) by (auto simp: vs_get_def split: option.splits)
    then obtain vs1 where "vs' = put_cached H key (b # bs) vs1" using value_lookup_caches [of H key disk now ts vs] by (auto simp: caches_def)
    then show ?thesis using assms(1,3) put_cached_found by blast
  next
    case (Some v)
    then show ?thesis using assms(2) by (auto simp: vs_get_def split: if_splits)
  qed
  then show ?thesis by (simp add: vs_get_def)
qed

theorem version_cache_ignores_cf_witness:
  "\<exists>vs'. cf_tables vs' ''other'' = [] \<and> vs_get demo_host demo_disk 9 ''other'' [1] vs' = Ok (Some [2], vs')"
proof -
  let ?vs = "put_cached demo_host [1] [2] demo_vs"
  have c: "get_cached demo_host ?vs [1] = Some [2]" by (simp add: get_cached_def put_cached_def demo_host_def)
  then have "vs_get demo_host demo_disk 9 ''default'' [1] ?vs = Ok (Some [2], ?vs)" by (simp add: vs_get_def)
  from version_cache_ignores_cf [OF demo_kv this, of demo_disk 9 "''other''"] c
  have "vs_get demo_host demo_disk 9 ''other'' [1] ?vs = Ok (Some [2], ?vs)" by simp
  moreover have "cf_tables ?vs ''other'' = []"
    using demo_vs_tables [of "''other''"] by (simp add: put_cached_def cf_tables_def)
  ultimately show ?thesis by blast
qed

end
