(* ===== verification/Engine_Lookup.thy ===== *)
theory Engine_Lookup
  imports Engine_Read Version_Store
begin

text \<open>
  What the engine shows: the newest record of a key over memtables and tables, unless it is deleted,
  expired or covered by a newer range tombstone. Lookups and scans return exactly this.
\<close>

definition mem_wf :: "memtable \<Rightarrow> bool" where
  "mem_wf m \<longleftrightarrow> distinct (map fst (mt_data m)) \<and> (\<forall>e\<in>set (mt_data m). lr_key (snd e) = fst e)"

text \<open>
  A consistent engine state: the store is, the memtables have distinct keys, and the range tombstones
  of the memtables are also kept for the column family.
\<close>

definition engine_ok :: "('bl, 'c, 'k) host \<Rightarrow> catalogue \<Rightarrow> ('bl, 'c, 'k) engine_core \<Rightarrow> bool" where
  "engine_ok H cat core \<longleftrightarrow>
     store_ok H (co_sst_dir core) cat (co_version_set core) \<and>
     (\<forall>cf. \<forall>m\<in>set (memtables_of core cf). mem_wf m \<and> set (mt_range_tombstones m) \<subseteq> set (tombstones_of core cf))"

lemma engine_okD:
  assumes "engine_ok H cat core"
  shows "store_ok H (co_sst_dir core) cat (co_version_set core)"
    and "m \<in> set (memtables_of core cf) \<Longrightarrow> mem_wf m"
    and "m \<in> set (memtables_of core cf) \<Longrightarrow> set (mt_range_tombstones m) \<subseteq> set (tombstones_of core cf)"
  using assms by (auto simp: engine_ok_def)

definition entry_at :: "catalogue \<Rightarrow> ('bl, 'c, 'k) engine_core \<Rightarrow> string \<Rightarrow> bytes \<Rightarrow> log_record option" where
  "entry_at cat core cf key =
     (case memtable_record core cf key of Some r \<Rightarrow> Some r | None \<Rightarrow> newest_in cat (co_version_set core) cf key)"

definition view :: "catalogue \<Rightarrow> u128 \<Rightarrow> ('bl, 'c, 'k) engine_core \<Rightarrow> string \<Rightarrow> bytes \<Rightarrow> bytes option" where
  "view cat now core cf key =
     (case entry_at cat core cf key of
        None \<Rightarrow> None
      | Some r \<Rightarrow> if hidden now (covering_range_tombstone_ts core cf) key (lr_value r) (Some r) then None else Some (lr_value r))"

text \<open>States that differ in the caches only.\<close>

definition same_but_caches :: "('bl, 'c, 'k) engine_core \<Rightarrow> ('bl, 'c, 'k) engine_core \<Rightarrow> bool" where
  "same_but_caches core core' \<longleftrightarrow>
     same_tables (co_version_set core) (co_version_set core') \<and>
     core' = core\<lparr>co_version_set := co_version_set core'\<rparr>"

lemma same_but_caches_refl [simp]: "same_but_caches core core"
  by (simp add: same_but_caches_def)

lemma same_but_caches_trans:
  assumes "same_but_caches core core1" "same_but_caches core1 core2"
  shows "same_but_caches core core2"
proof -
  have c1: "core1 = core\<lparr>co_version_set := co_version_set core1\<rparr>" and c2: "core2 = core1\<lparr>co_version_set := co_version_set core2\<rparr>"
    using assms by (auto simp: same_but_caches_def)
  have "core2 = core\<lparr>co_version_set := co_version_set core2\<rparr>" by (subst c2, subst c1) simp
  then show ?thesis using assms same_tables_trans by (auto simp: same_but_caches_def)
qed

lemma same_but_caches_upd [simp]:
  "same_tables (co_version_set core) vs \<Longrightarrow> same_but_caches core (core\<lparr>co_version_set := vs\<rparr>)"
  by (simp add: same_but_caches_def)

lemma same_but_caches_view:
  assumes "same_but_caches core core'"
  shows "memtables_of core' cf = memtables_of core cf" "tombstones_of core' cf = tombstones_of core cf"
    "co_sst_dir core' = co_sst_dir core" "covering_range_tombstone_ts core' = covering_range_tombstone_ts core"
    "entry_at cat core' = entry_at cat core" "view cat now core' = view cat now core"
proof -
  have c: "core' = core\<lparr>co_version_set := co_version_set core'\<rparr>" and t: "same_tables (co_version_set core) (co_version_set core')"
    using assms by (auto simp: same_but_caches_def)
  show m: "memtables_of core' cf = memtables_of core cf" for cf by (subst c) (simp add: memtables_of_def)
  show r: "tombstones_of core' cf = tombstones_of core cf" for cf by (subst c) (simp add: tombstones_of_def)
  show "co_sst_dir core' = co_sst_dir core" by (subst c) simp
  show cov: "covering_range_tombstone_ts core' = covering_range_tombstone_ts core"
    by (simp add: fun_eq_iff covering_range_tombstone_ts_def m r)
  show e: "entry_at cat core' = entry_at cat core"
    unfolding entry_at_def memtable_record_def fun_eq_iff m same_tables_cf [OF t] by simp
  show "view cat now core' = view cat now core"
    unfolding view_def fun_eq_iff e cov by simp
qed

lemma same_but_caches_ok:
  assumes "same_but_caches core core'" "engine_ok H cat core"
    and "store_ok H (co_sst_dir core) cat (co_version_set core')"
  shows "engine_ok H cat core'"
  using assms unfolding engine_ok_def by (simp add: same_but_caches_view [OF assms(1)])

subsection \<open>Point lookups\<close>

text \<open>
  Keys on which a lookup of values agrees with the records: no expired record and no empty value in
  the tables, no expiry side entry.
\<close>

definition plain_lookup :: "catalogue \<Rightarrow> u128 \<Rightarrow> ('bl, 'c, 'k) engine_core \<Rightarrow> string \<Rightarrow> bytes \<Rightarrow> bool" where
  "plain_lookup cat now core cf key \<longleftrightarrow>
     plain_key cat now (co_version_set core) cf key \<and>
     visible (newest_in cat (co_version_set core) cf key) \<noteq> Some [] \<and>
     (\<forall>t\<in>set (cf_tables (co_version_set core) cf). map_of (tb_ents cat t) (ttl_key key) = None)"

lemma check_ttl_absent:
  assumes ok: "store_ok H (co_sst_dir core) cat (co_version_set core)" and laws: "host_laws H"
    and kv: "kv_coherent H cat cf (co_version_set core)"
    and none: "\<forall>t\<in>set (cf_tables (co_version_set core) cf). map_of (tb_ents cat t) (ttl_key key) = None"
  shows "\<exists>core'. check_ttl H now cf key result core = (Ok result, core') \<and> same_but_caches core core' \<and>
    store_ok H (co_sst_dir core) cat (co_version_set core') \<and> kv_coherent H cat cf (co_version_set core')"
proof (cases "result = None")
  case True
  then show ?thesis using ok kv by (auto simp: check_ttl_def)
next
  case False
  have "newest_in cat (co_version_set core) cf (ttl_key key) = None" using none by (simp add: newest_None)
  moreover have "plain_key cat now (co_version_set core) cf (ttl_key key)" using none by (simp add: plain_key_def)
  ultimately obtain vs' where "vs_get H (co_sst_dir core) now cf (ttl_key key) (co_version_set core) = Ok (None, vs')"
    "store_ok H (co_sst_dir core) cat vs'" "kv_coherent H cat cf vs'" "same_tables (co_version_set core) vs'"
    using vs_get_correct [OF ok laws kv, of now "ttl_key key"] by (auto simp: visible_def)
  then show ?thesis
    using False by (intro exI [of _ "core\<lparr>co_version_set := vs'\<rparr>"]) (auto simp: check_ttl_def on_version_set_def)
qed

lemma get_cf_correct:
  assumes ok: "engine_ok H cat core" and laws: "host_laws H" and kv: "kv_coherent H cat cf (co_version_set core)"
    and plain: "memtable_record core cf key = None \<Longrightarrow> plain_lookup cat now core cf key"
  shows "\<exists>core'. get_cf H now cf key core = (Ok (view cat now core cf key), core') \<and> same_but_caches core core' \<and>
    engine_ok H cat core' \<and> kv_coherent H cat cf (co_version_set core')"
proof (cases "memtable_record core cf key")
  case (Some r)
  then have "get_cf H now cf key core = (Ok (view cat now core cf key), core)"
    by (auto simp: get_cf_def view_def entry_at_def hidden_def Let_def split: option.splits)
  then show ?thesis using ok kv by auto
next
  case None
  let ?vs = "co_version_set core" and ?disk = "co_sst_dir core" and ?cov = "covering_range_tombstone_ts core cf key"
  note p = plain [OF None, unfolded plain_lookup_def]
  note store = engine_okD(1) [OF ok]
  let ?read = "case ?cov of
      Some ts \<Rightarrow> bind_st (on_version_set (vs_get_record H ?disk cf key) core) (\<lambda>found core1.
        (Ok (case found of None \<Rightarrow> None
           | Some record \<Rightarrow> if \<not> lr_is_deleted record \<and> \<not> is_expired_at record now \<and> ts \<le> lr_timestamp record
                             then Some (lr_value record) else None), core1))
    | None \<Rightarrow> on_version_set (vs_get H ?disk now cf key) core"
  have "\<exists>vs'. ?read = (Ok (view cat now core cf key), core\<lparr>co_version_set := vs'\<rparr>) \<and>
      store_ok H ?disk cat vs' \<and> kv_coherent H cat cf vs' \<and> same_tables ?vs vs'"
  proof (cases ?cov)
    case cov: None
    have "view cat now core cf key = visible (newest_in cat ?vs cf key)"
      using None cov p newest_SomeD(1) [of cat "rev (cf_tables ?vs cf)" key]
      by (auto simp: view_def entry_at_def hidden_def visible_def plain_key_def plain_record_def split: option.splits)
    then show ?thesis
      using vs_get_correct [OF store laws kv, of now key] p cov by (auto simp: on_version_set_def)
  next
    case cov: (Some ts)
    obtain c where c: "vs_get_record H ?disk cf key ?vs = Ok (newest_in cat ?vs cf key, ?vs\<lparr>vs_block_cache := Some c\<rparr>)"
      "store_ok H ?disk cat (?vs\<lparr>vs_block_cache := Some c\<rparr>)"
      using vs_get_record_correct [OF store laws] by blast
    then show ?thesis
      using cov None kv
      by (intro exI [of _ "?vs\<lparr>vs_block_cache := Some c\<rparr>"])
        (auto simp: on_version_set_def view_def entry_at_def hidden_def split: option.splits)
  qed
  then obtain vs' where r: "?read = (Ok (view cat now core cf key), core\<lparr>co_version_set := vs'\<rparr>)"
    "store_ok H ?disk cat vs'" "kv_coherent H cat cf vs'" "same_tables ?vs vs'" by blast
  let ?core1 = "core\<lparr>co_version_set := vs'\<rparr>"
  have c1: "store_ok H (co_sst_dir ?core1) cat (co_version_set ?core1)" "kv_coherent H cat cf (co_version_set ?core1)"
    "\<forall>t\<in>set (cf_tables (co_version_set ?core1) cf). map_of (tb_ents cat t) (ttl_key key) = None"
    using r p same_tables_cf [OF r(4), of cf] by simp_all
  have "get_cf H now cf key core = check_ttl H now cf key (view cat now core cf key) ?core1"
    using None r(1) by (simp add: get_cf_def Let_def)
  moreover obtain core' where "check_ttl H now cf key (view cat now core cf key) ?core1 = (Ok (view cat now core cf key), core')"
    "same_but_caches ?core1 core'" "store_ok H ?disk cat (co_version_set core')" "kv_coherent H cat cf (co_version_set core')"
    using check_ttl_absent [OF c1(1) laws c1(2,3), of now "view cat now core cf key"] by auto
  moreover have "same_but_caches core ?core1" using r(4) by simp
  ultimately show ?thesis using same_but_caches_trans same_but_caches_ok [OF _ ok] by metis
qed


subsection \<open>Scans\<close>

definition scan_keep :: "u128 \<Rightarrow> (bytes \<Rightarrow> u128 option) \<Rightarrow> bytes option \<Rightarrow> ientry \<Rightarrow> bool" where
  "scan_keep now covering lower e \<longleftrightarrow>
     \<not> ((case lower of Some lb \<Rightarrow> fst e < lb | None \<Rightarrow> False) \<or> starts_with TTL_PREFIX (fst e)) \<and>
     \<not> hidden now covering (fst e) (fst (snd e)) (snd (snd e))"

definition below_upper :: "bytes option \<Rightarrow> bytes \<Rightarrow> bool" where
  "below_upper upper key \<longleftrightarrow> (case upper of Some ub \<Rightarrow> key < ub | None \<Rightarrow> True)"

abbreviation key_value :: "ientry \<Rightarrow> bytes \<times> bytes" where
  "key_value e \<equiv> (fst e, fst (snd e))"

lemma visible_loop_collect:
  assumes "\<forall>e\<in>set (mg_collect m). snd (snd e) \<noteq> None"
  shows "visible_loop H disk now cf covering lower upper limit m vs =
    Ok (take limit (map key_value (List.filter (scan_keep now covering lower)
          (takeWhile (\<lambda>e. below_upper upper (fst e)) (mg_collect m)))), vs)"
  using assms
proof (induction m arbitrary: limit rule: mg_collect.induct)
  case (1 m)
  show ?case
  proof (cases "mg_is_valid m \<and> 0 < limit")
    case False
    then show ?thesis by (auto simp: visible_loop.simps [of H disk now cf covering lower upper limit m vs] mg_collect.simps [of m])
  next
    case True
    then have c: "mg_collect m = (mg_key m, mg_value m, mg_record m) # mg_collect (mg_next m)"
      by (simp add: mg_collect.simps [of m])
    obtain r where r: "mg_record m = Some r" using "1.prems" c by auto
    note IH = "1.IH" [OF conjunct1 [OF True]]
    have rest: "\<forall>e\<in>set (mg_collect (mg_next m)). snd (snd e) \<noteq> None" using "1.prems" c by simp
    obtain l where l: "limit = Suc l" using True by (cases limit) auto
    have "visible_loop H disk now cf covering lower upper limit m vs =
      (if \<not> below_upper upper (mg_key m) then Ok ([], vs)
       else if scan_keep now covering lower (mg_key m, mg_value m, mg_record m)
       then and_then (visible_loop H disk now cf covering lower upper l (mg_next m) vs) (\<lambda>(rest, vs2). Ok ((mg_key m, mg_value m) # rest, vs2))
       else visible_loop H disk now cf covering lower upper limit (mg_next m) vs)"
      using True r l
      by (subst visible_loop.simps)
        (auto simp: Let_def legacy_expired_def below_upper_def scan_keep_def not_le not_less split: option.splits)
    then show ?thesis unfolding c using IH [OF rest] l by simp
  qed
qed

lemma takeWhile_sorted:
  "strict_keys es \<Longrightarrow> takeWhile (\<lambda>e. below_upper upper (fst e)) es = List.filter (\<lambda>e. below_upper upper (fst e)) (es :: (bytes \<times> 'v) list)"
proof (induction es)
  case (Cons e es)
  have "\<not> below_upper upper (fst e) \<Longrightarrow> x \<in> set es \<Longrightarrow> \<not> below_upper upper (fst x)" for x
    using Cons.prems by (fastforce simp: below_upper_def split: option.splits)
  then show ?case using Cons by (auto simp: filter_empty_conv)
qed simp

lemma box_mem_remaining: "bi_remaining (BoxMem (memtable_iterator_new es)) = map (\<lambda>(k, r). (k, lr_value r, Some r)) es"
  by (simp add: memtable_iterator_new_remaining)

lemma map_of_records: "map_of (map (\<lambda>(k, r). (k, lr_value r, Some r)) es) key = map_option (\<lambda>r. (lr_value r, Some r)) (map_of es key)"
  by (induction es) auto

text \<open>The sources of a scan, newest first, as lists of records.\<close>

definition scan_sources :: "catalogue \<Rightarrow> bytes option \<Rightarrow> bytes option \<Rightarrow> ('bl, 'c, 'k) engine_core \<Rightarrow> string \<Rightarrow> (bytes \<times> log_record) list list" where
  "scan_sources cat lower upper core cf =
     map iter_ordered (rev (memtables_of core cf)) @
     map (ents_in cat lower upper) (List.filter (touches lower upper) (rev (cf_tables (co_version_set core) cf)))"

lemma scan_sources_strict:
  assumes "engine_ok H cat core" "es \<in> set (scan_sources cat lower upper core cf)"
  shows "strict_keys es"
proof -
  have "strict_keys (iter_ordered m)" if "m \<in> set (memtables_of core cf)" for m
    using engine_okD(2) [OF assms(1) that] by (simp add: mem_wf_def iter_ordered_def strict_keys_sort_key)
  moreover have "strict_keys (ents_in cat lower upper t)" if "t \<in> set (cf_tables (co_version_set core) cf)" for t
    using table_ok_strict(1) [OF store_okD(5) [OF engine_okD(1) [OF assms(1)] that] store_okD(1) [OF engine_okD(1) [OF assms(1)]]]
    by (rule strict_keys_filter)
  ultimately show ?thesis using assms(2) by (auto simp: scan_sources_def)
qed

lemma newest_touched:
  assumes "\<forall>t\<in>set ts. table_ok (h_crates H) cat t" "files_ok (h_crates H) enc disk cat" "in_range lower upper key"
  shows "first_some (map (\<lambda>t. map_of (ents_in cat lower upper t) key) (List.filter (touches lower upper) ts)) = newest cat ts key"
  using assms(1)
proof (induction ts)
  case (Cons t ts)
  have "map_of (ents_in cat lower upper t) key = map_of (tb_ents cat t) key"
    using assms(3) by (simp add: map_of_filter_key [of "in_range lower upper"])
  moreover have "ents_in cat lower upper t = []" if "\<not> touches lower upper t"
    using untouched_table [of H cat t enc disk lower upper] Cons.prems assms(2) that by simp
  ultimately show ?case using Cons by (auto split: option.splits)
qed simp

lemma scan_sources_entry:
  assumes ok: "engine_ok H cat core" and key: "in_range lower upper key"
  shows "first_some (map (\<lambda>es. map_of es key) (scan_sources cat lower upper core cf)) = entry_at cat core cf key"
proof -
  have "map_of (iter_ordered m) key = mt_get m key" if "m \<in> set (memtables_of core cf)" for m
    using engine_okD(2) [OF ok that] by (simp add: mem_wf_def iter_ordered_def map_of_sort_key mt_get_def)
  then have mems: "map (\<lambda>es. map_of es key) (map iter_ordered (rev (memtables_of core cf))) = map (\<lambda>m. mt_get m key) (rev (memtables_of core cf))"
    by simp
  have append: "first_some (xs @ ys) = (case first_some xs of None \<Rightarrow> first_some ys | Some x \<Rightarrow> Some x)" for xs ys :: "log_record option list"
    by (induction xs) (auto split: option.splits)
  have tables: "\<forall>t\<in>set (rev (cf_tables (co_version_set core) cf)). table_ok (h_crates H) cat t"
    using store_okD(5) [OF engine_okD(1) [OF ok]] by simp
  show ?thesis
    unfolding scan_sources_def map_append append mems entry_at_def memtable_record_def
    unfolding map_map o_def newest_touched [OF tables store_okD(1) [OF engine_okD(1) [OF ok]] key]
    by (simp split: option.splits)
qed

abbreviation scan_merge :: "catalogue \<Rightarrow> bytes option \<Rightarrow> bytes option \<Rightarrow> ('bl, 'c, 'k) engine_core \<Rightarrow> string \<Rightarrow> ientry list" where
  "scan_merge cat lower upper core cf \<equiv>
     mg_collect (merge_iterator_new (map (\<lambda>es. BoxMem (memtable_iterator_new es)) (scan_sources cat lower upper core cf)))"

text \<open>The merge of the sources, filtered: a sorted list that maps every key to what is shown of it.\<close>

definition scan_result ::
  "catalogue \<Rightarrow> u128 \<Rightarrow> bytes option \<Rightarrow> bytes option \<Rightarrow> ('bl, 'c, 'k) engine_core \<Rightarrow> string \<Rightarrow> (bytes \<times> bytes) list" where
  "scan_result cat now lower upper core cf =
     map key_value (List.filter (scan_keep now (covering_range_tombstone_ts core cf) lower)
       (takeWhile (\<lambda>e. below_upper upper (fst e))
         (mg_collect (merge_iterator_new (map (\<lambda>es. BoxMem (memtable_iterator_new es)) (scan_sources cat lower upper core cf))))))"

lemma sources_iters_ok:
  assumes "engine_ok H cat core"
  shows "iters_ok (map (\<lambda>es. BoxMem (memtable_iterator_new es)) (scan_sources cat lower upper core cf))"
  using scan_sources_strict [OF assms] by (auto simp: iters_ok_def memtable_iterator_new_remaining o_def case_prod_beta')

lemma scan_collect:
  assumes ok: "engine_ok H cat core"
  shows "strict_keys (scan_merge cat lower upper core cf)" "\<forall>e\<in>set (scan_merge cat lower upper core cf). snd (snd e) \<noteq> None"
    and "in_range lower upper key \<Longrightarrow> map_of (scan_merge cat lower upper core cf) key = map_option (\<lambda>r. (lr_value r, Some r)) (entry_at cat core cf key)"
proof -
  let ?es = "scan_merge cat lower upper core cf"
  have lookup: "map_of ?es key = map_option (\<lambda>r. (lr_value r, Some r)) (first_some (map (\<lambda>es. map_of es key) (scan_sources cat lower upper core cf)))" for key
    unfolding merge_new_map_of [OF sources_iters_ok [OF ok]] map_map o_def box_mem_remaining map_of_records first_some_map ..
  show strict: "strict_keys ?es"
    using mg_collect_spec [OF merge_iterator_new_wf [OF sources_iters_ok [OF ok]]] by blast
  show "\<forall>e\<in>set ?es. snd (snd e) \<noteq> None"
  proof
    fix e assume "e \<in> set ?es"
    then have "map_of ?es (fst e) = Some (snd e)" using strict_keys_distinct [OF strict] by simp
    then show "snd (snd e) \<noteq> None" unfolding lookup by (cases e) auto
  qed
  show "in_range lower upper key \<Longrightarrow> map_of ?es key = map_option (\<lambda>r. (lr_value r, Some r)) (entry_at cat core cf key)"
    unfolding lookup by (simp add: scan_sources_entry [OF ok])
qed

lemma scan_result_spec:
  assumes ok: "engine_ok H cat core"
  shows "strict_keys (scan_result cat now lower upper core cf)"
    and "map_of (scan_result cat now lower upper core cf) key =
      (if in_range lower upper key \<and> \<not> starts_with TTL_PREFIX key then view cat now core cf key else None)"
proof -
  let ?es = "scan_merge cat lower upper core cf"
  let ?keep = "scan_keep now (covering_range_tombstone_ts core cf) lower"
  let ?sel = "List.filter (\<lambda>e. ?keep e \<and> below_upper upper (fst e)) ?es"
  note c = scan_collect [OF ok, where lower = lower and upper = upper and cf = cf]
  have r: "scan_result cat now lower upper core cf = map key_value ?sel"
    unfolding scan_result_def takeWhile_sorted [OF c(1)] by (simp add: conj_commute)
  show "strict_keys (scan_result cat now lower upper core cf)"
    using strict_keys_filter [OF c(1)] unfolding r by (simp add: o_def)
  have kv: "map_of (map key_value xs) key = map_option fst (map_of xs key)" for xs :: "ientry list"
    by (induction xs) auto
  have "map_of (scan_result cat now lower upper core cf) key = (case map_of ?es key of None \<Rightarrow> None
      | Some v \<Rightarrow> if ?keep (key, v) \<and> below_upper upper key then Some (fst v) else None)"
    unfolding r kv map_of_filter_entries [OF strict_keys_distinct [OF c(1)]] by (auto split: option.splits)
  also have "\<dots> = (if in_range lower upper key \<and> \<not> starts_with TTL_PREFIX key then view cat now core cf key else None)"
  proof (cases "in_range lower upper key")
    case True
    show ?thesis
      unfolding c(3) [OF True] using True
      by (auto simp: view_def scan_keep_def in_range_def below_upper_def split: option.splits)
  next
    case False
    then show ?thesis by (auto simp: scan_keep_def in_range_def below_upper_def not_le split: option.splits)
  qed
  finally show "map_of (scan_result cat now lower upper core cf) key =
      (if in_range lower upper key \<and> \<not> starts_with TTL_PREFIX key then view cat now core cf key else None)" .
qed

lemma strict_keys_no_entries: "(\<And>key. map_of xs key = None) \<Longrightarrow> xs = []"
proof (cases xs)
  case (Cons x ys)
  assume "\<And>key. map_of xs key = None"
  from this [of "fst x"] show ?thesis using Cons by simp
qed simp

lemma for_each_visible_correct:
  assumes ok: "engine_ok H cat core" and laws: "host_laws H" and kv: "kv_coherent H cat cf' (co_version_set core)"
  shows "\<exists>core'. for_each_visible_record H now cf lower upper limit core = (Ok (take limit (scan_result cat now lower upper core cf)), core')
    \<and> same_but_caches core core' \<and> engine_ok H cat core' \<and> kv_coherent H cat cf' (co_version_set core')"
proof (cases "limit = 0 \<or> (case (lower, upper) of (Some lb, Some ub) \<Rightarrow> ub \<le> lb | _ \<Rightarrow> False)")
  case True
  have "scan_result cat now lower upper core cf = []" if "limit \<noteq> 0"
  proof (rule strict_keys_no_entries)
    fix key
    have "\<not> in_range lower upper key" using True that by (auto simp: in_range_def split: option.splits)
    then show "map_of (scan_result cat now lower upper core cf) key = None" using scan_result_spec(2) [OF ok] by simp
  qed
  then show ?thesis using True ok kv unfolding for_each_visible_record_def by (cases "limit = 0") auto
next
  case False
  let ?vs = "co_version_set core"
  obtain c where c: "record_iters_in_range H (co_sst_dir core) cf lower upper ?vs =
      Ok (map (\<lambda>t. BoxMem (memtable_iterator_new (ents_in cat lower upper t)))
        (List.filter (touches lower upper) (rev (cf_tables ?vs cf))), ?vs\<lparr>vs_block_cache := Some c\<rparr>)"
    "store_ok H (co_sst_dir core) cat (?vs\<lparr>vs_block_cache := Some c\<rparr>)"
    using record_iters_in_range_correct [OF engine_okD(1) [OF ok] laws] by blast
  let ?core1 = "core\<lparr>co_version_set := ?vs\<lparr>vs_block_cache := Some c\<rparr>\<rparr>"
  have same: "same_but_caches core ?core1" by simp
  note v = same_but_caches_view [OF same]
  have its: "map (\<lambda>mem. BoxMem (mt_iter mem)) (rev (memtables_of ?core1 cf)) @
      map (\<lambda>t. BoxMem (memtable_iterator_new (ents_in cat lower upper t))) (List.filter (touches lower upper) (rev (cf_tables ?vs cf)))
    = map (\<lambda>es. BoxMem (memtable_iterator_new es)) (scan_sources cat lower upper core cf)"
    by (simp add: scan_sources_def v mt_iter_def iter_ordered_def)
  have "for_each_visible_record H now cf lower upper limit core = (Ok (take limit (scan_result cat now lower upper core cf)), ?core1)"
    unfolding for_each_visible_record_def if_not_P [OF False] on_version_set_def [of "record_iters_in_range _ _ _ _ _"] c
    by (simp only: bind_st.simps outcome.case prod.case Let_def its v(4))
      (simp add: on_version_set_def visible_loop_collect [OF scan_collect(2) [OF ok]] scan_result_def)
  then show ?thesis using same same_but_caches_ok [OF same ok] c(2) kv by auto
qed

end
