(* ===== verification/Engine_Update.thy ===== *)
theory Engine_Update
  imports Engine_Lookup
begin

text \<open>
  What the writes and the flush do to what the engine shows.
\<close>

subsection \<open>Changes of logs\<close>

lemma wal_handle_same: "wal_handle cf core = (res, core') \<Longrightarrow> core' = core\<lparr>co_wals := co_wals core'\<rparr>"
  by (auto simp: wal_handle_def Let_def split: if_splits)

lemma on_wal_same: "on_wal cf f core = (res, core') \<Longrightarrow> core' = core\<lparr>co_wals := co_wals core'\<rparr>"
proof -
  assume r: "on_wal cf f core = (res, core')"
  obtain w core1 where h: "wal_handle cf core = (w, core1)" by fastforce
  have "core' = core1\<lparr>co_wals := co_wals core'\<rparr>"
    using r h by (cases w) (auto simp: on_wal_def split: outcome.splits)
  then show ?thesis using wal_handle_same [OF h] by (metis (no_types, lifting) engine_core.update_convs(5) engine_core.surjective engine_core.select_convs(5))
qed

text \<open>Two states that agree in everything the reads look at.\<close>

definition same_data :: "('bl, 'c, 'k) engine_core \<Rightarrow> ('bl, 'c, 'k) engine_core \<Rightarrow> bool" where
  "same_data core core' \<longleftrightarrow>
     co_memtables core' = co_memtables core \<and> co_version_set core' = co_version_set core \<and>
     co_range_tombstones core' = co_range_tombstones core \<and> co_sst_dir core' = co_sst_dir core"

lemma same_dataD:
  assumes "same_data core core'"
  shows "memtables_of core' cf = memtables_of core cf" "tombstones_of core' cf = tombstones_of core cf"
    "covering_range_tombstone_ts core' = covering_range_tombstone_ts core" "entry_at cat core' = entry_at cat core"
    "view cat now core' = view cat now core" "engine_ok H cat core' = engine_ok H cat core"
    "memtable_record core' cf key = memtable_record core cf key" "co_version_set core' = co_version_set core"
    "co_sst_dir core' = co_sst_dir core"
proof -
  show m: "memtables_of core' cf = memtables_of core cf" for cf using assms by (simp add: same_data_def memtables_of_def)
  show t: "tombstones_of core' cf = tombstones_of core cf" for cf using assms by (simp add: same_data_def tombstones_of_def)
  show cov: "covering_range_tombstone_ts core' = covering_range_tombstone_ts core"
    by (simp add: fun_eq_iff covering_range_tombstone_ts_def m t)
  show vs: "co_version_set core' = co_version_set core" "co_sst_dir core' = co_sst_dir core" using assms by (simp_all add: same_data_def)
  show r: "memtable_record core' cf key = memtable_record core cf key" for cf key by (simp add: memtable_record_def m)
  show e: "entry_at cat core' = entry_at cat core" unfolding entry_at_def fun_eq_iff r vs by simp
  show "view cat now core' = view cat now core" unfolding view_def fun_eq_iff e cov by simp
  show "engine_ok H cat core' = engine_ok H cat core" by (simp add: engine_ok_def m t vs)
qed

lemma on_wal_same_data: "on_wal cf f core = (res, core') \<Longrightarrow> same_data core core'"
proof -
  assume "on_wal cf f core = (res, core')"
  then have c: "core' = core\<lparr>co_wals := co_wals core'\<rparr>" by (rule on_wal_same)
  show ?thesis unfolding same_data_def by (subst c, simp)+
qed

lemma add_bytes_same_data [simp]: "same_data core (add_bytes cf n core)"
  by (simp add: add_bytes_def same_data_def)

lemma same_data_refl [simp]: "same_data core core"
  by (simp add: same_data_def)

lemma same_data_trans: "same_data a b \<Longrightarrow> same_data b c \<Longrightarrow> same_data a c"
  by (simp add: same_data_def)

subsection \<open>Changes of the last memtable\<close>

lemma on_memtable_fields [simp]:
  "co_version_set (on_memtable cf f core) = co_version_set core" "co_sst_dir (on_memtable cf f core) = co_sst_dir core"
  "tombstones_of (on_memtable cf f core) cf' = tombstones_of core cf'" "co_wals (on_memtable cf f core) = co_wals core"
  by (simp_all add: on_memtable_def Let_def tombstones_of_def)

lemma memtables_on_memtable:
  "memtables_of (on_memtable cf f core) cf' =
     (if cf' = cf
      then (let ms1 = (if memtables_of core cf = [] then [memtable_new usize_max] else memtables_of core cf)
            in butlast ms1 @ [f (last ms1)])
      else memtables_of core cf')"
  by (simp add: on_memtable_def memtables_of_def Let_def update_conv')

text \<open>An insertion changes what the memtables have at its own key only.\<close>

lemma memtable_record_insert:
  "memtable_record (on_memtable cf (mt_insert r) core) cf' key =
     (if cf' = cf \<and> key = lr_key r then Some r else memtable_record core cf' key)"
proof (cases "memtables_of core cf = []")
  case True
  then show ?thesis by (simp add: memtable_record_def memtables_on_memtable)
next
  case False
  then obtain ms m where "memtables_of core cf = ms @ [m]" by (metis rev_exhaust)
  then show ?thesis by (simp add: memtable_record_def memtables_on_memtable Let_def split: option.splits)
qed

lemma mem_wf_new [simp]: "mem_wf (memtable_new n)" "mt_range_tombstones (memtable_new n) = []"
  by (simp_all add: mem_wf_def memtable_new_def)

lemma mem_wf_insert: "mem_wf m \<Longrightarrow> mem_wf (mt_insert r m)"
  using set_update_sub [of "lr_key r" r "mt_data m"]
  by (auto simp: mem_wf_def mt_insert_def Let_def distinct_update)

lemma engine_ok_on_memtable:
  assumes ok: "engine_ok H cat core" and f: "\<And>m. mem_wf m \<Longrightarrow> mem_wf (f m)"
    and rts: "\<And>m. set (mt_range_tombstones (f m)) \<subseteq> set (mt_range_tombstones m) \<union> set (tombstones_of core cf)"
  shows "engine_ok H cat (on_memtable cf f core)"
proof -
  have "mem_wf m \<and> set (mt_range_tombstones m) \<subseteq> set (tombstones_of core cf')"
    if m: "m \<in> set (memtables_of (on_memtable cf f core) cf')" for m cf'
  proof (cases "cf' = cf \<and> m \<notin> set (memtables_of core cf)")
    case True
    then consider "memtables_of core cf = []" "m = f (memtable_new usize_max)"
      | "memtables_of core cf \<noteq> []" "m = f (last (memtables_of core cf))"
      using m by (auto simp: memtables_on_memtable Let_def dest: in_set_butlastD split: if_splits)
    then show ?thesis
    proof cases
      case 1
      then show ?thesis using f rts [of "memtable_new usize_max"] True by simp
    next
      case 2
      then show ?thesis
        using f rts [of "last (memtables_of core cf)"] engine_okD(2,3) [OF ok last_in_set [OF 2(1)]] True by auto
    qed
  next
    case False
    then have "m \<in> set (memtables_of core cf')"
      using m by (auto simp: memtables_on_memtable Let_def dest: in_set_butlastD split: if_splits)
    then show ?thesis using engine_okD(2,3) [OF ok] by blast
  qed
  then show ?thesis using engine_okD(1) [OF ok] by (simp add: engine_ok_def)
qed

lemma engine_ok_insert: "engine_ok H cat core \<Longrightarrow> engine_ok H cat (on_memtable cf (mt_insert r) core)"
  by (rule engine_ok_on_memtable) (auto intro: mem_wf_insert)

subsection \<open>Covering range tombstones\<close>

text \<open>In a consistent state the list of the column family decides.\<close>

definition cover :: "range_tombstone list \<Rightarrow> bytes \<Rightarrow> u128 option" where
  "cover rts key = iterator_max (map rt_timestamp (List.filter (\<lambda>rt. rt_start_key rt \<le> key \<and> key < rt_end_key rt) rts))"

lemma iterator_max_Some: "iterator_max xs = Some m \<longleftrightarrow> m \<in> set xs \<and> (\<forall>x\<in>set xs. x \<le> m)"
  by (auto simp: iterator_max_def Max_eq_iff)

lemma covering_engine:
  assumes ok: "engine_ok H cat core"
  shows "covering_range_tombstone_ts core cf key = cover (tombstones_of core cf) key"
proof -
  let ?P = "\<lambda>rt. rt_start_key rt \<le> key \<and> key < rt_end_key rt"
  let ?ms = "List.map_filter (\<lambda>mem. max_covering_range_tombstone mem key) (memtables_of core cf)"
  have sub: "x \<in> rt_timestamp ` set (List.filter ?P (tombstones_of core cf))" if x: "x \<in> set ?ms" for x
  proof -
    obtain m where m: "m \<in> set (memtables_of core cf)" "max_covering_range_tombstone m key = Some x"
      using x by (auto simp: List.map_filter_def)
    then have "x \<in> rt_timestamp ` set (List.filter ?P (mt_range_tombstones m))"
      unfolding max_covering_range_tombstone_def iterator_max_Some by auto
    then show ?thesis using engine_okD(3) [OF ok m(1)] by auto
  qed
  show ?thesis
  proof (cases "iterator_max ?ms")
    case None
    then show ?thesis by (simp add: covering_range_tombstone_ts_def cover_def option_max_def Let_def split: option.splits)
  next
    case (Some b)
    then have b: "b \<in> rt_timestamp ` set (List.filter ?P (tombstones_of core cf))" using sub by (simp add: iterator_max_Some)
    then have "List.filter ?P (tombstones_of core cf) \<noteq> []" by (auto simp: filter_empty_conv)
    then obtain a where a: "cover (tombstones_of core cf) key = Some a" by (simp add: cover_def iterator_max_def)
    then have "b \<le> a" using b unfolding cover_def iterator_max_Some by auto
    then show ?thesis using Some a by (simp add: covering_range_tombstone_ts_def option_max_def Let_def cover_def max_absorb1)
  qed
qed


subsection \<open>The entries of a flush\<close>

definition flush_list :: "u128 \<Rightarrow> (bytes \<times> log_record) list \<Rightarrow> (bytes \<times> log_record) list" where
  "flush_list now data =
     concat (map (\<lambda>(key, record).
         if is_expired_at record now then []
         else (key, record) #
           (case lr_expires_at record of
              None \<Rightarrow> []
            | Some expires_at \<Rightarrow> [(ttl_key key, log_record_new now (ttl_key key) (u128_to_le expires_at))])) data)"

lemma flush_entries_list: "flush_entries now mem = sort_key fst (flush_list now (sort_key fst (mt_data mem)))"
  by (simp add: flush_entries_def flush_list_def)

lemma starts_with_ttl [simp]: "starts_with TTL_PREFIX (ttl_key key)"
  by (simp add: starts_with_def ttl_key_def)

lemma map_of_flush_list:
  assumes "distinct (map fst data)" "\<not> starts_with TTL_PREFIX key"
  shows "map_of (flush_list now data) key =
    (case map_of data key of None \<Rightarrow> None | Some r \<Rightarrow> if is_expired_at r now then None else Some r)"
  using assms(1)
proof (induction data)
  case (Cons e data)
  obtain k r where e: "e = (k, r)" by (cases e)
  have "ttl_key k \<noteq> key" using assms(2) starts_with_ttl [of k] by metis
  moreover have "map_of data k = None" using Cons.prems e by (simp add: map_of_eq_None_iff)
  moreover have "flush_list now (e # data) =
      (if is_expired_at r now then [] else (k, r) # (case lr_expires_at r of None \<Rightarrow> []
         | Some expires_at \<Rightarrow> [(ttl_key k, log_record_new now (ttl_key k) (u128_to_le expires_at))])) @ flush_list now data"
    using e by (simp add: flush_list_def)
  ultimately show ?case using Cons e by (auto split: option.splits)
qed (simp add: flush_list_def)

lemma flush_list_has:
  "(k, r) \<in> set data \<Longrightarrow> \<not> is_expired_at r now \<Longrightarrow> (k, r) \<in> set (flush_list now data)"
  by (force simp: flush_list_def)

lemma map_of_flush_entries:
  assumes "mem_wf mem" "strict_keys (flush_entries now mem)" "\<not> starts_with TTL_PREFIX key"
  shows "map_of (flush_entries now mem) key =
    (case mt_get mem key of None \<Rightarrow> None | Some r \<Rightarrow> if is_expired_at r now then None else Some r)"
proof -
  have d: "distinct (map fst (mt_data mem))" using assms(1) by (simp add: mem_wf_def)
  have "distinct (map fst (flush_list now (sort_key fst (mt_data mem))))"
    using strict_keys_distinct [OF assms(2)] unfolding flush_entries_list by (simp add: distinct_map)
  then have "map_of (flush_entries now mem) key = map_of (flush_list now (sort_key fst (mt_data mem))) key"
    unfolding flush_entries_list by (simp add: map_of_sort_key)
  moreover have "distinct (map fst (sort_key fst (mt_data mem)))"
    using strict_keys_distinct [OF strict_keys_sort_key [OF d]] .
  ultimately show ?thesis
    using map_of_flush_list [OF _ assms(3)] d by (simp add: map_of_sort_key mt_get_def)
qed

text \<open>The in-memory values are those of the entries.\<close>

lemma map_of_btree_collect: "distinct (map fst kvs) \<Longrightarrow> map_of (btree_collect kvs) key = map_of kvs key"
proof (induction kvs rule: rev_induct)
  case (snoc e kvs)
  then have "map_of kvs (fst e) = None" by (auto simp: map_of_eq_None_iff)
  then show ?case using snoc by (cases e) (auto simp: btree_collect_def map_of_btree_insert map_add_def split: option.splits)
qed (simp add: btree_collect_def)

lemma strict_btree_collect: "strict_keys (btree_collect kvs)"
proof (induction kvs rule: rev_induct)
  case (snoc e kvs)
  then show ?case by (cases e) (simp add: btree_collect_def strict_btree_insert)
qed (simp add: btree_collect_def)

lemma strict_fold_insert:
  "strict_keys m \<Longrightarrow> strict_keys (fold (\<lambda>(k, r) m. if P k then btree_insert k (f r) m else m) es m)"
  by (induction es arbitrary: m) (auto simp: strict_btree_insert)

lemma map_of_fold_insert:
  "distinct (map fst es) \<Longrightarrow> map_of (fold (\<lambda>(k, r) m. if P k then btree_insert k (f r) m else m) es m) key =
     (case map_of es key of Some r \<Rightarrow> if P key then Some (f r) else map_of m key | None \<Rightarrow> map_of m key)"
proof (induction es arbitrary: m)
  case (Cons e es)
  obtain k r where e: "e = (k, r)" by (cases e)
  then have "map_of es k = None" using Cons.prems by (simp add: map_of_eq_None_iff)
  then show ?case using Cons e by (auto simp: map_of_btree_insert split: option.splits)
qed simp

lemma flush_raw_data_entries:
  assumes wf: "mem_wf mem" and strict: "strict_keys (flush_entries now mem)"
  shows "flush_raw_data now mem (flush_entries now mem) = map (\<lambda>(k, r). (k, lr_value r)) (flush_entries now mem)"
proof (rule strict_keys_map_of_eq)
  let ?es = "flush_entries now mem" and ?live = "List.filter (\<lambda>(_, r). \<not> is_expired_at r now) (mt_data mem)"
  show "strict_keys (flush_raw_data now mem ?es)"
    unfolding flush_raw_data_def by (rule strict_fold_insert) (rule strict_btree_collect)
  show "strict_keys (map (\<lambda>(k, r). (k, lr_value r)) ?es)" using strict by (simp add: o_def case_prod_beta')
  show "map_of (flush_raw_data now mem ?es) = map_of (map (\<lambda>(k, r). (k, lr_value r)) ?es)"
  proof
    fix key
    have d: "distinct (map fst (mt_data mem))" using wf by (simp add: mem_wf_def)
    then have dl: "distinct (map fst (map (\<lambda>(k, r). (k, lr_value r)) ?live))"
      by (simp add: o_def case_prod_beta' distinct_map_filter)
    have live: "map_of (btree_collect (map (\<lambda>(k, r). (k, lr_value r)) ?live)) key =
        (case mt_get mem key of None \<Rightarrow> None | Some r \<Rightarrow> if is_expired_at r now then None else Some (lr_value r))"
      unfolding map_of_btree_collect [OF dl] map_of_values map_of_filter_entries [OF d] mt_get_def
      by (auto split: option.splits)
    have raw: "map_of (flush_raw_data now mem ?es) key = (case map_of ?es key of
          Some r \<Rightarrow> if starts_with TTL_PREFIX key then Some (lr_value r) else map_of (btree_collect (map (\<lambda>(k, r). (k, lr_value r)) ?live)) key
        | None \<Rightarrow> map_of (btree_collect (map (\<lambda>(k, r). (k, lr_value r)) ?live)) key)"
      unfolding flush_raw_data_def by (rule map_of_fold_insert [OF strict_keys_distinct [OF strict]])
    have gone: "mt_get mem key = None \<or> (\<exists>r. mt_get mem key = Some r \<and> is_expired_at r now)" if "map_of ?es key = None"
    proof (rule ccontr)
      assume "\<not> ?thesis"
      then obtain r where "(key, r) \<in> set (mt_data mem)" "\<not> is_expired_at r now" by (auto simp: mt_get_def dest: map_of_SomeD)
      then have "(key, r) \<in> set ?es" using flush_list_has [of key r "sort_key fst (mt_data mem)"] by (simp add: flush_entries_list)
      then show False using that by (force simp: map_of_eq_None_iff)
    qed
    show "map_of (flush_raw_data now mem ?es) key = map_of (map (\<lambda>(k, r). (k, lr_value r)) ?es) key"
    proof (cases "starts_with TTL_PREFIX key")
      case True
      then show ?thesis
        unfolding raw live map_of_values using gone by (cases "map_of ?es key") (auto split: option.splits)
    next
      case False
      show ?thesis unfolding raw live map_of_values map_of_flush_entries [OF wf strict False]
        by (auto simp: False split: option.splits)
    qed
  qed
qed


subsection \<open>Flushing\<close>

text \<open>
  What a flush needs in order to change nothing that is shown: one memtable, none of its records
  expired, entries that the table format can hold, and a new file name.
\<close>

definition can_flush ::
  "('bl, 'c, 'k) host \<Rightarrow> engine_options \<Rightarrow> catalogue \<Rightarrow> u128 \<Rightarrow> string \<Rightarrow> ('bl, 'c, 'k) engine_core \<Rightarrow> bool" where
  "can_flush H options cat now cf core \<longleftrightarrow>
     (\<exists>mem. memtables_of core cf = [mem] \<and> (\<forall>e\<in>set (mt_data mem). \<not> is_expired_at (snd e) now) \<and>
        (\<forall>e\<in>set (flush_entries now mem). valid_entry (h_crates H) (storage_config_of options) e) \<and>
        length (flush_entries now mem) < 2 ^ 64) \<and>
     eo_encryption options = vs_encryption (co_version_set core) \<and>
     fresh_path H cat (sst_name ''flush'' now) (co_version_set core)"

text \<open>A change of state after which the same is shown of every key without the reserved prefix.\<close>

definition shows_same ::
  "catalogue \<Rightarrow> ('bl, 'c, 'k) engine_core \<Rightarrow> catalogue \<Rightarrow> ('bl, 'c, 'k) engine_core \<Rightarrow> bool" where
  "shows_same cat core cat' core' \<longleftrightarrow>
     (\<forall>cf key. \<not> starts_with TTL_PREFIX key \<longrightarrow> entry_at cat' core' cf key = entry_at cat core cf key) \<and>
     (\<forall>cf key. covering_range_tombstone_ts core' cf key = covering_range_tombstone_ts core cf key)"

lemma shows_same_refl [simp]: "shows_same cat core cat core"
  by (simp add: shows_same_def)

lemma shows_same_trans: "shows_same c a c1 b \<Longrightarrow> shows_same c1 b c2 d \<Longrightarrow> shows_same c a c2 d"
  by (simp add: shows_same_def)

lemma same_data_shows: "same_data core core' \<Longrightarrow> shows_same cat core cat core'"
  by (simp add: shows_same_def same_dataD)

lemma shows_same_view:
  "shows_same cat core cat' core' \<Longrightarrow> \<not> starts_with TTL_PREFIX key \<Longrightarrow> view cat' now core' cf key = view cat now core cf key"
  by (auto simp: shows_same_def view_def hidden_def split: option.splits)

lemma flush_popped_ok:
  assumes run: "flush_popped H rng now options cf mem core = (Ok b, core')"
    and store: "store_ok H (co_sst_dir core) cat (co_version_set core)"
    and laws: "crate_laws (h_crates H) rng" "valid_config (storage_config_of options)" and wf: "mem_wf mem"
    and fits: "\<forall>e\<in>set (flush_entries now mem). valid_entry (h_crates H) (storage_config_of options) e"
      "length (flush_entries now mem) < 2 ^ 64" "\<forall>p file. co_sst_dir core' p = Some file \<longrightarrow> length file < 2 ^ 32"
    and enc: "eo_encryption options = vs_encryption (co_version_set core)"
    and fresh: "fresh_path H cat (sst_name ''flush'' now) (co_version_set core)"
  shows "\<exists>cat' t. store_ok H (co_sst_dir core') cat' (co_version_set core') \<and> co_version_set core' = add_table H cf t (co_version_set core) \<and>
    strict_keys (flush_entries now mem) \<and> co_memtables core' = co_memtables core \<and> co_range_tombstones core' = co_range_tombstones core \<and>
    (\<forall>cf' key. newest_in cat' (co_version_set core') cf' key =
      (case (if cf' = cf then map_of (flush_entries now mem) key else None) of Some r \<Rightarrow> Some r | None \<Rightarrow> newest_in cat (co_version_set core) cf' key))"
proof -
  let ?X = "h_crates H" and ?cfg = "storage_config_of options" and ?p = "sst_name ''flush'' now" and ?es = "flush_entries now mem"
  let ?enc = "eo_encryption options" and ?vs = "co_version_set core"
  obtain res disk where w: "write_sst ?X rng ?cfg now ?enc ?p ?es (co_sst_dir core) = (res, disk)" by fastforce
  let ?core1 = "core\<lparr>co_sst_dir := disk\<rparr>"
  obtain u t0 where t0: "res = Ok u" "from_sstable_path ?X disk ?p (Some ?enc) = Ok t0"
    using run w by (cases res; cases "from_sstable_path ?X disk ?p (Some ?enc)") (auto simp: flush_popped_def Let_def)
  let ?t = "t0\<lparr>tb_data := flush_raw_data now mem ?es, tb_level := 0\<rparr>"
  let ?core3 = "?core1\<lparr>co_version_set := add_table H cf ?t ?vs, co_memtable_bytes := AList.update cf 0 (co_memtable_bytes core)\<rparr>"
  obtain r core4 where o: "on_wal cf (\<lambda>w. Ok (wal_clear w)) ?core3 = (r, core4)" by fastforce
  have "core' = core4"
    using run w t0 o by (cases "map_of (co_memtable_bytes core) cf"; cases r) (simp_all add: flush_popped_def Let_def)
  then have d: "same_data ?core3 core'" using on_wal_same_data [OF o] by simp
  then have disk': "co_sst_dir core' = disk" and vs': "co_version_set core' = add_table H cf ?t ?vs"
    and mems: "co_memtables core' = co_memtables core" "co_range_tombstones core' = co_range_tombstones core"
    by (simp_all add: same_data_def)
  have small: "\<forall>f. disk ?p = Some f \<longrightarrow> length f < 2 ^ 32" using fits(3) disk' by simp
  obtain "file" t segs meta mw where f: "disk = (co_sst_dir core)(?p \<mapsto> file)" "length file < 2 ^ 32"
    "from_sstable_path ?X disk ?p (Some ?enc) = Ok t" "sst_file ?X ?enc ?es segs meta mw file"
    "tb_path t = Some ?p" "tb_data t = []" "\<forall>cat. table_ok ?X (cat(?p \<mapsto> segs)) t"
    using write_sst_table [OF w [unfolded t0(1)] laws fits(1,2) small] by (elim exE conjE) rule
  have tt: "t = t0" using t0(2) f(3) by simp
  have strict: "strict_keys ?es" using sst_fileD(3) [OF f(4)] .
  have ents: "seg_ents segs = ?es" using sst_fileD(1) [OF f(4)] by simp
  have e: "tb_ents (cat(?p \<mapsto> segs)) t0 = ?es" "tb_ents (cat(?p \<mapsto> segs)) ?t = ?es"
    using f(5) ents tt by (simp_all add: tb_ents_def)
  have "table_ok ?X (cat(?p \<mapsto> segs)) t0" using f(7) tt by simp
  then have "table_ok ?X (cat(?p \<mapsto> segs)) ?t"
    unfolding table_ok_def e using flush_raw_data_entries [OF wf strict] by simp
  then have "store_ok H (co_sst_dir core') (cat(?p \<mapsto> segs)) (co_version_set core')"
    unfolding disk' vs' f(1) using store_ok_add [OF store fresh f(4) [unfolded enc] f(2) fits(2)] by blast
  moreover have "newest_in (cat(?p \<mapsto> segs)) (co_version_set core') cf' key =
      (case (if cf' = cf then map_of ?es key else None) of Some r \<Rightarrow> Some r | None \<Rightarrow> newest_in cat ?vs cf' key)" for cf' key
    unfolding vs' using newest_add [OF store, of ?p ?t segs cf cf' key] fresh f(5) tt ents by (simp add: fresh_path_def)
  ultimately show ?thesis using vs' strict mems by blast
qed


lemma flush_memtable_refines:
  assumes ok: "engine_ok H cat core" and laws: "host_laws H" "crate_laws (h_crates H) rng" "valid_config (storage_config_of options)"
    and can: "can_flush H options cat now cf core"
    and run: "flush_memtable_impl H rng now options cf core = (Ok b, core')"
    and small: "\<forall>p file. co_sst_dir core' p = Some file \<longrightarrow> length file < 2 ^ 32"
    and kv: "\<forall>cf. kv_coherent H cat cf (co_version_set core)"
  shows "\<exists>cat'. engine_ok H cat' core' \<and> (\<forall>cf. kv_coherent H cat' cf (co_version_set core')) \<and> shows_same cat core cat' core'"
proof -
  obtain mem where m: "memtables_of core cf = [mem]" "\<forall>e\<in>set (mt_data mem). \<not> is_expired_at (snd e) now"
    "\<forall>e\<in>set (flush_entries now mem). valid_entry (h_crates H) (storage_config_of options) e" "length (flush_entries now mem) < 2 ^ 64"
    and fresh: "eo_encryption options = vs_encryption (co_version_set core)" "fresh_path H cat (sst_name ''flush'' now) (co_version_set core)"
    using can by (auto simp: can_flush_def)
  have mems: "map_of (co_memtables core) cf = Some [mem]" using m(1) by (auto simp: memtables_of_def split: option.splits)
  have wf: "mem_wf mem" using engine_okD(2) [OF ok] m(1) by (metis list.set_intros(1))
  show ?thesis
  proof (cases "mt_data mem = []")
    case True
    obtain r core1 where o: "on_wal cf (\<lambda>w. Ok (wal_sync w)) core = (r, core1)" by fastforce
    then have "core' = core1" using run mems True by (cases r) (simp_all add: flush_memtable_impl_def)
    then have d: "same_data core core'" using on_wal_same_data [OF o] by simp
    then show ?thesis using ok kv same_data_shows [OF d] by (auto simp: same_dataD [OF d])
  next
    case False
    let ?core0 = "core\<lparr>co_memtables := AList.update cf [] (co_memtables core)\<rparr>"
    have r: "flush_popped H rng now options cf mem ?core0 = (Ok b, core')"
      using run mems False by (simp add: flush_memtable_impl_def)
    have core0: "co_version_set ?core0 = co_version_set core" "co_memtables ?core0 = AList.update cf [] (co_memtables core)"
      "co_range_tombstones ?core0 = co_range_tombstones core" by simp_all
    have store: "store_ok H (co_sst_dir ?core0) cat (co_version_set ?core0)" using engine_okD(1) [OF ok] by simp
    obtain cat' t where c: "store_ok H (co_sst_dir core') cat' (co_version_set core')" "co_version_set core' = add_table H cf t (co_version_set core)"
      "strict_keys (flush_entries now mem)" "co_memtables core' = AList.update cf [] (co_memtables core)" "co_range_tombstones core' = co_range_tombstones core"
      "\<forall>cf' key. newest_in cat' (co_version_set core') cf' key = (case (if cf' = cf then map_of (flush_entries now mem) key else None) of
         Some r \<Rightarrow> Some r | None \<Rightarrow> newest_in cat (co_version_set core) cf' key)"
      using flush_popped_ok [OF r store laws(2,3) wf m(3,4) small] fresh unfolding core0 by blast
    have tom: "tombstones_of core' cf' = tombstones_of core cf'" for cf' using c(5) by (simp add: tombstones_of_def)
    have mm: "memtables_of core' cf' = (if cf' = cf then [] else memtables_of core cf')" for cf'
      using c(4) by (simp add: memtables_of_def update_conv')
    have ok': "engine_ok H cat' core'"
      using c(1) engine_okD(2,3) [OF ok] by (auto simp: engine_ok_def mm tom split: if_splits)
    have entry: "entry_at cat' core' cf' key = entry_at cat core cf' key" if key: "\<not> starts_with TTL_PREFIX key" for cf' key
    proof (cases "cf' = cf")
      case True
      have "\<not> is_expired_at r now" if "mt_get mem key = Some r" for r
        using m(2) that by (fastforce simp: mt_get_def dest: map_of_SomeD)
      then have "map_of (flush_entries now mem) key = mt_get mem key"
        using map_of_flush_entries [OF wf c(3) key] by (auto split: option.splits)
      then show ?thesis using True c(6) m(1) by (simp add: entry_at_def memtable_record_def mm split: option.splits)
    next
      case False
      then show ?thesis using c(6) by (simp add: entry_at_def memtable_record_def mm split: option.splits)
    qed
    have "covering_range_tombstone_ts core' cf' key = covering_range_tombstone_ts core cf' key" for cf' key
      by (simp add: covering_engine [OF ok] covering_engine [OF ok'] tom)
    then have "shows_same cat core cat' core'" using entry by (simp add: shows_same_def)
    moreover have "kv_coherent H cat' cf' (co_version_set core')" for cf'
      unfolding c(2) using kv_coherent_add [OF host_lawsD(1) [OF laws(1)]] .
    ultimately show ?thesis using ok' by blast
  qed
qed

lemma flush_if_full_refines:
  assumes ok: "engine_ok H cat core" and laws: "host_laws H" "crate_laws (h_crates H) rng" "valid_config (storage_config_of options)"
    and can: "write_buffer_limit options \<le> bytes_of core cf \<Longrightarrow> can_flush H options cat now cf core"
    and run: "flush_if_full H rng now options cf core = (Ok b, core')"
    and small: "\<forall>p file. co_sst_dir core' p = Some file \<longrightarrow> length file < 2 ^ 32"
    and kv: "\<forall>cf. kv_coherent H cat cf (co_version_set core)"
  shows "\<exists>cat'. engine_ok H cat' core' \<and> (\<forall>cf. kv_coherent H cat' cf (co_version_set core')) \<and> shows_same cat core cat' core'"
proof (cases "write_buffer_limit options \<le> bytes_of core cf")
  case True
  then show ?thesis
    using flush_memtable_refines [OF ok laws can [OF True] _ small kv] run by (simp add: flush_if_full_def)
next
  case False
  then have "core' = core" using run by (simp add: flush_if_full_def)
  then show ?thesis using ok kv by auto
qed


subsection \<open>Writes\<close>

abbreviation inserted :: "string \<Rightarrow> log_record \<Rightarrow> ('bl, 'c, 'k) engine_core \<Rightarrow> ('bl, 'c, 'k) engine_core" where
  "inserted cf r core \<equiv> add_bytes cf (length (lr_key r) + length (lr_value r)) (on_memtable cf (mt_insert r) core)"

lemma inserted_ok:
  assumes ok: "engine_ok H cat core"
  shows "engine_ok H cat (inserted cf r core)" "co_version_set (inserted cf r core) = co_version_set core"
    "entry_at cat (inserted cf r core) cf' key = (if cf' = cf \<and> key = lr_key r then Some r else entry_at cat core cf' key)"
    "covering_range_tombstone_ts (inserted cf r core) cf' key = covering_range_tombstone_ts core cf' key"
proof -
  let ?core1 = "on_memtable cf (mt_insert r) core"
  note d = same_dataD [OF add_bytes_same_data [of ?core1 cf "length (lr_key r) + length (lr_value r)"]]
  have ok1: "engine_ok H cat ?core1" using engine_ok_insert [OF ok] .
  then show "engine_ok H cat (inserted cf r core)" by (simp add: d)
  show "co_version_set (inserted cf r core) = co_version_set core" by (simp add: d)
  show "entry_at cat (inserted cf r core) cf' key = (if cf' = cf \<and> key = lr_key r then Some r else entry_at cat core cf' key)"
    unfolding d entry_at_def memtable_record_insert by (simp split: option.splits)
  show "covering_range_tombstone_ts (inserted cf r core) cf' key = covering_range_tombstone_ts core cf' key"
    unfolding d by (simp add: covering_engine [OF ok] covering_engine [OF ok1])
qed

text \<open>A record that was just made is hidden by no range tombstone that is not newer.\<close>

definition older_ranges :: "u128 \<Rightarrow> string \<Rightarrow> bytes \<Rightarrow> ('bl, 'c, 'k) engine_core \<Rightarrow> bool" where
  "older_ranges now cf key core \<longleftrightarrow> (\<forall>ts. covering_range_tombstone_ts core cf key = Some ts \<longrightarrow> ts \<le> now)"

lemma insert_phase_refines:
  assumes ok: "engine_ok H cat core" and kv: "\<forall>cf. kv_coherent H cat cf (co_version_set core)"
    and laws: "host_laws H" "crate_laws (h_crates H) rng" "valid_config (storage_config_of options)"
    and can: "write_buffer_limit options \<le> bytes_of (inserted cf r core) cf \<Longrightarrow> can_flush H options cat now cf (inserted cf r core)"
    and run: "flush_if_full H rng now options cf (inserted cf r core) = (Ok b, core')"
    and small: "\<forall>p file. co_sst_dir core' p = Some file \<longrightarrow> length file < 2 ^ 32"
    and r: "lr_timestamp r = now" "\<not> is_expired_at r now" "older_ranges now cf (lr_key r) core"
  shows "\<exists>cat'. engine_ok H cat' core' \<and> (\<forall>cf. kv_coherent H cat' cf (co_version_set core')) \<and>
    (\<forall>cf' key. \<not> starts_with TTL_PREFIX key \<longrightarrow> view cat' now core' cf' key =
      (if cf' = cf \<and> key = lr_key r then visible (Some r) else view cat now core cf' key))"
proof -
  note i = inserted_ok [OF ok, of cf r]
  obtain cat' where c: "engine_ok H cat' core'" "\<forall>cf. kv_coherent H cat' cf (co_version_set core')" "shows_same cat (inserted cf r core) cat' core'"
    using flush_if_full_refines [OF i(1) laws can run small] kv i(2) by auto
  have "view cat now (inserted cf r core) cf' key = (if cf' = cf \<and> key = lr_key r then visible (Some r) else view cat now core cf' key)" for cf' key
    using r by (auto simp: view_def i hidden_def visible_def older_ranges_def split: option.splits)
  then show ?thesis using c shows_same_view [OF c(3)] by metis
qed

lemma put_record_simps [simp]:
  "lr_key (put_record options now ttl_now cf key value ttl) = key" "lr_value (put_record options now ttl_now cf key value ttl) = value"
  "lr_timestamp (put_record options now ttl_now cf key value ttl) = now" "\<not> lr_is_deleted (put_record options now ttl_now cf key value ttl)"
  by (auto simp: put_record_def Let_def split: option.splits)

lemma log_phase_then:
  assumes "bind_st (log_phase H rng cf r core) (\<lambda>_. f) = (Ok b, core')"
  obtains core1 where "same_data core core1" "f core1 = (Ok b, core')" "co_memtable_bytes core1 = co_memtable_bytes core"
proof -
  obtain res core1 where o: "log_phase H rng cf r core = (res, core1)" by fastforce
  have c: "core1 = core\<lparr>co_wals := co_wals core1\<rparr>" using on_wal_same o unfolding log_phase_def by blast
  then have "co_memtable_bytes core1 = co_memtable_bytes core" by (metis engine_core.select_convs(2) engine_core.surjective engine_core.update_convs(5))
  moreover have "same_data core core1" using on_wal_same_data o unfolding log_phase_def by blast
  moreover have "f core1 = (Ok b, core')" using assms o by (cases res) auto
  ultimately show ?thesis using that by blast
qed

end
