(* ===== verification/Compaction_Correct.thy ===== *)
theory Compaction_Correct
  imports Compaction Version_Store
begin

text \<open>
  What compaction keeps: the merge of the in-memory values, the groups that the strategies pick, and
  the reads of a column family after a group is replaced by its merge.
\<close>

subsection \<open>The merge\<close>

definition kept :: "range_tombstone list \<Rightarrow> bytes \<Rightarrow> bytes \<Rightarrow> bool" where
  "kept rts key value \<longleftrightarrow> value \<noteq> [] \<and> \<not> is_key_in_range_tombstones key rts"

lemma merge_loop_collect:
  "merge_loop rts m = List.filter (\<lambda>(k, v). kept rts k v) (map (\<lambda>(k, v, _). (k, v)) (mg_collect m))"
proof (induction m rule: mg_collect.induct)
  case (1 m)
  then show ?case
    by (simp add: merge_loop.simps [of rts m] mg_collect.simps [of m] Let_def kept_def)
qed

lemma map_of_drop_record: "map_of (map (\<lambda>(k, v, _). (k, v)) es) key = map_option fst (map_of es key)"
  by (induction es) auto

lemma map_of_bare_values: "map_option fst (map_of (map (\<lambda>(k, v). (k, v, None)) d) key) = map_of d key"
  by (induction d) auto

text \<open>The newest in-memory value of a key; tables are oldest first.\<close>

definition newest_value :: "'bl table list \<Rightarrow> bytes \<Rightarrow> bytes option" where
  "newest_value ts key = first_some (map (\<lambda>t. map_of (tb_data t) key) (rev ts))"

lemma merge_loop_tables:
  assumes "\<forall>t\<in>set ts. strict_keys (tb_data t)"
  shows "strict_keys (merge_loop rts (merge_iterator_new (map (\<lambda>t. BoxTable (tb_iter t)) (rev ts))))"
    and "map_of (merge_loop rts (merge_iterator_new (map (\<lambda>t. BoxTable (tb_iter t)) (rev ts)))) key =
      (case newest_value ts key of None \<Rightarrow> None | Some v \<Rightarrow> if kept rts key v then Some v else None)"
proof -
  let ?its = "map (\<lambda>t. BoxTable (tb_iter t)) (rev ts)" and ?drop = "\<lambda>(k, v, _). (k, v)"
  have ok: "iters_ok ?its"
    using assms by (simp add: iters_ok_def tb_iter_def table_iterator_new_spec o_def case_prod_beta')
  let ?es = "mg_collect (merge_iterator_new ?its)"
  have strict: "strict_keys ?es" using mg_collect_spec [OF merge_iterator_new_wf [OF ok]] by blast
  then have s: "strict_keys (map ?drop ?es)" by (simp add: o_def case_prod_beta')
  then show "strict_keys (merge_loop rts (merge_iterator_new ?its))"
    unfolding merge_loop_collect by (rule strict_keys_filter)
  have "map_of (map ?drop ?es) key = newest_value ts key"
    unfolding map_of_drop_record merge_new_map_of [OF ok] newest_value_def
    by (simp add: tb_iter_def table_iterator_new_spec map_of_bare_values o_def flip: first_some_map)
  then show "map_of (merge_loop rts (merge_iterator_new ?its)) key =
      (case newest_value ts key of None \<Rightarrow> None | Some v \<Rightarrow> if kept rts key v then Some v else None)"
    unfolding merge_loop_collect map_of_filter_entries [OF strict_keys_distinct [OF s]] by (simp split: option.splits)
qed


subsection \<open>Running a compaction\<close>

abbreviation merge_of :: "range_tombstone list \<Rightarrow> 'bl table list \<Rightarrow> (bytes \<times> bytes) list" where
  "merge_of rts ts \<equiv> merge_loop rts (merge_iterator_new (map (\<lambda>t. BoxTable (tb_iter t)) (rev ts)))"

abbreviation restamped :: "u128 \<Rightarrow> (bytes \<times> bytes) list \<Rightarrow> (bytes \<times> log_record) list" where
  "restamped now merged \<equiv> map (\<lambda>(k, v). (k, log_record_new now k v)) merged"

definition merge_fits :: "('bl, 'c) crates \<Rightarrow> storage_config \<Rightarrow> u128 \<Rightarrow> (bytes \<times> bytes) list \<Rightarrow> bool" where
  "merge_fits X cfg now merged \<longleftrightarrow>
     (\<forall>e\<in>set (restamped now merged). valid_entry X cfg e) \<and> length merged < 2 ^ 64"

lemma btree_collect_sorted: "strict_keys kvs \<Longrightarrow> btree_collect kvs = kvs"
proof (induction kvs rule: rev_induct)
  case (snoc x kvs)
  then have "strict_keys kvs" "\<forall>y\<in>set kvs. fst y < fst x" by (auto simp: sorted_wrt_append)
  then show ?case using snoc.IH btree_insert_above [of kvs "fst x" "snd x"] by (simp add: btree_collect_def case_prod_beta)
qed (simp add: btree_collect_def)

lemma execute_compaction_ok:
  assumes run: "execute_compaction X rng now ts cfg enc prefix level rts disk = (Ok (outs, m), disk')" and "ts \<noteq> []"
    and data: "\<forall>t\<in>set ts. strict_keys (tb_data t)" and laws: "crate_laws X rng" "valid_config cfg"
    and fits: "merge_fits X cfg now (merge_of rts ts)" "\<And>p file. disk' p = Some file \<Longrightarrow> length file < 2 ^ 32"
  obtains (none) partial where "merge_of rts ts = []" "outs = []" "disk' = disk(sst_name prefix now \<mapsto> partial)"
  | (one) t segs meta mw "file" where "outs = [t]" "disk' = disk(sst_name prefix now \<mapsto> file)"
      "sst_file X enc (restamped now (merge_of rts ts)) segs meta mw file" "length file < 2 ^ 32"
      "tb_path t = Some (sst_name prefix now)" "\<And>cat. table_ok X (cat(sst_name prefix now \<mapsto> segs)) t"
proof (cases "merge_of rts ts = []")
  case True
  then show ?thesis using run assms(2) none by (auto simp: execute_compaction_def Let_def)
next
  case False
  let ?p = "sst_name prefix now" and ?kvs = "restamped now (merge_of rts ts)"
  obtain res disk1 where w: "write_sst X rng cfg now enc ?p ?kvs disk = (res, disk1)" by fastforce
  from run assms(2) False w obtain u t0 where t0: "res = Ok u" "disk' = disk1"
    "from_sstable_path X disk1 ?p (Some enc) = Ok t0"
    "outs = [t0\<lparr>tb_data := btree_collect (merge_of rts ts),
                tb_level := (case level of None \<Rightarrow> tb_level t0 | Some l \<Rightarrow> l)\<rparr>]"
    by (auto simp: execute_compaction_def Let_def split: outcome.splits)
  have valid: "\<forall>e\<in>set ?kvs. valid_entry X cfg e" "length ?kvs < 2 ^ 64" using fits(1) by (simp_all add: merge_fits_def)
  have small: "\<forall>f. disk1 ?p = Some f \<longrightarrow> length f < 2 ^ 32" using fits(2) t0(2) by blast
  obtain "file" t segs meta mw where f: "disk1 = disk(?p \<mapsto> file)" "length file < 2 ^ 32"
    "from_sstable_path X disk1 ?p (Some enc) = Ok t" "sst_file X enc ?kvs segs meta mw file"
    "tb_path t = Some ?p" "tb_data t = []" "\<forall>cat. table_ok X (cat(?p \<mapsto> segs)) t"
    using write_sst_table [OF w [unfolded t0(1)] laws valid small] by (elim exE conjE) rule
  let ?t = "t\<lparr>tb_data := merge_of rts ts, tb_level := (case level of None \<Rightarrow> tb_level t | Some l \<Rightarrow> l)\<rparr>"
  have "tb_ents (cat(?p \<mapsto> segs)) ?t = ?kvs" for cat
    using f(5) sst_fileD(1) [OF f(4)] by (simp add: tb_ents_def)
  moreover have "tb_ents (cat(?p \<mapsto> segs)) t = ?kvs" for cat
    using f(5) sst_fileD(1) [OF f(4)] by (simp add: tb_ents_def)
  moreover have "map (\<lambda>(k, r). (k, lr_value r)) ?kvs = merge_of rts ts"
    by (simp add: o_def case_prod_beta log_record_new_def)
  ultimately have "table_ok X (cat(?p \<mapsto> segs)) ?t" for cat
    using spec [OF f(7), of cat] unfolding table_ok_def by simp
  moreover have "outs = [?t]"
    using t0(3,4) f(3) btree_collect_sorted [OF merge_loop_tables(1) [OF data]] by auto
  ultimately show ?thesis using one [of ?t "file" segs] f t0(2) by simp
qed


subsection \<open>Reads after a group is replaced\<close>

text \<open>
  The in-memory values of a table are those of its file, and an empty value is the mark of a deleted
  key and of nothing else.
\<close>

definition in_memory :: "catalogue \<Rightarrow> 'bl table \<Rightarrow> bool" where
  "in_memory cat t \<longleftrightarrow>
     tb_data t = map (\<lambda>(k, r). (k, lr_value r)) (tb_ents cat t) \<and>
     (\<forall>e\<in>set (tb_ents cat t). lr_is_deleted (snd e) \<longleftrightarrow> lr_value (snd e) = [])"

lemma newest_value_newest:
  "\<forall>t\<in>set ts. in_memory cat t \<Longrightarrow> newest_value ts key = map_option lr_value (newest cat (rev ts) key)"
  unfolding newest_value_def newest_def first_some_map [symmetric]
  by (rule arg_cong [where f = first_some], rule map_cong) (auto simp: in_memory_def map_of_values)

lemma map_of_restamped: "map_of (restamped now merged) key = map_option (log_record_new now key) (map_of merged key)"
  by (induction merged) auto

lemma strict_in_memory:
  "table_ok X cat t \<Longrightarrow> files_ok X enc disk cat \<Longrightarrow> in_memory cat t \<Longrightarrow> strict_keys (tb_data t)"
  using table_ok_strict(1) [of X cat t enc disk] by (simp add: in_memory_def o_def case_prod_beta')

text \<open>
  The merge of a group shows the same values as the group, with nothing in place of a deleted key.
\<close>

lemma merged_visible:
  assumes "\<forall>t\<in>set ts. in_memory cat t" "\<forall>t\<in>set ts. strict_keys (tb_data t)"
  shows "map_of (restamped now (merge_of [] ts)) key =
    map_option (log_record_new now key) (visible (newest cat (rev ts) key))"
proof -
  have "map_of (merge_of [] ts) key = visible (newest cat (rev ts) key)"
  proof (cases "newest cat (rev ts) key")
    case None
    then show ?thesis
      using merge_loop_tables(2) [OF assms(2)] newest_value_newest [OF assms(1)] by (simp add: visible_def)
  next
    case (Some r)
    then have "lr_is_deleted r \<longleftrightarrow> lr_value r = []"
      using newest_SomeD(2) [OF Some] assms(1) by (force simp: in_memory_def)
    then show ?thesis
      using merge_loop_tables(2) [OF assms(2)] newest_value_newest [OF assms(1)] Some
      by (simp add: visible_def kept_def is_key_in_range_tombstones_def)
  qed
  then show ?thesis unfolding map_of_restamped by simp
qed


text \<open>The tables of a compaction are clones; the clones have the values and the levels.\<close>

lemma tb_clone_fields [simp]:
  "tb_data (tb_clone X t) = tb_data t" "tb_level (tb_clone X t) = tb_level t" "tb_path (tb_clone X t) = tb_path t"
  by (simp_all add: tb_clone_def)

lemma compact_range:
  assumes "i < j" "j \<le> length ts"
  shows "\<exists>prefix level. prefix \<in> {''sst'', ''sst_L1''} \<and>
    compact X rng now c [i..<j] (map (tb_clone X) ts) enc rts disk =
    execute_compaction X rng now (map (tb_clone X \<circ> tb_clone X) (drop i (take j ts))) (cc_storage_config c) enc prefix level rts disk"
proof -
  have "List.filter (\<lambda>k. k < length ts) [i..<j] = [i..<j]" using assms by (auto simp: filter_id_conv)
  moreover have "map (\<lambda>k. tb_clone X (map (tb_clone X) ts ! k)) [i..<j] = map (tb_clone X \<circ> tb_clone X) (drop i (take j ts))"
    using assms by (intro nth_equalityI) auto
  ultimately show ?thesis
    using assms by (fastforce simp: compact_def execute_strategy_def Let_def split: compaction_strategy_type.splits)
qed

lemma merge_of_clones [simp]: "merge_of rts (map (tb_clone X \<circ> tb_clone X) ts) = merge_of rts ts"
  by (simp add: tb_iter_def rev_map o_def)

text \<open>The state after the tables \<open>i\<close> to \<open>j - 1\<close> are replaced.\<close>

lemma replace_range_fields:
  assumes "i < j" "j \<le> length (cf_tables vs cf)"
    and vs'_def: "vs' = snd (atomic_replace_groups H cf [([i..<j], outs)] vs)"
  shows "cf_tables vs' cf' = (if cf' = cf then take i (cf_tables vs cf) @ outs @ drop j (cf_tables vs cf) else cf_tables vs cf')"
    and "vs_encryption vs' = vs_encryption vs" "vs_block_cache vs' = vs_block_cache vs" "vs_quarantined vs' = vs_quarantined vs"
    and "vs_kv_cache vs' = h_kv_invalidate_all H (vs_kv_cache vs)"
proof -
  have g: "groups_ok (length (cf_tables vs cf)) [([i..<j], outs)]" using assms by (auto simp: groups_ok_def)
  note eq = atomic_replace_groups_eq [OF g, of H] replaced_range [OF assms(1,2), of outs]
  show "cf_tables vs' cf' = (if cf' = cf then take i (cf_tables vs cf) @ outs @ drop j (cf_tables vs cf) else cf_tables vs cf')"
    using eq unfolding vs'_def by (simp add: clear_cache_def cf_tables_def update_conv')
  show "vs_encryption vs' = vs_encryption vs" "vs_block_cache vs' = vs_block_cache vs" "vs_quarantined vs' = vs_quarantined vs"
    "vs_kv_cache vs' = h_kv_invalidate_all H (vs_kv_cache vs)"
    using eq unfolding vs'_def by (simp_all add: clear_cache_def)
qed

text \<open>
  Reads of a list of tables where the middle part is replaced by a table that shows the same values;
  deleted keys may vanish from it when there is nothing older.
\<close>

lemma visible_replaced:
  assumes mid: "newest cat' outs key = map_option (log_record_new now key) (visible (newest cat mid key))"
    and same: "newest cat' new key = newest cat new key" "newest cat' old key = newest cat old key"
    and tomb: "old = [] \<or> (\<forall>r. newest cat mid key = Some r \<longrightarrow> \<not> lr_is_deleted r)"
  shows "visible (newest cat' (new @ outs @ old) key) = visible (newest cat (new @ mid @ old) key)"
  using assms by (auto simp: newest_append visible_def log_record_new_def split: option.splits if_splits)


lemma compaction_store:
  assumes ok: "store_ok H disk cat vs" and law: "kv_law H" "crate_laws (h_crates H) rng" "valid_config (cc_storage_config c)"
    and ij: "i < j" "j \<le> length (cf_tables vs cf)"
    and mem: "\<forall>t\<in>set (drop i (take j (cf_tables vs cf))). in_memory cat t"
    and fresh: "fresh_path H cat (sst_name ''sst'' now) vs" "fresh_path H cat (sst_name ''sst_L1'' now) vs"
    and run: "compact (h_crates H) rng now c [i..<j] (get_tables H cf vs) (vs_encryption vs) [] disk = (Ok (outs, m), disk')"
    and fits: "merge_fits (h_crates H) (cc_storage_config c) now (merge_of [] (drop i (take j (cf_tables vs cf))))"
      "\<forall>p file. disk' p = Some file \<longrightarrow> length file < 2 ^ 32"
  shows "\<exists>cat'. store_ok H disk' cat' (snd (atomic_replace_groups H cf [([i..<j], outs)] vs)) \<and>
    (\<forall>ts key. (\<forall>t\<in>set ts. table_ok (h_crates H) cat t) \<longrightarrow> newest cat' ts key = newest cat ts key) \<and>
    (\<forall>key. newest cat' outs key =
       map_option (log_record_new now key) (visible (newest cat (rev (drop i (take j (cf_tables vs cf)))) key))) \<and> rev outs = outs"
proof -
  let ?X = "h_crates H" and ?ts = "cf_tables vs cf"
  let ?mid = "drop i (take j ?ts)"
  let ?clones = "map (tb_clone ?X \<circ> tb_clone ?X) ?mid"
  obtain prefix level where pl: "prefix \<in> {''sst'', ''sst_L1''}"
    "execute_compaction ?X rng now ?clones (cc_storage_config c) (vs_encryption vs) prefix level [] disk = (Ok (outs, m), disk')"
    using compact_range [OF ij, of ?X rng now c "vs_encryption vs" "[]" disk] run unfolding get_tables_def by metis
  let ?p = "sst_name prefix now"
  have fr: "fresh_path H cat ?p vs" using fresh pl(1) by auto
  have p: "cat ?p = None" using fr by (simp add: fresh_path_def)
  have tok: "table_ok ?X cat t" if "t \<in> set ?ts" for t using store_okD(5) [OF ok that] .
  have mids: "t \<in> set ?ts" if "t \<in> set ?mid" for t using that by (meson in_set_dropD in_set_takeD)
  have strict: "\<forall>t\<in>set ?mid. strict_keys (tb_data t)"
    using strict_in_memory [OF tok store_okD(1) [OF ok]] mids mem by blast
  have ne: "?clones \<noteq> []" using ij by simp
  let ?vs' = "snd (atomic_replace_groups H cf [([i..<j], outs)] vs)"
  note fields = replace_range_fields [OF ij refl, of H outs]
  have store: "store_ok H disk' cat' ?vs'"
    if "store_ok H disk' cat' vs" "\<forall>t\<in>set outs. table_ok ?X cat' t" for cat'
    using that store_okD(5) [OF that(1), of _ cf]
    by (intro store_ok_tables [OF that(1), where ts = "take i ?ts @ outs @ drop j ?ts" and cf = cf])
      (auto simp: fields dest: in_set_takeD in_set_dropD)
  note vis = merged_visible [OF mem strict, of now]
  from pl(2) ne _ law(2,3) _ _ show ?thesis
  proof (rule execute_compaction_ok)
    show "\<forall>t\<in>set ?clones. strict_keys (tb_data t)" using strict by simp
    show "merge_fits ?X (cc_storage_config c) now (merge_of [] ?clones)" using fits(1) by simp
    show "length file < 2 ^ 32" if "disk' p = Some file" for p "file" using fits(2) that by blast
  next
    fix partial assume a: "merge_of [] ?clones = []" "outs = []" "disk' = disk(?p \<mapsto> partial)"
    have "store_ok H disk' cat vs" unfolding a(3) using store_ok_other_file [OF ok p] .
    then have "store_ok H disk' cat ?vs'" using store a(2) by simp
    moreover have "newest cat outs key = map_option (log_record_new now key) (visible (newest cat (rev ?mid) key))" for key
      using vis [of key] a(1,2) by simp
    ultimately show ?thesis using a(2) by auto
  next
    fix t segs meta mw "file"
    assume a: "outs = [t]" "disk' = disk(?p \<mapsto> file)" "sst_file ?X (vs_encryption vs) (restamped now (merge_of [] ?clones)) segs meta mw file"
      "length file < 2 ^ 32" "tb_path t = Some ?p" "\<And>cat. table_ok ?X (cat(?p \<mapsto> segs)) t"
    have kvs: "sst_file ?X (vs_encryption vs) (restamped now (merge_of [] ?mid)) segs meta mw file" using a(3) by simp
    have len: "length (restamped now (merge_of [] ?mid)) < 2 ^ 64" using fits(1) by (simp add: merge_fits_def)
    have "store_ok H disk' (cat(?p \<mapsto> segs)) ?vs'"
      using store store_ok_file [OF ok fr kvs a(4) len] a(1,2,6) by simp
    moreover have "newest (cat(?p \<mapsto> segs)) outs key = map_option (log_record_new now key) (visible (newest cat (rev ?mid) key))" for key
      using vis [of key] a(1,5) sst_fileD(1) [OF kvs] by (simp add: tb_ents_def split: option.splits)
    ultimately show ?thesis using newest_upd [of _ ?X cat ?p segs] p a(1) by auto
  qed
qed

subsection \<open>Picking groups\<close>

text \<open>Groups of indices below \<open>n\<close>, each increasing, no index twice.\<close>

definition groups_valid :: "nat \<Rightarrow> nat list list \<Rightarrow> bool" where
  "groups_valid n gs \<longleftrightarrow>
     distinct (concat gs) \<and> (\<forall>is\<in>set gs. is \<noteq> [] \<and> sorted_wrt (<) is \<and> (\<forall>i\<in>set is. i < n))"

lemma push_bucket_set: "set (concat (map snd (push_bucket b i bs))) = insert i (set (concat (map snd bs)))"
  by (induction b i bs rule: push_bucket.induct) auto

lemma groups_valid_push:
  "groups_valid n (map snd bs) \<Longrightarrow> groups_valid (Suc n) (map snd (push_bucket b n bs))"
proof (induction b n bs rule: push_bucket.induct)
  case (2 b n b' "is" bs)
  have rest: "groups_valid n (map snd bs)" and "is": "is \<noteq> []" "sorted_wrt (<) is" "\<forall>i\<in>set is. i < n" "distinct is"
    "set is \<inter> set (concat (map snd bs)) = {}"
    using "2.prems" by (auto simp: groups_valid_def)
  have n: "n \<notin> set (concat (map snd bs))" using rest by (auto simp: groups_valid_def)
  show ?case
  proof (cases "b' = b")
    case True
    then show ?thesis using rest "is" n by (fastforce simp: groups_valid_def sorted_wrt_append less_Suc_eq)
  next
    case False
    have "set is \<inter> set (concat (map snd (push_bucket b n bs))) = {}"
      unfolding push_bucket_set using "is"(3,5) by auto
    then show ?thesis using "2.IH" [OF False rest] False "is" by (auto simp: groups_valid_def)
  qed
qed (auto simp: groups_valid_def)

lemma groups_valid_sub:
  assumes "groups_valid n gs"
  shows "groups_valid n (List.filter P gs)"
proof -
  have "distinct (concat (List.filter P gs))" if "distinct (concat gs)" for gs :: "nat list list"
    using that by (induction gs) auto
  then show ?thesis using assms by (auto simp: groups_valid_def)
qed

lemma group_into_buckets_valid: "groups_valid (length ts) (group_into_buckets ts k)"
proof -
  have "groups_valid (length ts) (map snd (fold (\<lambda>(idx, t). push_bucket (bucket_size_of (tb_size t)) idx) (enumerate 0 ts) []))"
  proof (induction ts rule: rev_induct)
    case (snoc t ts)
    then show ?case using groups_valid_push by (simp add: enumerate_append_eq)
  qed (simp add: groups_valid_def)
  from groups_valid_sub [OF this, of "\<lambda>is. k \<le> length is"] show ?thesis
    by (simp add: group_into_buckets_def filter_map o_def case_prod_beta')
qed

lemma l0_indices_sorted: "sorted_wrt (<) (l0_indices ts)" and l0_indices_less: "i \<in> set (l0_indices ts) \<Longrightarrow> i < length ts"
proof -
  have "sorted_wrt (<) (map fst (List.filter P (enumerate n ts)))" for P n
  proof (induction ts arbitrary: n)
    case (Cons t ts)
    then show ?case by (auto simp: in_set_enumerate_eq)
  qed simp
  then show "sorted_wrt (<) (l0_indices ts)" by (simp add: l0_indices_def)
  show "i \<in> set (l0_indices ts) \<Longrightarrow> i < length ts" by (auto simp: l0_indices_def in_set_enumerate_eq)
qed

lemma groups_valid_through:
  assumes gs: "groups_valid (length xs) gs" and xs: "sorted_wrt (<) xs" "\<forall>x\<in>set xs. x < n"
  shows "groups_valid n (map (map ((!) xs)) gs)"
proof -
  have "inj_on ((!) xs) {..<length xs}"
    using xs(1) by (auto simp: strict_sorted_iff inj_on_def nth_eq_iff_index_eq)
  moreover have "set (concat gs) \<subseteq> {..<length xs}" using gs by (auto simp: groups_valid_def)
  ultimately have "distinct (map ((!) xs) (concat gs))"
    using gs unfolding groups_valid_def distinct_map by (auto intro: inj_on_subset)
  moreover have "sorted_wrt (<) (map ((!) xs) is)" if "is \<in> set gs" for "is"
  proof -
    have "is": "sorted_wrt (<) is" "\<forall>i\<in>set is. i < length xs" using gs that by (auto simp: groups_valid_def)
    have "xs ! a < xs ! b" if "a \<in> set is" "b \<in> set is" "a < b" for a b
      using sorted_wrt_nth_less [OF xs(1)] "is"(2) that by blast
    then show ?thesis unfolding sorted_wrt_map by (rule sorted_wrt_mono_rel [OF _ "is"(1)])
  qed
  ultimately show ?thesis using gs xs(2) by (auto simp: groups_valid_def map_concat)
qed

lemma pick_compaction_groups: "groups_valid (length ts) (pick_compaction X strategy ts)"
proof -
  have lev: "groups_valid (length ts) (leveled_pick_tables ts)"
    using l0_indices_sorted [of ts] l0_indices_less
    by (auto simp: leveled_pick_tables_def groups_valid_def strict_sorted_iff)
  let ?l0 = "l0_indices ts" and ?gs = "group_into_buckets (map (\<lambda>i. tb_clone X (ts ! i)) (l0_indices ts)) 2"
  have gs: "groups_valid (length ?l0) ?gs" using group_into_buckets_valid [of "map (\<lambda>i. tb_clone X (ts ! i)) ?l0" 2] by simp
  then have "map (\<lambda>bucket. map (\<lambda>i. ?l0 ! i) (List.filter (\<lambda>i. i < length ?l0) bucket)) ?gs = map (map ((!) ?l0)) ?gs"
    by (auto simp: groups_valid_def filter_id_conv intro!: map_cong)
  moreover have "groups_valid (length ts) (map (map ((!) ?l0)) ?gs)"
    using groups_valid_through [OF gs l0_indices_sorted] l0_indices_less by blast
  ultimately have "?l0 \<noteq> [] \<Longrightarrow> groups_valid (length ts) (lazy_pick_tables X ts)"
    by (simp only: lazy_pick_tables_def Let_def if_True not_False_eq_True)
  then show ?thesis
    using lev group_into_buckets_valid [of ts 2]
    by (cases "?l0 = []") (simp_all add: pick_compaction_def lazy_pick_tables_def Let_def split: compaction_strategy_type.splits)
qed

subsection \<open>Tables without in-memory values\<close>

lemma merge_of_nothing:
  assumes "\<forall>t\<in>set ts. tb_data t = []"
  shows "merge_of rts ts = []"
proof -
  have "first_some (map (\<lambda>t. map_of (tb_data t) key) us) = None" if "set us \<subseteq> set ts" for us key
    using that assms by (induction us) auto
  then have "newest_value ts key = None" for key by (simp add: newest_value_def)
  then have "map_of (merge_of rts ts) key = None" for key
    using merge_loop_tables(2) [of ts rts key] assms by simp
  then show ?thesis by (cases "merge_of rts ts") (auto simp: fun_eq_iff split: if_splits, metis map_of_eq_None_iff option.simps(3))
qed

lemma compact_reloaded:
  assumes "\<forall>t\<in>set ts. tb_data t = []"
  shows "\<exists>m disk'. compact X rng now c is (map (tb_clone X) ts) enc rts disk = (Ok ([], m), disk')"
proof -
  let ?tables = "map (\<lambda>i. tb_clone X (map (tb_clone X) ts ! i)) (List.filter (\<lambda>i. i < length ts) is)"
  have "\<forall>t\<in>set ?tables. tb_data t = []" using assms by simp
  from merge_of_nothing [OF this] show ?thesis
    by (simp add: compact_def execute_strategy_def execute_compaction_def Let_def split: compaction_strategy_type.splits)
qed

subsection \<open>Properties\<close>


text \<open>An example run: the example table is rewritten under a new name.\<close>

definition demo_compaction :: compaction where
  "demo_compaction = compaction_new SizeTiered compaction_options_default demo_config"

lemma demo_merge: "merge_of [] [demo_table] = [([1], [2])]" "sst_name ''sst'' 0 = ''sst_0.sst''" "sst_name ''sst_L1'' 0 = ''sst_L1_0.sst''"
  by code_simp+

lemma demo_compact:
  "\<exists>outs m. compact demo_crates (\<lambda>_. None) 0 demo_compaction [0..<1] (get_tables demo_host ''default'' demo_vs) encryption_default []
    demo_disk = (Ok (outs, m), demo_disk(''sst_0.sst'' \<mapsto> demo_file))"
proof -
  let ?ts = "[tb_clone demo_crates (tb_clone demo_crates demo_table)]"
  have m: "merge_of [] ?ts = [([1], [2])]" using demo_merge(1) merge_of_clones [of "[]" demo_crates "[demo_table]"] by simp
  have w: "write_sst demo_crates (\<lambda>_. None) demo_config 0 encryption_default ''sst_0.sst'' demo_entries demo_disk
      = (Ok (), demo_disk(''sst_0.sst'' \<mapsto> demo_file))"
    using demo_build by (simp add: write_sst_def)
  obtain t where "from_sstable_path demo_crates (demo_disk(''sst_0.sst'' \<mapsto> demo_file)) ''sst_0.sst'' (Some encryption_default) = Ok t"
    using from_sstable_path_ok [OF demo_build demo_laws demo_sizes(1-4), of "demo_disk(''sst_0.sst'' \<mapsto> demo_file)" "''sst_0.sst''"] by auto
  moreover have "compact demo_crates (\<lambda>_. None) 0 demo_compaction [0..<1] (get_tables demo_host ''default'' demo_vs) encryption_default [] demo_disk
      = execute_compaction demo_crates (\<lambda>_. None) 0 ?ts demo_config encryption_default ''sst'' None [] demo_disk"
    by (simp add: compact_def get_tables_def execute_strategy_def demo_compaction_def compaction_new_def)
  ultimately show ?thesis
    using m w demo_merge(2) by (simp add: execute_compaction_def Let_def demo_entries_def)
qed


text \<open>Whatever the tables are, the groups that a strategy picks are made of valid indices, each
  group in increasing order and no index in two groups, so that they can be replaced independently
  of one another.\<close>

lemma pick_compaction_valid:
  "groups_valid (length ts) (pick_compaction X strategy ts)"
  by (rule pick_compaction_groups)

end
