(* ===== verification/Engine_Store.thy ===== *)
theory Engine_Store
  imports Engine_Update Compaction_Correct
begin

text \<open>
  The properties of the engine's reads, writes and flushes against what the engine shows
  (\<open>view\<close>), with an example engine for the witnesses.
\<close>

subsection \<open>Writes after the log phase\<close>

lemma inserted_same_data: "same_data core core1 \<Longrightarrow> same_data (inserted cf r core) (inserted cf r core1)"
  by (simp add: same_data_def add_bytes_def on_memtable_def memtables_of_def Let_def)

lemma bytes_inserted: "co_memtable_bytes core1 = co_memtable_bytes core \<Longrightarrow> bytes_of (inserted cf r core1) cf = bytes_of (inserted cf r core) cf"
  by (simp add: bytes_of_def add_bytes_def on_memtable_def Let_def update_conv')

lemma can_flush_same_data: "same_data core core1 \<Longrightarrow> can_flush H options cat now cf core1 = can_flush H options cat now cf core"
  by (simp add: can_flush_def same_dataD)

lemma logged_insert_refines:
  assumes ok: "engine_ok H cat core" and kv: "\<forall>cf. kv_coherent H cat cf (co_version_set core)"
    and laws: "host_laws H" "crate_laws (h_crates H) rng" "valid_config (storage_config_of options)"
    and can: "write_buffer_limit options \<le> bytes_of (inserted cf r core) cf \<longrightarrow> can_flush H options cat now cf (inserted cf r core)"
    and run: "bind_st (log_phase H rng cf r' core) (\<lambda>_ core1. flush_if_full H rng now options cf (inserted cf r core1)) = (Ok b, core')"
    and small: "\<forall>p file. co_sst_dir core' p = Some file \<longrightarrow> length file < 2 ^ 32"
    and r: "lr_timestamp r = now" "\<not> is_expired_at r now" "older_ranges now cf (lr_key r) core"
  shows "\<exists>cat'. engine_ok H cat' core' \<and> (\<forall>cf. kv_coherent H cat' cf (co_version_set core')) \<and>
    (\<forall>cf' key. \<not> starts_with TTL_PREFIX key \<longrightarrow> view cat' now core' cf' key =
      (if cf' = cf \<and> key = lr_key r then visible (Some r) else view cat now core cf' key))"
proof -
  obtain core1 where c: "same_data core core1" "flush_if_full H rng now options cf (inserted cf r core1) = (Ok b, core')"
    "co_memtable_bytes core1 = co_memtable_bytes core"
    by (rule log_phase_then [OF run])
  note d = same_dataD [OF c(1)]
  have can1: "can_flush H options cat now cf (inserted cf r core1)" if "write_buffer_limit options \<le> bytes_of (inserted cf r core1) cf"
    using can that bytes_inserted [OF c(3)] can_flush_same_data [OF inserted_same_data [OF c(1)]] by simp
  have ok1: "engine_ok H cat core1" "\<forall>cf. kv_coherent H cat cf (co_version_set core1)" "older_ranges now cf (lr_key r) core1"
    using ok kv r(3) by (simp_all add: d older_ranges_def)
  show ?thesis
    unfolding d(5) [of cat now, symmetric]
    by (rule insert_phase_refines [OF ok1(1,2) laws _ c(2) small r(1,2) ok1(3)]) (rule can1)
qed

subsection \<open>Range deletions\<close>

lemma iterator_max_snoc: "iterator_max (xs @ [x]) = option_max (iterator_max xs) (Some x)"
  by (auto simp: iterator_max_def option_max_def max.commute)

lemma cover_snoc:
  "cover (rts @ [rt]) key =
     (if rt_start_key rt \<le> key \<and> key < rt_end_key rt then option_max (cover rts key) (Some (rt_timestamp rt)) else cover rts key)"
  by (simp add: cover_def iterator_max_snoc)

lemma add_range_fields:
  "tombstones_of (add_range cf rt core) cf' = tombstones_of core cf' @ (if cf' = cf then [rt] else [])"
  "co_version_set (add_range cf rt core) = co_version_set core"
  by (simp_all add: add_range_def on_memtable_def Let_def tombstones_of_def update_conv')

lemma memtable_record_add_range: "memtable_record (add_range cf rt core) cf' key = memtable_record core cf' key"
proof -
  let ?core0 = "core\<lparr>co_range_tombstones := AList.update cf (tombstones_of core cf @ [rt]) (co_range_tombstones core)\<rparr>"
  have m: "memtables_of ?core0 cf' = memtables_of core cf'" for cf' by (simp add: memtables_of_def)
  have get: "mt_get (add_range_tombstone rt m) key = mt_get m key" for m by (simp add: mt_get_def add_range_tombstone_def)
  show ?thesis
  proof (cases "memtables_of core cf = []")
    case True
    then show ?thesis by (simp add: memtable_record_def add_range_def memtables_on_memtable m get)
  next
    case False
    then obtain ms mm where "memtables_of core cf = ms @ [mm]" by (metis rev_exhaust)
    then show ?thesis by (simp add: memtable_record_def add_range_def memtables_on_memtable m get Let_def)
  qed
qed

lemma add_range_ok:
  assumes ok: "engine_ok H cat core"
  shows "engine_ok H cat (add_range cf rt core)" "entry_at cat (add_range cf rt core) cf' key = entry_at cat core cf' key"
proof -
  let ?core0 = "core\<lparr>co_range_tombstones := AList.update cf (tombstones_of core cf @ [rt]) (co_range_tombstones core)\<rparr>"
  have t: "tombstones_of ?core0 cf' = tombstones_of core cf' @ (if cf' = cf then [rt] else [])" for cf'
    by (simp add: tombstones_of_def update_conv')
  have m: "memtables_of ?core0 cf' = memtables_of core cf'" for cf' by (simp add: memtables_of_def)
  have ok0: "engine_ok H cat ?core0"
    using ok unfolding engine_ok_def m t by auto
  have "set (mt_range_tombstones (add_range_tombstone rt m)) \<subseteq> set (mt_range_tombstones m) \<union> set (tombstones_of ?core0 cf)" for m
    by (auto simp: add_range_tombstone_def t)
  moreover have "mem_wf (add_range_tombstone rt m)" if "mem_wf m" for m using that by (simp add: mem_wf_def add_range_tombstone_def)
  ultimately show "engine_ok H cat (add_range cf rt core)"
    unfolding add_range_def by (intro engine_ok_on_memtable [OF ok0])
  have "memtable_record (add_range cf rt core) cf' key = memtable_record core cf' key" by (rule memtable_record_add_range)
  then show "entry_at cat (add_range cf rt core) cf' key = entry_at cat core cf' key"
    unfolding entry_at_def add_range_fields by simp
qed

lemma add_range_view:
  assumes ok: "engine_ok H cat core"
  shows "view cat t (add_range cf rt core) cf' key =
    (if cf' = cf \<and> rt_start_key rt \<le> key \<and> key < rt_end_key rt \<and>
        (\<exists>r. entry_at cat core cf key = Some r \<and> lr_timestamp r < rt_timestamp rt)
     then None else view cat t core cf' key)"
proof -
  note e = add_range_ok(2) [OF ok]
  show ?thesis
    unfolding view_def e covering_engine [OF ok] covering_engine [OF add_range_ok(1) [OF ok]] add_range_fields
    by (auto simp: cover_snoc hidden_def option_max_def less_max_iff_disj covering_engine [OF ok] covering_engine [OF add_range_ok(1) [OF ok]] add_range_fields
        split: option.splits)
qed

subsection \<open>An example engine\<close>

definition demo_options :: engine_options where
  "demo_options = engine_options_default\<lparr>eo_block_size := 64\<rparr>"

definition demo_memtable :: memtable where
  "demo_memtable = mt_put 0 [1] [2] (memtable_new usize_max)"

definition demo_core :: "(unit, unit, (bytes \<times> bytes) list) engine_core" where
  "demo_core =
     \<lparr>co_memtables = [(''default'', [demo_memtable])], co_memtable_bytes = [(''default'', 2)],
      co_version_set = vs_new demo_host encryption_default (Some ()), co_compaction = demo_compaction,
      co_wals = [], co_range_tombstones = [], co_encryption = encryption_default, co_wal_sync_interval = 4,
      co_sst_dir = Map.empty, co_dir = Map.empty\<rparr>"

text \<open>The same data in a table.\<close>

definition demo_flushed :: "(unit, unit, (bytes \<times> bytes) list) engine_core" where
  "demo_flushed = demo_core\<lparr>co_memtables := [], co_memtable_bytes := [], co_version_set := demo_vs, co_sst_dir := demo_disk\<rparr>"

lemma demo_core_simps [simp]:
  "memtables_of demo_core cf = (if cf = ''default'' then [demo_memtable] else [])" "tombstones_of demo_core cf = []"
  "co_version_set demo_core = vs_new demo_host encryption_default (Some ())" "co_sst_dir demo_core = Map.empty"
  "mt_data demo_memtable = [([1], log_record_new 0 [1] [2])]" "mt_range_tombstones demo_memtable = []"
  by (simp_all add: demo_core_def memtables_of_def tombstones_of_def demo_memtable_def mt_put_def mt_insert_def memtable_new_def Let_def)

lemma demo_core_ok: "engine_ok demo_host Map.empty demo_core"
  by (simp add: engine_ok_def mem_wf_def) (simp add: store_ok_def files_ok_def vs_new_def cached_blocks_ok_def cf_tables_def)

lemma demo_core_kv: "kv_coherent demo_host Map.empty cf (co_version_set demo_core)"
  by (simp add: kv_coherent_def get_cached_def vs_new_def demo_host_def)

lemma demo_flushed_ok:
  obtains segs where "seg_ents segs = demo_entries" "engine_ok demo_host [''flush_0.sst'' \<mapsto> segs] demo_flushed"
proof (rule demo_store)
  fix segs assume s: "seg_ents segs = demo_entries" "store_ok demo_host demo_disk [''flush_0.sst'' \<mapsto> segs] demo_vs"
  then have "engine_ok demo_host [''flush_0.sst'' \<mapsto> segs] demo_flushed"
    by (simp add: engine_ok_def demo_flushed_def memtables_of_def)
  then show ?thesis using that s(1) by blast
qed

lemma demo_storage_config: "storage_config_of demo_options = demo_config\<lparr>sc_bloom_false_positive_rate := FP_RATE\<rparr>"
  by (simp add: storage_config_of_def demo_options_def engine_options_default_def demo_config_def)

lemma demo_flush_entries: "flush_entries 0 demo_memtable = demo_entries" "sst_name ''flush'' 0 = ''flush_0.sst''"
  by code_simp+

lemma demo_valid: "valid_config (storage_config_of demo_options)"
  "\<forall>e\<in>set demo_entries. valid_entry demo_crates (storage_config_of demo_options) e"
  using demo_sizes(1,2) by (simp_all add: demo_storage_config valid_config_def valid_entry_def demo_config_def)

lemma demo_can_flush: "can_flush demo_host demo_options Map.empty 0 ''default'' demo_core"
proof -
  have "eo_encryption demo_options = encryption_default" by (simp add: demo_options_def engine_options_default_def)
  then show ?thesis
    using demo_valid(2) demo_sizes(4,5) by (simp add: can_flush_def demo_flush_entries fresh_path_def vs_new_def)
qed

lemma demo_flush:
  "\<exists>b core'. flush_memtable_impl demo_host (\<lambda>_. None) 0 demo_options ''default'' demo_core = (Ok b, core') \<and> co_sst_dir core' = demo_disk"
proof -
  have enc: "eo_encryption demo_options = encryption_default" by (simp add: demo_options_def engine_options_default_def)
  have w: "write_sst demo_crates (\<lambda>_. None) (storage_config_of demo_options) 0 encryption_default ''flush_0.sst'' demo_entries Map.empty = (Ok (), demo_disk)"
    using demo_build_rate [of FP_RATE] by (simp add: write_sst_def demo_storage_config demo_disk_def)
  obtain t where "from_sstable_path demo_crates demo_disk ''flush_0.sst'' (Some encryption_default) = Ok t"
    using from_sstable_path_ok [OF demo_build demo_laws demo_sizes(1-4), of demo_disk "''flush_0.sst''"] by (auto simp: demo_disk_def)
  with w enc show ?thesis
    by (simp add: flush_memtable_impl_def demo_core_def flush_popped_def demo_flush_entries on_wal_def wal_handle_def Let_def)
qed

text \<open>Writes of one byte fit the example codec and stay below the buffer limit.\<close>

definition demo_wal :: wal where
  "demo_wal = set_sync_interval 4 (wal_open [] encryption_default)"

lemma demo_log_phase:
  assumes "plain_encode r \<noteq> None"
  shows "\<exists>w. log_phase demo_host rng ''default'' r demo_core = (Ok (), demo_core\<lparr>co_wals := [(''default'', w)]\<rparr>)"
proof -
  obtain bs where bs: "plain_encode r = Some bs" using assms by blast
  have "\<exists>w. write_record demo_crates rng r demo_wal = Ok w"
    by (simp add: write_record_def encode_frame_def demo_wal_def wal_open_def set_sync_interval_def demo_crates_def plain_crates_def bs
        encode_record_def encryptor_new_def encryption_default_def Let_def)
  then show ?thesis
    by (auto simp: log_phase_def on_wal_def wal_handle_def demo_core_def demo_wal_def demo_host_def Let_def)
qed

lemma demo_below_limit: "length (lr_key r) + length (lr_value r) \<le> 2 \<Longrightarrow> bytes_of (inserted ''default'' r demo_core) ''default'' < write_buffer_limit demo_options"
  by (simp add: bytes_of_def add_bytes_def on_memtable_def demo_core_def Let_def write_buffer_limit_def demo_options_def engine_options_default_def)

lemma add_bytes_sst_dir [simp]: "co_sst_dir (add_bytes cf n core) = co_sst_dir core"
  by (simp add: add_bytes_def)

text \<open>A codec that can write the log record of a range deletion.\<close>

definition range_host :: "(unit, unit, (bytes \<times> bytes) list) host" where
  "range_host = demo_host\<lparr>h_crates := demo_crates\<lparr>x_encode_record := \<lambda>_. Some [0]\<rparr>\<rparr>"

lemma range_core_ok: "engine_ok range_host Map.empty demo_core"
  by (simp add: engine_ok_def mem_wf_def) (simp add: store_ok_def files_ok_def vs_new_def cached_blocks_ok_def cf_tables_def)

subsection \<open>Properties\<close>



text \<open>C3: a scan visits, in increasing key order and up to the limit, exactly the keys between the
  bounds that the engine shows, with their values, except for keys with the reserved prefix
  \<open>__ttl:\<close>. It needs no condition on expired records or empty values.\<close>

theorem engine_scan_correct:
  assumes "engine_ok H cat core" and "host_laws H" and "kv_coherent H cat cf' (co_version_set core)"
  shows "\<exists>xs core'. scan_cf H now cf lower upper (Some limit) core = (Ok (take limit xs), core') \<and> strict_keys xs \<and>
    (\<forall>key. map_of xs key = (if in_range lower upper key \<and> \<not> starts_with TTL_PREFIX key then view cat now core cf key else None)) \<and>
    same_but_caches core core' \<and> engine_ok H cat core' \<and> kv_coherent H cat cf' (co_version_set core')"
proof -
  obtain core' where c: "for_each_visible_record H now cf lower upper limit core = (Ok (take limit (scan_result cat now lower upper core cf)), core')"
    "same_but_caches core core'" "engine_ok H cat core'" "kv_coherent H cat cf' (co_version_set core')"
    using for_each_visible_correct [OF assms] by blast
  then show ?thesis
    using scan_result_spec [OF assms(1)] by (intro exI [of _ "scan_result cat now lower upper core cf"] exI [of _ core']) (simp add: scan_cf_def)
qed

theorem engine_scan_correct_witness:
  "\<exists>core'. scan_cf demo_host 9 ''default'' (Some [0]) (Some [5]) (Some 1) demo_core = (Ok [([1], [2])], core')"
proof -
  obtain xs core' where x: "scan_cf demo_host 9 ''default'' (Some [0]) (Some [5]) (Some 1) demo_core = (Ok (take 1 xs), core')" "strict_keys xs"
    "\<forall>key. map_of xs key = (if in_range (Some [0]) (Some [5]) key \<and> \<not> starts_with TTL_PREFIX key
       then view Map.empty 9 demo_core ''default'' key else None)"
    using engine_scan_correct [OF demo_core_ok demo_host_laws demo_core_kv, of 9 "''default''" "Some [0]" "Some [5]" 1] by blast
  have view: "view Map.empty 9 demo_core ''default'' key = (if key = [1] then Some [2] else None)" for key
    by (simp add: view_def entry_at_def memtable_record_def mt_get_def hidden_def covering_range_tombstone_ts_def option_max_def
        iterator_max_def List.map_filter_def max_covering_range_tombstone_def) (simp add: cf_tables_def vs_new_def)
  have "map_of xs = map_of [([1], [2])]"
    using x(3) unfolding view by (auto simp: fun_eq_iff in_range_def starts_with_def TTL_PREFIX_def as_bytes_def)
  then have "xs = [([1], [2])]" using strict_keys_map_of_eq [OF x(2)] by simp
  then show ?thesis using x(1) by simp
qed





text \<open>A successful deletion removes the key from what is shown and leaves every other key without
  the reserved prefix as it was.\<close>

lemma engine_delete_correct:
  assumes "engine_ok H cat core" and "\<forall>cf. kv_coherent H cat cf (co_version_set core)" and "host_laws H"
    and "crate_laws (h_crates H) rng" and "valid_config (storage_config_of options)"
    and "delete_core H rng log_now now options cf key core = (Ok b, core')" and "older_ranges now cf key core"
    and "write_buffer_limit options \<le> bytes_of (inserted cf (tombstone now key) core) cf \<longrightarrow>
      can_flush H options cat now cf (inserted cf (tombstone now key) core)"
    and "\<forall>p file. co_sst_dir core' p = Some file \<longrightarrow> length file < 2 ^ 32"
  shows "\<exists>cat'. engine_ok H cat' core' \<and> (\<forall>cf. kv_coherent H cat' cf (co_version_set core')) \<and>
    (\<forall>cf' key'. \<not> starts_with TTL_PREFIX key' \<longrightarrow>
       view cat' now core' cf' key' = (if cf' = cf \<and> key' = key then None else view cat now core cf' key'))"
proof -
  let ?r = "tombstone now key"
  have run: "bind_st (log_phase H rng cf ((tombstone log_now key)\<lparr>lr_column_family := Some cf\<rparr>) core)
      (\<lambda>_ core1. flush_if_full H rng now options cf (inserted cf ?r core1)) = (Ok b, core')"
    using assms(6) by (simp add: delete_core_def delete_phase_def [abs_def] mt_delete_def [abs_def])
  have v: "visible (Some ?r) = None" and k: "lr_key ?r = key" and t: "lr_timestamp ?r = now" and e: "\<not> is_expired_at ?r now"
    by (simp_all add: visible_def)
  show ?thesis
    using logged_insert_refines [OF assms(1-5,8) run assms(9) _ e] assms(7) unfolding v k t by blast
qed

text \<open>C12: a range deletion hides exactly the keys of its column family in the half-open range whose
  newest record is older than the deletion; everything else is shown as before.\<close>

theorem engine_delete_range_correct:
  assumes "engine_ok H cat core" and "delete_range_cf H rng now log_now cf start stop core = (Ok (), core')"
  shows "engine_ok H cat core' \<and> co_version_set core' = co_version_set core \<and>
    view cat t core' cf' key =
      (if cf' = cf \<and> start \<le> key \<and> key < stop \<and> (\<exists>r. entry_at cat core cf key = Some r \<and> lr_timestamp r < now)
       then None else view cat t core cf' key)"
proof -
  obtain core1 where c: "same_data core core1" "core' = add_range cf (range_tombstone_new now start stop) core1"
  proof (rule log_phase_then [of H rng cf "(mk_range_tombstone log_now start stop)\<lparr>lr_column_family := Some cf\<rparr>" core
        "\<lambda>core1. (Ok (), add_range cf (range_tombstone_new now start stop) core1)" "()" core'])
    show "bind_st (log_phase H rng cf ((mk_range_tombstone log_now start stop)\<lparr>lr_column_family := Some cf\<rparr>) core)
        (\<lambda>_ core1. (Ok (), add_range cf (range_tombstone_new now start stop) core1)) = (Ok (), core')"
      using assms(2) by (simp add: delete_range_cf_def)
  qed auto
  note d = same_dataD [OF c(1)]
  have ok1: "engine_ok H cat core1" using assms(1) by (simp add: d)
  show ?thesis
    unfolding c(2) add_range_view [OF ok1] using add_range_ok(1) [OF ok1]
    by (auto simp: d add_range_fields range_tombstone_new_def)
qed

theorem engine_delete_range_correct_witness:
  "\<exists>core'. delete_range_cf range_host (\<lambda>_. None) 1 2 ''default'' [1] [4] demo_core = (Ok (), core') \<and>
     view Map.empty 9 demo_core ''default'' [1] = Some [2] \<and> view Map.empty 9 core' ''default'' [1] = None"
proof -
  let ?r = "(mk_range_tombstone 2 [1] [4])\<lparr>lr_column_family := Some ''default''\<rparr>"
  have "\<exists>w. write_record (h_crates range_host) (\<lambda>_. None) ?r demo_wal = Ok w"
    by (simp add: range_host_def write_record_def encode_frame_def demo_wal_def wal_open_def set_sync_interval_def
        encode_record_def encryptor_new_def encryption_default_def Let_def)
  then obtain core' where run: "delete_range_cf range_host (\<lambda>_. None) 1 2 ''default'' [1] [4] demo_core = (Ok (), core')"
    by (auto simp: delete_range_cf_def log_phase_def on_wal_def wal_handle_def demo_core_def demo_wal_def Let_def)
  have e: "entry_at Map.empty demo_core ''default'' [1] = Some (log_record_new 0 [1] [2])"
    by (simp add: entry_at_def memtable_record_def mt_get_def)
  have "view Map.empty 9 core' ''default'' [1] = None"
    using engine_delete_range_correct [OF range_core_ok run, of 9 "''default''" "[1]"] e by simp
  moreover have "view Map.empty 9 demo_core ''default'' [1] = Some [2]"
    unfolding view_def e by (simp add: hidden_def covering_range_tombstone_ts_def option_max_def iterator_max_def List.map_filter_def
        max_covering_range_tombstone_def)
  ultimately show ?thesis using run by blast
qed

end
