(* ===== verification/Engine_Admin_Correct.thy ===== *)
theory Engine_Admin_Correct
  imports Engine_Admin Engine_Store
begin

text \<open>
  Correctness of the maintenance operations: when \<open>flush_all_memtables\<close> returns, what a compaction
  does to tables that were loaded from disk, and that clean-up keeps the files in use.
\<close>

subsection \<open>Flushing every memtable\<close>

lemma on_wal_memtables: "on_wal cf f core = (res, core') \<Longrightarrow> co_memtables core' = co_memtables core"
  using on_wal_same by (metis (no_types, lifting) engine_core.ext_inject engine_core.surjective engine_core.update_convs(5))

lemma bind_st_memtables:
  assumes "bind_st (r, core) f = (res, core')" and "\<And>a core2. f a core = (res, core') \<Longrightarrow> r = Ok a \<Longrightarrow> co_memtables core' = co_memtables core"
  shows "co_memtables core' = co_memtables core"
  using assms by (cases r) auto

lemma flush_popped_memtables:
  assumes "flush_popped H rng now options cf mem core = (res, core')"
  shows "co_memtables core' = co_memtables core"
proof -
  obtain r disk where w: "write_sst (h_crates H) rng (storage_config_of options) now (eo_encryption options) (sst_name ''flush'' now)
      (flush_entries now mem) (co_sst_dir core) = (r, disk)" by fastforce
  show ?thesis
    using assms w
    by (cases r; cases "from_sstable_path (h_crates H) disk (sst_name ''flush'' now) (Some (eo_encryption options))")
      (auto simp: flush_popped_def Let_def split: if_splits elim!: bind_st.elims dest!: on_wal_memtables)
qed

lemma flush_impl_memtables:
  assumes "map_of (co_memtables core) cf = Some ms" "ms \<noteq> []"
    and "flush_memtable_impl H rng now options cf core = (res, core')"
  shows "mt_data (last ms) \<noteq> [] \<Longrightarrow> co_memtables core' = AList.update cf (butlast ms) (co_memtables core)"
    and "mt_data (last ms) = [] \<Longrightarrow> res = Ok False \<and> co_memtables core' = co_memtables core"
proof -
  show "co_memtables core' = AList.update cf (butlast ms) (co_memtables core)" if "mt_data (last ms) \<noteq> []"
    using assms that by (auto simp: flush_memtable_impl_def dest: flush_popped_memtables)
  assume e: "mt_data (last ms) = []"
  obtain r core1 where o: "on_wal cf (\<lambda>w. Ok (wal_sync w)) core = (r, core1)" by fastforce
  have "r = Ok ()" using o by (auto simp: on_wal_def wal_handle_def Let_def update_conv' split: if_splits)
  then show "res = Ok False \<and> co_memtables core' = co_memtables core"
    using assms e o on_wal_memtables [OF o] by (simp add: flush_memtable_impl_def)
qed

abbreviation find_memtable :: "('bl, 'c, 'k) engine_core \<Rightarrow> (string \<times> memtable list) option" where
  "find_memtable core \<equiv> find (\<lambda>(_, mems). mems \<noteq> []) (co_memtables core)"

lemma find_memtable_Some:
  assumes "distinct (map fst (co_memtables core))" "find_memtable core = Some (cf, ms)"
  shows "map_of (co_memtables core) cf = Some ms" "ms \<noteq> []"
  using assms by (auto simp: find_Some_iff intro!: map_of_is_SomeI) (metis nth_mem)

lemma find_memtable_None: "find_memtable core = None \<Longrightarrow> memtables_of core cf = []"
  by (auto simp: find_None_iff memtables_of_def split: option.splits dest: map_of_SomeD)

lemma update_smaller:
  "distinct (map fst al) \<Longrightarrow> map_of al cf = Some ms \<Longrightarrow> ms \<noteq> [] \<Longrightarrow>
     sum_list (map (length \<circ> snd) (AList.update cf (butlast ms) al)) < sum_list (map (length \<circ> snd) al)"
  by (induction al) (auto split: if_splits)

definition all_hold_data :: "('bl, 'c, 'k) engine_core \<Rightarrow> bool" where
  "all_hold_data core \<longleftrightarrow>
     distinct (map fst (co_memtables core)) \<and> (\<forall>(cf, ms)\<in>set (co_memtables core). \<forall>m\<in>set ms. mt_data m \<noteq> [])"

lemma all_hold_data_update:
  assumes "all_hold_data core" "map_of (co_memtables core) cf = Some ms"
    and "co_memtables core' = AList.update cf (butlast ms) (co_memtables core)"
  shows "all_hold_data core'"
proof -
  have "\<forall>m\<in>set ms. mt_data m \<noteq> []" using assms(1,2) by (fastforce simp: all_hold_data_def dest: map_of_SomeD)
  moreover have "set (AList.update cf (butlast ms) (co_memtables core)) \<subseteq> insert (cf, butlast ms) (set (co_memtables core))"
    by (rule set_update_sub)
  ultimately show ?thesis
    using assms(1,3) by (fastforce simp: all_hold_data_def distinct_update dest: in_set_butlastD)
qed

lemma flush_all_loop_returns:
  assumes "all_hold_data core"
  shows "\<exists>res core'. flush_all_loop H rng clock options n core = Some (res, core') \<and> (res = Ok () \<longrightarrow> (\<forall>cf. memtables_of core' cf = []))"
  using assms
proof (induction "sum_list (map (length \<circ> snd) (co_memtables core))" arbitrary: core n rule: less_induct)
  case less
  show ?case
  proof (cases "find_memtable core")
    case None
    then show ?thesis by (subst flush_all_loop.simps) (simp add: find_memtable_None)
  next
    case (Some p)
    obtain cf ms where p: "p = (cf, ms)" by (cases p)
    have d: "distinct (map fst (co_memtables core))" using less.prems by (simp add: all_hold_data_def)
    note f = find_memtable_Some [OF d Some [unfolded p]]
    have "mt_data (last ms) \<noteq> []" using less.prems f by (fastforce simp: all_hold_data_def dest: map_of_SomeD)
    then have upd: "co_memtables core' = AList.update cf (butlast ms) (co_memtables core)"
      if "flush_memtable_impl H rng (clock n) options cf core = (res, core')" for res core'
      using flush_impl_memtables(1) [OF f that] by blast
    obtain res core' where r: "flush_memtable_impl H rng (clock n) options cf core = (res, core')" by fastforce
    show ?thesis
    proof (cases res)
      case (Ok b)
      have "\<exists>res core2. flush_all_loop H rng clock options (Suc n) core' = Some (res, core2) \<and> (res = Ok () \<longrightarrow> (\<forall>cf. memtables_of core2 cf = []))"
        using less.hyps [OF _ all_hold_data_update [OF less.prems f(1) upd [OF r]]] update_smaller [OF d f] upd [OF r] by simp
      then show ?thesis using Some p r Ok by (subst flush_all_loop.simps) simp
    qed (use Some p r in \<open>subst flush_all_loop.simps, simp\<close>)+
  qed
qed

text \<open>A memtable with range deletions only keeps the loop going.\<close>

lemma flush_all_loop_stuck:
  "\<forall>core n res. distinct (map fst (co_memtables core)) \<longrightarrow> find_memtable core = Some (cf, ms) \<longrightarrow> mt_data (last ms) = [] \<longrightarrow>
     flush_all_loop H rng clock options n core \<noteq> Some res"
proof -
  have "flush_all_loop H rng clock options n core = Some res \<Longrightarrow>
      \<not> (distinct (map fst (co_memtables core)) \<and> find_memtable core = Some (cf, ms) \<and> mt_data (last ms) = [])" for n core res
  proof (induction rule: flush_all_loop.raw_induct [rotated, consumes 1, case_names step])
    case (step loop H rng clock options n core res)
    show ?case
    proof
      assume stuck: "distinct (map fst (co_memtables core)) \<and> find_memtable core = Some (cf, ms) \<and> mt_data (last ms) = []"
      then have f: "map_of (co_memtables core) cf = Some ms" "ms \<noteq> []" using find_memtable_Some by blast+
      obtain r core' where r: "flush_memtable_impl H rng (clock n) options cf core = (r, core')" by fastforce
      then have "r = Ok False" "co_memtables core' = co_memtables core" using flush_impl_memtables(2) [OF f r] stuck by blast+
      then show False using step(1) [of H rng clock options "Suc n" core' res] step(2) r stuck by simp
    qed
  qed
  then show ?thesis by blast
qed

subsection \<open>Compaction of tables without in-memory values\<close>

lemma fold_same_bucket:
  "\<forall>t\<in>set ts. bucket_size_of (tb_size t) = b \<Longrightarrow>
     fold (\<lambda>(idx, t). push_bucket (bucket_size_of (tb_size t)) idx) (enumerate n ts) [(b, is)] = [(b, is @ [n..<n + length ts])]"
proof (induction ts arbitrary: n "is")
  case (Cons t ts)
  then show ?case using Cons.IH [of "Suc n" "is @ [n]"] by (simp add: upt_conv_Cons del: upt_Suc)
qed simp

lemma group_reloaded:
  assumes "\<forall>t\<in>set ts. tb_data t = []" "2 \<le> length ts"
  shows "group_into_buckets ts 2 = [[0..<length ts]]"
proof -
  obtain t ts' where ts: "ts = t # ts'" using assms(2) by (cases ts) auto
  have b: "\<forall>t\<in>set ts. bucket_size_of (tb_size t) = 64 * 1024" using assms(1) by (simp add: tb_size_def bucket_size_of_def)
  then have "fold (\<lambda>(idx, t). push_bucket (bucket_size_of (tb_size t)) idx) (enumerate 0 ts) [] = [(64 * 1024, [0..<length ts])]"
    using fold_same_bucket [of ts' "64 * 1024" 1 "[0]"] ts by (simp add: upt_conv_Cons del: upt_Suc)
  then show ?thesis using assms(2) by (simp add: group_into_buckets_def)
qed

lemma compact_reloaded_disk:
  assumes "\<forall>t\<in>set ts. tb_data t = []" "compact X rng now c is (map (tb_clone X) ts) enc rts disk = (r, disk')" "cc_strategy c = SizeTiered"
  shows "p \<noteq> sst_name ''sst'' now \<Longrightarrow> disk' p = disk p" "\<exists>m. r = Ok ([], m)"
proof -
  let ?tables = "map (\<lambda>i. tb_clone X (map (tb_clone X) ts ! i)) (List.filter (\<lambda>i. i < length ts) is)"
  have "\<forall>t\<in>set ?tables. tb_data t = []" using assms(1) by simp
  from merge_of_nothing [OF this] assms show "p \<noteq> sst_name ''sst'' now \<Longrightarrow> disk' p = disk p" "\<exists>m. r = Ok ([], m)"
    by (auto simp: compact_def execute_strategy_def execute_compaction_def Let_def split: if_splits)
qed

lemma map_filter_options: "List.map_filter f xs = map the (List.filter (\<lambda>a. a \<noteq> None) (map f xs))"
  by (induction xs) (auto simp: map_filter_simps split: option.splits)

lemma remove_files_eq: "remove_files ps disk p = (if p \<in> set ps then None else disk p)"
  unfolding remove_files_def by (induction ps arbitrary: disk) auto

lemma replace_all_tables:
  assumes "cf_tables vs cf = ts" "ts \<noteq> []"
  shows "\<exists>vs'. atomic_replace_groups H cf [([0..<length ts], [])] vs = (List.map_filter tb_path ts, vs') \<and> cf_tables vs' cf = [] \<and>
    (\<forall>cf'. cf' \<noteq> cf \<longrightarrow> cf_tables vs' cf' = cf_tables vs cf')"
proof -
  have m: "map_of (vs_tables vs) cf = Some ts" using assms by (auto simp: cf_tables_def split: option.splits)
  have c: "collect_groups (length ts) [([0..<length ts], [])] ([], []) = ([0..<length ts], [(0, [])])"
  proof -
    have "Min {0..<length ts} = 0" using assms(2) by (intro Min_eqI) auto
    moreover have "List.filter (\<lambda>i. i < length ts) [0..<length ts] = [0..<length ts]" by (simp add: filter_id_conv)
    ultimately show ?thesis using assms(2) by simp
  qed
  have "fst (replace_pass [0..<length ts] [(0, [])] 0 ts) = []"
    unfolding replace_pass_fst by (auto simp: concat_eq_Nil_conv in_set_enumerate_eq)
  moreover have "snd (replace_pass [0..<length ts] [(0, [])] 0 ts) = List.map_filter tb_path ts"
  proof -
    have "map (\<lambda>(i, t). if i < length ts then tb_path t else None) (enumerate 0 ts) = map tb_path ts"
      by (intro nth_equalityI) (auto simp: nth_enumerate_eq)
    then show ?thesis unfolding replace_pass_snd map_filter_options by simp
  qed
  ultimately have r: "replace_pass [0..<length ts] [(0, [])] 0 ts = ([], List.map_filter tb_path ts)" by (metis prod.collapse)
  show ?thesis
    unfolding atomic_replace_groups_def m c option.case prod.case r using assms(2) by (simp add: cf_tables_def clear_cache_def update_conv')
qed

lemma compact_cf_core_reloaded:
  assumes ts: "cf_tables (co_version_set core) cf = ts" "\<forall>t\<in>set ts. tb_data t = []" "2 \<le> length ts"
    and pick: "cp_compaction_threshold (cc_options (co_compaction core)) \<le> length ts" "cc_strategy (co_compaction core) = SizeTiered"
  shows "\<exists>m core'. compact_cf_core H rng clock options cf core = (Ok (Some m), core') \<and> cf_tables (co_version_set core') cf = [] \<and>
    (\<forall>t\<in>set ts. \<forall>p. tb_path t = Some p \<longrightarrow> co_sst_dir core' p = None)"
proof -
  let ?X = "h_crates H" and ?c = "co_compaction core" and ?ts = "map (tb_clone (h_crates H)) ts"
  have groups: "pick_compaction ?X (cc_strategy ?c) ?ts = [[0..<length ts]]"
    using group_reloaded [of ?ts] ts pick(2) by (simp add: pick_compaction_def)
  obtain r disk where c: "compact ?X rng (clock 0) ?c [0..<length ts] ?ts (eo_encryption options) (tombstones_of core cf) (co_sst_dir core) = (r, disk)"
    by fastforce
  obtain m where r: "r = Ok ([], m)" using compact_reloaded_disk(2) [OF ts(2) c pick(2)] by blast
  obtain vs' where vs: "atomic_replace_groups H cf [([0..<length ts], [])] (co_version_set core) = (List.map_filter tb_path ts, vs')" "cf_tables vs' cf = []"
    using replace_all_tables [OF ts(1), of H] ts(3) by (cases "ts = []") auto
  let ?core' = "core\<lparr>co_sst_dir := remove_files (List.map_filter tb_path ts) disk, co_version_set := vs'\<rparr>"
  have "compact_cf_core H rng clock options cf core = (Ok (Some (add_metrics metrics_default m)), ?core')"
    using ts pick groups c r vs(1) by (simp add: compact_cf_core_def get_tables_def replace_and_remove_def Let_def)
  moreover have "p \<in> set (List.map_filter tb_path ts)" if "t \<in> set ts" "tb_path t = Some p" for t p
    using that by (force simp: map_filter_options)
  ultimately show ?thesis using vs(2) by (auto simp: remove_files_eq)
qed

subsection \<open>An example\<close>

text \<open>A memtable that holds nothing but a range deletion.\<close>

definition range_only_core :: "(unit, unit, (bytes \<times> bytes) list) engine_core" where
  "range_only_core = add_range ''default'' (range_tombstone_new 1 [1] [4]) (demo_core\<lparr>co_memtables := []\<rparr>)"

subsection \<open>Properties\<close>

text \<open>C24: \<open>flush_all_memtables\<close>, which every snapshot runs first, returns when every memtable holds
  a record, and if it succeeds no memtable is left. When the first column family that has a memtable
  ends in one with range deletions only, it never returns.\<close>

theorem flush_all_returns:
  "(all_hold_data core \<longrightarrow>
      (\<exists>res core'. flush_all_memtables H rng clock options core = Some (res, core') \<and> (res = Ok () \<longrightarrow> (\<forall>cf. memtables_of core' cf = [])))) \<and>
   (distinct (map fst (co_memtables core)) \<and> find_memtable core = Some (cf, ms) \<and> mt_data (last ms) = [] \<longrightarrow>
      flush_all_memtables H rng clock options core = None)"
  using flush_all_loop_returns flush_all_loop_stuck unfolding flush_all_memtables_def by (metis option.exhaust)

theorem flush_all_returns_witness:
  "flush_all_memtables demo_host (\<lambda>_. None) (\<lambda>_. 0) demo_options range_only_core = None \<and>
   (\<exists>res core'. flush_all_memtables demo_host (\<lambda>_. None) (\<lambda>_. 0) demo_options demo_core = Some (res, core'))"
proof -
  have m: "co_memtables range_only_core = [(''default'', [add_range_tombstone (range_tombstone_new 1 [1] [4]) (memtable_new usize_max)])]"
    by (simp add: range_only_core_def add_range_def on_memtable_def demo_core_def memtables_of_def Let_def)
  have "all_hold_data demo_core" by (simp add: all_hold_data_def demo_core_def demo_memtable_def mt_put_def mt_insert_def memtable_new_def Let_def)
  then show ?thesis
    using flush_all_returns [of range_only_core demo_host "\<lambda>_. None" "\<lambda>_. 0" demo_options "''default''"]
      flush_all_returns [of demo_core demo_host "\<lambda>_. None" "\<lambda>_. 0" demo_options] m
    by (fastforce simp: add_range_tombstone_def memtable_new_def)
qed

end
