(* ===== verification/Wal_Recovery.thy ===== *)
theory Wal_Recovery
  imports Wal Sstable_Builder
begin

text \<open>
  What recovery of a write-ahead log returns: the reader of \<open>recover_locked\<close> followed through its
  buffer refills, the frames it gets to, torn and damaged frames, the removal of duplicates, and how
  much a crash can lose.
\<close>

subsection \<open>Reading through the buffer\<close>

text \<open>The reader is at \<open>pos\<close> of the file and has (up to the end of the file) \<open>left\<close> bytes buffered.\<close>

definition reader_at :: "bytes \<Rightarrow> nat \<Rightarrow> nat \<Rightarrow> buf_reader \<Rightarrow> bool" where
  "reader_at data pos left r \<longleftrightarrow> br_buf r = take left (drop pos data) \<and> br_file r = drop (pos + left) data"

definition refill :: "nat \<Rightarrow> nat" where
  "refill left = (if left = 0 then buf_capacity else left)"

definition left_after :: "nat \<Rightarrow> nat \<Rightarrow> nat" where
  "left_after n left =
     (if n = 0 then left
      else if left = 0 \<and> buf_capacity \<le> n then 0
      else if n \<le> refill left then refill left - n
      else if buf_capacity \<le> n - left then 0
      else buf_capacity - (n - left))"

lemma buf_capacity_pos [simp]: "0 < buf_capacity"
  by (simp add: buf_capacity_def)

lemma reader_at_start: "reader_at data 0 0 \<lparr>br_buf = [], br_file = data\<rparr>"
  by (simp add: reader_at_def)

lemma fill_buf_at: "reader_at data pos left r \<Longrightarrow> reader_at data pos (refill left) (fill_buf r)"
  by (auto simp: reader_at_def fill_buf_def refill_def add.commute)

lemma read_exact_zero [simp]: "read_exact 0 r = Some ([], r)"
  by (simp add: read_exact.simps)

lemma read_exact_direct:
  assumes "reader_at data pos 0 r" "pos + n \<le> length data" "buf_capacity \<le> n"
  shows "\<exists>r'. read_exact n r = Some (take n (drop pos data), r') \<and> reader_at data (pos + n) 0 r'"
proof -
  have "n \<noteq> 0" "br_buf r = []" "br_file r = drop pos data" "drop pos data \<noteq> []"
    using assms buf_capacity_pos by (auto simp: reader_at_def simp del: buf_capacity_pos)
  then show ?thesis
    using assms by (auto simp: read_exact.simps [of n r] reader_at_def min_def add.commute)
qed

lemma read_exact_buffered:
  assumes at: "reader_at data pos left r" and n: "pos + n \<le> length data" "n \<le> refill left" "\<not> (left = 0 \<and> buf_capacity \<le> n)"
  shows "\<exists>r'. read_exact n r = Some (take n (drop pos data), r') \<and> reader_at data (pos + n) (if n = 0 then left else refill left - n) r'"
proof (cases "n = 0")
  case False
  let ?f = "fill_buf r"
  have f: "br_buf ?f = take (refill left) (drop pos data)" "br_file ?f = drop (pos + refill left) data"
    using fill_buf_at [OF at] by (simp_all add: reader_at_def)
  have ne: "\<not> (br_buf r = [] \<and> br_file r = [])" "\<not> (br_buf r = [] \<and> buf_capacity \<le> n)"
    using at n False by (auto simp: reader_at_def)
  have "read_exact n r = (let got = take n (br_buf ?f)
         in case read_exact (n - length got) (?f\<lparr>br_buf := drop n (br_buf ?f)\<rparr>) of
              None \<Rightarrow> None | Some (rest, r') \<Rightarrow> Some (got @ rest, r'))"
    using ne False by (simp only: read_exact.simps [of n r] if_False Let_def)
  moreover have "length (take n (br_buf ?f)) = n" using n f by simp
  ultimately have "read_exact n r = Some (take n (br_buf ?f), ?f\<lparr>br_buf := drop n (br_buf ?f)\<rparr>)"
    by (simp only: Let_def diff_self_eq_0 read_exact_zero option.case prod.case append_Nil2)
  then show ?thesis
    using f n False by (auto simp: reader_at_def min_def drop_take add.commute)
qed (use at in simp)

lemma read_exact_at:
  assumes at: "reader_at data pos left r" and n: "pos + n \<le> length data"
  shows "\<exists>r'. read_exact n r = Some (take n (drop pos data), r') \<and> reader_at data (pos + n) (left_after n left) r'"
proof -
  consider (direct) "left = 0" "buf_capacity \<le> n" | (buffered) "n \<le> refill left" "\<not> (left = 0 \<and> buf_capacity \<le> n)"
    | (across) "left \<noteq> 0" "left < n"
    unfolding refill_def by (metis linorder_not_le nat_le_linear)
  then show ?thesis
  proof cases
    case direct
    with read_exact_direct [of data pos r n] at n buf_capacity_pos show ?thesis
      by (auto simp: left_after_def)
  next
    case buffered
    with read_exact_buffered [OF at n] show ?thesis by (auto simp: left_after_def)
  next
    case across
    let ?f = "fill_buf r" and ?r1 = "\<lparr>br_buf = [], br_file = drop (pos + left) data\<rparr>"
    have buf: "br_buf r \<noteq> []" "br_buf r = take left (drop pos data)" "br_file r = drop (pos + left) data"
      using at across n by (auto simp: reader_at_def)
    then have "?f = r" "length (take n (br_buf r)) = left" "take n (br_buf r) = take left (drop pos data)"
      "r\<lparr>br_buf := drop n (br_buf r)\<rparr> = ?r1"
      using across n by (auto simp: fill_buf_def min_def)
    then have step: "read_exact n r = (case read_exact (n - left) ?r1 of
        None \<Rightarrow> None | Some (rest, r') \<Rightarrow> Some (take left (drop pos data) @ rest, r'))"
      using across buf(1) by (simp only: read_exact.simps [of n r] if_False Let_def) simp
    have at1: "reader_at data (pos + left) 0 ?r1" by (simp add: reader_at_def)
    have "\<exists>r'. read_exact (n - left) ?r1 = Some (take (n - left) (drop (pos + left) data), r')
        \<and> reader_at data (pos + left + (n - left)) (left_after n left) r'"
      using read_exact_direct [OF at1, of "n - left"] read_exact_buffered [OF at1, of "n - left"] n across
      by (cases "buf_capacity \<le> n - left") (auto simp: left_after_def refill_def)
    moreover have "take left (drop pos data) @ take (n - left) (drop (pos + left) data) = take n (drop pos data)"
      using across take_add [of left "n - left" "drop pos data"] by (simp add: add.commute)
    ultimately show ?thesis using step across by auto
  qed
qed

subsection \<open>Frames\<close>

text \<open>A frame by its version byte, payload and stored checksum, which need not be the right one.\<close>

type_synonym raw_frame = "u8 \<times> bytes \<times> u32"

fun frame_bytes :: "raw_frame \<Rightarrow> bytes" where
  "frame_bytes (v, p, c) = u32_to_le (1 + word_of_nat (length p)) @ [v] @ p @ u32_to_le c"

fun frame_readable :: "raw_frame \<Rightarrow> bool" where
  "frame_readable (v, p, c) \<longleftrightarrow> length p < MAX_WAL_RECORD_BYTES"

fun frame_result ::
  "('bl, 'c) crates \<Rightarrow> legacy_codec \<Rightarrow> encryptor \<Rightarrow> raw_frame \<Rightarrow> log_record option outcome" where
  "frame_result X L e (v, p, c) =
     (if c \<noteq> x_crc32 X (u32_to_le (1 + word_of_nat (length p)) @ [v] @ p) then Ok None
      else decode_payload X L e v p)"

text \<open>The buffer after a frame of \<open>n\<close> bytes, \<open>9\<close> of which frame the payload.\<close>

definition frame_left :: "nat \<Rightarrow> nat \<Rightarrow> nat" where
  "frame_left n left = left_after 4 (left_after (n - 9) (left_after 1 (left_after 4 (refill left))))"

lemma length_frame_bytes [simp]: "length (frame_bytes (v, p, c)) = 9 + length p"
  by simp

lemma unat_frame_length:
  assumes "n < MAX_WAL_RECORD_BYTES" shows "unat (1 + word_of_nat n :: u32) = 1 + n"
proof -
  have "unat (word_of_nat (1 + n) :: u32) = 1 + n"
    using assms by (intro unat_of_nat_small) (simp add: MAX_WAL_RECORD_BYTES_def)
  then show ?thesis by simp
qed

lemma take_drop_split: "drop i data = xs @ ys \<Longrightarrow> length xs = n \<Longrightarrow> take n (drop i data) = xs"
  by simp

lemma read_exact_drop:
  assumes "reader_at data pos left r" "drop pos data = xs @ ys" "xs \<noteq> []"
  shows "\<exists>r'. read_exact (length xs) r = Some (xs, r') \<and> reader_at data (pos + length xs) (left_after (length xs) left) r'
    \<and> drop (pos + length xs) data = ys"
proof -
  have "pos + length xs \<le> length data" using drop_length [OF assms(2)] assms(3) by simp
  from read_exact_at [OF assms(1) this] show ?thesis
    using assms(2) drop_step [OF assms(2)] by auto
qed

lemma recover_step_frame:
  assumes at: "reader_at data pos left r" and data: "drop pos data = frame_bytes (v, p, c) @ rest"
    and small: "length p < MAX_WAL_RECORD_BYTES" and left: "4 \<le> refill left"
  shows "\<exists>r'. recover_step X L e (length data) r pos =
      and_then (frame_result X L e (v, p, c)) (\<lambda>rec. Ok (Next r' (pos + (9 + length p)) rec))
    \<and> reader_at data (pos + (9 + length p)) (frame_left (9 + length p) left) r'"
proof -
  let ?lb = "u32_to_le (1 + word_of_nat (length p))"
  have data: "drop pos data = ?lb @ [v] @ p @ u32_to_le c @ rest" using data by simp
  have len: "length data = pos + (9 + length p + length rest)"
    using drop_length [OF data] by simp
  note at0 = fill_buf_at [OF at]
  obtain r1 where r1: "read_exact 4 (fill_buf r) = Some (?lb, r1)" "reader_at data (pos + 4) (left_after 4 (refill left)) r1"
    and d1: "drop (pos + 4) data = [v] @ p @ u32_to_le c @ rest"
    using read_exact_drop [OF at0 data] by auto
  obtain r2 where r2: "read_exact 1 r1 = Some ([v], r2)"
    "reader_at data (pos + 5) (left_after 1 (left_after 4 (refill left))) r2"
    and d2: "drop (pos + 5) data = p @ u32_to_le c @ rest"
    using read_exact_drop [OF r1(2) d1] by (auto simp: numeral_eq_Suc)
  obtain r3 where r3: "read_exact (length p) r2 = Some (p, r3)"
    "reader_at data (pos + 5 + length p) (left_after (length p) (left_after 1 (left_after 4 (refill left)))) r3"
    using read_exact_at [OF r2(2), of "length p"] len d2 by auto
  have d3: "drop (pos + 5 + length p) data = u32_to_le c @ rest" using drop_step [OF d2] .
  obtain r4 where r4: "read_exact 4 r3 = Some (u32_to_le c, r4)"
    "reader_at data (pos + (9 + length p)) (frame_left (9 + length p) left) r4"
    using read_exact_drop [OF r3(2) d3] by (auto simp: frame_left_def add.commute add.left_commute)
  have buf: "\<not> length (br_buf (fill_buf r)) < 4" using at0 len left by (simp add: reader_at_def)
  have "recover_step X L e (length data) r pos =
      and_then (frame_result X L e (v, p, c)) (\<lambda>rec. Ok (Next r4 (pos + (9 + length p)) rec))"
    using r1(1) r2(1) r3(1) r4(1) buf small len unat_frame_length [OF small]
    by (simp add: recover_step_def Let_def add.commute add.left_commute)
  with r4(2) show ?thesis by blast
qed

lemma recover_step_boundary:
  assumes "reader_at data pos left r" "refill left < 4"
  shows "recover_step X L e fs r pos = Ok Done"
proof -
  have "length (br_buf (fill_buf r)) < 4" using fill_buf_at [OF assms(1)] assms(2) by (auto simp: reader_at_def)
  then show ?thesis by (simp add: recover_step_def Let_def)
qed

subsection \<open>The frames that recovery gets to\<close>

text \<open>
  Recovery takes fewer than four buffered bytes for the end of the log, even when the file goes on.
  So it stops at the first frame that starts in the last three bytes of the buffer.
\<close>

fun reached :: "nat \<Rightarrow> nat list \<Rightarrow> nat" where
  "reached left [] = 0"
| "reached left (n # ns) = (if refill left < 4 then 0 else Suc (reached (frame_left n left) ns))"

fun frame_records ::
  "('bl, 'c) crates \<Rightarrow> legacy_codec \<Rightarrow> encryptor \<Rightarrow> raw_frame list \<Rightarrow> log_record list outcome" where
  "frame_records X L e [] = Ok []"
| "frame_records X L e (f # fs) =
     and_then (frame_result X L e f) (\<lambda>rec.
       and_then (frame_records X L e fs) (\<lambda>recs. Ok ((case rec of None \<Rightarrow> [] | Some x \<Rightarrow> [x]) @ recs)))"

text \<open>What a crash in the middle of a write leaves at the end of the file.\<close>

definition torn_tail :: "bytes \<Rightarrow> bool" where
  "torn_tail t \<longleftrightarrow> length t < 44 \<and>
     (t = [] \<or> (\<exists>f us. frame_readable f \<and> us \<noteq> [] \<and> frame_bytes f = t @ us))"

lemma resync_too_late: "fs < pos + 40 \<Longrightarrow> resync n r pos fs = None"
proof (induction n r pos fs rule: resync.induct)
  case (2 n r pos fs)
  then show ?case by (auto simp: Let_def split: option.splits)
qed simp

lemma recover_step_torn:
  assumes at: "reader_at data pos left r" and tail: "drop pos data = t" "torn_tail t"
  shows "recover_step X L e (length data) r pos = Ok Done"
proof (cases "length (br_buf (fill_buf r)) < 4")
  case True
  then show ?thesis by (simp add: recover_step_def Let_def)
next
  case False
  note at0 = fill_buf_at [OF at]
  have long: "4 \<le> length t" using False at0 tail(1) by (auto simp: reader_at_def)
  then obtain v p c us where f: "length p < MAX_WAL_RECORD_BYTES" "us \<noteq> []" "frame_bytes (v, p, c) = t @ us"
    using tail(2) by (auto simp: torn_tail_def)
  have len: "length data = pos + length t" using tail(1) long by auto
  have "take 4 t = u32_to_le (1 + word_of_nat (length p))"
    using arg_cong [OF f(3), of "take 4"] long by simp
  then obtain r1 where r1: "read_exact 4 (fill_buf r) = Some (u32_to_le (1 + word_of_nat (length p)), r1)"
    using read_exact_at [OF at0, of 4] len long tail(1) by auto
  have short: "length t < 9 + length p"
    using arg_cong [OF f(3), of length] f(2) by (simp only: length_append length_frame_bytes) auto
  have "resync MAX_WAL_RECORD_BYTES r1 (pos + 4) (length data) = None"
    using tail(2) by (intro resync_too_late) (auto simp: len torn_tail_def)
  then show ?thesis
    using False r1 f(1) short unat_frame_length [OF f(1)]
    by (simp add: recover_step_def Let_def after_bad_length_def len)
qed

lemma recover_loop_frames:
  assumes "reader_at data pos left r" "drop pos data = concat (map frame_bytes fs) @ t" "torn_tail t"
    and "\<forall>f\<in>set fs. frame_readable f"
  shows "recover_loop X L e (length data) r pos recs =
    and_then (frame_records X L e (take (reached left (map (length \<circ> frame_bytes) fs)) fs)) (\<lambda>rs. Ok (recs @ rs))"
  using assms
proof (induction fs arbitrary: pos left r recs)
  case Nil
  then have "recover_step X L e (length data) r pos = Ok Done"
    using recover_step_torn [OF Nil(1) _ Nil(3)] by simp
  then show ?case by (simp add: recover_loop.simps [of X L e "length data" r pos])
next
  case (Cons f fs)
  obtain v p c where f: "f = (v, p, c)" by (cases f)
  show ?case
  proof (cases "refill left < 4")
    case True
    then show ?thesis
      using Cons.prems(1) by (simp add: recover_loop.simps [of X L e "length data" r pos] recover_step_boundary)
  next
    case False
    have data: "drop pos data = frame_bytes (v, p, c) @ concat (map frame_bytes fs) @ t"
      using Cons.prems(2) f by simp
    obtain r' where r': "recover_step X L e (length data) r pos =
        and_then (frame_result X L e f) (\<lambda>rec. Ok (Next r' (pos + (9 + length p)) rec))"
      "reader_at data (pos + (9 + length p)) (frame_left (9 + length p) left) r'"
      using recover_step_frame [OF Cons.prems(1) data, of X L e] Cons.prems(4) f False
      by (auto simp del: frame_result.simps)
    have rest: "drop (pos + (9 + length p)) data = concat (map frame_bytes fs) @ t"
      using drop_step [OF data] by (simp only: length_frame_bytes)
    note IH = Cons.IH [OF r'(2) rest Cons.prems(3)]
    have n: "length (frame_bytes f) = 9 + length p" by (simp only: f length_frame_bytes)
    have fsok: "\<forall>f\<in>set fs. frame_readable f" using Cons.prems(4) by simp
    show ?thesis
      unfolding recover_loop.simps [of X L e "length data" r] r'(1)
      by (cases "frame_result X L e f") (simp_all add: IH [OF fsok] and_then_assoc False n del: frame_bytes.simps)
  qed
qed

subsection \<open>What was written\<close>

text \<open>The size of the frame of a record, from the encoded record alone.\<close>

definition encoded_size :: "('bl, 'c) crates \<Rightarrow> log_record \<Rightarrow> nat" where
  "encoded_size X r = (case x_encode_record X r of None \<Rightarrow> 0 | Some bs \<Rightarrow> length bs)"

definition frame_size :: "('bl, 'c) crates \<Rightarrow> encryptor \<Rightarrow> log_record \<Rightarrow> nat" where
  "frame_size X e r = 9 + encoded_size X r + (if en_enabled e then 28 else 0)"

definition frame_of :: "('bl, 'c) crates \<Rightarrow> legacy_codec \<Rightarrow> encryptor \<Rightarrow> raw_frame \<Rightarrow> log_record \<Rightarrow> bool" where
  "frame_of X L e f r \<longleftrightarrow> frame_result X L e f = Ok (Some r) \<and> length (frame_bytes f) = frame_size X e r"

lemma encode_frame_sound:
  assumes "encode_frame X rng e d r = Ok (frame, d')" and laws: "crate_laws X rng"
  shows "\<exists>f. frame = frame_bytes f \<and> frame_of X L e f r"
proof -
  have law: "postcard_law X" "aes_law X" "\<forall>n. rng d = Some n \<longrightarrow> length n = 12"
    using laws by (auto simp: crate_laws_def rng_law_def)
  obtain bs where bs: "x_encode_record X r = Some bs" "x_decode_record X bs = Some r"
    using assms(1) law(1) by (auto simp: encode_frame_def encode_record_def postcard_law_def)
  show ?thesis
  proof (cases "en_enabled e")
    case True
    then obtain c where c: "encrypt_block X e (rng d) bs = Ok c" "frame = wal_frame X 3 c"
      using assms(1) bs by (auto simp: encode_frame_def encode_record_def)
    have dec: "decrypt_for_recovery X e c = Ok bs"
      using decrypt_encrypt_block [OF law(2) c(1) law(3)] True by (rule decrypt_for_recovery_enabled [rotated])
    have len: "length c = length bs + 28"
      using c(1) True law by (auto simp: encrypt_block_def aes_law_def)
    let ?f = "(3, c, x_crc32 X (u32_to_le (1 + word_of_nat (length c)) @ [3] @ c))"
    have "frame = frame_bytes ?f" using c(2) by (simp add: wal_frame_def Let_def)
    moreover have "frame_of X L e ?f r"
      using dec bs True len
      by (simp add: frame_of_def decode_payload_def decode_record_def frame_size_def encoded_size_def)
    ultimately show ?thesis by blast
  next
    case False
    let ?f = "(2, bs, x_crc32 X (u32_to_le (1 + word_of_nat (length bs)) @ [2] @ bs))"
    have "frame = frame_bytes ?f"
      using assms(1) bs False by (simp add: encode_frame_def encode_record_def wal_frame_def Let_def)
    moreover have "frame_of X L e ?f r"
      using bs False by (simp add: frame_of_def decode_payload_def frame_size_def encoded_size_def)
    ultimately show ?thesis by blast
  qed
qed

text \<open>A log that holds the frames of \<open>rs\<close>.\<close>

definition wal_holds :: "('bl, 'c) crates \<Rightarrow> legacy_codec \<Rightarrow> raw_frame list \<Rightarrow> log_record list \<Rightarrow> wal \<Rightarrow> bool" where
  "wal_holds X L fs rs w \<longleftrightarrow>
     wal_file w = concat (map frame_bytes fs) \<and> list_all2 (frame_of X L (wal_encryptor w)) fs rs"

lemma wal_holds_empty: "wal_file w = [] \<Longrightarrow> wal_holds X L [] [] w"
  by (simp add: wal_holds_def)

lemma write_record_holds:
  assumes "write_record X rng r w = Ok w'" "wal_holds X L fs rs w" "crate_laws X rng"
  shows "wal_encryptor w' = wal_encryptor w \<and> wal_sync_interval w' = wal_sync_interval w
    \<and> (\<exists>f. wal_holds X L (fs @ [f]) (rs @ [r]) w')"
proof -
  obtain frame d where fr: "encode_frame X rng (wal_encryptor w) (wal_rng w) r = Ok (frame, d)"
    "wal_file w' = wal_file w @ frame" "wal_encryptor w' = wal_encryptor w" "wal_sync_interval w' = wal_sync_interval w"
    using assms(1) by (auto simp: write_record_def Let_def split: if_splits)
  obtain f where f: "frame = frame_bytes f" "frame_of X L (wal_encryptor w) f r"
    using encode_frame_sound [OF fr(1) assms(3)] by blast
  then have "wal_holds X L (fs @ [f]) (rs @ [r]) w'"
    using assms(2) fr by (auto simp: wal_holds_def simp del: frame_bytes.simps intro!: list_all2_appendI)
  then show ?thesis using fr by blast
qed

lemma encode_frames_sound:
  assumes "encode_frames X rng e d rs = Ok (frames, d')" "crate_laws X rng"
  shows "\<exists>fs. frames = map frame_bytes fs \<and> list_all2 (frame_of X L e) fs rs"
  using assms(1)
proof (induction rs arbitrary: d frames)
  case (Cons r rs)
  then obtain frame d1 frames' where fr: "encode_frame X rng e d r = Ok (frame, d1)"
    "encode_frames X rng e d1 rs = Ok (frames', d')" "frames = frame # frames'"
    by auto
  obtain f where "frame = frame_bytes f" "frame_of X L e f r" using encode_frame_sound [OF fr(1) assms(2)] by blast
  moreover obtain fs where "frames' = map frame_bytes fs" "list_all2 (frame_of X L e) fs rs"
    using Cons.IH [OF fr(2)] by blast
  ultimately show ?case using fr(3) by (intro exI [of _ "f # fs"]) simp
qed simp

lemma frame_records_of:
  "list_all2 (frame_of X L e) fs rs \<Longrightarrow> frame_records X L e (take n fs) = Ok (take n rs)"
  by (induction fs rs arbitrary: n rule: list_all2_induct)
    (auto simp: frame_of_def take_Cons split: nat.splits simp del: frame_result.simps)

lemma frame_of_sizes:
  "list_all2 (frame_of X L e) fs rs \<Longrightarrow> map (length \<circ> frame_bytes) fs = map (frame_size X e) rs"
  by (induction rule: list_all2_induct) (auto simp: frame_of_def)

lemma frame_of_readable:
  assumes "list_all2 (frame_of X L e) fs rs" "\<forall>r\<in>set rs. encoded_size X r + 28 < MAX_WAL_RECORD_BYTES"
  shows "\<forall>f\<in>set fs. frame_readable f"
  using assms
proof (induction rule: list_all2_induct)
  case (Cons f fs r rs)
  obtain v p c where f: "f = (v, p, c)" by (cases f)
  have "9 + length p \<le> 9 + encoded_size X r + 28"
    using Cons.hyps(1) unfolding f frame_of_def length_frame_bytes frame_size_def by auto
  with Cons f show ?case by simp
qed simp

lemma recover_locked_holds:
  assumes holds: "list_all2 (frame_of X L (wal_encryptor w)) fs rs" "wal_file w = concat (map frame_bytes fs) @ t"
    and tail: "torn_tail t" and small: "\<forall>r\<in>set rs. encoded_size X r + 28 < MAX_WAL_RECORD_BYTES"
  shows "recover_locked X L w =
    Ok (deduplicate_records (take (reached 0 (map (frame_size X (wal_encryptor w)) rs)) rs),
        w\<lparr>wal_synced := length (wal_file w)\<rparr>)"
  using recover_loop_frames [OF reader_at_start _ tail frame_of_readable [OF holds(1) small], of "wal_file w" X L
      "wal_encryptor w" "[]"] holds frame_records_of [OF holds(1)]
  by (simp add: recover_locked_def Let_def frame_of_sizes [OF holds(1)] del: map_map)

subsection \<open>Sequences of writes and crashes\<close>

fun write_all ::
  "('bl, 'c) crates \<Rightarrow> (nat \<Rightarrow> bytes option) \<Rightarrow> log_record list \<Rightarrow> wal \<Rightarrow> wal outcome" where
  "write_all X rng [] w = Ok w"
| "write_all X rng (r # rs) w = and_then (write_record X rng r w) (write_all X rng rs)"

text \<open>All frames but the last \<open>wal_batch_count\<close> have been fsynced.\<close>

definition sync_inv :: "raw_frame list \<Rightarrow> wal \<Rightarrow> bool" where
  "sync_inv fs w \<longleftrightarrow> wal_batch_count w < wal_sync_interval w \<and> wal_batch_count w \<le> length fs \<and>
     length (concat (map frame_bytes (take (length fs - wal_batch_count w) fs))) \<le> wal_synced w"

lemma sync_inv_write:
  assumes "write_record X rng r w = Ok w'" "sync_inv fs w" "wal_file w' = concat (map frame_bytes (fs @ [f]))"
  shows "sync_inv (fs @ [f]) w'"
proof -
  have "wal_sync_interval w' = wal_sync_interval w"
    and "wal_batch_count w' = 0 \<and> wal_synced w' = length (wal_file w') \<or>
      wal_batch_count w' = Suc (wal_batch_count w) \<and> wal_synced w' = wal_synced w \<and> Suc (wal_batch_count w) < wal_sync_interval w"
    using assms(1) by (auto simp: write_record_def Let_def not_le split: if_splits)
  then show ?thesis
    using assms(2,3) by (auto simp: sync_inv_def simp del: frame_bytes.simps)
qed

lemma write_all_holds:
  assumes "write_all X rng rs w = Ok w'" "wal_holds X L fs0 rs0 w" "sync_inv fs0 w" "crate_laws X rng"
  shows "\<exists>fs. wal_holds X L fs (rs0 @ rs) w' \<and> sync_inv fs w' \<and> wal_encryptor w' = wal_encryptor w
    \<and> wal_sync_interval w' = wal_sync_interval w"
  using assms(1-3)
proof (induction rs arbitrary: w fs0 rs0)
  case (Cons r rs)
  then obtain w1 where w1: "write_record X rng r w = Ok w1" "write_all X rng rs w1 = Ok w'" by auto
  obtain f where f: "wal_holds X L (fs0 @ [f]) (rs0 @ [r]) w1"
    and same: "wal_encryptor w1 = wal_encryptor w" "wal_sync_interval w1 = wal_sync_interval w"
    using write_record_holds [OF w1(1) Cons.prems(2) assms(4)] by blast
  have "sync_inv (fs0 @ [f]) w1"
    using sync_inv_write [OF w1(1) Cons.prems(3)] f by (simp add: wal_holds_def)
  with Cons.IH [OF w1(2) f] same show ?case by simp
qed (auto simp: wal_holds_def)

lemma write_all_new:
  assumes "write_all X rng rs (set_sync_interval n (wal_open [] enc)) = Ok w" "0 < n" "crate_laws X rng"
  shows "\<exists>fs. wal_holds X L fs rs w \<and> sync_inv fs w \<and> wal_encryptor w = encryptor_new enc \<and> wal_sync_interval w = n"
  using write_all_holds [OF assms(1), of L "[]" "[]"] assms(2,3)
  by (auto simp: wal_holds_def sync_inv_def set_sync_interval_def wal_open_def)

text \<open>Where a cut at \<open>k\<close> falls in a concatenation.\<close>

lemma take_concat_cut:
  "\<exists>m t. m \<le> length xs \<and> take k (concat xs) = concat (take m xs) @ t
    \<and> (m = length xs \<and> t = [] \<or> m < length xs \<and> k < length (concat (take (Suc m) xs)) \<and> (\<exists>us. us \<noteq> [] \<and> xs ! m = t @ us))"
proof (induction xs arbitrary: k)
  case (Cons x xs)
  show ?case
  proof (cases "k < length x")
    case True
    then show ?thesis
      by (intro exI [of _ 0] exI [of _ "take k x"] conjI)
        (auto intro!: exI [of _ "drop k x"])
  next
    case False
    obtain m t where m: "m \<le> length xs" "take (k - length x) (concat xs) = concat (take m xs) @ t"
      "m = length xs \<and> t = [] \<or> m < length xs \<and> k - length x < length (concat (take (Suc m) xs)) \<and> (\<exists>us. us \<noteq> [] \<and> xs ! m = t @ us)"
      using Cons.IH by blast
    then show ?thesis
      using False by (intro exI [of _ "Suc m"] exI [of _ t]) auto
  qed
qed simp

lemma cut_covers:
  assumes "k < length (concat (take (Suc m) xs))" "length (concat (take n xs)) \<le> k"
  shows "n \<le> m"
proof (rule ccontr)
  assume "\<not> n \<le> m"
  then have "take n xs = take (Suc m) xs @ take (n - Suc m) (drop (Suc m) xs)"
    by (metis Suc_leI le_add_diff_inverse not_le take_add)
  then have "length (concat (take (Suc m) xs)) \<le> length (concat (take n xs))" by simp
  with assms show False by simp
qed

text \<open>A record too large to be read back would be lost; the properties are about smaller ones.\<close>

definition fits_log :: "('bl, 'c) crates \<Rightarrow> log_record \<Rightarrow> bool" where
  "fits_log X r \<longleftrightarrow> encoded_size X r + 28 < MAX_WAL_RECORD_BYTES"

text \<open>The records of \<open>rs\<close> that a recovery gets to.\<close>

definition recovered :: "('bl, 'c) crates \<Rightarrow> encryptor \<Rightarrow> log_record list \<Rightarrow> log_record list" where
  "recovered X e rs = take (reached 0 (map (frame_size X e) rs)) rs"

lemma recover_locked_cut:
  assumes "list_all2 (frame_of X L (wal_encryptor w)) fs rs" "wal_file w = concat (map frame_bytes fs) @ t"
    and "torn_tail t" "\<forall>r\<in>set rs. fits_log X r"
  shows "recover_locked X L w =
    Ok (deduplicate_records (recovered X (wal_encryptor w) rs), w\<lparr>wal_synced := length (wal_file w)\<rparr>)"
  using recover_locked_holds [OF assms(1-3)] assms(4) by (simp add: fits_log_def recovered_def)

lemma torn_frame:
  assumes "list_all2 (frame_of X L e) fs rs" "\<forall>r\<in>set rs. fits_log X r" "m < length fs"
    and "frame_bytes (fs ! m) = t @ us" "us \<noteq> []" "length t < 44"
  shows "torn_tail t"
proof -
  have "frame_readable (fs ! m)"
    using frame_of_readable [OF assms(1)] assms(2,3) by (simp add: fits_log_def)
  then show ?thesis using assms(4-6) unfolding torn_tail_def by blast
qed

lemma left_after_within: "n \<le> left \<Longrightarrow> 0 < left \<Longrightarrow> left_after n left = left - n"
  by (simp add: left_after_def refill_def)

lemma frame_left_within: "9 \<le> n \<Longrightarrow> n < left \<Longrightarrow> frame_left n left = left - n"
  unfolding frame_left_def refill_def by (simp add: left_after_within)

lemma reached_within:
  assumes "sum_list ns < left" "\<forall>n\<in>set ns. 9 \<le> n"
  shows "reached left (ns @ ms) = length ns + reached (left - sum_list ns) ms"
  using assms
proof (induction ns arbitrary: left)
  case (Cons n ns)
  then have n: "9 \<le> n" "n < left" by auto
  with Cons.IH [of "left - n"] Cons.prems show ?case by (simp add: refill_def frame_left_within)
qed simp

lemma reached_start: "reached 0 ns = reached buf_capacity ns"
  by (cases ns) (simp_all add: refill_def frame_left_def)

lemma recovered_boundary:
  assumes "buf_capacity - 4 < sum_list (map (frame_size X e) rs1)" "sum_list (map (frame_size X e) rs1) < buf_capacity"
  shows "recovered X e (rs1 @ rs2) = rs1"
proof -
  have "reached (buf_capacity - sum_list (map (frame_size X e) rs1)) ns = 0" for ns
    using assms by (cases ns) (auto simp: refill_def)
  then show ?thesis
    using reached_within [OF assms(2)] by (simp add: recovered_def reached_start frame_size_def)
qed

lemma crash_cut:
  assumes holds: "wal_holds X L fs rs w" "sync_inv fs w" and small: "\<forall>r\<in>set rs. fits_log X r" and cut: "wal_synced w \<le> k"
  shows "\<exists>m t. m \<le> length fs \<and> take k (wal_file w) = concat (map frame_bytes (take m fs)) @ t \<and>
    length fs \<le> m + wal_batch_count w \<and> (length t < 44 \<longrightarrow> torn_tail t)"
proof -
  have "file": "wal_file w = concat (map frame_bytes fs)" and all2: "list_all2 (frame_of X L (wal_encryptor w)) fs rs"
    using holds(1) by (simp_all add: wal_holds_def)
  obtain m t where m: "m \<le> length fs" "take k (wal_file w) = concat (map frame_bytes (take m fs)) @ t"
    and t: "m = length fs \<and> t = [] \<or> m < length fs \<and> k < length (concat (take (Suc m) (map frame_bytes fs)))
      \<and> (\<exists>us. us \<noteq> [] \<and> frame_bytes (fs ! m) = t @ us)"
  proof -
    obtain m t where c: "m \<le> length (map frame_bytes fs)"
      "take k (concat (map frame_bytes fs)) = concat (take m (map frame_bytes fs)) @ t"
      "m = length (map frame_bytes fs) \<and> t = [] \<or> m < length (map frame_bytes fs) \<and>
        k < length (concat (take (Suc m) (map frame_bytes fs))) \<and> (\<exists>us. us \<noteq> [] \<and> map frame_bytes fs ! m = t @ us)"
      using take_concat_cut by blast
    show thesis
      by (rule that [of m t]) (use c "file" in \<open>auto simp: take_map\<close>)
  qed
  have "length (concat (take (length fs - wal_batch_count w) (map frame_bytes fs))) \<le> k"
    using holds(2) cut by (simp add: sync_inv_def take_map)
  then have "length fs - wal_batch_count w \<le> m"
    using t cut_covers [of k m "map frame_bytes fs"] by auto
  moreover have "length t < 44 \<longrightarrow> torn_tail t"
    using t torn_frame [OF all2 small] by (auto simp: torn_tail_def)
  ultimately show ?thesis using m by auto
qed

lemma take_frames:
  assumes "list_all2 (frame_of X L e) fs rs"
  shows "concat (map frame_bytes (take m fs)) = take (sum_list (map (frame_size X e) (take m rs))) (concat (map frame_bytes fs))"
proof -
  have "length (concat (map frame_bytes (take m fs))) = sum_list (map (frame_size X e) (take m rs))"
    unfolding frame_of_sizes [OF list_all2_takeI [OF assms], symmetric] by (simp add: length_concat)
  moreover have "concat (map frame_bytes fs) = concat (map frame_bytes (take m fs)) @ concat (map frame_bytes (drop m fs))"
    by (metis append_take_drop_id concat_append map_append)
  ultimately show ?thesis by simp
qed

lemma recover_written:
  assumes "write_all X rng rs (wal_open [] enc) = Ok w" and "crate_laws X rng" and "\<forall>r\<in>set rs. fits_log X r"
  shows "recover_locked X L w =
    Ok (deduplicate_records (recovered X (encryptor_new enc) rs), w\<lparr>wal_synced := length (wal_file w)\<rparr>)"
proof -
  have "write_all X rng rs (set_sync_interval WAL_SYNC_INTERVAL (wal_open [] enc)) = Ok w"
    using assms(1) by (simp add: set_sync_interval_def wal_open_def)
  from write_all_new [OF this _ assms(2), of L] obtain fs
    where "wal_holds X L fs rs w" "wal_encryptor w = encryptor_new enc"
    by (auto simp: WAL_SYNC_INTERVAL_def)
  then show ?thesis
    using recover_locked_cut [of X L w fs rs "[]"] assms(3) by (auto simp: wal_holds_def torn_tail_def)
qed

text \<open>Two writes of one key, for the instances of the properties.\<close>

definition demo_legacy :: legacy_codec where
  "demo_legacy = \<lparr>lc_decode_v0 = (\<lambda>_. None), lc_decode_v1 = (\<lambda>_. None)\<rparr>"

definition demo_writes :: "log_record list" where
  "demo_writes = [log_record_new 0 [1] [2], log_record_new 0 [1] [3]]"

definition demo_log :: wal where
  "demo_log = \<lparr>wal_file = [3, 0, 0, 0, 2, 1, 2, 7, 0, 0, 0, 3, 0, 0, 0, 2, 1, 3, 7, 0, 0, 0], wal_synced = 0,
     wal_batch_count = 2, wal_encryptor = encryptor_new encryption_default, wal_sync_interval = 4, wal_rng = 0\<rparr>"

lemma plain_laws: "crate_laws plain_crates (\<lambda>_. None)"
  by (simp add: crate_laws_def rng_law_def plain_crates_laws)

lemma demo_log_written:
  "write_all plain_crates (\<lambda>_. None) demo_writes (wal_open [] encryption_default) = Ok demo_log"
  "write_all plain_crates (\<lambda>_. None) demo_writes (set_sync_interval 4 (wal_open [] encryption_default)) = Ok demo_log"
  "\<forall>r\<in>set demo_writes. fits_log plain_crates r"
  "recovered plain_crates (encryptor_new encryption_default) demo_writes = demo_writes"
  "deduplicate_records demo_writes = [log_record_new 0 [1] [3]]"
  by code_simp+

subsection \<open>Properties\<close>

text \<open>C9: recovery of a log to which records were written one by one, in any number, plain or
  encrypted, returns the records written up to the first one whose frame starts in the last three
  bytes of the read buffer, without duplicates.\<close>

theorem wal_recovers_writes:
  assumes "write_all X rng rs (wal_open [] enc) = Ok w" and "crate_laws X rng" and "\<forall>r\<in>set rs. fits_log X r"
  shows "recover_locked X L w =
    Ok (deduplicate_records (recovered X (encryptor_new enc) rs), w\<lparr>wal_synced := length (wal_file w)\<rparr>)"
  using assms by (rule recover_written)

theorem wal_recovers_writes_witness:
  "recover_locked plain_crates demo_legacy demo_log = Ok ([log_record_new 0 [1] [3]], demo_log\<lparr>wal_synced := 22\<rparr>)"
  using wal_recovers_writes [OF demo_log_written(1) plain_laws demo_log_written(3), of demo_legacy]
  by (simp add: demo_log_written(4,5)) (simp add: demo_log_def)



text \<open>C33: the buffer boundary loses acknowledged records: when the frames of \<open>rs1\<close> end in the last
  three bytes of the first 8 KiB, recovery returns none of the records \<open>rs2\<close> written after them.\<close>

theorem wal_recovery_stops_at_buffer_end:
  assumes "write_all X rng (rs1 @ rs2) (wal_open [] enc) = Ok w" and "crate_laws X rng"
    and "\<forall>r\<in>set (rs1 @ rs2). fits_log X r"
    and "buf_capacity - 4 < sum_list (map (frame_size X (encryptor_new enc)) rs1)"
    and "sum_list (map (frame_size X (encryptor_new enc)) rs1) < buf_capacity"
  shows "recover_locked X L w = Ok (deduplicate_records rs1, w\<lparr>wal_synced := length (wal_file w)\<rparr>)"
  using recover_written [OF assms(1-3)] recovered_boundary [OF assms(4,5)] by simp

theorem wal_recovery_stops_at_buffer_end_witness:
  "\<exists>w. write_all plain_crates (\<lambda>_. None) [log_record_new 0 [1] (replicate 8179 0), log_record_new 0 [2] [2]]
        (wal_open [] encryption_default) = Ok w \<and>
     (\<exists>w'. recover_locked plain_crates demo_legacy w =
        Ok (deduplicate_records [log_record_new 0 [1] (replicate 8179 0)], w'))"
proof -
  let ?r1 = "log_record_new 0 [1] (replicate 8179 0)" and ?r2 = "log_record_new 0 [2] [2]"
  let ?e = "encryptor_new encryption_default"
  have enc: "x_encode_record plain_crates ?r1 = Some (1 # replicate 8179 0)"
    "x_encode_record plain_crates ?r2 = Some [2, 2]"
    by (simp_all add: plain_crates_def plain_encode_def)
  have w: "\<exists>w. write_all plain_crates (\<lambda>_. None) ([?r1] @ [?r2]) (wal_open [] encryption_default) = Ok w"
    by (simp add: write_record_def encode_frame_def encode_record_def enc wal_open_def encryptor_new_def
        encryption_default_def Let_def WAL_SYNC_INTERVAL_def)
  then obtain w where w: "write_all plain_crates (\<lambda>_. None) ([?r1] @ [?r2]) (wal_open [] encryption_default) = Ok w"
    by blast
  have size: "sum_list (map (frame_size plain_crates ?e) [?r1]) = 8189"
    by (simp add: frame_size_def encoded_size_def enc encryptor_new_def encryption_default_def)
  have "\<forall>r\<in>set ([?r1] @ [?r2]). fits_log plain_crates r"
    by (simp add: fits_log_def encoded_size_def enc MAX_WAL_RECORD_BYTES_def)
  then show ?thesis
    using wal_recovery_stops_at_buffer_end [OF w plain_laws, of demo_legacy] w
    by (simp only: size buf_capacity_def) auto
qed

end
