(* ===== verification/Wal_Dedup.thy ===== *)
theory Wal_Dedup
  imports Wal "HOL-Library.Sublist"
begin

text \<open>
  \<open>deduplicate_records\<close> of \<open>src/storage/wal.rs\<close> against a reference definition: a record goes when a
  later record that is not a range tombstone has the same column family and key.
\<close>

definition superseded :: "log_record list \<Rightarrow> nat \<Rightarrow> bool" where
  "superseded rs i \<longleftrightarrow> \<not> is_range_tombstone (rs ! i) \<and>
     (\<exists>j\<in>{i<..<length rs}. \<not> is_range_tombstone (rs ! j) \<and> dedup_key (rs ! j) = dedup_key (rs ! i))"

fun dedup_ref :: "log_record list \<Rightarrow> log_record list" where
  "dedup_ref [] = []"
| "dedup_ref (r # rs) =
     (if \<not> is_range_tombstone r \<and> (\<exists>r'\<in>set rs. \<not> is_range_tombstone r' \<and> dedup_key r' = dedup_key r)
      then dedup_ref rs else r # dedup_ref rs)"

text \<open>The state of the scan after the records \<open>rs\<close>.\<close>

definition dedup_inv :: "log_record list \<Rightarrow> nat list \<times> ((string \<times> bytes) \<times> nat) list \<Rightarrow> bool" where
  "dedup_inv rs s \<longleftrightarrow>
     fst s = List.filter (\<lambda>i. is_range_tombstone (rs ! i)) [0..<length rs] \<and> distinct (map fst (snd s)) \<and>
     (\<forall>k i. map_of (snd s) k = Some i \<longleftrightarrow>
        i < length rs \<and> \<not> is_range_tombstone (rs ! i) \<and> dedup_key (rs ! i) = k \<and> \<not> superseded rs i)"

lemma superseded_snoc:
  "i < length rs \<Longrightarrow> superseded (rs @ [r]) i \<longleftrightarrow>
     superseded rs i \<or> \<not> is_range_tombstone (rs ! i) \<and> \<not> is_range_tombstone r \<and> dedup_key r = dedup_key (rs ! i)"
  unfolding superseded_def by (auto simp: nth_append less_Suc_eq)

lemma superseded_last [simp]: "\<not> superseded (rs @ [r]) (length rs)"
  by (auto simp: superseded_def)

lemma dedup_invD:
  assumes "dedup_inv rs (keep, lo)"
  shows "keep = List.filter (\<lambda>i. is_range_tombstone (rs ! i)) [0..<length rs]" "distinct (map fst lo)"
    "map_of lo k = Some i \<longleftrightarrow>
       i < length rs \<and> \<not> is_range_tombstone (rs ! i) \<and> dedup_key (rs ! i) = k \<and> \<not> superseded rs i"
  using assms unfolding dedup_inv_def fst_conv snd_conv by blast+

lemma dedup_invI:
  assumes "keep = List.filter (\<lambda>i. is_range_tombstone (rs ! i)) [0..<length rs]" "distinct (map fst lo)"
    "\<And>k i. map_of lo k = Some i \<longleftrightarrow>
       i < length rs \<and> \<not> is_range_tombstone (rs ! i) \<and> dedup_key (rs ! i) = k \<and> \<not> superseded rs i"
  shows "dedup_inv rs (keep, lo)"
  using assms unfolding dedup_inv_def fst_conv snd_conv by blast

lemma dedup_inv_fold: "dedup_inv rs (fold dedup_visit (enumerate 0 rs) ([], []))"
proof (induction rs rule: rev_induct)
  case (snoc r rs)
  obtain keep lo where s: "fold dedup_visit (enumerate 0 rs) ([], []) = (keep, lo)" by fastforce
  note keep = dedup_invD(1) [OF snoc [unfolded s]] and dist = dedup_invD(2) [OF snoc [unfolded s]]
    and lo = dedup_invD(3) [OF snoc [unfolded s]]
  have flt: "List.filter (\<lambda>i. is_range_tombstone ((rs @ [r]) ! i)) [0..<length rs] = keep"
    unfolding keep by (rule filter_cong) (auto simp: nth_append)
  have step: "fold dedup_visit (enumerate 0 (rs @ [r])) ([], []) = dedup_visit (length rs, r) (keep, lo)"
    by (simp add: enumerate_append_eq s)
  show ?case
  proof (cases "is_range_tombstone r")
    case True
    have "map_of lo k = Some i \<longleftrightarrow> i < length (rs @ [r]) \<and> \<not> is_range_tombstone ((rs @ [r]) ! i)
        \<and> dedup_key ((rs @ [r]) ! i) = k \<and> \<not> superseded (rs @ [r]) i" for k i
      using True by (cases "i = length rs") (auto simp: lo superseded_snoc nth_append less_Suc_eq)
    then show ?thesis using True flt dist by (auto simp: step simp del: split_paired_All intro!: dedup_invI)
  next
    case False
    have "map_of (AList.update (dedup_key r) (length rs) lo) k = Some i \<longleftrightarrow> i < length (rs @ [r])
        \<and> \<not> is_range_tombstone ((rs @ [r]) ! i) \<and> dedup_key ((rs @ [r]) ! i) = k \<and> \<not> superseded (rs @ [r]) i" for k i
      using False by (cases "i = length rs") (auto simp: update_conv' lo superseded_snoc nth_append less_Suc_eq)
    then show ?thesis using False flt dist by (auto simp: step distinct_update simp del: split_paired_All intro!: dedup_invI)
  qed
qed (simp add: dedup_inv_def)

lemma dedup_indices:
  assumes "dedup_inv rs (keep, lo)"
  shows "sort (keep @ map snd lo) = List.filter (\<lambda>i. \<not> superseded rs i) [0..<length rs]"
proof (rule sorted_distinct_set_unique)
  note keep = dedup_invD(1) [OF assms] and dist = dedup_invD(2) [OF assms] and lo = dedup_invD(3) [OF assms]
  have mem: "(k, i) \<in> set lo \<longleftrightarrow> map_of lo k = Some i" for k i using dist by simp
  have snds: "snd ` set lo = {i. i < length rs \<and> \<not> is_range_tombstone (rs ! i) \<and> \<not> superseded rs i}"
  proof -
    have "i \<in> snd ` set lo \<longleftrightarrow> (\<exists>k. map_of lo k = Some i)" for i
      using mem by (metis (no_types, lifting) image_iff prod.collapse snd_conv)
    then show ?thesis unfolding lo by blast
  qed
  have key: "x \<in> set lo \<Longrightarrow> fst x = dedup_key (rs ! snd x)" for x
    using mem [of "fst x" "snd x"] unfolding lo by simp
  have "inj_on snd (set lo)" by (rule inj_onI) (metis key prod_eqI)
  then have "distinct (map snd lo)" using dist by (simp add: distinct_map)
  then show "distinct (sort (keep @ map snd lo))" using snds by (auto simp: keep)
  show "set (sort (keep @ map snd lo)) = set (List.filter (\<lambda>i. \<not> superseded rs i) [0..<length rs])"
    using snds by (auto simp: keep superseded_def)
qed (simp_all add: sorted_wrt_filter)

lemma superseded_Cons:
  "superseded (r # rs) (Suc i) = superseded rs i"
  "superseded (r # rs) 0 \<longleftrightarrow>
     \<not> is_range_tombstone r \<and> (\<exists>r'\<in>set rs. \<not> is_range_tombstone r' \<and> dedup_key r' = dedup_key r)"
proof -
  have later: "(\<exists>j\<in>{Suc i<..<Suc (length rs)}. P ((r # rs) ! j)) \<longleftrightarrow> (\<exists>j\<in>{i<..<length rs}. P (rs ! j))" for P
  proof
    assume "\<exists>j\<in>{Suc i<..<Suc (length rs)}. P ((r # rs) ! j)"
    then obtain j where "Suc i < j" "j < Suc (length rs)" "P ((r # rs) ! j)" by auto
    then show "\<exists>j\<in>{i<..<length rs}. P (rs ! j)" by (intro bexI [of _ "j - 1"]) (auto simp: nth_Cons')
  qed force
  show "superseded (r # rs) (Suc i) = superseded rs i"
    using later [of "\<lambda>r'. \<not> is_range_tombstone r' \<and> dedup_key r' = dedup_key (rs ! i)"]
    by (simp add: superseded_def)
  have all: "(\<exists>j\<in>{0<..<Suc (length rs)}. P ((r # rs) ! j)) \<longleftrightarrow> (\<exists>r'\<in>set rs. P r')" for P
  proof
    assume "\<exists>j\<in>{0<..<Suc (length rs)}. P ((r # rs) ! j)"
    then obtain j where "0 < j" "j < Suc (length rs)" "P ((r # rs) ! j)" by auto
    then show "\<exists>r'\<in>set rs. P r'" by (intro bexI [of _ "rs ! (j - 1)"]) (auto simp: nth_Cons')
  next
    assume "\<exists>r'\<in>set rs. P r'"
    then obtain j where "j < length rs" "P (rs ! j)" by (auto simp: in_set_conv_nth)
    then show "\<exists>j\<in>{0<..<Suc (length rs)}. P ((r # rs) ! j)" by (intro bexI [of _ "Suc j"]) auto
  qed
  show "superseded (r # rs) 0 \<longleftrightarrow>
     \<not> is_range_tombstone r \<and> (\<exists>r'\<in>set rs. \<not> is_range_tombstone r' \<and> dedup_key r' = dedup_key r)"
    using all [of "\<lambda>r'. \<not> is_range_tombstone r' \<and> dedup_key r' = dedup_key r"]
    by (simp add: superseded_def)
qed

lemma kept_records: "map ((!) rs) (List.filter (\<lambda>i. \<not> superseded rs i) [0..<length rs]) = dedup_ref rs"
proof (induction rs)
  case (Cons r rs)
  have "[0..<length (r # rs)] = 0 # map Suc [0..<length rs]" by (simp add: upt_conv_Cons map_Suc_upt del: upt_Suc)
  with Cons show ?case
    by (simp add: superseded_Cons filter_map comp_def del: upt_Suc)
qed simp

lemma deduplicate_records_ref: "deduplicate_records rs = dedup_ref rs"
proof -
  obtain keep lo where s: "fold dedup_visit (enumerate 0 rs) ([], []) = (keep, lo)" by fastforce
  with dedup_inv_fold [of rs] show ?thesis
    by (simp add: deduplicate_records_def dedup_indices kept_records)
qed

subsection \<open>Properties\<close>

text \<open>The last record in the log that writes or deletes the key \<open>k\<close> of a column family.\<close>

definition latest :: "string \<times> bytes \<Rightarrow> log_record list \<Rightarrow> log_record option" where
  "latest k rs = List.find (\<lambda>r. \<not> is_range_tombstone r \<and> dedup_key r = k) (rev rs)"

lemma find_append: "List.find P (xs @ ys) = (case List.find P xs of None \<Rightarrow> List.find P ys | Some x \<Rightarrow> Some x)"
  by (induction xs) auto

lemma latest_Cons:
  "latest k (r # rs) = (case latest k rs of None \<Rightarrow> if \<not> is_range_tombstone r \<and> dedup_key r = k then Some r else None
     | Some x \<Rightarrow> Some x)"
  by (simp add: latest_def find_append split: option.splits)

lemma latest_None: "latest k rs = None \<longleftrightarrow> (\<forall>r\<in>set rs. is_range_tombstone r \<or> dedup_key r \<noteq> k)"
  by (auto simp: latest_def find_None_iff)

lemma latest_dedup_ref: "latest k (dedup_ref rs) = latest k rs"
proof (induction rs)
  case (Cons r rs)
  show ?case
  proof (cases "\<not> is_range_tombstone r \<and> (\<exists>r'\<in>set rs. \<not> is_range_tombstone r' \<and> dedup_key r' = dedup_key r)")
    case True
    then have "latest k (r # rs) = latest k rs"
      using latest_None [of k rs] by (cases "latest k rs") (auto simp: latest_Cons)
    with True Cons show ?thesis by simp
  next
    case False
    then have "dedup_ref (r # rs) = r # dedup_ref rs" by (simp only: dedup_ref.simps if_False)
    with Cons show ?thesis by (simp only: latest_Cons)
  qed
qed simp

lemma set_dedup_ref: "set (dedup_ref rs) \<subseteq> set rs"
  by (induction rs) auto

lemma tombstones_dedup_ref: "List.filter is_range_tombstone (dedup_ref rs) = List.filter is_range_tombstone rs"
  by (induction rs) auto

lemma subseq_dedup_ref: "subseq (dedup_ref rs) rs"
  by (induction rs) (auto intro: list_emb_Cons)

lemma distinct_dedup_ref:
  "distinct (map dedup_key (List.filter (\<lambda>r. \<not> is_range_tombstone r) (dedup_ref rs)))"
proof (induction rs)
  case (Cons r rs)
  then show ?case using set_dedup_ref [of rs] by auto
qed simp

text \<open>C26: removing duplicates during recovery loses nothing that counts: every range tombstone stays,
  in order; the last write of every key of every column family stays; at most one write per key is
  left; and what is left is in log order.\<close>

theorem wal_dedup_keeps_latest:
  "List.filter is_range_tombstone (deduplicate_records rs) = List.filter is_range_tombstone rs \<and>
   latest k (deduplicate_records rs) = latest k rs \<and>
   distinct (map dedup_key (List.filter (\<lambda>r. \<not> is_range_tombstone r) (deduplicate_records rs))) \<and>
   subseq (deduplicate_records rs) rs"
  by (simp add: deduplicate_records_ref tombstones_dedup_ref latest_dedup_ref distinct_dedup_ref subseq_dedup_ref)

end
