(* ===== verification/Wal_Rewrite.thy ===== *)
theory Wal_Rewrite
  imports Wal_Recovery Wal_Dedup
begin

text \<open>
  Damaged frames, and the two operations of \<open>src/storage/wal.rs\<close> that rewrite a log: \<open>retain\<close>, which
  goes through recovery, and \<open>rewrite_for_migration\<close>, which reads strictly.
\<close>

subsection \<open>Strict reading\<close>

lemma decode_payload_migrate:
  "decode_payload X L e v p = Ok (Some r) \<Longrightarrow> migrate_decode X L e a v p = Ok r"
  by (auto simp: decode_payload_def migrate_decode_def decode_record_def split: if_splits)

lemma read_frame_strict_at:
  assumes at: "reader_at data pos left r" and data: "drop pos data = frame_bytes (v, p, c) @ rest"
    and small: "length p < MAX_WAL_RECORD_BYTES"
  shows "\<exists>first r1. read_exact 1 r = Some (first, r1) \<and>
    (\<exists>r' left'. read_frame_strict X first r1 =
       (if x_crc32 X (u32_to_le (1 + word_of_nat (length p)) @ [v] @ p) \<noteq> c then Err WalCorruption else Ok (v, p, r')) \<and>
       reader_at data (pos + (9 + length p)) left' r')"
proof -
  let ?lb = "u32_to_le (1 + word_of_nat (length p))"
  define l1 l3 where l: "l1 = take 1 ?lb" "l3 = drop 1 ?lb"
  then have lb: "?lb = l1 @ l3" "length l1 = 1" "length l3 = 3" by simp_all
  have d0: "drop pos data = l1 @ l3 @ [v] @ p @ u32_to_le c @ rest" using data by (simp add: lb(1))
  obtain r1 n1 where r1: "read_exact 1 r = Some (l1, r1)" "reader_at data (pos + 1) n1 r1"
    and d1: "drop (pos + 1) data = l3 @ [v] @ p @ u32_to_le c @ rest"
    using read_exact_drop [OF at d0] lb by (auto simp flip: length_greater_0_conv)
  obtain r2 n2 where r2: "read_exact 3 r1 = Some (l3, r2)" "reader_at data (pos + 4) n2 r2"
    and d2: "drop (pos + 4) data = [v] @ p @ u32_to_le c @ rest"
    using read_exact_drop [OF r1(2) d1] lb by (auto simp: numeral_eq_Suc simp flip: length_greater_0_conv)
  obtain r3 n3 where r3: "read_exact 1 r2 = Some ([v], r3)" "reader_at data (pos + 5) n3 r3"
    and d3: "drop (pos + 5) data = p @ u32_to_le c @ rest"
    using read_exact_drop [OF r2(2) d2] by (auto simp: numeral_eq_Suc)
  have len: "length data = pos + (9 + length p + length rest)"
    using drop_length [OF data] by simp
  obtain r4 n4 where r4: "read_exact (length p) r3 = Some (p, r4)" "reader_at data (pos + 5 + length p) n4 r4"
    using read_exact_at [OF r3(2), of "length p"] len d3 by auto
  have d4: "drop (pos + 5 + length p) data = u32_to_le c @ rest" using drop_step [OF d3] .
  obtain r5 n5 where r5: "read_exact 4 r4 = Some (u32_to_le c, r5)" "reader_at data (pos + (9 + length p)) n5 r5"
    using read_exact_drop [OF r4(2) d4] by (auto simp: add.commute add.left_commute)
  have "read_frame_strict X l1 r1 = (if x_crc32 X (?lb @ [v] @ p) \<noteq> c then Err WalCorruption else Ok (v, p, r5))"
  proof -
    have glue: "l1 @ l3 = ?lb" "l1 @ l3 @ ys = ?lb @ ys" for ys using lb(1) by simp_all
    show ?thesis
      using r2(1) r3(1) r4(1) r5(1) small unat_frame_length [OF small]
      by (simp add: read_frame_strict_def Let_def glue)
  qed
  with r1(1) r5(2) show ?thesis by blast
qed

text \<open>Migration is writing every record of the source in its order, wherever the read buffer ends.\<close>

lemma rewrite_loop_frames:
  assumes "reader_at data pos left r" "drop pos data = concat (map frame_bytes fs)"
    and "list_all2 (\<lambda>f x. frame_result X L e f = Ok (Some x)) fs rs" "\<forall>f\<in>set fs. frame_readable f"
    and "\<forall>x\<in>set rs. fits_log X x"
  shows "rewrite_loop X L rng e a r out n =
    and_then (write_all X rng rs out) (\<lambda>out'. Ok (wal_sync out', n + length rs))"
  using assms
proof (induction fs arbitrary: pos left r rs out n)
  case Nil
  then have "br_buf r = []" "br_file r = []" by (auto simp: reader_at_def)
  then have "read_exact 1 r = None" by (simp add: read_exact.simps)
  then show ?case using Nil by (simp add: rewrite_loop.simps [of X L rng e a r])
next
  case (Cons f fs)
  obtain v p c where f: "f = (v, p, c)" by (cases f)
  obtain x xs where rs: "rs = x # xs" using Cons.prems(3) by (cases rs) auto
  have res: "frame_result X L e (v, p, c) = Ok (Some x)" using Cons.prems(3) f rs by simp
  then have crc: "c = x_crc32 X (u32_to_le (1 + word_of_nat (length p)) @ [v] @ p)"
    and dec: "decode_payload X L e v p = Ok (Some x)" by (auto split: if_splits)
  have data: "drop pos data = frame_bytes (v, p, c) @ concat (map frame_bytes fs)" using Cons.prems(2) f by simp
  obtain first r1 r' left' where strict: "read_exact 1 r = Some (first, r1)" "read_frame_strict X first r1 = Ok (v, p, r')"
    and at': "reader_at data (pos + (9 + length p)) left' r'"
    using read_frame_strict_at [OF Cons.prems(1) data, of X] Cons.prems(4) f crc by auto
  have rest: "drop (pos + (9 + length p)) data = concat (map frame_bytes fs)"
    using drop_step [OF data] by (simp only: length_frame_bytes)
  have IH: "rewrite_loop X L rng e a r' out1 m = and_then (write_all X rng xs out1) (\<lambda>out'. Ok (wal_sync out', m + length xs))"
    for out1 m
    using Cons.IH [OF at' rest] Cons.prems rs by simp
  have "encoded_size X x + 28 < MAX_WAL_RECORD_BYTES" using Cons.prems(5) rs by (simp add: fits_log_def)
  then show ?case
    using strict decode_payload_migrate [OF dec, of a] rs
    by (cases "x_encode_record X x")
      (auto simp: rewrite_loop.simps [of X L rng e a r] IH Let_def encode_record_def encoded_size_def and_then_assoc
        write_record_def encode_frame_def)
qed

subsection \<open>Retaining records\<close>

lemma dedup_ref_distinct:
  "distinct (map dedup_key (List.filter (\<lambda>r. \<not> is_range_tombstone r) rs)) \<Longrightarrow> dedup_ref rs = rs"
  by (induction rs) (auto simp: image_iff split: if_splits)

lemma distinct_keys_filter:
  "distinct (map f (List.filter Q xs)) \<Longrightarrow> distinct (map f (List.filter Q (List.filter P xs)))"
  by (induction xs) (auto simp: image_iff)

lemma distinct_keys_take:
  "distinct (map f (List.filter Q xs)) \<Longrightarrow> distinct (map f (List.filter Q (take n xs)))"
  by (induction xs arbitrary: n) (auto simp: image_iff take_Cons split: nat.splits dest!: in_set_takeD)

lemma dedup_recovered_filter:
  "deduplicate_records (recovered X e (List.filter P (deduplicate_records rs))) =
     recovered X e (List.filter P (deduplicate_records rs))"
  unfolding deduplicate_records_ref recovered_def
  by (intro dedup_ref_distinct distinct_keys_take distinct_keys_filter distinct_dedup_ref)

lemma set_recovered: "set (recovered X e rs) \<subseteq> set rs"
  by (simp add: recovered_def set_take_subset)

lemma set_deduplicate: "set (deduplicate_records rs) \<subseteq> set rs"
  by (simp add: deduplicate_records_ref set_dedup_ref)

subsection \<open>Damage\<close>

lemma u32_to_from_le: "length bs = 4 \<Longrightarrow> u32_to_le (u32_from_le bs) = bs"
  using nat_to_from_le [of bs] nat_from_le_bound [of bs]
  by (simp add: u32_to_le_def u32_from_le_def unat_of_nat_small)

lemma frame_records_damaged:
  assumes "list_all2 (frame_of X L e) fs1 rs1" "list_all2 (frame_of X L e) fs2 rs2" "frame_result X L e f = Ok None"
  shows "frame_records X L e (take n (fs1 @ f # fs2)) = Ok (take n rs1 @ take (n - Suc (length rs1)) rs2)"
  using assms(1)
proof (induction fs1 rs1 arbitrary: n rule: list_all2_induct)
  case Nil
  show ?case
    using frame_records_of [OF assms(2)] assms(3) by (cases n) (simp_all del: frame_result.simps)
next
  case (Cons x xs y ys)
  then show ?case by (cases n) (auto simp: frame_of_def simp del: frame_result.simps)
qed

lemma list_all2_split3:
  assumes "list_all2 P fs (rs1 @ r # rs2)"
  obtains fs1 f fs2 where "fs = fs1 @ f # fs2" "list_all2 P fs1 rs1" "P f r" "list_all2 P fs2 rs2"
  using assms by (auto simp: list_all2_append2 list_all2_Cons2)

lemma recover_damaged:
  assumes fs: "list_all2 (frame_of X L (wal_encryptor w)) fs1 rs1" "list_all2 (frame_of X L (wal_encryptor w)) fs2 rs2"
    and f: "frame_result X L (wal_encryptor w) f = Ok None" "length (frame_bytes f) = frame_size X (wal_encryptor w) r"
    and small: "\<forall>x\<in>set (rs1 @ r # rs2). fits_log X x"
    and "file": "wal_file w = concat (map frame_bytes (fs1 @ f # fs2))"
    and n: "n = reached 0 (map (frame_size X (wal_encryptor w)) (rs1 @ r # rs2))"
  shows "recover_locked X L w = Ok (deduplicate_records (take n rs1 @ take (n - Suc (length rs1)) rs2),
      w\<lparr>wal_synced := length (wal_file w)\<rparr>)"
proof -
  obtain v p c where fv: "f = (v, p, c)" by (cases f)
  have "9 + length p \<le> 9 + encoded_size X r + 28"
    using f(2) unfolding fv length_frame_bytes frame_size_def by auto
  then have "frame_readable f" using small fv by (simp add: fits_log_def)
  then have ok: "\<forall>g\<in>set (fs1 @ f # fs2). frame_readable g"
    using frame_of_readable [OF fs(1)] frame_of_readable [OF fs(2)] small by (auto simp: fits_log_def simp del: frame_readable.simps)
  have sizes: "map (length \<circ> frame_bytes) (fs1 @ f # fs2) = map (frame_size X (wal_encryptor w)) (rs1 @ r # rs2)"
    using frame_of_sizes [OF fs(1)] frame_of_sizes [OF fs(2)] f(2) by simp
  have torn: "torn_tail []" by (simp add: torn_tail_def)
  have "recover_loop X L (wal_encryptor w) (length (wal_file w)) \<lparr>br_buf = [], br_file = wal_file w\<rparr> 0 [] =
      Ok (take n rs1 @ take (n - Suc (length rs1)) rs2)"
    using recover_loop_frames [OF reader_at_start _ torn ok, of "wal_file w" X L "wal_encryptor w" "[]"]
    unfolding sizes frame_records_damaged [OF fs f(1)] n by (simp add: "file" del: frame_bytes.simps map_append)
  then show ?thesis by (simp add: recover_locked_def Let_def)
qed

lemma append3_eq:
  "xs @ ys @ zs = xs' @ ys' @ zs' \<Longrightarrow> length xs' = length xs \<Longrightarrow> length ys' = length ys \<Longrightarrow> xs = xs' \<and> ys = ys' \<and> zs = zs'"
  by simp

lemma damaged_frame:
  assumes "lenb @ body = frame_bytes f" "length lenb = 4" "length body' = length body"
    and crc: "x_crc32 X (lenb @ take (length body - 4) body') \<noteq> u32_from_le (drop (length body - 4) body')"
  shows "\<exists>f'. frame_bytes f' = lenb @ body' \<and> frame_result X L e f' = Ok None"
proof -
  obtain v p c where f: "f = (v, p, c)" by (cases f)
  have lenb: "lenb = u32_to_le (1 + word_of_nat (length p))" "length body = 5 + length p"
    using assms(1,2) unfolding f by (auto simp: append_eq_append_conv)
  obtain b bs where body': "body' = b # bs" "length bs = 4 + length p" using assms(3) lenb(2) by (cases body') auto
  let ?f = "(b, take (length p) bs, u32_from_le (drop (length p) bs))"
  have "frame_bytes ?f = lenb @ body'"
    using body' lenb by (simp add: u32_to_from_le min_def)
  moreover have "frame_result X L e ?f = Ok None"
    using crc lenb body' by (auto simp: min_def)
  ultimately show ?thesis by blast
qed

lemma written_frames:
  assumes "write_all X rng rs (wal_open [] enc) = Ok w" "crate_laws X rng"
  shows "\<exists>fs. wal_file w = concat (map frame_bytes fs) \<and> list_all2 (frame_of X L (encryptor_new enc)) fs rs
    \<and> wal_encryptor w = encryptor_new enc"
proof -
  have "write_all X rng rs (set_sync_interval WAL_SYNC_INTERVAL (wal_open [] enc)) = Ok w"
    using assms(1) by (simp add: set_sync_interval_def wal_open_def)
  from write_all_new [OF this _ assms(2), of L] show ?thesis
    by (auto simp: WAL_SYNC_INTERVAL_def wal_holds_def)
qed

subsection \<open>Properties\<close>

text \<open>A frame that is damaged behind its length field, so that its checksum is wrong, is skipped and
  costs only its own record: recovery returns what it would for the other records in their places.\<close>

lemma wal_skips_damaged_frame:
  assumes writes: "write_all X rng (rs1 @ r # rs2) (wal_open [] enc) = Ok w" and laws: "crate_laws X rng"
    and small: "\<forall>x\<in>set (rs1 @ r # rs2). fits_log X x"
    and "file": "wal_file w = pre @ lenb @ body @ post"
      "length pre = sum_list (map (frame_size X (encryptor_new enc)) rs1)" "length lenb = 4"
      "length (lenb @ body) = frame_size X (encryptor_new enc) r"
    and damage: "length body' = length body"
      "x_crc32 X (lenb @ take (length body - 4) body') \<noteq> u32_from_le (drop (length body - 4) body')"
    and n: "n = reached 0 (map (frame_size X (encryptor_new enc)) (rs1 @ r # rs2))"
  shows "recover_locked X L (w\<lparr>wal_file := pre @ lenb @ body' @ post\<rparr>) =
    Ok (deduplicate_records (take n rs1 @ take (n - Suc (length rs1)) rs2),
        w\<lparr>wal_file := pre @ lenb @ body' @ post, wal_synced := length (pre @ lenb @ body' @ post)\<rparr>)"
proof -
  obtain fs1 f fs2 where frames: "wal_file w = concat (map frame_bytes (fs1 @ f # fs2))"
    and fs: "list_all2 (frame_of X L (encryptor_new enc)) fs1 rs1" "frame_of X L (encryptor_new enc) f r"
      "list_all2 (frame_of X L (encryptor_new enc)) fs2 rs2" and e: "wal_encryptor w = encryptor_new enc"
    using written_frames [OF writes laws] by (metis list_all2_split3)
  have "length (concat (map frame_bytes fs1)) = length pre"
    using frame_of_sizes [OF fs(1)] "file"(2) by (simp add: length_concat)
  moreover have "length (frame_bytes f) = length (lenb @ body)" using fs(2) "file"(4) by (simp add: frame_of_def)
  moreover have "pre @ (lenb @ body) @ post = concat (map frame_bytes fs1) @ frame_bytes f @ concat (map frame_bytes fs2)"
    using frames "file"(1) by (simp del: frame_bytes.simps)
  ultimately have parts: "pre = concat (map frame_bytes fs1)" "lenb @ body = frame_bytes f" "post = concat (map frame_bytes fs2)"
    using append3_eq by metis+
  obtain f' where f': "frame_bytes f' = lenb @ body'" "frame_result X L (encryptor_new enc) f' = Ok None"
    using damaged_frame [OF parts(2) "file"(3) damage] by blast
  have "length (frame_bytes f') = frame_size X (encryptor_new enc) r"
    using f'(1) "file"(4) damage(1) by simp
  moreover have "pre @ lenb @ body' @ post = concat (map frame_bytes (fs1 @ f' # fs2))"
    using parts f'(1) by simp
  ultimately show ?thesis
    using recover_damaged [of X L "w\<lparr>wal_file := pre @ lenb @ body' @ post\<rparr>" fs1 rs1 fs2 rs2 f' r n] fs f'(2) e small n by simp
qed

text \<open>\<open>retain\<close> keeps the recovered records that satisfy the predicate and no others: recovering the
  rewritten log gives exactly those, up to the end-of-buffer limit of recovery itself, and they are
  all on disk.\<close>

lemma wal_retain_correct:
  assumes "write_all X rng rs (wal_open [] enc) = Ok w" and "crate_laws X rng" and "\<forall>r\<in>set rs. fits_log X r"
    and "retain X L rng P w = Ok w'"
  shows "recover_locked X L w' = Ok (recovered X (encryptor_new enc)
      (List.filter P (deduplicate_records (recovered X (encryptor_new enc) rs))), w') \<and>
    wal_synced w' = length (wal_file w')"
proof -
  let ?e = "encryptor_new enc" and ?old = "deduplicate_records (recovered X (encryptor_new enc) rs)"
  have rec: "recover_locked X L w = Ok (?old, w\<lparr>wal_synced := length (wal_file w)\<rparr>)"
    using recover_written [OF assms(1-3)] .
  have e: "wal_encryptor w = ?e" using written_frames [OF assms(1,2)] by blast
  obtain frames d where fr: "encode_frames X rng ?e (wal_rng w) (List.filter P ?old) = Ok (frames, d)"
    and w': "w' = w\<lparr>wal_synced := length (concat frames), wal_file := concat frames, wal_rng := d\<rparr>"
    using assms(4) e unfolding retain_def rec by (auto simp: Let_def)
  obtain fs where fs: "frames = map frame_bytes fs" "list_all2 (frame_of X L ?e) fs (List.filter P ?old)"
    using encode_frames_sound [OF fr assms(2)] by blast
  have "\<forall>r\<in>set (List.filter P ?old). fits_log X r"
    using set_deduplicate set_recovered assms(3) by fastforce
  then have "recover_locked X L w' = Ok (deduplicate_records (recovered X ?e (List.filter P ?old)), w'\<lparr>wal_synced := length (wal_file w')\<rparr>)"
    using recover_locked_cut [of X L w' fs _ "[]"] fs e w' by (simp add: torn_tail_def)
  then show ?thesis using w' by (simp add: dedup_recovered_filter)
qed

text \<open>Migrating a log writes every record of it, in order and without losing any to the read
  buffer, to the new log under the new encryption, and counts them.\<close>

lemma wal_migration_complete:
  assumes "write_all X rng rs (wal_open [] enc) = Ok w" and "crate_laws X rng" and "\<forall>r\<in>set rs. fits_log X r"
    and "wal_cf_of_file_name destination = Ok cf"
  shows "rewrite_for_migration X L rng' (wal_file w) destination [] enc enc' allow_legacy_zero =
    and_then (write_all X rng' rs (set_sync_interval usize_max (wal_open [] enc')))
      (\<lambda>output. Ok (wal_sync output, length rs))"
proof -
  obtain fs where fs: "wal_file w = concat (map frame_bytes fs)" "list_all2 (frame_of X L (encryptor_new enc)) fs rs"
    using written_frames [OF assms(1,2)] by blast
  have res: "list_all2 (\<lambda>f x. frame_result X L (encryptor_new enc) f = Ok (Some x)) fs rs"
    using fs(2) by (rule list_all2_mono) (simp add: frame_of_def)
  have ok: "\<forall>f\<in>set fs. frame_readable f"
    using frame_of_readable [OF fs(2)] assms(3) by (simp add: fits_log_def)
  show ?thesis
    using rewrite_loop_frames [OF reader_at_start _ res ok assms(3), of "wal_file w"] fs(1) assms(4)
    by (simp add: rewrite_for_migration_def)
qed

end
