(* ===== verification/Recovery_Correct.thy ===== *)
theory Recovery_Correct
  imports Engine_Admin_Correct Wal_Rewrite
begin

text \<open>
  What an engine shows after a start: the latest log record of every key over the records of the
  table files, the file with the greatest name first.
\<close>

subsection \<open>Replay\<close>

definition record_cf :: "log_record \<Rightarrow> string" where
  "record_cf r = (case lr_column_family r of None \<Rightarrow> ''default'' | Some cf \<Rightarrow> cf)"

definition range_of_record :: "log_record \<Rightarrow> range_tombstone" where
  "range_of_record r =
     \<lparr>rt_start_key = (case lr_range_start r of None \<Rightarrow> [] | Some k \<Rightarrow> k),
      rt_end_key = (case lr_range_end r of None \<Rightarrow> [] | Some k \<Rightarrow> k), rt_timestamp = lr_timestamp r\<rparr>"

lemma dedup_key_record: "dedup_key r = (record_cf r, lr_key r)"
  by (simp add: dedup_key_def record_cf_def)

lemma replay_record_eq:
  "replay_record r core =
     (if is_range_tombstone r then add_range (record_cf r) (range_of_record r) core else inserted (record_cf r) r core)"
  by (simp add: replay_record_def record_cf_def range_of_record_def Let_def)

lemma replay_record_fields:
  "co_version_set (replay_record r core) = co_version_set core" "co_sst_dir (replay_record r core) = co_sst_dir core"
  "co_dir (replay_record r core) = co_dir core" "co_encryption (replay_record r core) = co_encryption core"
  "co_compaction (replay_record r core) = co_compaction core" "co_wals (replay_record r core) = co_wals core"
  by (simp_all add: replay_record_eq add_range_def on_memtable_def add_bytes_def Let_def)

lemma replay_record_memtable:
  "memtable_record (replay_record r core) cf key =
     (if \<not> is_range_tombstone r \<and> dedup_key r = (cf, key) then Some r else memtable_record core cf key)"
  by (auto simp: replay_record_eq memtable_record_add_range same_dataD(7) [OF add_bytes_same_data] memtable_record_insert dedup_key_record)

lemma replay_record_tombstones:
  "tombstones_of (replay_record r core) cf =
     tombstones_of core cf @ (if is_range_tombstone r \<and> record_cf r = cf then [range_of_record r] else [])"
  by (auto simp: replay_record_eq add_range_fields same_dataD(2) [OF add_bytes_same_data])

lemma replay_record_ok: "engine_ok H cat core \<Longrightarrow> engine_ok H cat (replay_record r core)"
  by (simp add: replay_record_eq add_range_ok(1) same_dataD(6) [OF add_bytes_same_data] engine_ok_insert)

definition logged_ranges :: "string \<Rightarrow> log_record list \<Rightarrow> range_tombstone list" where
  "logged_ranges cf rs = map range_of_record (List.filter (\<lambda>r. is_range_tombstone r \<and> record_cf r = cf) rs)"

lemma replay_fields:
  "co_version_set (replay_wal_records_core rs core) = co_version_set core" "co_sst_dir (replay_wal_records_core rs core) = co_sst_dir core"
  "co_dir (replay_wal_records_core rs core) = co_dir core" "co_encryption (replay_wal_records_core rs core) = co_encryption core"
  "co_compaction (replay_wal_records_core rs core) = co_compaction core" "co_wals (replay_wal_records_core rs core) = co_wals core"
  unfolding replay_wal_records_core_def by (induction rs arbitrary: core) (simp_all add: replay_record_fields)

lemma latest_Nil: "latest k [] = None"
  by (simp add: latest_def)

lemma replay_correct:
  shows "engine_ok H cat core \<Longrightarrow> engine_ok H cat (replay_wal_records_core rs core)"
    and "memtable_record (replay_wal_records_core rs core) cf key =
      (case latest (cf, key) rs of Some r \<Rightarrow> Some r | None \<Rightarrow> memtable_record core cf key)"
    and "tombstones_of (replay_wal_records_core rs core) cf = tombstones_of core cf @ logged_ranges cf rs"
  unfolding replay_wal_records_core_def
  by (induction rs arbitrary: core)
    (auto simp: replay_record_ok latest_Cons replay_record_memtable replay_record_tombstones latest_Nil logged_ranges_def split: option.splits)

text \<open>Replaying without duplicates is replaying.\<close>

lemma replay_deduplicated:
  "latest k (deduplicate_records rs) = latest k rs" "logged_ranges cf (deduplicate_records rs) = logged_ranges cf rs"
proof -
  show "latest k (deduplicate_records rs) = latest k rs" by (simp add: deduplicate_records_ref latest_dedup_ref)
  have "List.filter is_range_tombstone (deduplicate_records rs) = List.filter is_range_tombstone rs"
    by (simp add: deduplicate_records_ref tombstones_dedup_ref)
  then have "List.filter (\<lambda>r. record_cf r = cf) (List.filter is_range_tombstone (deduplicate_records rs)) =
      List.filter (\<lambda>r. record_cf r = cf) (List.filter is_range_tombstone rs)" by simp
  then show "logged_ranges cf (deduplicate_records rs) = logged_ranges cf rs"
    by (simp add: logged_ranges_def conj_commute)
qed

lemma latest_append: "latest k (rs @ rs') = (case latest k rs' of None \<Rightarrow> latest k rs | Some r \<Rightarrow> Some r)"
  by (simp add: latest_def find_append split: option.splits)

subsection \<open>Logs\<close>

text \<open>A file holds the log of the records \<open>rs\<close> when they were written to it one by one.\<close>

definition holds_log ::
  "('bl, 'c) crates \<Rightarrow> (nat \<Rightarrow> bytes option) \<Rightarrow> encryption_config \<Rightarrow> log_record list \<Rightarrow> bytes option \<Rightarrow> bool" where
  "holds_log X rng enc rs file \<longleftrightarrow>
     (\<exists>w. write_all X rng rs (wal_open [] enc) = Ok w \<and> file = Some (wal_file w)) \<and> (\<forall>r\<in>set rs. fits_log X r)"

lemma recover_locked_file:
  assumes "recover_locked X L w = Ok (rs, w1)" "wal_file w' = wal_file w" "wal_encryptor w' = wal_encryptor w"
  shows "recover_locked X L w' = Ok (rs, w'\<lparr>wal_synced := length (wal_file w')\<rparr>)"
  using assms by (auto simp: recover_locked_def Let_def and_then_eq_Ok)

lemma recover_wal_correct:
  assumes log: "holds_log (h_crates H) rng (eo_encryption options) rs (co_dir core (wal_file_name cf))" and laws: "crate_laws (h_crates H) rng"
  shows "\<exists>w. recover_wal H L options cf core =
    (Ok (), replay_wal_records_core (deduplicate_records (recovered (h_crates H) (encryptor_new (eo_encryption options)) rs))
       (core\<lparr>co_wals := AList.update cf w (co_wals core)\<rparr>))"
proof -
  obtain w where w: "write_all (h_crates H) rng rs (wal_open [] (eo_encryption options)) = Ok w" "co_dir core (wal_file_name cf) = Some (wal_file w)"
    "\<forall>r\<in>set rs. fits_log (h_crates H) r"
    using log by (auto simp: holds_log_def)
  let ?w = "set_sync_interval (eo_wal_sync_interval options) (wal_open (wal_file w) (eo_encryption options))"
  have "wal_encryptor w = encryptor_new (eo_encryption options)"
    using write_all_new [of _ rng rs WAL_SYNC_INTERVAL] w(1) laws by (fastforce simp: set_sync_interval_def wal_open_def WAL_SYNC_INTERVAL_def)
  then have "recover_locked (h_crates H) L ?w =
      Ok (deduplicate_records (recovered (h_crates H) (encryptor_new (eo_encryption options)) rs), ?w\<lparr>wal_synced := length (wal_file ?w)\<rparr>)"
    by (intro recover_locked_file [OF recover_written [OF w(1) laws w(3)]]) (simp_all add: set_sync_interval_def wal_open_def)
  then show ?thesis by (auto simp: recover_wal_def w(2) Let_def)
qed

text \<open>The effect of replaying \<open>rs\<close>, whatever happens to the log handles.\<close>

definition replayed ::
  "('bl, 'c, 'k) host \<Rightarrow> log_record list \<Rightarrow> ('bl, 'c, 'k) engine_core \<Rightarrow> ('bl, 'c, 'k) engine_core \<Rightarrow> bool" where
  "replayed H rs core core' \<longleftrightarrow>
     co_version_set core' = co_version_set core \<and> co_sst_dir core' = co_sst_dir core \<and> co_dir core' = co_dir core \<and>
     co_encryption core' = co_encryption core \<and> co_compaction core' = co_compaction core \<and>
     (\<forall>cat. engine_ok H cat core \<longrightarrow> engine_ok H cat core') \<and>
     (\<forall>cf key. memtable_record core' cf key = (case latest (cf, key) rs of Some r \<Rightarrow> Some r | None \<Rightarrow> memtable_record core cf key)) \<and>
     (\<forall>cf. tombstones_of core' cf = tombstones_of core cf @ logged_ranges cf rs)"

lemma replayed_refl: "replayed H [] core core"
  by (simp add: replayed_def latest_Nil logged_ranges_def)

lemma replayed_trans: "replayed H rs core core1 \<Longrightarrow> replayed H rs' core1 core2 \<Longrightarrow> replayed H (rs @ rs') core core2"
  by (simp add: replayed_def latest_append logged_ranges_def split: option.splits)

lemma replayed_log:
  "replayed H rs core (replay_wal_records_core (deduplicate_records rs) (core\<lparr>co_wals := ws\<rparr>))"
proof -
  let ?core = "core\<lparr>co_wals := ws\<rparr>"
  have d: "same_data core ?core" by (simp add: same_data_def)
  have "engine_ok H cat core \<Longrightarrow> engine_ok H cat (replay_wal_records_core (deduplicate_records rs) ?core)" for cat
    by (rule replay_correct(1)) (simp add: same_dataD(6) [OF d])
  then show ?thesis
    unfolding replayed_def replay_fields replay_correct(2,3) replay_deduplicated same_dataD [OF d] by auto
qed

lemma cf_of_wal_entry_Some: "cf_of_wal_entry name = Some cf \<Longrightarrow> name = ''wal-'' @ cf @ ''.log''"
proof -
  assume a: "cf_of_wal_entry name = Some cf"
  then have "take 4 name = ''wal-''" "8 \<le> length name" "drop (length name - 4) name = ''.log''" "cf = take (length name - 8) (drop 4 name)"
    by (auto simp: cf_of_wal_entry_def split: if_splits)
  moreover have "drop 4 name = take (length name - 8) (drop 4 name) @ drop (length name - 4) name"
    using append_take_drop_id [of "length name - 8" "drop 4 name"] \<open>8 \<le> length name\<close> by (simp add: add.commute)
  ultimately show ?thesis using append_take_drop_id [of 4 name] by metis
qed

definition other_cfs :: "string list \<Rightarrow> string list" where
  "other_cfs entries = List.filter (\<lambda>cf. cf \<noteq> ''default'') (List.map_filter cf_of_wal_entry entries)"

lemma other_cfs_simps:
  "other_cfs [] = []"
  "other_cfs (e # es) = (case cf_of_wal_entry e of Some cf \<Rightarrow> if cf \<noteq> ''default'' then [cf] else [] | None \<Rightarrow> []) @ other_cfs es"
  by (auto simp: other_cfs_def map_filter_simps split: option.splits)

lemma in_other_cfs: "cf \<in> set (other_cfs es) \<Longrightarrow> ''wal-'' @ cf @ ''.log'' \<in> set es"
  by (induction es) (auto simp: other_cfs_simps dest: cf_of_wal_entry_Some [OF sym] split: option.splits if_splits)

lemma recover_others:
  assumes "distinct entries" "\<forall>cf\<in>set (other_cfs entries). holds_log (h_crates H) rng (eo_encryption options) (logs cf) (co_dir core (wal_file_name cf))"
    and "\<forall>cf\<in>set (other_cfs entries). map_of (co_wals core) cf = None" and laws: "crate_laws (h_crates H) rng"
  shows "\<exists>core'. recover_other_wals H L options entries core = (Ok (), core') \<and>
    replayed H (concat (map (\<lambda>cf. recovered (h_crates H) (encryptor_new (eo_encryption options)) (logs cf)) (other_cfs entries))) core core'"
  using assms(1-3)
proof (induction entries arbitrary: core)
  case Nil
  then show ?case by (simp add: other_cfs_simps replayed_refl)
next
  case (Cons e es)
  show ?case
  proof (cases "\<exists>cf. cf_of_wal_entry e = Some cf \<and> cf \<noteq> ''default''")
    case False
    then show ?thesis using Cons by (cases "cf_of_wal_entry e") (auto simp: other_cfs_simps)
  next
    case True
    then obtain cf where cf: "cf_of_wal_entry e = Some cf" "cf \<noteq> ''default''" by blast
    then have o: "other_cfs (e # es) = cf # other_cfs es" by (simp add: other_cfs_simps)
    have fresh: "cf \<notin> set (other_cfs es)" using Cons.prems(1) cf_of_wal_entry_Some [OF cf(1)] in_other_cfs [of cf es] by auto
    let ?rs = "recovered (h_crates H) (encryptor_new (eo_encryption options)) (logs cf)"
    have "holds_log (h_crates H) rng (eo_encryption options) (logs cf) (co_dir core (wal_file_name cf))" using Cons.prems(2) o by simp
    then obtain w where w: "recover_wal H L options cf core =
        (Ok (), replay_wal_records_core (deduplicate_records ?rs) (core\<lparr>co_wals := AList.update cf w (co_wals core)\<rparr>))"
      using recover_wal_correct [OF _ laws] by blast
    let ?core1 = "replay_wal_records_core (deduplicate_records ?rs) (core\<lparr>co_wals := AList.update cf w (co_wals core)\<rparr>)"
    have "\<exists>core'. recover_other_wals H L options es ?core1 = (Ok (), core') \<and>
        replayed H (concat (map (\<lambda>cf. recovered (h_crates H) (encryptor_new (eo_encryption options)) (logs cf)) (other_cfs es))) ?core1 core'"
      using Cons.prems fresh by (intro Cons.IH) (auto simp: replay_fields o update_conv')
    then show ?thesis
      using cf w Cons.prems(3) o replayed_trans [OF replayed_log] by fastforce
  qed
qed

subsection \<open>Tables\<close>

lemma load_catalogued:
  assumes "files_ok X enc disk cat" "cat p = Some segs" "crate_laws X rng"
  shows "\<exists>t. load_for_recovery X disk p enc = Ok (if tb_bloom_filter t = None then DegradedBloom t else Healthy t) \<and>
    tb_path t = Some p \<and> tb_data t = [] \<and> table_ok X cat t"
proof -
  obtain meta mw "file" where f: "disk p = Some file" "sst_file X enc (seg_ents segs) segs meta mw file" "length file < 2 ^ 32"
    "length (seg_ents segs) < 2 ^ 64"
    using assms(1,2) unfolding files_ok_def by blast
  show ?thesis
    using from_sst_file [OF f(2) assms(3) f(3,4), of disk p] f(1) assms(2) by (auto simp: load_for_recovery_def)
qed

definition loaded_table :: "'bl candidate \<Rightarrow> 'bl table \<Rightarrow> bool" where
  "loaded_table c t \<longleftrightarrow> cd_outcome c = Healthy t \<or> cd_outcome c = DegradedBloom t"

lemma inspect_catalogued:
  assumes "files_ok X enc disk cat" "crate_laws X rng" "distinct (map snd ps)" "set (map snd ps) \<inter> set seen = {}" "\<forall>p\<in>snd ` set ps. cat p \<noteq> None"
  shows "\<exists>cs ts. inspect_loop X disk enc seen ps = Ok cs \<and> list_all2 loaded_table cs ts \<and> map (\<lambda>c. (cd_cf c, cd_path c)) cs = ps \<and>
    map tb_path ts = map (Some \<circ> snd) ps \<and> (\<forall>t\<in>set ts. table_ok X cat t)"
  using assms(3-5)
proof (induction ps arbitrary: seen)
  case (Cons cfp ps)
  obtain cf p where cfp: "cfp = (cf, p)" by (cases cfp)
  obtain segs where segs: "cat p = Some segs" using Cons.prems(3) cfp by auto
  obtain t where t: "load_for_recovery X disk p enc = Ok (if tb_bloom_filter t = None then DegradedBloom t else Healthy t)"
    "tb_path t = Some p" "table_ok X cat t"
    using load_catalogued [OF assms(1) segs assms(2)] by blast
  have disk: "disk p \<noteq> None" using assms(1) segs by (auto simp: files_ok_def)
  obtain cs ts where r: "inspect_loop X disk enc (p # seen) ps = Ok cs" "list_all2 loaded_table cs ts"
    "map (\<lambda>c. (cd_cf c, cd_path c)) cs = ps" "map tb_path ts = map (Some \<circ> snd) ps" "\<forall>t\<in>set ts. table_ok X cat t"
    using Cons.IH [of "p # seen"] Cons.prems cfp by auto
  let ?c = "\<lparr>cd_cf = cf, cd_path = p, cd_outcome = if tb_bloom_filter t = None then DegradedBloom t else Healthy t\<rparr>"
  have "inspect_loop X disk enc seen (cfp # ps) = Ok (?c # cs)" using Cons.prems(2) cfp t(1) disk r(1) by auto
  moreover have "loaded_table ?c t" by (simp add: loaded_table_def)
  ultimately show ?case using r t cfp by (intro exI [of _ "?c # cs"] exI [of _ "t # ts"]) auto
qed auto

lemma apply_loaded:
  assumes "list_all2 loaded_table cs ts" "kv_law H" "engine_ok H cat core" "\<forall>t\<in>set ts. table_ok (h_crates H) cat t" "cs \<noteq> [] \<or> (\<forall>cf. kv_coherent H cat cf (co_version_set core))"
  shows "\<exists>vs. apply_candidates H reason cs core = (Ok (), core\<lparr>co_version_set := vs\<rparr>) \<and> engine_ok H cat (core\<lparr>co_version_set := vs\<rparr>) \<and>
    (\<forall>cf. kv_coherent H cat cf vs) \<and>
    (\<forall>cf. cf_tables vs cf = cf_tables (co_version_set core) cf @ map snd (List.filter (\<lambda>(c, t). cd_cf c = cf) (zip cs ts)))"
  using assms
proof (induction cs ts arbitrary: core rule: list_all2_induct)
  case Nil
  then show ?case by (intro exI [of _ "co_version_set core"]) simp
next
  case (Cons c cs t ts)
  let ?vs0 = "if cd_outcome c = Healthy t then co_version_set core else co_version_set (add_degraded core)"
  let ?vs1 = "add_table H (cd_cf c) t ?vs0" and ?core1 = "core\<lparr>co_version_set := add_table H (cd_cf c) t ?vs0\<rparr>"
  have step: "apply_candidates H reason (c # cs) core = apply_candidates H reason cs ?core1"
    using Cons.hyps(1) by (auto simp: loaded_table_def add_degraded_def Let_def)
  have tabs: "cf_tables ?vs1 cf = cf_tables (co_version_set core) cf @ (if cf = cd_cf c then [t] else [])" for cf
    by (auto simp: cf_tables_add) (auto simp: add_degraded_def cf_tables_def)
  have st: "store_ok H (co_sst_dir core) cat (co_version_set core)" using engine_okD(1) [OF Cons.prems(2)] .
  have fields: "vs_encryption ?vs1 = vs_encryption (co_version_set core)" "vs_block_cache ?vs1 = vs_block_cache (co_version_set core)"
    "vs_quarantined ?vs1 = vs_quarantined (co_version_set core)"
    by (simp_all add: add_table_fields) (simp_all add: add_degraded_def)
  have "store_ok H (co_sst_dir core) cat ?vs1"
    by (rule store_ok_tables [OF st, where ts = "cf_tables (co_version_set core) (cd_cf c) @ [t]" and cf = "cd_cf c"])
      (use store_okD(5) [OF st, of _ "cd_cf c"] Cons.prems(3) fields tabs in auto)
  then have ok1: "engine_ok H cat ?core1"
    using Cons.prems(2) by (simp add: engine_ok_def memtables_of_def tombstones_of_def)
  have kv1: "\<forall>cf. kv_coherent H cat cf (co_version_set ?core1)" using kv_coherent_add [OF Cons.prems(1)] by simp
  obtain vs where vs: "apply_candidates H reason cs ?core1 = (Ok (), ?core1\<lparr>co_version_set := vs\<rparr>)" "engine_ok H cat (?core1\<lparr>co_version_set := vs\<rparr>)"
    "\<forall>cf. kv_coherent H cat cf vs" "\<forall>cf. cf_tables vs cf = cf_tables ?vs1 cf @ map snd (List.filter (\<lambda>(c, t). cd_cf c = cf) (zip cs ts))"
    using Cons.IH [OF Cons.prems(1) ok1] Cons.prems(3) kv1 by auto
  then show ?case using step tabs by (intro exI [of _ vs]) simp
qed

subsection \<open>The start of an engine\<close>

text \<open>The table files of a directory in the order in which they are loaded, and the records of a file.\<close>

definition table_names :: "data_dir \<Rightarrow> path list" where
  "table_names D = sort_key as_bytes (List.filter (\<lambda>e. path_extension e = Some ''sst'') (dd_sst_entries D))"

definition path_ents :: "catalogue \<Rightarrow> path \<Rightarrow> (bytes \<times> log_record) list" where
  "path_ents cat p = (case cat p of None \<Rightarrow> [] | Some segs \<Rightarrow> seg_ents segs)"

lemma insort_key_pair: "insort_key (\<lambda>(_, p). f p) (c, x) (map (Pair c) xs) = map (Pair c) (insort_key f x xs)"
  by (induction xs) auto

lemma sort_key_pair: "sort_key (\<lambda>(_, p). f p) (map (Pair c) xs) = map (Pair c) (sort_key f xs)"
  by (induction xs) (auto simp: insort_key_pair)

lemma newest_paths:
  assumes "map tb_path ts = map Some ps"
  shows "newest cat ts key = first_some (map (\<lambda>p. map_of (path_ents cat p) key) ps)"
proof -
  have "map (\<lambda>t. map_of (tb_ents cat t) key) ts =
      map (\<lambda>a. map_of (case a of None \<Rightarrow> [] | Some p \<Rightarrow> path_ents cat p) key) (map tb_path ts)"
    by (simp add: tb_ents_def path_ents_def split: option.splits)
  then show ?thesis unfolding newest_def assms by (simp add: comp_def)
qed

lemma discover_correct:
  assumes ok: "engine_ok H cat core" "\<forall>cf. kv_coherent H cat cf (co_version_set core)" "\<forall>cf. cf_tables (co_version_set core) cf = []"
    and laws: "kv_law H" "crate_laws (h_crates H) rng" and enc: "vs_encryption (co_version_set core) = co_encryption core"
    and D: "dd_manifest D = None" "distinct (dd_sst_entries D)" "\<forall>p\<in>set (table_names D). cat p \<noteq> None"
  shows "\<exists>vs. discover_sstables_from_disk H D core = (Ok (), core\<lparr>co_version_set := vs\<rparr>) \<and> engine_ok H cat (core\<lparr>co_version_set := vs\<rparr>) \<and>
    (\<forall>cf. kv_coherent H cat cf vs) \<and>
    (\<forall>cf. map tb_path (cf_tables vs cf) = (if cf = ''default'' then map Some (table_names D) else []))"
proof -
  let ?vs1 = "(co_version_set core)\<lparr>vs_quarantined_count := count_quarantined (dd_quarantine_entries D), vs_unreadable_count := count_quarantined (dd_quarantine_entries D)\<rparr>"
  let ?core1 = "core\<lparr>co_version_set := ?vs1\<rparr>" and ?ps = "map (Pair ''default'') (table_names D)"
  have cf1: "cf_tables ?vs1 cf = cf_tables (co_version_set core) cf" for cf by (simp add: cf_tables_def)
  have ok1: "engine_ok H cat ?core1"
    using ok(1) by (simp add: engine_ok_def memtables_of_def tombstones_of_def) (simp add: store_ok_def cf_tables_def)
  have kv1: "\<forall>cf. kv_coherent H cat cf (co_version_set ?core1)"
    using ok(2) by (simp add: kv_coherent_def get_cached_def cf1 cong: if_cong)
  have files: "files_ok (h_crates H) (co_encryption core) (co_sst_dir core) cat"
    using store_okD(1) [OF engine_okD(1) [OF ok(1)]] enc by simp
  have "distinct (map snd ?ps)" using D(2) by (simp add: comp_def table_names_def)
  moreover have "\<forall>p\<in>snd ` set ?ps. cat p \<noteq> None" using D(3) by auto
  ultimately obtain cs ts where i: "inspect_loop (h_crates H) (co_sst_dir core) (co_encryption core) [] ?ps = Ok cs" "list_all2 loaded_table cs ts"
    "map (\<lambda>c. (cd_cf c, cd_path c)) cs = ?ps" "map tb_path ts = map (Some \<circ> snd) ?ps" "\<forall>t\<in>set ts. table_ok (h_crates H) cat t"
    using inspect_catalogued [OF files laws(2), of ?ps "[]"] by auto
  obtain vs where vs: "apply_candidates H (dd_reason D) cs ?core1 = (Ok (), ?core1\<lparr>co_version_set := vs\<rparr>)" "engine_ok H cat (?core1\<lparr>co_version_set := vs\<rparr>)"
    "\<forall>cf. kv_coherent H cat cf vs" "\<forall>cf. cf_tables vs cf = cf_tables ?vs1 cf @ map snd (List.filter (\<lambda>(c, t). cd_cf c = cf) (zip cs ts))"
    using apply_loaded [OF i(2) laws(1) ok1 i(5), of "dd_reason D"] kv1 by auto
  have "discover_sstables_from_disk H D core = (Ok (), core\<lparr>co_version_set := vs\<rparr>)"
    using D(1) i(1) vs(1) by (simp add: discover_sstables_from_disk_def inspect_def listed_tables_def sort_key_pair table_names_def Let_def)
  moreover have "cd_cf c = ''default''" if "c \<in> set cs" for c
  proof -
    have "map cd_cf cs = map (\<lambda>_. ''default'') (table_names D)" using arg_cong [OF i(3), of "map fst"] by (simp add: comp_def)
    moreover have "cd_cf c \<in> set (map cd_cf cs)" using that by simp
    ultimately show ?thesis by auto
  qed
  then have "List.filter (\<lambda>(c, t). cd_cf c = cf) (zip cs ts) = (if cf = ''default'' then zip cs ts else [])" for cf
    by (auto simp: filter_id_conv filter_empty_conv dest!: set_zip_leftD)
  moreover have ts: "map tb_path ts = map Some (table_names D)" using i(4) by (simp add: comp_def)
  moreover have "map snd (zip cs ts) = ts" using list_all2_lengthD [OF i(2)] by simp
  ultimately have "map tb_path (cf_tables vs cf) = (if cf = ''default'' then map Some (table_names D) else [])" for cf
    using vs(4) ok(3) ts by (simp add: cf1 del: map_map)
  with \<open>discover_sstables_from_disk H D core = _\<close> show ?thesis using vs(2,3) by (intro exI [of _ vs]) simp
qed

text \<open>Tables that come from disk have no in-memory values.\<close>

definition cold :: "('bl, 'c, 'k) engine_core \<Rightarrow> bool" where
  "cold core \<longleftrightarrow> (\<forall>cf. \<forall>t\<in>set (cf_tables (co_version_set core) cf). tb_data t = [])"

lemma bind_st_Ok: "bind_st p f = (Ok b, s') \<longleftrightarrow> (\<exists>a s. p = (Ok a, s) \<and> f a s = (Ok b, s'))"
  by (cases "(p, f)" rule: bind_st.cases) auto

lemma load_for_recovery_cold:
  "load_for_recovery X disk p enc = Ok (Healthy t) \<Longrightarrow> tb_data t = []"
  "load_for_recovery X disk p enc = Ok (DegradedBloom t) \<Longrightarrow> tb_data t = []"
  by (auto simp: load_for_recovery_def from_sstable_path_def and_then_eq_Ok split: outcome.splits if_splits)

lemma inspect_cold:
  "inspect_loop X disk enc seen ps = Ok cs \<Longrightarrow> c \<in> set cs \<Longrightarrow> loaded_table c t \<Longrightarrow> tb_data t = []"
proof (induction X disk enc seen ps arbitrary: cs rule: inspect_loop.induct)
  case (2 X disk enc seen cf p paths)
  obtain load cs' where l: "load_for_recovery X disk p enc = Ok load" "inspect_loop X disk enc (p # seen) paths = Ok cs'"
    "cs = \<lparr>cd_cf = cf, cd_path = p, cd_outcome = load\<rparr> # cs'" "p \<notin> set seen" "disk p \<noteq> None"
    using "2.prems"(1) by (auto simp: and_then_eq_Ok split: if_splits)
  show ?case
  proof (cases "c \<in> set cs'")
    case True
    then show ?thesis using "2.IH" [OF l(4) _ _ l(2) True] l(1,5) "2.prems"(3) by simp
  next
    case False
    then have "load = Healthy t \<or> load = DegradedBloom t" using "2.prems"(2,3) l(3) by (auto simp: loaded_table_def)
    then show ?thesis using l(1) load_for_recovery_cold by blast
  qed
qed simp

lemma cold_add: "tb_data t = [] \<Longrightarrow> cold core \<Longrightarrow> cold (core\<lparr>co_version_set := add_table H cf t (co_version_set core)\<rparr>)"
  by (auto simp: cold_def cf_tables_add)

lemma apply_cold:
  "apply_candidates H reason cs core = (Ok (), core') \<Longrightarrow> \<forall>c\<in>set cs. \<forall>t. loaded_table c t \<longrightarrow> tb_data t = [] \<Longrightarrow> cold core \<Longrightarrow>
     cold core' \<and> co_compaction core' = co_compaction core"
proof (induction H reason cs core rule: apply_candidates.induct)
  case (2 H reason c cs core)
  show ?case
  proof (cases "cd_outcome c")
    case (Corrupt e)
    obtain r disk where q: "quarantine reason (cd_path c) (co_sst_dir core) = (r, disk)" by fastforce
    have "cold (add_unreadable (core\<lparr>co_sst_dir := disk\<rparr>))" using "2.prems"(3) by (simp add: cold_def add_unreadable_def cf_tables_def)
    moreover have "co_compaction (add_unreadable (core\<lparr>co_sst_dir := disk\<rparr>)) = co_compaction core" by (simp add: add_unreadable_def)
    ultimately show ?thesis using 2 q Corrupt by (cases r) auto
  next
    case (Healthy t)
    have "tb_data t = []" using "2.prems"(2) Healthy by (simp add: loaded_table_def)
    from cold_add [OF this "2.prems"(3)] show ?thesis using "2.IH"(1) [OF Healthy] "2.prems"(1,2) Healthy by simp
  next
    case (DegradedBloom t)
    have "tb_data t = []" using "2.prems"(2) DegradedBloom by (simp add: loaded_table_def)
    moreover have d: "cold (add_degraded core)" "co_compaction (add_degraded core) = co_compaction core"
      using "2.prems"(3) by (simp_all add: cold_def add_degraded_def cf_tables_def)
    ultimately have c: "cold ((add_degraded core)\<lparr>co_version_set := add_table H (cd_cf c) t (co_version_set (add_degraded core))\<rparr>)"
      by (intro cold_add)
    have "apply_candidates H reason cs ((add_degraded core)\<lparr>co_version_set := add_table H (cd_cf c) t (co_version_set (add_degraded core))\<rparr>) = (Ok (), core')"
      using "2.prems"(1) DegradedBloom by (simp add: Let_def)
    from "2.IH"(2) [OF DegradedBloom refl this _ c] "2.prems"(2) d(2) show ?thesis by simp
  qed
qed simp

lemma recover_wal_keeps:
  "recover_wal H L options cf core = (Ok (), core') \<Longrightarrow> co_version_set core' = co_version_set core \<and> co_compaction core' = co_compaction core"
  by (auto simp: recover_wal_def bind_st_Ok replay_fields Let_def)

lemma recover_others_keeps:
  "recover_other_wals H L options es core = (Ok (), core') \<Longrightarrow> co_version_set core' = co_version_set core \<and> co_compaction core' = co_compaction core"
  by (induction H L options es core rule: recover_other_wals.induct)
    (auto simp: bind_st_Ok split: option.splits if_splits dest!: recover_wal_keeps)

lemma new_generic_cold:
  assumes "new_generic H L options D = (Ok (), core)"
  shows "cold core" "co_compaction core = co_compaction (initial_core H options D :: ('bl, 'c, 'k) engine_core)"
proof -
  let ?core0 = "initial_core H options D"
  obtain core1 core2 where c: "recover_wal H L options ''default'' ?core0 = (Ok (), core1)" "recover_other_wals H L options (dd_entries D) core1 = (Ok (), core2)"
    "discover_sstables_from_disk H D core2 = (Ok (), core)"
    using assms by (auto simp: new_generic_def bind_st_Ok Let_def split: if_splits)
  note k = recover_wal_keeps [OF c(1)] recover_others_keeps [OF c(2)]
  have "cold core2" using k by (simp add: cold_def initial_core_def vs_new_def cf_tables_def)
  define core3 where "core3 = core2\<lparr>co_version_set := (co_version_set core2)
    \<lparr>vs_quarantined_count := count_quarantined (dd_quarantine_entries D), vs_unreadable_count := count_quarantined (dd_quarantine_entries D)\<rparr>\<rparr>"
  obtain ps cs where d: "apply_candidates H (dd_reason D) cs core3 = (Ok (), core)" "inspect_loop (h_crates H) (co_sst_dir core2) (co_encryption core2) [] ps = Ok cs"
    using c(3) unfolding discover_sstables_from_disk_def inspect_def bind_st_Ok Let_def core3_def and_then_eq_Ok by (elim exE conjE) (simp, blast)
  have "cold core3" "co_compaction core3 = co_compaction core2" using \<open>cold core2\<close> by (simp_all add: core3_def cold_def cf_tables_def)
  then show "cold core" "co_compaction core = co_compaction ?core0" using apply_cold [OF d(1)] inspect_cold [OF d(2)] k by auto
qed

definition log_cfs :: "data_dir \<Rightarrow> string list" where
  "log_cfs D = ''default'' # other_cfs (dd_entries D)"

text \<open>
  A directory as an earlier run leaves it: no lock, no manifest, every table file one of the
  catalogue, every log file the log of the records \<open>logs\<close>.
\<close>

definition clean_dir ::
  "('bl, 'c, 'k) host \<Rightarrow> (nat \<Rightarrow> bytes option) \<Rightarrow> encryption_config \<Rightarrow> catalogue \<Rightarrow> (string \<Rightarrow> log_record list) \<Rightarrow> data_dir \<Rightarrow> bool" where
  "clean_dir H rng enc cat logs D \<longleftrightarrow>
     \<not> dd_locked D \<and> dd_manifest D = None \<and> distinct (dd_entries D) \<and> distinct (dd_sst_entries D) \<and>
     files_ok (h_crates H) enc (dd_sst D) cat \<and> inj_on (h_path_hash H) (dom cat) \<and> (\<forall>p\<in>set (table_names D). cat p \<noteq> None) \<and>
     (\<forall>cf\<in>set (log_cfs D). holds_log (h_crates H) rng enc (logs cf) (dd_files D (wal_file_name cf)))"

definition recovered_logs :: "('bl, 'c, 'k) host \<Rightarrow> encryption_config \<Rightarrow> (string \<Rightarrow> log_record list) \<Rightarrow> data_dir \<Rightarrow> log_record list" where
  "recovered_logs H enc logs D = concat (map (\<lambda>cf. recovered (h_crates H) (encryptor_new enc) (logs cf)) (log_cfs D))"

lemma initial_core_ok:
  assumes "clean_dir H rng enc cat logs D" "enc = eo_encryption options" "kv_law H" "\<forall>k. x_cache_get (h_crates H) (h_cache_new H) k = None"
  shows "engine_ok H cat (initial_core H options D)" "kv_coherent H cat cf (co_version_set (initial_core H options D))"
    "cf_tables (co_version_set (initial_core H options D)) cf = []"
proof -
  show "cf_tables (co_version_set (initial_core H options D)) cf = []" by (simp add: initial_core_def vs_new_def cf_tables_def)
  have "cached_blocks_ok H cat (h_cache_new H)" using assms(4) by (simp add: cached_blocks_ok_def cache_coherent_def cache_get_def)
  then show "engine_ok H cat (initial_core H options D)"
    using assms(1,2) by (simp add: engine_ok_def initial_core_def memtables_of_def store_ok_def vs_new_def cf_tables_def clean_dir_def)
  have "h_kv_get H (h_kv_new H) k = None" for k using assms(3) unfolding kv_law_def by blast
  then show "kv_coherent H cat cf (co_version_set (initial_core H options D))" by (simp add: kv_coherent_def get_cached_def initial_core_def vs_new_def)
qed

lemma new_generic_correct:
  assumes dir: "clean_dir H rng (eo_encryption options) cat logs D" and laws: "kv_law H" "crate_laws (h_crates H) rng"
    and cache: "\<forall>k. x_cache_get (h_crates H) (h_cache_new H) k = None"
    and key: "\<not> (ec_enabled (eo_encryption options) \<and> ec_key (eo_encryption options) = replicate 32 0)"
  shows "\<exists>core. new_generic H L options D = (Ok (), core) \<and> engine_ok H cat core \<and> (\<forall>cf. kv_coherent H cat cf (co_version_set core)) \<and>
    (\<forall>cf. map tb_path (cf_tables (co_version_set core) cf) = (if cf = ''default'' then map Some (table_names D) else [])) \<and>
    (\<forall>cf key. memtable_record core cf key = latest (cf, key) (recovered_logs H (eo_encryption options) logs D)) \<and>
    (\<forall>cf. tombstones_of core cf = logged_ranges cf (recovered_logs H (eo_encryption options) logs D))"
proof -
  let ?enc = "eo_encryption options" and ?core0 = "initial_core H options D"
  let ?recs = "\<lambda>cf. recovered (h_crates H) (encryptor_new ?enc) (logs cf)"
  note init = initial_core_ok [OF dir refl laws(1) cache]
  have dirs: "co_dir ?core0 = dd_files D" "co_wals ?core0 = []" "co_encryption ?core0 = ?enc" "vs_encryption (co_version_set ?core0) = ?enc"
    by (simp_all add: initial_core_def vs_new_def)
  have logs: "\<forall>cf\<in>set (log_cfs D). holds_log (h_crates H) rng ?enc (logs cf) (dd_files D (wal_file_name cf))"
    and d: "\<not> dd_locked D" "dd_manifest D = None" "distinct (dd_entries D)" "distinct (dd_sst_entries D)" "\<forall>p\<in>set (table_names D). cat p \<noteq> None"
    using dir by (auto simp: clean_dir_def)
  obtain w where r1: "recover_wal H L options ''default'' ?core0 =
      (Ok (), replay_wal_records_core (deduplicate_records (?recs ''default'')) (?core0\<lparr>co_wals := AList.update ''default'' w (co_wals ?core0)\<rparr>))"
    using recover_wal_correct [OF _ laws(2), of options "logs ''default''" ?core0 "''default''" L] logs dirs(1) by (auto simp: log_cfs_def)
  define core1 where "core1 = replay_wal_records_core (deduplicate_records (?recs ''default'')) (?core0\<lparr>co_wals := AList.update ''default'' w (co_wals ?core0)\<rparr>)"
  have p1: "replayed H (?recs ''default'') ?core0 core1" unfolding core1_def by (rule replayed_log)
  have wals: "co_wals core1 = [(''default'', w)]" by (simp add: core1_def replay_fields dirs)
  have "\<exists>core2. recover_other_wals H L options (dd_entries D) core1 = (Ok (), core2) \<and> replayed H (concat (map ?recs (other_cfs (dd_entries D)))) core1 core2"
  proof (rule recover_others [OF d(3) _ _ laws(2)])
    show "\<forall>cf\<in>set (other_cfs (dd_entries D)). holds_log (h_crates H) rng ?enc (logs cf) (co_dir core1 (wal_file_name cf))"
      using logs p1 dirs(1) by (simp add: replayed_def log_cfs_def)
    show "\<forall>cf\<in>set (other_cfs (dd_entries D)). map_of (co_wals core1) cf = None" by (simp add: wals other_cfs_def)
  qed
  then obtain core2 where r2: "recover_other_wals H L options (dd_entries D) core1 = (Ok (), core2)"
    and p2: "replayed H (recovered_logs H ?enc logs D) ?core0 core2"
    using replayed_trans [OF p1] by (auto simp: recovered_logs_def log_cfs_def)
  have c2: "engine_ok H cat core2" "co_version_set core2 = co_version_set ?core0" "co_encryption core2 = ?enc"
    using p2 init(1) dirs by (auto simp: replayed_def)
  obtain vs where vs: "discover_sstables_from_disk H D core2 = (Ok (), core2\<lparr>co_version_set := vs\<rparr>)" "engine_ok H cat (core2\<lparr>co_version_set := vs\<rparr>)"
    "\<forall>cf. kv_coherent H cat cf vs" "\<forall>cf. map tb_path (cf_tables vs cf) = (if cf = ''default'' then map Some (table_names D) else [])"
    using discover_correct [OF c2(1) _ _ laws _ d(2,4,5)] c2 init(2,3) dirs by auto
  let ?core = "core2\<lparr>co_version_set := vs\<rparr>"
  have "new_generic H L options D = (Ok (), ?core)"
    using key d(1) r1 r2 vs(1) by (simp add: new_generic_def core1_def [symmetric] Let_def)
  moreover have "memtable_record ?core cf key = latest (cf, key) (recovered_logs H ?enc logs D)"
    "tombstones_of ?core cf = logged_ranges cf (recovered_logs H ?enc logs D)" for cf key
    using p2 unfolding replayed_def memtable_record_def memtables_of_def tombstones_of_def initial_core_def by (simp_all split: option.splits)
  ultimately show ?thesis using vs by (intro exI [of _ ?core]) simp
qed

subsection \<open>An example directory\<close>

definition log_record_7 :: log_record where
  "log_record_7 = (log_record_new 0 [7] [8])\<lparr>lr_column_family := Some ''default''\<rparr>"

definition two_tables :: disk where
  "two_tables = [''flush_0.sst'' \<mapsto> demo_file, ''flush_10.sst'' \<mapsto> demo_file]"

definition demo_dir :: data_dir where
  "demo_dir =
     \<lparr>dd_locked = False, dd_files = [''wal.log'' \<mapsto> [4, 0, 0, 0, 2, 255, 7, 8, 8, 0, 0, 0]], dd_entries = [''wal.log'', ''sstables''],
      dd_manifest = None, dd_sst = two_tables, dd_sst_entries = [''flush_10.sst'', ''flush_0.sst''], dd_quarantine_entries = [], dd_reason = []\<rparr>"

definition restart_options :: engine_options where
  "restart_options = demo_options\<lparr>eo_compaction_options := compaction_options_default\<lparr>cp_compaction_threshold := 2\<rparr>\<rparr>"

lemma demo_dir_names:
  "table_names demo_dir = [''flush_0.sst'', ''flush_10.sst'']" "log_cfs demo_dir = [''default'']" "distinct (dd_entries demo_dir)"
  "distinct (dd_sst_entries demo_dir)"
  by code_simp+

definition log_7 :: wal where
  "log_7 =
     \<lparr>wal_file = [4, 0, 0, 0, 2, 255, 7, 8, 8, 0, 0, 0], wal_synced = 0, wal_batch_count = 1,
      wal_encryptor = encryptor_new encryption_default, wal_sync_interval = 4, wal_rng = 0\<rparr>"

lemma demo_dir_log:
  "write_all demo_crates (\<lambda>_. None) [log_record_7] (wal_open [] encryption_default) = Ok log_7"
  "fits_log demo_crates log_record_7" "recovered demo_crates (encryptor_new encryption_default) [log_record_7] = [log_record_7]"
  by code_simp+

lemma restart_encryption: "eo_encryption restart_options = encryption_default"
  by (simp add: restart_options_def demo_options_def engine_options_default_def)

lemma demo_open_laws:
  "crate_laws (h_crates demo_host) (\<lambda>_. None)" "\<forall>k. x_cache_get (h_crates demo_host) (h_cache_new demo_host) k = None"
  "\<not> (ec_enabled (eo_encryption restart_options) \<and> ec_key (eo_encryption restart_options) = replicate 32 0)"
  using demo_laws demo_sizes(5) by (simp_all add: restart_encryption encryption_default_def)

lemma demo_clean_dir:
  "\<exists>segs. seg_ents segs = demo_entries \<and>
     clean_dir demo_host (\<lambda>_. None) (eo_encryption restart_options) [''flush_0.sst'' \<mapsto> segs, ''flush_10.sst'' \<mapsto> segs] (\<lambda>_. [log_record_7]) demo_dir"
proof -
  obtain segs meta mw where f: "sst_file demo_crates encryption_default demo_entries segs meta mw demo_file"
    using sst_build_file [OF demo_build demo_laws demo_sizes(1-3)] by blast
  then have segs: "seg_ents segs = demo_entries" using sst_fileD(1) by metis
  let ?cat = "[''flush_0.sst'' \<mapsto> segs, ''flush_10.sst'' \<mapsto> segs]"
  have "files_ok demo_crates encryption_default two_tables ?cat"
    unfolding files_ok_def two_tables_def using f segs demo_sizes(3,4) by (auto split: if_splits)
  moreover have "inj_on (h_path_hash demo_host) (dom ?cat)" by (auto simp: inj_on_def demo_host_def)
  moreover have "holds_log demo_crates (\<lambda>_. None) encryption_default [log_record_7] (Some (wal_file log_7))"
    using demo_dir_log(1,2) by (auto simp: holds_log_def)
  ultimately show ?thesis
    using segs by (intro exI [of _ segs]) (simp add: clean_dir_def demo_dir_names restart_encryption, simp add: demo_dir_def wal_file_name_def log_7_def)
qed

subsection \<open>Properties\<close>



text \<open>C28: a compaction after a restart deletes the data. The tables of a freshly started engine have
  no in-memory values, and compaction merges only those: with the default threshold or a smaller
  one, compacting a column family of which enough table files were loaded succeeds, writes no
  record, drops all of the tables and deletes their files.\<close>

theorem restart_compaction_loses_data:
  assumes "new_generic H L options D = (Ok (), core)" and "cp_compaction_threshold (eo_compaction_options options) \<le> 4"
    and "2 \<le> length (cf_tables (co_version_set core) cf)"
    and "cp_compaction_threshold (eo_compaction_options options) \<le> length (cf_tables (co_version_set core) cf)"
  shows "\<exists>m core'. compact_cf_core H rng clock options cf core = (Ok (Some m), core') \<and> cf_tables (co_version_set core') cf = [] \<and>
    (\<forall>t\<in>set (cf_tables (co_version_set core) cf). \<forall>p. tb_path t = Some p \<longrightarrow> co_sst_dir core' p = None)"
proof (rule compact_cf_core_reloaded [OF refl])
  note c = new_generic_cold [OF assms(1)]
  show "\<forall>t\<in>set (cf_tables (co_version_set core) cf). tb_data t = []" using c(1) by (simp add: cold_def)
  show "cp_compaction_threshold (cc_options (co_compaction core)) \<le> length (cf_tables (co_version_set core) cf)"
    using c(2) assms(4) by (simp add: initial_core_def compaction_new_def)
  show "cc_strategy (co_compaction core) = SizeTiered"
    using c(2) assms(2) by (simp add: initial_core_def compaction_new_def strategy_of_threshold_def)
qed (fact assms(3))

theorem restart_compaction_loses_data_witness:
  "\<exists>core m core'. new_generic demo_host demo_legacy restart_options demo_dir = (Ok (), core) \<and>
     map tb_path (cf_tables (co_version_set core) ''default'') = [Some ''flush_0.sst'', Some ''flush_10.sst''] \<and>
     compact_cf_core demo_host (\<lambda>_. None) (\<lambda>_. 5) restart_options ''default'' core = (Ok (Some m), core') \<and>
     cf_tables (co_version_set core') ''default'' = [] \<and> co_sst_dir core' ''flush_0.sst'' = None"
proof -
  obtain segs where s: "clean_dir demo_host (\<lambda>_. None) (eo_encryption restart_options) [''flush_0.sst'' \<mapsto> segs, ''flush_10.sst'' \<mapsto> segs] (\<lambda>_. [log_record_7]) demo_dir"
    using demo_clean_dir by blast
  obtain core where c: "new_generic demo_host demo_legacy restart_options demo_dir = (Ok (), core)"
    "map tb_path (cf_tables (co_version_set core) ''default'') = [Some ''flush_0.sst'', Some ''flush_10.sst'']"
    using new_generic_correct [OF s demo_kv demo_open_laws, of demo_legacy] by (auto simp: demo_dir_names)
  have len: "length (cf_tables (co_version_set core) ''default'') = 2" using arg_cong [OF c(2), of length] by simp
  have "Some ''flush_0.sst'' \<in> set (map tb_path (cf_tables (co_version_set core) ''default''))" unfolding c(2) by simp
  then obtain t where t: "t \<in> set (cf_tables (co_version_set core) ''default'')" "tb_path t = Some ''flush_0.sst''" by auto
  obtain m core' where r: "compact_cf_core demo_host (\<lambda>_. None) (\<lambda>_. 5) restart_options ''default'' core = (Ok (Some m), core')"
    "cf_tables (co_version_set core') ''default'' = []"
    "\<forall>t\<in>set (cf_tables (co_version_set core) ''default''). \<forall>p. tb_path t = Some p \<longrightarrow> co_sst_dir core' p = None"
    using restart_compaction_loses_data [OF c(1), of "''default''" "\<lambda>_. None" "\<lambda>_. 5"] len by (auto simp: restart_options_def)
  then have "co_sst_dir core' ''flush_0.sst'' = None" using t by blast
  with c r(1,2) show ?thesis by (intro exI [of _ core] exI [of _ m] exI [of _ core']) simp
qed

end
