(* ===== verification/Transaction.thy ===== *)
theory Transaction
  imports Engine_Read "HOL-Library.Char_ord" "HOL-Library.Product_Lexorder"
begin

text \<open>
  \<open>src/core/engine/transaction.rs\<close>: writes are buffered in an ordered map and applied at commit, one
  column family after the other.

  The shared engine state is passed along. A commit reads the clock once for every log record and
  once for every memtable record; \<open>clock\<close> gives the readings. \<open>get_cf\<close> has a copy of the engine's
  lookup, which is used here.
\<close>

record transaction =
  tx_txn_id :: u64
  tx_writes :: "(string \<times> bytes, bytes \<times> bool) btree_map"

text \<open>\<open>Transaction::new\<close> takes the next number of a global counter.\<close>

definition txn_new :: "u64 \<Rightarrow> transaction \<times> u64" where
  "txn_new next_txn_id = (\<lparr>tx_txn_id = next_txn_id, tx_writes = []\<rparr>, next_txn_id + 1)"

definition txn_put_cf :: "string \<Rightarrow> bytes \<Rightarrow> bytes \<Rightarrow> transaction \<Rightarrow> transaction" where
  "txn_put_cf cf key value t = t\<lparr>tx_writes := btree_insert (cf, key) (value, False) (tx_writes t)\<rparr>"

definition txn_put :: "bytes \<Rightarrow> bytes \<Rightarrow> transaction \<Rightarrow> transaction" where
  "txn_put key value t = txn_put_cf ''default'' key value t"

definition txn_delete_cf :: "string \<Rightarrow> bytes \<Rightarrow> transaction \<Rightarrow> transaction" where
  "txn_delete_cf cf key t = t\<lparr>tx_writes := btree_insert (cf, key) ([], True) (tx_writes t)\<rparr>"

definition txn_delete :: "bytes \<Rightarrow> transaction \<Rightarrow> transaction" where
  "txn_delete key t = txn_delete_cf ''default'' key t"

definition txn_get_cf ::
  "('bl, 'c, 'k) host \<Rightarrow> u128 \<Rightarrow> string \<Rightarrow> bytes \<Rightarrow> transaction \<Rightarrow> ('bl, 'c, 'k) engine_core
   \<Rightarrow> bytes option outcome \<times> ('bl, 'c, 'k) engine_core" where
  "txn_get_cf H now cf key t core =
     (case map_of (tx_writes t) (cf, key) of
        Some (value, is_deleted) \<Rightarrow> (Ok (if is_deleted then None else Some value), core)
      | None \<Rightarrow> get_cf H now cf key core)"

definition txn_get where
  "txn_get H now key t core = txn_get_cf H now ''default'' key t core"

subsection \<open>Commit\<close>

text \<open>The flush at commit keeps the values in memory only.\<close>

definition flush_memtable_for_cf ::
  "('bl, 'c, 'k) host \<Rightarrow> engine_options \<Rightarrow> string \<Rightarrow> ('bl, 'c, 'k) engine_core \<Rightarrow> bool outcome \<times> ('bl, 'c, 'k) engine_core" where
  "flush_memtable_for_cf H options cf core =
     (case map_of (co_memtables core) cf of
        None \<Rightarrow> (Ok False, core)
      | Some memtables \<Rightarrow>
          if memtables = [] then (Ok False, core)
          else
            let raw_data = btree_collect (map (\<lambda>(k, r). (k, lr_value r)) (mt_data (last memtables)));
                core1 = core\<lparr>co_memtables := AList.update cf (butlast memtables) (co_memtables core),
                             co_version_set := add_table H cf (tb_build (h_crates H) raw_data) (co_version_set core)\<rparr>
            in if map_of (co_memtable_bytes core1) cf = None then (Err InvalidArgument, core1)
               else bind_st (on_wal cf (\<lambda>w. Ok (wal_clear w)) (core1\<lparr>co_memtable_bytes := AList.update cf 0 (co_memtable_bytes core1)\<rparr>))
                      (\<lambda>_ core2. (Ok (cp_compaction_threshold (eo_compaction_options options) < table_count cf (co_version_set core2)), core2)))"

definition group_writes :: "(string \<times> bytes, bytes \<times> bool) btree_map \<Rightarrow> (string, (bytes \<times> bytes \<times> bool) list) btree_map" where
  "group_writes writes =
     fold (\<lambda>((cf, key), write) m.
       btree_insert cf ((case map_of m cf of None \<Rightarrow> [] | Some ws \<Rightarrow> ws) @ [(key, write)]) m) writes []"

definition write_record_of :: "u128 \<Rightarrow> bytes \<times> bytes \<times> bool \<Rightarrow> log_record" where
  "write_record_of now w = (case w of (key, value, is_deleted) \<Rightarrow> if is_deleted then tombstone now key else log_record_new now key value)"

definition apply_write :: "(nat \<Rightarrow> u128) \<Rightarrow> nat \<times> bytes \<times> bytes \<times> bool \<Rightarrow> memtable \<Rightarrow> memtable" where
  "apply_write clock iw m =
     (case iw of (i, key, value, is_deleted) \<Rightarrow> if is_deleted then mt_delete (clock i) key m else mt_put (clock i) key value m)"

text \<open>One column family, with the clock readings from number \<open>n\<close> on.\<close>

definition commit_cf ::
  "('bl, 'c, 'k) host \<Rightarrow> (nat \<Rightarrow> bytes option) \<Rightarrow> (nat \<Rightarrow> u128) \<Rightarrow> nat \<Rightarrow> engine_options \<Rightarrow> string \<Rightarrow> (bytes \<times> bytes \<times> bool) list
   \<Rightarrow> ('bl, 'c, 'k) engine_core \<Rightarrow> bool outcome \<times> ('bl, 'c, 'k) engine_core" where
  "commit_cf H rng clock n options cf entries core =
     (let records = map (\<lambda>(i, w). (write_record_of (clock i) w)\<lparr>lr_column_family := Some cf\<rparr>) (enumerate n entries);
          bytes_added = sum_list (map (\<lambda>(key, value, _). length key + length value) entries)
      in bind_st (on_wal cf (write_batch (h_crates H) rng records) core) (\<lambda>_ core1.
           let core2 = add_bytes cf bytes_added (on_memtable cf (fold (apply_write clock) (enumerate (n + length entries) entries)) core1)
           in if write_buffer_limit options \<le> bytes_of core2 cf then flush_memtable_for_cf H options cf core2
              else (Ok False, core2)))"

fun commit_cfs ::
  "('bl, 'c, 'k) host \<Rightarrow> (nat \<Rightarrow> bytes option) \<Rightarrow> (nat \<Rightarrow> u128) \<Rightarrow> nat \<Rightarrow> engine_options \<Rightarrow> (string \<times> (bytes \<times> bytes \<times> bool) list) list
   \<Rightarrow> ('bl, 'c, 'k) engine_core \<Rightarrow> unit outcome \<times> ('bl, 'c, 'k) engine_core" where
  "commit_cfs H rng clock n options [] core = (Ok (), core)"
| "commit_cfs H rng clock n options ((cf, entries) # cfs) core =
     bind_st (commit_cf H rng clock n options cf entries core) (\<lambda>_ core1.
       commit_cfs H rng clock (n + 2 * length entries) options cfs core1)"

definition txn_commit ::
  "('bl, 'c, 'k) host \<Rightarrow> (nat \<Rightarrow> bytes option) \<Rightarrow> (nat \<Rightarrow> u128) \<Rightarrow> engine_options \<Rightarrow> transaction \<Rightarrow> ('bl, 'c, 'k) engine_core
   \<Rightarrow> unit outcome \<times> ('bl, 'c, 'k) engine_core \<times> transaction" where
  "txn_commit H rng clock options t core =
     (if tx_writes t = [] then (Ok (), core, t)
      else case commit_cfs H rng clock 0 options (group_writes (tx_writes t)) core of
             (res, core') \<Rightarrow> (res, core', t\<lparr>tx_writes := []\<rparr>))"

definition txn_rollback :: "transaction \<Rightarrow> transaction" where
  "txn_rollback t = t\<lparr>tx_writes := []\<rparr>"

end
