(* ===== verification/Engine_Batch.thy ===== *)
theory Engine_Batch
  imports Engine_Store
begin

text \<open>
  Several records that go into the last memtable under one lock: what the engine shows afterwards.
  Batch writes and transactions rest on this.
\<close>

definition last_for :: "bytes \<Rightarrow> log_record list \<Rightarrow> log_record option" where
  "last_for key rs = List.find (\<lambda>r. lr_key r = key) (rev rs)"

lemma last_for_simps [simp]:
  "last_for key [] = None"
  "last_for key (r # rs) = (case last_for key rs of Some r' \<Rightarrow> Some r' | None \<Rightarrow> if lr_key r = key then Some r else None)"
proof -
  have app: "List.find P (xs @ ys) = (case List.find P xs of Some x \<Rightarrow> Some x | None \<Rightarrow> List.find P ys)" for P and xs ys :: "log_record list"
    by (induction xs) auto
  show "last_for key [] = None" by (simp add: last_for_def)
  show "last_for key (r # rs) = (case last_for key rs of Some r' \<Rightarrow> Some r' | None \<Rightarrow> if lr_key r = key then Some r else None)"
    by (simp add: last_for_def app split: option.splits)
qed

lemma last_for_None: "last_for key rs = None \<longleftrightarrow> key \<notin> lr_key ` set rs"
  by (auto simp: last_for_def find_None_iff)

lemma last_for_Some: "last_for key rs = Some r \<Longrightarrow> r \<in> set rs \<and> lr_key r = key"
  by (induction rs) (auto split: option.splits if_splits)

subsection \<open>One memtable\<close>

lemma fold_insert:
  "mt_get (fold mt_insert rs m) key = (case last_for key rs of Some r \<Rightarrow> Some r | None \<Rightarrow> mt_get m key)"
  "mem_wf m \<Longrightarrow> mem_wf (fold mt_insert rs m)" "mt_range_tombstones (fold mt_insert rs m) = mt_range_tombstones m"
  by (induction rs arbitrary: m) (auto simp: mem_wf_insert split: option.splits)

lemma memtable_record_fold:
  "memtable_record (on_memtable cf (fold mt_insert rs) core) cf' key =
     (case (if cf' = cf then last_for key rs else None) of Some r \<Rightarrow> Some r | None \<Rightarrow> memtable_record core cf' key)"
proof (cases "memtables_of core cf = []")
  case True
  moreover have "mt_get (memtable_new usize_max) key = None" by (simp add: mt_get_def memtable_new_def)
  ultimately show ?thesis by (simp add: memtable_record_def memtables_on_memtable fold_insert split: option.splits)
next
  case False
  then obtain ms m where "memtables_of core cf = ms @ [m]" by (metis rev_exhaust)
  then show ?thesis by (simp add: memtable_record_def memtables_on_memtable Let_def fold_insert split: option.splits)
qed

subsection \<open>The engine\<close>

text \<open>\<open>core'\<close> is \<open>core\<close> with the records \<open>rs\<close> written to the memtable of \<open>cf\<close>, in this order.\<close>

definition batch_written ::
  "('bl, 'c, 'k) host \<Rightarrow> catalogue \<Rightarrow> string \<Rightarrow> log_record list \<Rightarrow> ('bl, 'c, 'k) engine_core \<Rightarrow> ('bl, 'c, 'k) engine_core \<Rightarrow> bool" where
  "batch_written H cat cf rs core core' \<longleftrightarrow>
     engine_ok H cat core' \<and> co_version_set core' = co_version_set core \<and> co_sst_dir core' = co_sst_dir core \<and>
     (\<forall>cf' key. entry_at cat core' cf' key =
        (case (if cf' = cf then last_for key rs else None) of Some r \<Rightarrow> Some r | None \<Rightarrow> entry_at cat core cf' key)) \<and>
     (\<forall>cf' key. covering_range_tombstone_ts core' cf' key = covering_range_tombstone_ts core cf' key)"

lemma batch_written_at_once:
  assumes ok: "engine_ok H cat core"
  shows "batch_written H cat cf rs core (add_bytes cf n (on_memtable cf (fold mt_insert rs) core))"
proof -
  let ?core1 = "on_memtable cf (fold mt_insert rs) core"
  note d = same_dataD [OF add_bytes_same_data [of ?core1 cf n]]
  have ok1: "engine_ok H cat ?core1" by (rule engine_ok_on_memtable [OF ok]) (auto simp: fold_insert)
  have "entry_at cat ?core1 cf' key =
       (case (if cf' = cf then last_for key rs else None) of Some r \<Rightarrow> Some r | None \<Rightarrow> entry_at cat core cf' key)" for cf' key
    unfolding entry_at_def memtable_record_fold by (auto split: option.splits)
  then show ?thesis
    unfolding batch_written_def d using ok1 by (simp add: covering_engine [OF ok] covering_engine [OF ok1])
qed

lemma batch_written_one_by_one:
  assumes ok: "engine_ok H cat core"
  shows "batch_written H cat cf rs core (fold (inserted cf) rs core)"
proof (induction rs rule: rev_induct)
  case Nil
  then show ?case using ok by (simp add: batch_written_def)
next
  case (snoc r rs)
  let ?core1 = "fold (inserted cf) rs core"
  have ok1: "engine_ok H cat ?core1" using snoc by (simp add: batch_written_def)
  have last: "last_for key (rs @ [r]) = (if lr_key r = key then Some r else last_for key rs)" for key by (simp add: last_for_def)
  show ?case
    using snoc inserted_ok [OF ok1, of cf r]
    by (auto simp: batch_written_def last same_dataD(9) [OF add_bytes_same_data] split: option.splits)
qed

lemma batch_written_same_data:
  assumes "same_data core core1" "batch_written H cat cf rs core1 core'"
  shows "batch_written H cat cf rs core core'"
  using assms(2) unfolding batch_written_def same_dataD [OF assms(1)] .

text \<open>Records that are not expired and not older than the range deletions over their keys are shown.\<close>

lemma batch_written_view:
  assumes w: "batch_written H cat cf rs core core'"
    and r: "\<forall>r\<in>set rs. \<not> is_expired_at r now \<and> older_ranges (lr_timestamp r) cf (lr_key r) core"
  shows "view cat now core' cf' key =
    (case (if cf' = cf then last_for key rs else None) of Some r \<Rightarrow> visible (Some r) | None \<Rightarrow> view cat now core cf' key)"
proof (cases "if cf' = cf then last_for key rs else None")
  case None
  then show ?thesis using w by (simp add: view_def batch_written_def hidden_def split: option.splits)
next
  case (Some r)
  then have "r \<in> set rs" "lr_key r = key" "cf' = cf" using last_for_Some by (auto split: if_splits)
  then have "\<not> is_expired_at r now" "older_ranges (lr_timestamp r) cf key core" using assms(2) by auto
  moreover have "entry_at cat core' cf' key = Some r" "covering_range_tombstone_ts core' cf' key = covering_range_tombstone_ts core cf' key"
    using w Some by (simp_all add: batch_written_def)
  ultimately show ?thesis unfolding Some
    using \<open>cf' = cf\<close> by (auto simp: view_def hidden_def visible_def older_ranges_def split: option.splits)
qed

subsection \<open>Batches\<close>

definition batch_records :: "(nat \<Rightarrow> u128) \<Rightarrow> nat \<Rightarrow> (bytes \<times> bytes) list \<Rightarrow> log_record list" where
  "batch_records clock n items = map (\<lambda>(i, key, value). log_record_new (clock i) key value) (enumerate n items)"

lemma last_for_batch:
  "(case last_for key (batch_records clock n items) of Some r \<Rightarrow> visible (Some r) | None \<Rightarrow> v) =
     (case map_of (rev items) key of Some value \<Rightarrow> Some value | None \<Rightarrow> v)"
proof -
  have "map_option lr_value (last_for key (batch_records clock n items)) = map_of (rev items) key"
  proof (induction items arbitrary: n)
    case (Cons it items)
    obtain a b where it: "it = (a, b)" by (cases it)
    have "batch_records clock n (it # items) = log_record_new (clock n) a b # batch_records clock (Suc n) items"
      by (simp add: batch_records_def it)
    then show ?case
      using Cons.IH [of "Suc n"] it by (cases "last_for key (batch_records clock (Suc n) items)") (auto simp: map_add_def dest: sym split: option.splits)
  qed (simp add: batch_records_def)
  moreover have "\<not> lr_is_deleted r" if "last_for key (batch_records clock n items) = Some r" for r
    using last_for_Some [OF that] by (auto simp: batch_records_def)
  ultimately show ?thesis by (auto simp: visible_def split: option.splits)
qed

lemma batch_loop:
  "fold (\<lambda>(i, key, value) c. add_bytes cf (length key + length value) (on_memtable cf (mt_put (clock i) key value) c)) (enumerate n items) core =
     fold (inserted cf) (batch_records clock n items) core"
  by (induction items arbitrary: n core) (auto simp: batch_records_def mt_put_def [abs_def] split: prod.splits)

lemma on_wal_then:
  assumes "bind_st (on_wal cf f core) g = (Ok b, core')"
  shows "\<exists>core1. same_data core core1 \<and> g () core1 = (Ok b, core') \<and> co_memtable_bytes core1 = co_memtable_bytes core"
proof -
  obtain res core1 where o: "on_wal cf f core = (res, core1)" by fastforce
  then have "core1 = core\<lparr>co_wals := co_wals core1\<rparr>" by (rule on_wal_same)
  then have "co_memtable_bytes core1 = co_memtable_bytes core"
    by (metis engine_core.select_convs(2) engine_core.surjective engine_core.update_convs(5))
  then show ?thesis using assms o on_wal_same_data [OF o] by (cases res) auto
qed

lemma fold_inserted_same:
  assumes "same_data core core1" "co_memtable_bytes core1 = co_memtable_bytes core"
  shows "same_data (fold (inserted cf) rs core) (fold (inserted cf) rs core1)"
    "co_memtable_bytes (fold (inserted cf) rs core1) = co_memtable_bytes (fold (inserted cf) rs core)"
proof -
  have "same_data (fold (inserted cf) rs core) (fold (inserted cf) rs core1) \<and>
      co_memtable_bytes (fold (inserted cf) rs core1) = co_memtable_bytes (fold (inserted cf) rs core)"
    using assms
  proof (induction rs arbitrary: core core1)
    case (Cons r rs)
    have "co_memtable_bytes (inserted cf r core1) = co_memtable_bytes (inserted cf r core)"
      using Cons.prems(2) by (simp add: add_bytes_def on_memtable_def bytes_of_def Let_def)
    then show ?case using Cons.IH [OF inserted_same_data [OF Cons.prems(1)]] by simp
  qed simp
  then show "same_data (fold (inserted cf) rs core) (fold (inserted cf) rs core1)"
    "co_memtable_bytes (fold (inserted cf) rs core1) = co_memtable_bytes (fold (inserted cf) rs core)" by blast+
qed

subsection \<open>Batches of the example engine\<close>

lemma demo_put_encodes: "plain_encode ((log_record_new 0 [k] v)\<lparr>lr_column_family := Some ''default''\<rparr>) \<noteq> None"
  by (simp add: plain_encode_def Let_def)

lemma demo_encode_frames:
  "\<forall>r\<in>set rs. plain_encode r \<noteq> None \<Longrightarrow> \<exists>frames. encode_frames demo_crates rng (encryptor_new encryption_default) n rs = Ok (frames, n)"
proof (induction rs)
  case (Cons r rs)
  then obtain bs frames where "plain_encode r = Some bs" "encode_frames demo_crates rng (encryptor_new encryption_default) n rs = Ok (frames, n)" by auto
  then show ?case
    by (simp add: encode_frame_def encode_record_def demo_crates_def plain_crates_def encryptor_new_def encryption_default_def)
qed simp

lemma demo_log_batch:
  assumes "\<forall>r\<in>set rs. plain_encode r \<noteq> None"
  shows "\<exists>w. on_wal ''default'' (write_batch demo_crates rng rs) demo_core = (Ok (), demo_core\<lparr>co_wals := [(''default'', w)]\<rparr>)"
proof -
  have "\<exists>w. write_batch demo_crates rng rs demo_wal = Ok w"
    using demo_encode_frames [OF assms, of rng 0]
    by (auto simp: write_batch_def demo_wal_def wal_open_def set_sync_interval_def Let_def)
  then show ?thesis by (auto simp: on_wal_def wal_handle_def demo_core_def demo_wal_def Let_def)
qed

subsection \<open>Properties\<close>



end
