(* ===== verification/Transaction_Correct.thy ===== *)
theory Transaction_Correct
  imports Transaction Engine_Batch
begin

text \<open>
  A transaction shows its own writes over the engine, and a commit writes exactly them. A commit
  that fills a memtable leaves the data in memory only.
\<close>

subsection \<open>Grouping by column family\<close>

definition entries_of :: "string \<Rightarrow> (string \<times> bytes, bytes \<times> bool) btree_map \<Rightarrow> (bytes \<times> bytes \<times> bool) list" where
  "entries_of cf writes = map (\<lambda>((_, key), w). (key, w)) (List.filter (\<lambda>((c, _), _). c = cf) writes)"

lemma entries_of_snoc: "entries_of cf (ws @ [((c, key), w)]) = entries_of cf ws @ (if c = cf then [(key, w)] else [])"
  by (simp add: entries_of_def)

lemma group_writes_map: "map_of (group_writes writes) cf = (if entries_of cf writes = [] then None else Some (entries_of cf writes))"
proof (induction writes arbitrary: cf rule: rev_induct)
  case Nil
  then show ?case by (simp add: group_writes_def entries_of_def)
next
  case (snoc x ws)
  obtain c key w where x: "x = ((c, key), w)" by (metis surj_pair)
  have "group_writes (ws @ [x]) =
      btree_insert c ((case map_of (group_writes ws) c of None \<Rightarrow> [] | Some es \<Rightarrow> es) @ [(key, w)]) (group_writes ws)"
    by (simp add: group_writes_def x)
  then show ?case using snoc by (auto simp: x entries_of_snoc map_of_btree_insert)
qed

lemma group_writes_strict: "strict_keys (group_writes writes)"
  unfolding group_writes_def
  by (induction writes rule: rev_induct) (auto simp: strict_btree_insert split: prod.splits)

lemma map_of_entries: "map_of (entries_of cf writes) key = map_of writes (cf, key)"
  unfolding entries_of_def by (induction writes) auto

lemma distinct_entries:
  assumes "strict_keys writes"
  shows "distinct (map fst (entries_of cf writes))"
proof -
  have "distinct (map fst (List.filter (\<lambda>((c, _), _). c = cf) writes))"
    using strict_keys_distinct [OF assms] by (simp add: distinct_map_filter)
  moreover have "map fst (List.filter (\<lambda>((c, _), _). c = cf) writes) = map (Pair cf) (map fst (entries_of cf writes))"
    unfolding entries_of_def by (induction writes) auto
  ultimately show ?thesis by (metis distinct_map)
qed

lemma group_in:
  assumes "strict_keys writes" "(cf, es) \<in> set (group_writes writes)"
  shows "es = entries_of cf writes" "es \<noteq> []" "distinct (map fst es)"
proof -
  have "map_of (group_writes writes) cf = Some es"
    using assms(2) strict_keys_distinct [OF group_writes_strict] by (rule map_of_is_SomeI [rotated])
  then show e: "es = entries_of cf writes" and "es \<noteq> []" by (auto simp: group_writes_map split: if_splits)
  then show "distinct (map fst es)" using distinct_entries [OF assms(1)] by simp
qed

subsection \<open>One column family\<close>

definition txn_records :: "(nat \<Rightarrow> u128) \<Rightarrow> nat \<Rightarrow> (bytes \<times> bytes \<times> bool) list \<Rightarrow> log_record list" where
  "txn_records clock n es = map (\<lambda>(i, w). write_record_of (clock i) w) (enumerate n es)"

lemma txn_records_Cons: "txn_records clock n (w # es) = write_record_of (clock n) w # txn_records clock (Suc n) es"
  by (simp add: txn_records_def)

lemma write_record_of_simps [simp]:
  "lr_key (write_record_of now (key, w)) = key" "lr_timestamp (write_record_of now w') = now" "\<not> is_expired_at (write_record_of now w') t"
  by (auto simp: write_record_of_def is_expired_at_def log_record_new_def tombstone_def split: prod.splits)

lemma apply_writes: "fold (apply_write clock) (enumerate n es) = fold mt_insert (txn_records clock n es)"
proof (induction es arbitrary: n)
  case (Cons w es)
  have "apply_write clock (n, w) = mt_insert (write_record_of (clock n) w)"
    by (auto simp: fun_eq_iff apply_write_def write_record_of_def mt_delete_def mt_put_def split: prod.splits)
  then show ?case using Cons by (simp add: txn_records_Cons)
qed (simp add: txn_records_def)

definition shown_write :: "bytes \<times> bool \<Rightarrow> bytes option" where
  "shown_write w = (if snd w then None else Some (fst w))"

lemma last_for_txn:
  "distinct (map fst es) \<Longrightarrow>
     (case last_for key (txn_records clock n es) of Some r \<Rightarrow> visible (Some r) | None \<Rightarrow> v) =
       (case map_of es key of Some w \<Rightarrow> shown_write w | None \<Rightarrow> v)"
proof (induction es arbitrary: n)
  case (Cons e es)
  obtain k v0 d where e: "e = (k, v0, d)" by (metis surj_pair)
  show ?case
  proof (cases "k = key")
    case True
    then have "key \<notin> fst ` set es" using Cons.prems e by auto
    moreover have "lr_key ` set (txn_records clock m es) = fst ` set es" for m
      by (induction es arbitrary: m) (auto simp: txn_records_def)
    ultimately have "last_for key (txn_records clock (Suc n) es) = None" by (simp add: last_for_None)
    then show ?thesis using e True by (simp add: txn_records_Cons visible_def shown_write_def write_record_of_def)
  next
    case False
    then have "last_for key (txn_records clock n (e # es)) = last_for key (txn_records clock (Suc n) es)"
      using e by (simp add: txn_records_Cons split: option.splits)
    then show ?thesis using Cons.IH [of "Suc n"] Cons.prems e False by simp
  qed
qed (simp add: txn_records_def)

definition added_bytes :: "(bytes \<times> bytes \<times> bool) list \<Rightarrow> nat" where
  "added_bytes es = sum_list (map (\<lambda>(key, value, _). length key + length value) es)"

definition synced_log :: "('bl, 'c, 'k) engine_core \<Rightarrow> string \<Rightarrow> bool" where
  "synced_log core cf \<longleftrightarrow> (\<exists>w. map_of (co_wals core) cf = Some w \<and> wal_synced w = length (wal_file w))"

lemma write_batch_synced: "write_batch X rng rs w = Ok w' \<Longrightarrow> rs \<noteq> [] \<Longrightarrow> wal_synced w' = length (wal_file w')"
  by (auto simp: write_batch_def Let_def)

lemma on_wal_others:
  assumes "on_wal cf f core = (Ok (), core1)"
  shows "\<exists>w w'. f w = Ok w' \<and> map_of (co_wals core1) cf = Some w'" "cf' \<noteq> cf \<Longrightarrow> map_of (co_wals core1) cf' = map_of (co_wals core) cf'"
proof -
  obtain c w where h: "wal_handle cf core = (Ok w, c)" "map_of (co_wals core) cf' = map_of (co_wals c) cf' \<or> cf' = cf"
    using assms by (auto simp: on_wal_def wal_handle_def Let_def ok_or_def update_conv' split: if_splits option.splits)
  then obtain w' where w: "f w = Ok w'" "core1 = c\<lparr>co_wals := AList.update cf w' (co_wals c)\<rparr>"
    using assms by (auto simp: on_wal_def split: outcome.splits)
  then show "\<exists>w w'. f w = Ok w' \<and> map_of (co_wals core1) cf = Some w'" by (auto simp: update_conv')
  show "cf' \<noteq> cf \<Longrightarrow> map_of (co_wals core1) cf' = map_of (co_wals core) cf'" using w(2) h(2) by (auto simp: update_conv')
qed

lemma commit_cf_written:
  assumes ok: "engine_ok H cat core" and run: "commit_cf H rng clock n options cf es core = (Ok b, core')"
    and below: "bytes_of core cf + added_bytes es < write_buffer_limit options" and ne: "es \<noteq> []"
  shows "batch_written H cat cf (txn_records clock (n + length es) es) core core'" "synced_log core' cf"
    "cf' \<noteq> cf \<Longrightarrow> bytes_of core' cf' = bytes_of core cf' \<and> synced_log core' cf' = synced_log core cf'"
proof -
  let ?f = "write_batch (h_crates H) rng (map (\<lambda>(i, w). (write_record_of (clock i) w)\<lparr>lr_column_family := Some cf\<rparr>) (enumerate n es))"
  let ?step = "\<lambda>c. add_bytes cf (added_bytes es) (on_memtable cf (fold mt_insert (txn_records clock (n + length es) es)) c)"
  obtain u core1 where w: "on_wal cf ?f core = (Ok u, core1)"
    using run by (cases "on_wal cf ?f core"; cases "fst (on_wal cf ?f core)") (auto simp: commit_cf_def Let_def)
  then have w: "on_wal cf ?f core = (Ok (), core1)" by simp
  have s: "same_data core core1" by (rule on_wal_same_data [OF w])
  have "core1 = core\<lparr>co_wals := co_wals core1\<rparr>" by (rule on_wal_same [OF w])
  then have b: "co_memtable_bytes core1 = co_memtable_bytes core"
    by (metis engine_core.select_convs(2) engine_core.surjective engine_core.update_convs(5))
  have limit: "bytes_of (?step core1) cf = bytes_of core cf + added_bytes es"
    using b by (simp add: add_bytes_def on_memtable_def bytes_of_def Let_def update_conv')
  have core': "core' = ?step core1"
    using run w below limit unfolding commit_cf_def Let_def apply_writes added_bytes_def [symmetric] by simp
  have "engine_ok H cat core1" using ok same_dataD(6) [OF s] by simp
  then show "batch_written H cat cf (txn_records clock (n + length es) es) core core'"
    unfolding core' by (rule batch_written_same_data [OF s batch_written_at_once])
  have wals: "co_wals core' = co_wals core1" unfolding core' by (simp add: add_bytes_def on_memtable_def Let_def)
  show "synced_log core' cf"
    using on_wal_others(1) [OF w] ne write_batch_synced by (fastforce simp: synced_log_def wals enumerate_eq_zip)
  show "cf' \<noteq> cf \<Longrightarrow> bytes_of core' cf' = bytes_of core cf' \<and> synced_log core' cf' = synced_log core cf'"
    using b on_wal_others(2) [OF w] by (simp add: synced_log_def wals core') (simp add: add_bytes_def on_memtable_def bytes_of_def Let_def update_conv')
qed

lemma commit_cf_view:
  assumes "engine_ok H cat core" and "commit_cf H rng clock n options cf es core = (Ok b, core')"
    and "bytes_of core cf + added_bytes es < write_buffer_limit options" and "es \<noteq> []" and dist: "distinct (map fst es)"
    and ranges: "\<forall>i key. older_ranges (clock i) cf key core"
  shows "view cat now core' cf' key = (case (if cf' = cf then map_of es key else None) of Some w \<Rightarrow> shown_write w | None \<Rightarrow> view cat now core cf' key)"
proof -
  let ?rs = "txn_records clock (n + length es) es"
  have "\<forall>r\<in>set ?rs. \<not> is_expired_at r now \<and> older_ranges (lr_timestamp r) cf (lr_key r) core"
    using ranges by (auto simp: txn_records_def)
  note v = batch_written_view [OF commit_cf_written(1) [OF assms(1-4)] this]
  show ?thesis
    unfolding v using last_for_txn [OF dist, where key = key and clock = clock and n = "n + length es"] by simp
qed

subsection \<open>All column families\<close>

text \<open>What is shown with the writes of \<open>grp\<close> over it.\<close>

definition overlay :: "(string \<times> (bytes \<times> bytes \<times> bool) list) list \<Rightarrow> (string \<Rightarrow> bytes \<Rightarrow> bytes option) \<Rightarrow> string \<Rightarrow> bytes \<Rightarrow> bytes option" where
  "overlay grp v cf key =
     (case Option.bind (map_of grp cf) (\<lambda>es. map_of es key) of Some w \<Rightarrow> shown_write w | None \<Rightarrow> v cf key)"

lemma commit_cfs_correct:
  assumes "engine_ok H cat core" "\<forall>cf. kv_coherent H cat cf (co_version_set core)"
    "commit_cfs H rng clock n options grp core = (Ok (), core')" "distinct (map fst grp)"
    "\<forall>(cf, es)\<in>set grp. bytes_of core cf + added_bytes es < write_buffer_limit options \<and> es \<noteq> [] \<and> distinct (map fst es)"
    "\<forall>i cf key. older_ranges (clock i) cf key core"
  shows "engine_ok H cat core' \<and> (\<forall>cf. kv_coherent H cat cf (co_version_set core')) \<and>
    (\<forall>cf key. view cat now core' cf key = overlay grp (view cat now core) cf key) \<and>
    (\<forall>cf. synced_log core cf \<or> cf \<in> fst ` set grp \<longrightarrow> synced_log core' cf)"
  using assms
proof (induction grp arbitrary: n core)
  case Nil
  then show ?case by (simp add: overlay_def)
next
  case (Cons g grp)
  obtain cf es where g: "g = (cf, es)" by (cases g)
  obtain b core1 where r: "commit_cf H rng clock n options cf es core = (Ok b, core1)" "commit_cfs H rng clock (n + 2 * length es) options grp core1 = (Ok (), core')"
    using Cons.prems(3) g by (cases "commit_cf H rng clock n options cf es core"; cases "fst (commit_cf H rng clock n options cf es core)") auto
  have es: "bytes_of core cf + added_bytes es < write_buffer_limit options" "es \<noteq> []" "distinct (map fst es)" using Cons.prems(5) g by auto
  note w = commit_cf_written [OF Cons.prems(1) r(1) es(1,2)]
  have "\<forall>i key. older_ranges (clock i) cf key core" using Cons.prems(6) by blast
  note v = commit_cf_view [OF Cons.prems(1) r(1) es this]
  have "\<forall>i cf key. older_ranges (clock i) cf key core1" using w(1) Cons.prems(6) by (simp add: older_ranges_def batch_written_def)
  moreover have "\<forall>(cf', es')\<in>set grp. bytes_of core1 cf' + added_bytes es' < write_buffer_limit options \<and> es' \<noteq> [] \<and> distinct (map fst es')"
  proof (intro ballI, clarify)
    fix cf' es' assume m: "(cf', es') \<in> set grp"
    then have "cf' \<noteq> cf" using Cons.prems(4) g by force
    then show "bytes_of core1 cf' + added_bytes es' < write_buffer_limit options \<and> es' \<noteq> [] \<and> distinct (map fst es')"
      using Cons.prems(5) w(3) [of cf'] m by fastforce
  qed
  ultimately have IH: "engine_ok H cat core' \<and> (\<forall>cf. kv_coherent H cat cf (co_version_set core')) \<and>
    (\<forall>cf key. view cat now core' cf key = overlay grp (view cat now core1) cf key) \<and>
    (\<forall>cf. synced_log core1 cf \<or> cf \<in> fst ` set grp \<longrightarrow> synced_log core' cf)"
    using w(1) Cons.prems(2,4) by (intro Cons.IH [OF _ _ r(2)]) (simp_all add: batch_written_def)
  have "cf \<notin> fst ` set grp" using Cons.prems(4) g by simp
  then have "map_of grp cf = None" by (simp add: map_of_eq_None_iff)
  then have "overlay grp (view cat now core1) cf' key = overlay (g # grp) (view cat now core) cf' key" for cf' key
    by (cases "cf' = cf") (simp_all add: overlay_def v g split: option.splits)
  moreover have "synced_log core cf' \<or> cf' \<in> fst ` set (g # grp) \<longrightarrow> synced_log core' cf'" for cf'
    using IH w(2) w(3) [of cf'] g by auto
  ultimately show ?case using IH by simp
qed

lemma overlay_writes: "overlay (group_writes writes) v cf key = (case map_of writes (cf, key) of Some w \<Rightarrow> shown_write w | None \<Rightarrow> v cf key)"
  using map_of_entries [of cf writes key] by (auto simp: overlay_def group_writes_map)

lemma written_cfs: "fst ` set (group_writes writes) = fst ` fst ` set writes"
proof -
  have "cf \<in> fst ` set (group_writes writes) \<longleftrightarrow> entries_of cf writes \<noteq> []" for cf
    using group_writes_map [of writes cf] map_of_eq_None_iff [of "group_writes writes" cf] by (auto split: if_splits)
  moreover have "entries_of cf writes \<noteq> [] \<longleftrightarrow> cf \<in> fst ` fst ` set writes" for cf
    unfolding entries_of_def by (induction writes) auto
  ultimately show ?thesis by blast
qed

lemma txn_get_cf_shown:
  assumes "engine_ok H cat core" "host_laws H" "kv_coherent H cat cf (co_version_set core)"
    "memtable_record core cf key = None \<longrightarrow> plain_lookup cat now core cf key"
  shows "fst (txn_get_cf H now cf key t core) = Ok (case map_of (tx_writes t) (cf, key) of Some w \<Rightarrow> shown_write w | None \<Rightarrow> view cat now core cf key)"
proof -
  obtain core' where "get_cf H now cf key core = (Ok (view cat now core cf key), core')"
    using get_cf_correct [OF assms(1-3), of key now] assms(4) by blast
  then show ?thesis by (auto simp: txn_get_cf_def shown_write_def split: option.splits)
qed

text \<open>Buffers stay ordered.\<close>

lemma txn_strict:
  "strict_keys (tx_writes (fst (txn_new i)))" "strict_keys (tx_writes t) \<Longrightarrow> strict_keys (tx_writes (txn_put_cf cf key value t))"
  "strict_keys (tx_writes t) \<Longrightarrow> strict_keys (tx_writes (txn_delete_cf cf key t))"
  by (simp_all add: txn_new_def txn_put_cf_def txn_delete_cf_def strict_btree_insert)

subsection \<open>Commits that fill a memtable\<close>

lemma flush_for_cf_files:
  assumes "flush_memtable_for_cf H options cf core = (Ok b, core')" "memtables_of core cf \<noteq> []"
  shows "co_sst_dir core' = co_sst_dir core \<and> (\<exists>w. map_of (co_wals core') cf = Some w \<and> wal_file w = []) \<and>
    (cf' \<noteq> cf \<longrightarrow> bytes_of core' cf' = bytes_of core cf' \<and> map_of (co_wals core') cf' = map_of (co_wals core) cf')"
proof -
  obtain ms where ms: "map_of (co_memtables core) cf = Some ms" "ms \<noteq> []" using assms(2) by (auto simp: memtables_of_def split: option.splits)
  define core1 where "core1 = core\<lparr>co_memtables := AList.update cf (butlast ms) (co_memtables core),
      co_version_set := add_table H cf (tb_build (h_crates H) (btree_collect (map (\<lambda>(k, r). (k, lr_value r)) (mt_data (last ms))))) (co_version_set core),
      co_memtable_bytes := AList.update cf 0 (co_memtable_bytes core)\<rparr>"
  obtain u core2 where "on_wal cf (\<lambda>w. Ok (wal_clear w)) core1 = (Ok u, core2)" "core' = core2"
    using assms(1) ms unfolding flush_memtable_for_cf_def
    by (cases "on_wal cf (\<lambda>w. Ok (wal_clear w)) core1"; cases "fst (on_wal cf (\<lambda>w. Ok (wal_clear w)) core1)")
      (auto simp: core1_def Let_def split: if_splits)
  then have w: "on_wal cf (\<lambda>w. Ok (wal_clear w)) core1 = (Ok (), core')" by simp
  have s: "core' = core1\<lparr>co_wals := co_wals core'\<rparr>" by (rule on_wal_same [OF w])
  have "co_sst_dir core' = co_sst_dir core1" "co_memtable_bytes core' = co_memtable_bytes core1"
    by (subst s, simp)+
  then have "co_sst_dir core' = co_sst_dir core" "cf' \<noteq> cf \<Longrightarrow> bytes_of core' cf' = bytes_of core cf'"
    by (simp_all add: bytes_of_def core1_def update_conv')
  moreover have "\<exists>w. map_of (co_wals core') cf = Some w \<and> wal_file w = []" using on_wal_others(1) [OF w] by (auto simp: wal_clear_def)
  moreover have "cf' \<noteq> cf \<Longrightarrow> map_of (co_wals core') cf' = map_of (co_wals core) cf'" using on_wal_others(2) [OF w] by (simp add: core1_def)
  ultimately show ?thesis by blast
qed

lemma commit_cf_files:
  assumes "commit_cf H rng clock n options cf es core = (Ok b, core')"
  shows "co_sst_dir core' = co_sst_dir core" 
    "write_buffer_limit options \<le> bytes_of core cf + added_bytes es \<Longrightarrow> \<exists>w. map_of (co_wals core') cf = Some w \<and> wal_file w = []"
    "cf' \<noteq> cf \<Longrightarrow> bytes_of core' cf' = bytes_of core cf' \<and> map_of (co_wals core') cf' = map_of (co_wals core) cf'"
proof -
  let ?f = "write_batch (h_crates H) rng (map (\<lambda>(i, w). (write_record_of (clock i) w)\<lparr>lr_column_family := Some cf\<rparr>) (enumerate n es))"
  let ?step = "\<lambda>c. add_bytes cf (added_bytes es) (on_memtable cf (fold (apply_write clock) (enumerate (n + length es) es)) c)"
  obtain u core1 where "on_wal cf ?f core = (Ok u, core1)"
    using assms by (cases "on_wal cf ?f core"; cases "fst (on_wal cf ?f core)") (auto simp: commit_cf_def Let_def)
  then have w: "on_wal cf ?f core = (Ok (), core1)" by simp
  have s: "core1 = core\<lparr>co_wals := co_wals core1\<rparr>" by (rule on_wal_same [OF w])
  have b: "co_memtable_bytes core1 = co_memtable_bytes core" "co_sst_dir core1 = co_sst_dir core" by (subst s, simp)+
  have st: "bytes_of (?step core1) cf = bytes_of core cf + added_bytes es" "co_sst_dir (?step core1) = co_sst_dir core"
    "co_wals (?step core1) = co_wals core1" "memtables_of (?step core1) cf \<noteq> []"
    "cf' \<noteq> cf \<Longrightarrow> bytes_of (?step core1) cf' = bytes_of core cf'" for cf'
    using b by (simp_all add: add_bytes_def on_memtable_def bytes_of_def memtables_of_def Let_def update_conv')
  have r: "(if write_buffer_limit options \<le> bytes_of core cf + added_bytes es then flush_memtable_for_cf H options cf (?step core1) else (Ok False, ?step core1)) = (Ok b, core')"
    using assms w st(1) unfolding commit_cf_def Let_def added_bytes_def [symmetric] by simp
  show "co_sst_dir core' = co_sst_dir core"
    "write_buffer_limit options \<le> bytes_of core cf + added_bytes es \<Longrightarrow> \<exists>w. map_of (co_wals core') cf = Some w \<and> wal_file w = []"
    "cf' \<noteq> cf \<Longrightarrow> bytes_of core' cf' = bytes_of core cf' \<and> map_of (co_wals core') cf' = map_of (co_wals core) cf'"
    using r st flush_for_cf_files [OF _ st(4), of H options b core' cf'] on_wal_others(2) [OF w, of cf']
    by (auto split: if_splits)
qed

lemma commit_cfs_files:
  assumes "commit_cfs H rng clock n options grp core = (Ok (), core')" "distinct (map fst grp)"
  shows "co_sst_dir core' = co_sst_dir core \<and>
    (\<forall>(cf, es)\<in>set grp. write_buffer_limit options \<le> bytes_of core cf + added_bytes es \<longrightarrow> (\<exists>w. map_of (co_wals core') cf = Some w \<and> wal_file w = [])) \<and>
    (\<forall>cf. cf \<notin> fst ` set grp \<longrightarrow> map_of (co_wals core') cf = map_of (co_wals core) cf)"
  using assms
proof (induction grp arbitrary: n core)
  case (Cons g grp)
  obtain c0 e0 where g: "g = (c0, e0)" by (cases g)
  obtain b core1 where r: "commit_cf H rng clock n options c0 e0 core = (Ok b, core1)" "commit_cfs H rng clock (n + 2 * length e0) options grp core1 = (Ok (), core')"
    using Cons.prems(1) g by (cases "commit_cf H rng clock n options c0 e0 core"; cases "fst (commit_cf H rng clock n options c0 e0 core)") auto
  note f = commit_cf_files [OF r(1)]
  have c0: "c0 \<notin> fst ` set grp" and d: "distinct (map fst grp)" using Cons.prems(2) g by auto
  note IH = Cons.IH [OF r(2) d]
  have "bytes_of core1 cf = bytes_of core cf" if "(cf, es) \<in> set grp" for cf es
    using f(3) [of cf] that c0 by force
  then show ?case using IH f c0 g by (auto 0 3)
qed simp

subsection \<open>A transaction on the example engine\<close>

definition demo_txn :: transaction where
  "demo_txn = txn_delete [1] (txn_put [7] [8] (fst (txn_new 1)))"

lemma demo_txn_writes:
  "tx_writes demo_txn = [((''default'', [1]), [], True), ((''default'', [7]), [8], False)]"
  "group_writes [((''default'', [1]), [], True), ((''default'', [7]), [8], False)] = [(''default'', [([1], [], True), ([7], [8], False)])]"
  by code_simp+

lemma demo_txn_strict: "strict_keys (tx_writes demo_txn)"
  by (simp add: demo_txn_def txn_delete_def txn_put_def txn_strict)

lemma demo_delete_encodes: "plain_encode ((tombstone 0 [k])\<lparr>lr_column_family := Some ''default''\<rparr>) \<noteq> None"
  by (simp add: plain_encode_def Let_def)

text \<open>The state that its commit leaves, before a flush.\<close>

definition demo_committed :: "wal \<Rightarrow> (unit, unit, (bytes \<times> bytes) list) engine_core" where
  "demo_committed w = add_bytes ''default'' 3 (on_memtable ''default''
     (fold (apply_write (\<lambda>_. 0)) (enumerate 2 [([1], [], True), ([7], [8], False)])) (demo_core\<lparr>co_wals := [(''default'', w)]\<rparr>))"

lemma demo_commit_cf:
  "\<exists>w. commit_cf demo_host (\<lambda>_. None) (\<lambda>_. 0) 0 options ''default'' [([1], [], True), ([7], [8], False)] demo_core =
     (if write_buffer_limit options \<le> bytes_of (demo_committed w) ''default''
      then flush_memtable_for_cf demo_host options ''default'' (demo_committed w) else (Ok False, demo_committed w))"
proof -
  let ?rs = "map (\<lambda>(i, w). (write_record_of 0 w)\<lparr>lr_column_family := Some ''default''\<rparr>) (enumerate 0 [([1], [], True), ([7], [8], False)])"
  have "\<forall>r\<in>set ?rs. plain_encode r \<noteq> None" by (simp add: write_record_of_def demo_put_encodes demo_delete_encodes del: not_None_eq)
  then obtain w where "on_wal ''default'' (write_batch demo_crates (\<lambda>_. None) ?rs) demo_core = (Ok (), demo_core\<lparr>co_wals := [(''default'', w)]\<rparr>)"
    using demo_log_batch by blast
  then show ?thesis by (intro exI [of _ w]) (simp add: commit_cf_def demo_committed_def Let_def eval_nat_numeral)
qed

lemma demo_committed_bytes: "bytes_of (demo_committed w) ''default'' = 5"
  by (simp add: demo_committed_def add_bytes_def on_memtable_def bytes_of_def demo_core_def Let_def update_conv')

lemma demo_txn_flush: "\<exists>b core'. flush_memtable_for_cf demo_host options ''default'' (demo_committed w) = (Ok b, core')"
proof -
  have "\<exists>core1. on_wal ''default'' (\<lambda>w. Ok (wal_clear w)) core = (Ok (), core1)" for core :: "(unit, unit, (bytes \<times> bytes) list) engine_core"
    by (auto simp: on_wal_def wal_handle_def Let_def ok_or_def update_conv' split: option.splits)
  then obtain core1 where "on_wal ''default'' (\<lambda>w. Ok (wal_clear w)) core = (Ok (), core1 core)" for core :: "(unit, unit, (bytes \<times> bytes) list) engine_core"
    by metis
  then show ?thesis
    by (simp add: flush_memtable_for_cf_def demo_committed_def add_bytes_def on_memtable_def demo_core_def memtables_of_def Let_def update_conv')
qed

subsection \<open>Properties\<close>



text \<open>C32: a commit that fills a memtable is not durable. It reports success, but the flush that it
  runs writes no table file and empties the log of the column family, with every earlier record in
  it: after the commit the data is in memory only.\<close>

theorem txn_commit_flush_not_durable:
  assumes "strict_keys (tx_writes t)" and "txn_commit H rng clock options t core = (Ok (), core', t')"
    and "entries_of cf (tx_writes t) \<noteq> []"
    and "write_buffer_limit options \<le> bytes_of core cf + added_bytes (entries_of cf (tx_writes t))"
  shows "co_sst_dir core' = co_sst_dir core \<and> (\<exists>w. map_of (co_wals core') cf = Some w \<and> wal_file w = [])"
proof -
  have run: "commit_cfs H rng clock 0 options (group_writes (tx_writes t)) core = (Ok (), core')"
    using assms(2) by (auto simp: txn_commit_def group_writes_def split: if_splits prod.splits)
  have "(cf, entries_of cf (tx_writes t)) \<in> set (group_writes (tx_writes t))"
    using assms(3) group_writes_map [of "tx_writes t" cf] by (intro map_of_SomeD) simp
  then show ?thesis using commit_cfs_files [OF run strict_keys_distinct [OF group_writes_strict]] assms(4) by blast
qed

theorem txn_commit_flush_not_durable_witness:
  "\<exists>core' t' w. txn_commit demo_host (\<lambda>_. None) (\<lambda>_. 0) (demo_options\<lparr>eo_write_buffer_size := 1\<rparr>) demo_txn demo_core = (Ok (), core', t') \<and>
     co_sst_dir core' = Map.empty \<and> map_of (co_wals core') ''default'' = Some w \<and> wal_file w = []"
proof -
  let ?options = "demo_options\<lparr>eo_write_buffer_size := 1\<rparr>"
  have limit: "write_buffer_limit ?options = 4" by (simp add: write_buffer_limit_def demo_options_def engine_options_default_def)
  obtain b core' where "commit_cf demo_host (\<lambda>_. None) (\<lambda>_. 0) 0 ?options ''default'' [([1], [], True), ([7], [8], False)] demo_core = (Ok b, core')"
    using demo_commit_cf [of ?options] demo_txn_flush [of ?options] limit by (fastforce simp: demo_committed_bytes)
  then have run: "txn_commit demo_host (\<lambda>_. None) (\<lambda>_. 0) ?options demo_txn demo_core = (Ok (), core', demo_txn\<lparr>tx_writes := []\<rparr>)"
    by (simp add: txn_commit_def demo_txn_writes)
  have "entries_of ''default'' (tx_writes demo_txn) \<noteq> []"
    "write_buffer_limit ?options \<le> bytes_of demo_core ''default'' + added_bytes (entries_of ''default'' (tx_writes demo_txn))"
    unfolding limit by (simp_all add: demo_txn_writes entries_of_def added_bytes_def bytes_of_def demo_core_def)
  with txn_commit_flush_not_durable [OF demo_txn_strict run] run show ?thesis by auto
qed

end
