(* ===== verification/Engine_Wf.thy ===== *)
theory Engine_Wf
  imports Engine_Admin_Correct Transaction_Correct
begin

text \<open>
  What every operation of the engine does to its state, whether it succeeds or fails: the maps stay
  maps, memtables and logs stay well formed, and a change of the table lists advances the generation
  counter. The operations are put together from a few primitive changes, each with its own rule.
\<close>

named_theorems changes

subsection \<open>Well-formed states and changes of the table lists\<close>

definition wal_wf :: "wal \<Rightarrow> bool" where
  "wal_wf w \<longleftrightarrow> wal_synced w \<le> length (wal_file w)"

definition wals_wf :: "(string \<times> wal) list \<Rightarrow> bool" where
  "wals_wf ws \<longleftrightarrow> distinct (map fst ws) \<and> (\<forall>w\<in>snd ` set ws. wal_wf w)"

definition core_wf :: "('bl, 'c, 'k) engine_core \<Rightarrow> bool" where
  "core_wf core \<longleftrightarrow>
     distinct (map fst (co_memtables core)) \<and> distinct (map fst (co_memtable_bytes core)) \<and>
     distinct (map fst (vs_tables (co_version_set core))) \<and> distinct (map fst (co_range_tombstones core)) \<and>
     wals_wf (co_wals core) \<and>
     (\<forall>cf. \<forall>m\<in>set (memtables_of core cf). mem_wf m \<and> set (mt_range_tombstones m) \<subseteq> set (tombstones_of core cf))"

text \<open>\<open>vs'\<close> comes from \<open>vs\<close> by \<open>n\<close> changes of table lists; the counter is a u64.\<close>

definition evolves :: "nat \<Rightarrow> ('bl, 'c, 'k) version_set \<Rightarrow> ('bl, 'c, 'k) version_set \<Rightarrow> bool" where
  "evolves n vs vs' \<longleftrightarrow>
     vs_compaction_generation vs' = vs_compaction_generation vs + word_of_nat n \<and> (n = 0 \<longrightarrow> vs_tables vs' = vs_tables vs)"

definition changes_to :: "nat \<Rightarrow> ('bl, 'c, 'k) engine_core \<Rightarrow> ('bl, 'c, 'k) engine_core \<Rightarrow> bool" where
  "changes_to n core core' \<longleftrightarrow> (core_wf core \<longrightarrow> core_wf core') \<and> (\<exists>m\<le>n. evolves m (co_version_set core) (co_version_set core'))"

lemma changes_refl [simp, changes]: "changes_to n core core"
  by (auto simp: changes_to_def evolves_def)

lemma changes_trans: "changes_to a x y \<Longrightarrow> changes_to b y z \<Longrightarrow> changes_to (a + b) x z"
proof -
  assume "changes_to a x y" "changes_to b y z"
  then obtain m n where mn: "m \<le> a" "evolves m (co_version_set x) (co_version_set y)" "n \<le> b" "evolves n (co_version_set y) (co_version_set z)"
    and wf: "core_wf x \<longrightarrow> core_wf z" by (auto simp: changes_to_def)
  then have "evolves (m + n) (co_version_set x) (co_version_set z)" by (simp add: evolves_def add.assoc)
  then show ?thesis using mn wf by (auto simp: changes_to_def intro: add_mono)
qed

lemma changes_mono: "changes_to a x y \<Longrightarrow> a \<le> b \<Longrightarrow> changes_to b x y"
  using changes_trans [of a x y "b - a" y] by simp

lemma changes_same_trans: "changes_to 0 x y \<Longrightarrow> changes_to b y z \<Longrightarrow> changes_to b x z"
  using changes_trans [of 0 x y b z] by simp

text \<open>Sequencing.\<close>

lemma changes_bind:
  assumes "changes_to a core (snd r)" and "\<And>v. fst r = Ok v \<Longrightarrow> changes_to b (snd r) (snd (f v (snd r)))"
  shows "changes_to (a + b) core (snd (bind_st r f))"
proof (cases r)
  case (Pair res core1)
  show ?thesis
  proof (cases res)
    case (Ok v)
    then show ?thesis using assms(1) assms(2) [of v] changes_trans Pair by fastforce
  qed (use Pair assms(1) changes_mono [OF _ le_add1] in fastforce)+
qed

lemma changes_bind0:
  assumes "changes_to 0 core (snd r)" and "\<And>v. fst r = Ok v \<Longrightarrow> changes_to b (snd r) (snd (f v (snd r)))"
  shows "changes_to b core (snd (bind_st r f))"
  using changes_bind [of 0 core r b f] assms by simp

subsection \<open>Primitive changes\<close>

lemma fields_of_update [simp]:
  "memtables_of (core\<lparr>co_wals := ws\<rparr>) = memtables_of core" "tombstones_of (core\<lparr>co_wals := ws\<rparr>) = tombstones_of core"
  "memtables_of (core\<lparr>co_memtable_bytes := bs\<rparr>) = memtables_of core" "tombstones_of (core\<lparr>co_memtable_bytes := bs\<rparr>) = tombstones_of core"
  "memtables_of (core\<lparr>co_sst_dir := d\<rparr>) = memtables_of core" "tombstones_of (core\<lparr>co_sst_dir := d\<rparr>) = tombstones_of core"
  "memtables_of (core\<lparr>co_version_set := vs\<rparr>) = memtables_of core" "tombstones_of (core\<lparr>co_version_set := vs\<rparr>) = tombstones_of core"
  "tombstones_of (core\<lparr>co_memtables := ms\<rparr>) = tombstones_of core" "memtables_of (core\<lparr>co_range_tombstones := rts\<rparr>) = memtables_of core"
  "memtables_of (core\<lparr>co_compaction := c\<rparr>) = memtables_of core" "tombstones_of (core\<lparr>co_compaction := c\<rparr>) = tombstones_of core"
  by (simp_all add: fun_eq_iff memtables_of_def tombstones_of_def)

lemma changesI: "(core_wf core \<Longrightarrow> core_wf core') \<Longrightarrow> co_version_set core' = co_version_set core \<Longrightarrow> changes_to n core core'"
  by (auto simp: changes_to_def evolves_def)

lemma changes_wals:
  "(wals_wf (co_wals core) \<Longrightarrow> wals_wf ws) \<Longrightarrow> changes_to n core (core\<lparr>co_wals := ws\<rparr>)"
  by (rule changesI) (simp_all add: core_wf_def)

lemma wals_update: "wals_wf ws \<Longrightarrow> wal_wf w \<Longrightarrow> wals_wf (AList.update cf w ws)"
  using set_update_sub [of cf w ws] by (auto simp: wals_wf_def distinct_update)

lemma changes_on_wal [changes]:
  assumes "\<And>w w'. f w = Ok w' \<Longrightarrow> wal_wf w \<Longrightarrow> wal_wf w'"
  shows "changes_to n core (snd (on_wal cf f core))"
proof -
  obtain res core' where o: "on_wal cf f core = (res, core')" by fastforce
  obtain r1 core1 where h: "wal_handle cf core = (r1, core1)" by fastforce
  have 1: "wals_wf (co_wals core1)" if "wals_wf (co_wals core)"
    using h that by (auto simp: wal_handle_def Let_def intro!: wals_update split: if_splits)
      (simp add: wal_wf_def set_sync_interval_def wal_open_def)
  have 2: "r1 = Ok w \<Longrightarrow> map_of (co_wals core1) cf = Some w" for w
    using h by (auto simp: wal_handle_def Let_def ok_or_def split: if_splits option.splits)
  have "wals_wf (co_wals core')" if "wals_wf (co_wals core)"
  proof (cases r1)
    case (Ok w)
    then have "wal_wf w" using 1 [OF that] 2 [OF Ok] by (force simp: wals_wf_def dest!: map_of_SomeD)
    then show ?thesis
      using o h Ok 1 [OF that] assms [of w] wals_update by (auto simp: on_wal_def split: outcome.splits)
  qed (use o h 1 [OF that] in \<open>auto simp: on_wal_def\<close>)
  moreover have "core' = core\<lparr>co_wals := co_wals core'\<rparr>" by (rule on_wal_same [OF o])
  ultimately show ?thesis unfolding o snd_conv using changes_wals [of core "co_wals core'"] by simp
qed

lemma changes_on_memtable [changes]:
  assumes "\<And>m. mem_wf m \<Longrightarrow> mem_wf (f m)"
    and "\<And>m. set (mt_range_tombstones (f m)) \<subseteq> set (mt_range_tombstones m) \<union> set (tombstones_of core cf)"
  shows "changes_to n core (on_memtable cf f core)"
proof -
  have "core_wf (on_memtable cf f core)" if wf: "core_wf core"
  proof -
    have "mem_wf m \<and> set (mt_range_tombstones m) \<subseteq> set (tombstones_of core cf')" if m: "m \<in> set (memtables_of (on_memtable cf f core) cf')" for cf' m
    proof (cases "cf' = cf \<and> (\<exists>m0. m = f m0 \<and> (m0 \<in> set (memtables_of core cf) \<or> m0 = memtable_new usize_max))")
      case True
      then obtain m0 where "m = f m0" "m0 \<in> set (memtables_of core cf) \<or> m0 = memtable_new usize_max" "cf' = cf" by blast
      then show ?thesis using wf assms(1) [of m0] assms(2) [of m0] by (auto simp: core_wf_def)
    next
      case False
      then have "m \<in> set (memtables_of core cf')"
        using m by (auto simp: memtables_on_memtable Let_def split: if_splits dest: in_set_butlastD)
      then show ?thesis using wf by (auto simp: core_wf_def)
    qed
    then show ?thesis using wf by (simp add: core_wf_def) (simp add: on_memtable_def Let_def distinct_update)
  qed
  then show ?thesis by (intro changesI) simp_all
qed

lemma changes_add_bytes [changes]: "changes_to n core (add_bytes cf k core)"
  by (rule changesI) (simp_all add: core_wf_def add_bytes_def distinct_update)

lemma changes_sst_dir [changes]: "changes_to n core (core\<lparr>co_sst_dir := disk\<rparr>)"
  by (rule changesI) (simp_all add: core_wf_def)

lemma changes_reset_bytes [changes]: "changes_to n core (core\<lparr>co_memtable_bytes := AList.update cf k (co_memtable_bytes core)\<rparr>)"
  by (rule changesI) (simp_all add: core_wf_def distinct_update)

lemma changes_version_set:
  assumes "\<exists>m\<le>n. evolves m (co_version_set core) vs"
    and "distinct (map fst (vs_tables (co_version_set core))) \<Longrightarrow> distinct (map fst (vs_tables vs))"
  shows "changes_to n core (core\<lparr>co_version_set := vs\<rparr>)"
  using assms by (simp add: changes_to_def core_wf_def)

lemma changes_add_table [changes]: "0 < n \<Longrightarrow> changes_to n core (core\<lparr>co_version_set := add_table H cf t (co_version_set core)\<rparr>)"
  by (rule changes_version_set, rule exI [of _ 1]) (simp_all add: evolves_def, simp add: add_table_def clear_cache_def distinct_update)

lemma changes_replace [changes]:
  "0 < n \<Longrightarrow> changes_to n core (core\<lparr>co_version_set := snd (atomic_replace_groups H cf groups (co_version_set core))\<rparr>)"
proof (rule changes_version_set)
  let ?vs = "co_version_set core" and ?vs' = "snd (atomic_replace_groups H cf groups (co_version_set core))"
  have "?vs' = ?vs \<or> (\<exists>ts. ?vs' = clear_cache H (?vs\<lparr>vs_tables := AList.update cf ts (vs_tables ?vs), vs_compaction_generation := vs_compaction_generation ?vs + 1\<rparr>))"
    by (auto simp: atomic_replace_groups_def split: option.splits prod.splits)
  then show "\<exists>m\<le>n. evolves m ?vs ?vs'" if "0 < n"
    using that by (elim disjE exE) (rule exI [of _ 0], simp add: evolves_def, rule exI [of _ 1], simp add: evolves_def clear_cache_def)
  show "distinct (map fst (vs_tables ?vs)) \<Longrightarrow> distinct (map fst (vs_tables ?vs'))"
    using \<open>?vs' = ?vs \<or> _\<close> by (auto simp: clear_cache_def distinct_update)
qed

lemma changes_pop [changes]:
  assumes "map_of (co_memtables core) cf = Some ms"
  shows "changes_to n core (core\<lparr>co_memtables := AList.update cf (butlast ms) (co_memtables core)\<rparr>)"
proof -
  let ?core = "core\<lparr>co_memtables := AList.update cf (butlast ms) (co_memtables core)\<rparr>"
  have "set (memtables_of ?core cf') \<subseteq> set (memtables_of core cf')" for cf'
    using assms by (auto simp: memtables_of_def update_conv' dest: in_set_butlastD)
  then have "core_wf core \<Longrightarrow> core_wf ?core" by (fastforce simp: core_wf_def distinct_update)
  then show ?thesis by (intro changesI) simp_all
qed

subsection \<open>Writes and flushes\<close>

declare One_nat_def [simp del]

lemma wal_operations:
  "write_record X rng r w = Ok w' \<Longrightarrow> wal_wf w \<Longrightarrow> wal_wf w'" "write_batch X rng rs w = Ok w' \<Longrightarrow> wal_wf w \<Longrightarrow> wal_wf w'"
  "wal_wf (wal_clear w)" "wal_wf (wal_sync w)"
  by (auto simp: write_record_def write_batch_def wal_clear_def wal_sync_def wal_wf_def Let_def split: if_splits)

lemma changes_log [changes]: "changes_to n core (snd (log_phase H rng cf r core))"
  unfolding log_phase_def by (rule changes_on_wal) (rule wal_operations)

lemma changes_log_batch [changes]: "changes_to n core (snd (on_wal cf (write_batch X rng rs) core))"
  by (rule changes_on_wal) (rule wal_operations)

lemma changes_log_clear [changes]: "changes_to n core (snd (on_wal cf (\<lambda>w. Ok (wal_clear w)) core))"
  by (rule changes_on_wal) (auto simp: wal_operations)

lemma changes_log_sync [changes]: "changes_to n core (snd (on_wal cf (\<lambda>w. Ok (wal_sync w)) core))"
  by (rule changes_on_wal) (auto simp: wal_operations)

lemma changes_table_and_clear:
  assumes "core1 = core\<lparr>co_version_set := add_table H cf t (co_version_set core)\<rparr>"
  shows "changes_to 1 core (snd (if map_of (co_memtable_bytes core1) cf = None then (Err e, core1)
     else bind_st (on_wal cf (\<lambda>w. Ok (wal_clear w)) (core1\<lparr>co_memtable_bytes := AList.update cf 0 (co_memtable_bytes core1)\<rparr>))
            (\<lambda>_ core2. (g core2, core2))))"
proof -
  have 1: "changes_to 1 core core1" unfolding assms by (rule changes_add_table) simp
  have "changes_to 0 core1 (snd (bind_st (on_wal cf (\<lambda>w. Ok (wal_clear w)) (core1\<lparr>co_memtable_bytes := AList.update cf 0 (co_memtable_bytes core1)\<rparr>))
      (\<lambda>_ core2. (g core2, core2))))"
    by (rule changes_bind0, rule changes_same_trans [OF changes_reset_bytes changes_log_clear]) simp
  from changes_trans [OF 1 this] 1 show ?thesis by simp
qed

lemma changes_flush_popped: "changes_to 1 core (snd (flush_popped H rng now options cf mem core))"
proof -
  obtain res disk where w: "write_sst (h_crates H) rng (storage_config_of options) now (eo_encryption options) (sst_name ''flush'' now)
      (flush_entries now mem) (co_sst_dir core) = (res, disk)" by fastforce
  show ?thesis
    unfolding flush_popped_def Let_def w prod.case
    by (rule changes_bind0, simp add: changes, rule changes_bind0, simp) (simp only: fst_conv snd_conv, rule changes_table_and_clear, rule refl)
qed

lemma changes_flush [changes]: "changes_to 1 core (snd (flush_memtable_impl H rng now options cf core))"
  unfolding flush_memtable_impl_def
  by (auto split: option.splits intro!: changes_bind0 changes_log_sync changes_same_trans [OF changes_pop changes_flush_popped])

lemma changes_flush_if_full [changes]: "changes_to 1 core (snd (flush_if_full H rng now options cf core))"
  by (simp add: flush_if_full_def changes_flush)

lemma changes_insert [changes]: "changes_to n core (on_memtable cf (mt_insert r) core)"
  by (rule changes_on_memtable) (auto simp: mem_wf_insert)

lemma changes_put_phase: "changes_to 1 core (snd (put_phase H rng now options cf r core))"
  unfolding put_phase_def by (rule changes_same_trans [OF changes_same_trans [OF changes_insert changes_add_bytes] changes_flush_if_full])

lemma changes_delete_phase: "changes_to 1 core (snd (delete_phase H rng now options cf key core))"
  unfolding delete_phase_def mt_delete_def [abs_def]
  by (rule changes_same_trans [OF changes_same_trans [OF changes_insert changes_add_bytes] changes_flush_if_full])

lemma changes_add_range: "changes_to n core (add_range cf rt core)"
proof -
  let ?core1 = "core\<lparr>co_range_tombstones := AList.update cf (tombstones_of core cf @ [rt]) (co_range_tombstones core)\<rparr>"
  have t: "tombstones_of ?core1 cf' = tombstones_of core cf' @ (if cf' = cf then [rt] else [])" for cf'
    by (simp add: tombstones_of_def update_conv')
  have "core_wf core \<Longrightarrow> core_wf ?core1" unfolding core_wf_def t by (fastforce simp: distinct_update)
  then have "changes_to 0 core ?core1" by (rule changesI) simp_all
  moreover have "changes_to n ?core1 (on_memtable cf (add_range_tombstone rt) ?core1)"
    by (rule changes_on_memtable) (auto simp: mem_wf_def add_range_tombstone_def t)
  ultimately show ?thesis unfolding add_range_def by (rule changes_same_trans)
qed

lemma changes_fold:
  "(\<And>x core. changes_to 0 core (f x core)) \<Longrightarrow> changes_to 0 core (fold f xs core)"
  by (induction xs arbitrary: core) (auto intro: changes_same_trans)

lemma changes_set_batch: "changes_to 1 core (snd (set_batch_cf H rng clock options cf items core))"
  unfolding set_batch_cf_def Let_def mt_put_def [abs_def]
  by (rule changes_bind0 [OF changes_log_batch], rule changes_same_trans [OF changes_fold changes_flush_if_full])
    (auto intro: changes_same_trans [OF changes_insert changes_add_bytes])

lemma changes_delete_batch: "changes_to 1 core (snd (delete_batch_cf H rng clock options cf keys core))"
  unfolding delete_batch_cf_def Let_def mt_delete_def [abs_def]
  by (rule changes_bind0 [OF changes_log_batch], rule changes_same_trans [OF changes_fold changes_flush_if_full])
    (auto intro: changes_same_trans [OF changes_insert changes_add_bytes])

subsection \<open>Transactions\<close>

lemma changes_flush_for_cf: "changes_to 1 core (snd (flush_memtable_for_cf H options cf core))"
proof (cases "map_of (co_memtables core) cf")
  case (Some ms)
  let ?core1 = "core\<lparr>co_memtables := AList.update cf (butlast ms) (co_memtables core)\<rparr>"
  have eq: "flush_memtable_for_cf H options cf core = (if ms = [] then (Ok False, core) else
      let t = tb_build (h_crates H) (btree_collect (map (\<lambda>(k, r). (k, lr_value r)) (mt_data (last ms))));
          core2 = ?core1\<lparr>co_version_set := add_table H cf t (co_version_set ?core1)\<rparr>
      in if map_of (co_memtable_bytes core2) cf = None then (Err InvalidArgument, core2)
         else bind_st (on_wal cf (\<lambda>w. Ok (wal_clear w)) (core2\<lparr>co_memtable_bytes := AList.update cf 0 (co_memtable_bytes core2)\<rparr>))
            (\<lambda>_ core3. (Ok (cp_compaction_threshold (eo_compaction_options options) < table_count cf (co_version_set core3)), core3)))"
    using Some by (simp add: flush_memtable_for_cf_def Let_def)
  show ?thesis
  proof (cases "ms = []")
    case False
    show ?thesis unfolding eq if_not_P [OF False] Let_def
      by (rule changes_same_trans [OF changes_pop [OF Some] changes_table_and_clear], rule refl)
  qed (simp add: eq)
qed (simp add: flush_memtable_for_cf_def)

lemma changes_commit_cf: "changes_to 1 core (snd (commit_cf H rng clock n options cf es core))"
  unfolding commit_cf_def Let_def apply_writes
proof (rule changes_bind0 [OF changes_log_batch])
  fix v
  let ?core1 = "snd (on_wal cf (write_batch (h_crates H) rng (map (\<lambda>(i, w). write_record_of (clock i) w\<lparr>lr_column_family := Some cf\<rparr>) (enumerate n es))) core)"
  let ?core2 = "add_bytes cf (sum_list (map (\<lambda>(key, value, _). length key + length value) es))
      (on_memtable cf (fold mt_insert (txn_records clock (n + length es) es)) ?core1)"
  have "changes_to 0 ?core1 (on_memtable cf (fold mt_insert (txn_records clock (n + length es) es)) ?core1)"
    by (rule changes_on_memtable) (auto simp: fold_insert)
  then have c: "changes_to 0 ?core1 ?core2" by (rule changes_same_trans) (rule changes_add_bytes)
  show "changes_to 1 ?core1 (snd (if write_buffer_limit options \<le> bytes_of ?core2 cf then flush_memtable_for_cf H options cf ?core2 else (Ok False, ?core2)))"
    using changes_same_trans [OF c changes_flush_for_cf] changes_mono [OF c zero_le] by simp
qed

lemma changes_commit_cfs: "changes_to (length grp) core (snd (commit_cfs H rng clock n options grp core))"
proof (induction grp arbitrary: n core)
  case (Cons g grp)
  obtain cf es where g: "g = (cf, es)" by (cases g)
  have "changes_to (1 + length grp) core (snd (commit_cfs H rng clock n options (g # grp) core))"
    unfolding g commit_cfs.simps by (rule changes_bind) (rule changes_commit_cf, rule Cons.IH)
  then show ?case by (simp add: One_nat_def)
qed simp

lemma changes_commit: "changes_to (length (group_writes (tx_writes t))) core (fst (snd (txn_commit H rng clock options t core)))"
  using changes_commit_cfs [of "group_writes (tx_writes t)" core H rng clock 0 options]
  by (auto simp: txn_commit_def split: prod.splits)

subsection \<open>Compaction\<close>

lemma changes_replace_and_remove: "changes_to 1 core (replace_and_remove H cf replacements core)"
proof -
  have 1: "changes_to 1 core (core\<lparr>co_version_set := snd (atomic_replace_groups H cf replacements (co_version_set core))\<rparr>)"
    by (rule changes_replace) simp
  from changes_trans [OF 1 changes_sst_dir [of 0]] show ?thesis by (simp add: replace_and_remove_def case_prod_beta)
qed

lemma changes_compact: "changes_to 1 core (snd (compact_cf_core H rng clock options cf core))"
  unfolding compact_cf_core_def Let_def
  by (auto split: prod.splits intro!: changes_bind0 changes_sst_dir changes_replace_and_remove)

lemma changes_apply_plan: "changes_to 1 core (apply_plan H p results core)"
  by (simp add: apply_plan_def changes_replace_and_remove)

subsection \<open>Reads\<close>

definition keeps_tables :: "(('bl, 'c, 'k) version_set \<Rightarrow> ('a \<times> ('bl, 'c, 'k) version_set) outcome) \<Rightarrow> bool" where
  "keeps_tables f \<longleftrightarrow> (\<forall>vs a vs'. f vs = Ok (a, vs') \<longrightarrow> vs_tables vs' = vs_tables vs \<and> vs_compaction_generation vs' = vs_compaction_generation vs)"

lemma changes_on_version_set:
  assumes "keeps_tables f"
  shows "changes_to n core (snd (on_version_set f core))"
proof (cases "f (co_version_set core)")
  case (Ok x)
  obtain a vs where x: "x = (a, vs)" by (cases x)
  then have "vs_tables vs = vs_tables (co_version_set core)" "vs_compaction_generation vs = vs_compaction_generation (co_version_set core)"
    using assms Ok by (auto simp: keeps_tables_def)
  then have "changes_to n core (core\<lparr>co_version_set := vs\<rparr>)"
    by (intro changes_version_set exI [of _ 0]) (simp_all add: evolves_def)
  then show ?thesis using Ok x by (simp add: on_version_set_def)
qed (simp_all add: on_version_set_def)

lemma cache_fields [simp]:
  "vs_tables (put_cached H k v vs) = vs_tables vs" "vs_compaction_generation (put_cached H k v vs) = vs_compaction_generation vs"
  "vs_tables (quarantine_path p vs) = vs_tables vs" "vs_compaction_generation (quarantine_path p vs) = vs_compaction_generation vs"
  "vs_tables (keep_block_cache c vs) = vs_tables vs" "vs_compaction_generation (keep_block_cache c vs) = vs_compaction_generation vs"
  by (simp_all add: put_cached_def quarantine_path_def keep_block_cache_def)

lemma value_lookup_keeps: "keeps_tables (value_lookup H disk now key ts)"
proof -
  have "value_lookup H disk now key ts vs = Ok (a, vs') \<Longrightarrow>
      vs_tables vs' = vs_tables vs \<and> vs_compaction_generation vs' = vs_compaction_generation vs" for vs a vs'
  proof (induction ts arbitrary: vs)
    case (Cons t ts)
    show ?case
      using Cons.prems
      by (auto simp: Let_def split: if_splits option.splits list.splits outcome.splits prod.splits dest!: Cons.IH)
  qed simp
  then show ?thesis by (auto simp: keeps_tables_def)
qed

lemma record_lookup_keeps: "keeps_tables (record_lookup H disk key ts)"
proof -
  have "record_lookup H disk key ts vs = Ok (a, vs') \<Longrightarrow>
      vs_tables vs' = vs_tables vs \<and> vs_compaction_generation vs' = vs_compaction_generation vs" for vs a vs'
  proof (induction ts arbitrary: vs)
    case (Cons t ts)
    show ?case
    proof (cases "tb_min_key t \<noteq> [] \<and> key < tb_min_key t \<or> tb_max_key t \<noteq> [] \<and> tb_max_key t < key \<or> bloom_rejects H t key")
      case False
      have IH: "record_lookup H disk key ts (keep_block_cache c vs) = Ok (a, vs') \<Longrightarrow>
          vs_tables vs' = vs_tables vs \<and> vs_compaction_generation vs' = vs_compaction_generation vs" for c
        using Cons.IH [of "keep_block_cache c vs"] by simp
      show ?thesis
        using Cons.prems Cons.IH [of vs] unfolding record_lookup.simps if_not_P [OF False]
        by (auto simp: case_prod_beta split: option.splits dest: IH)
    qed (use Cons in simp)
  qed simp
  then show ?thesis by (auto simp: keeps_tables_def)
qed

lemma record_iters_keeps: "keeps_tables (record_iters H disk lower upper ts iterators)"
proof -
  have "record_iters H disk lower upper ts iterators vs = Ok (a, vs') \<Longrightarrow>
      vs_tables vs' = vs_tables vs \<and> vs_compaction_generation vs' = vs_compaction_generation vs" for vs a vs'
  proof (induction ts arbitrary: iterators vs)
    case (Cons t ts)
    show ?case
    proof (cases "tb_max_key t \<noteq> [] \<and> (case lower of Some lb \<Rightarrow> tb_max_key t < lb | None \<Rightarrow> False)
         \<or> tb_min_key t \<noteq> [] \<and> (case upper of Some ub \<Rightarrow> ub \<le> tb_min_key t | None \<Rightarrow> False)")
      case False
      have IH: "record_iters H disk lower upper ts its (keep_block_cache c vs) = Ok (a, vs') \<Longrightarrow>
          vs_tables vs' = vs_tables vs \<and> vs_compaction_generation vs' = vs_compaction_generation vs" for c its
        using Cons.IH [of its "keep_block_cache c vs"] by simp
      show ?thesis
        using Cons.prems Cons.IH [of _ vs] unfolding record_iters.simps if_not_P [OF False]
        by (cases "tb_path t") (auto simp: case_prod_beta dest: IH)
    qed (use Cons in simp)
  qed simp
  then show ?thesis by (auto simp: keeps_tables_def)
qed

lemma lookups_keep:
  "keeps_tables (vs_get H disk now cf key)" "keeps_tables (vs_get_record H disk cf key)" "keeps_tables (record_iters_in_range H disk cf lower upper)"
  "keeps_tables (legacy_expired H disk now cf key record)"
proof -
  show 1: "keeps_tables (vs_get H disk now cf k)" for k
    using value_lookup_keeps by (fastforce simp: keeps_tables_def vs_get_def split: option.splits)
  show "keeps_tables (vs_get_record H disk cf key)"
    using record_lookup_keeps by (fastforce simp: keeps_tables_def vs_get_record_def split: option.splits)
  show "keeps_tables (record_iters_in_range H disk cf lower upper)"
    using record_iters_keeps by (fastforce simp: keeps_tables_def record_iters_in_range_def split: option.splits)
  show "keeps_tables (legacy_expired H disk now cf key record)"
    using 1 [of "ttl_key key"] by (auto simp: keeps_tables_def legacy_expired_def split: option.splits)
qed

lemma visible_loop_keeps: "keeps_tables (visible_loop H disk now cf covering lower upper limit merged)"
proof -
  have "visible_loop H disk now cf covering lower upper limit merged vs = Ok (a, vs') \<Longrightarrow>
      vs_tables vs' = vs_tables vs \<and> vs_compaction_generation vs' = vs_compaction_generation vs" for vs a vs'
  proof (induction "mg_weight merged" arbitrary: limit merged vs a rule: less_induct)
    case less
    show ?case
    proof (cases "mg_is_valid merged")
      case True
      have IH: "visible_loop H disk now cf covering lower upper l (mg_next merged) vs1 = Ok (b, vs') \<Longrightarrow>
          vs_tables vs' = vs_tables vs1 \<and> vs_compaction_generation vs' = vs_compaction_generation vs1" for l vs1 b
        by (rule less.hyps [OF mg_weight_next [OF True]])
      have k: "legacy_expired H disk now cf k r vs1 = Ok (e, vs2) \<Longrightarrow>
          vs_tables vs2 = vs_tables vs1 \<and> vs_compaction_generation vs2 = vs_compaction_generation vs1" for k r vs1 e vs2
        using lookups_keep(4) unfolding keeps_tables_def by blast
      show ?thesis
        using less.prems True unfolding visible_loop.simps [of _ _ _ _ _ _ _ _ merged] Let_def
        by (auto split: if_splits dest!: IH k)
    qed (use less.prems in \<open>simp add: visible_loop.simps [of _ _ _ _ _ _ _ _ merged]\<close>)
  qed
  then show ?thesis by (auto simp: keeps_tables_def)
qed

lemma changes_get: "changes_to n core (snd (get_cf H now cf key core))"
proof -
  have "changes_to 0 c (snd (check_ttl H now cf key v c))" for v c
    by (auto simp: check_ttl_def intro!: changes_bind0 changes_on_version_set lookups_keep)
  then have "changes_to 0 core (snd (get_cf H now cf key core))"
    by (auto simp: get_cf_def Let_def split: option.splits intro!: changes_bind0 changes_on_version_set lookups_keep)
  then show ?thesis by (rule changes_mono) simp
qed

lemma changes_scan: "changes_to n core (snd (scan_cf H now cf lower upper limit core))"
proof -
  have "changes_to 0 core (snd (scan_cf H now cf lower upper limit core))"
    unfolding scan_cf_def for_each_visible_record_def Let_def
    by (auto intro!: changes_bind0 changes_on_version_set lookups_keep visible_loop_keeps)
  then show ?thesis by (rule changes_mono) simp
qed

declare One_nat_def [simp]

end
