(* ===== verification/Engine_Steps.thy ===== *)
theory Engine_Steps
  imports Engine_Wf
begin

text \<open>
  The engine as a system of threads. A step is what one thread does under one acquisition of the
  lock, or one append to a log. A put, a deletion and a range deletion log their record and change
  the memory in two steps, with other threads in between; a background compaction makes its plan,
  merges, and applies its result in three.

  Every step has a cost, a bound on how often it changes a list of tables.
\<close>

datatype pending_write =
    PendingPut string log_record
  | PendingDelete string bytes
  | PendingRange string range_tombstone

record ('bl, 'c, 'k) engine_system =
  sy_core :: "('bl, 'c, 'k) engine_core"
  sy_pending :: "pending_write list"
  sy_plans :: "'bl compaction_plan list"
  sy_results :: "('bl compaction_plan \<times> (nat list \<times> 'bl table list) list) list"

text \<open>The first phase of a write: the column family, the record for the log, and what is left to do.\<close>

inductive starts_write :: "engine_options \<Rightarrow> string \<Rightarrow> log_record \<Rightarrow> pending_write \<Rightarrow> bool" for options where
  put: "length key \<le> MAX_KEY_SIZE \<Longrightarrow> length value \<le> MAX_VALUE_SIZE \<Longrightarrow> r = put_record options now ttl_now cf key value ttl \<Longrightarrow>
     starts_write options cf r (PendingPut cf r)"
| delete: "starts_write options cf ((tombstone log_now key)\<lparr>lr_column_family := Some cf\<rparr>) (PendingDelete cf key)"
| delete_range: "starts_write options cf ((mk_range_tombstone log_now start stop)\<lparr>lr_column_family := Some cf\<rparr>)
     (PendingRange cf (range_tombstone_new now start stop))"

definition memory_phase ::
  "('bl, 'c, 'k) host \<Rightarrow> (nat \<Rightarrow> bytes option) \<Rightarrow> u128 \<Rightarrow> engine_options \<Rightarrow> pending_write \<Rightarrow> ('bl, 'c, 'k) engine_core
   \<Rightarrow> bool outcome \<times> ('bl, 'c, 'k) engine_core" where
  "memory_phase H rng now options w core =
     (case w of
        PendingPut cf r \<Rightarrow> put_phase H rng now options cf r core
      | PendingDelete cf key \<Rightarrow> delete_phase H rng now options cf key core
      | PendingRange cf rt \<Rightarrow> (Ok False, add_range cf rt core))"

inductive engine_step ::
  "('bl, 'c, 'k) host \<Rightarrow> (nat \<Rightarrow> bytes option) \<Rightarrow> engine_options \<Rightarrow> ('bl, 'c, 'k) engine_system \<Rightarrow> nat \<Rightarrow> ('bl, 'c, 'k) engine_system \<Rightarrow> bool"
  for H rng options where
  log: "starts_write options cf r w \<Longrightarrow> log_phase H rng cf r (sy_core s) = (Ok (), core') \<Longrightarrow>
     engine_step H rng options s 0 (s\<lparr>sy_core := core', sy_pending := sy_pending s @ [w]\<rparr>)"
| log_fails: "starts_write options cf r w \<Longrightarrow> fst (log_phase H rng cf r (sy_core s)) \<noteq> Ok () \<Longrightarrow>
     engine_step H rng options s 0 (s\<lparr>sy_core := snd (log_phase H rng cf r (sy_core s))\<rparr>)"
| memory: "sy_pending s = ws @ w # ws' \<Longrightarrow>
     engine_step H rng options s 1 (s\<lparr>sy_core := snd (memory_phase H rng now options w (sy_core s)), sy_pending := ws @ ws'\<rparr>)"
| set_batch: "engine_step H rng options s 1 (s\<lparr>sy_core := snd (set_batch_cf H rng clock options cf items (sy_core s))\<rparr>)"
| delete_batch: "engine_step H rng options s 1 (s\<lparr>sy_core := snd (delete_batch_cf H rng clock options cf keys (sy_core s))\<rparr>)"
| commit: "engine_step H rng options s (length (group_writes (tx_writes t)))
     (s\<lparr>sy_core := fst (snd (txn_commit H rng clock options t (sy_core s)))\<rparr>)"
| flush: "engine_step H rng options s 1 (s\<lparr>sy_core := snd (flush_memtable_impl H rng now options cf (sy_core s))\<rparr>)"
| get: "engine_step H rng options s 0 (s\<lparr>sy_core := snd (get_cf H now cf key (sy_core s))\<rparr>)"
| scan: "engine_step H rng options s 0 (s\<lparr>sy_core := snd (scan_cf H now cf lower upper limit (sy_core s))\<rparr>)"
| compact: "engine_step H rng options s 1 (s\<lparr>sy_core := snd (compact_cf_core H rng clock options cf (sy_core s))\<rparr>)"
| plan: "p \<in> set (build_plans H options (sy_core s)) \<Longrightarrow> engine_step H rng options s 0 (s\<lparr>sy_plans := sy_plans s @ [p]\<rparr>)"
| run: "sy_plans s = ps @ p # ps' \<Longrightarrow> run_groups (h_crates H) rng clock 0 p (pl_groups p) (co_sst_dir (sy_core s)) = (Ok results, disk) \<Longrightarrow>
     engine_step H rng options s 0 (s\<lparr>sy_core := (sy_core s)\<lparr>co_sst_dir := disk\<rparr>, sy_plans := ps @ ps', sy_results := sy_results s @ [(p, results)]\<rparr>)"
| run_panics: "sy_plans s = ps @ p # ps' \<Longrightarrow> run_groups (h_crates H) rng clock 0 p (pl_groups p) (co_sst_dir (sy_core s)) = (Panic, disk) \<Longrightarrow>
     engine_step H rng options s 0 (s\<lparr>sy_core := (sy_core s)\<lparr>co_sst_dir := disk\<rparr>, sy_plans := ps @ ps'\<rparr>)"
| apply_result: "sy_results s = rs @ (p, results) # rs' \<Longrightarrow>
     engine_step H rng options s 1 (s\<lparr>sy_core := apply_plan H p results (sy_core s), sy_results := rs @ rs'\<rparr>)"
| load: "engine_step H rng options s (length candidates) (s\<lparr>sy_core := snd (apply_candidates H reason candidates (sy_core s))\<rparr>)"
| clean: "engine_step H rng options s 0 (s\<lparr>sy_core := snd (reconcile_tables entries (sy_core s))\<rparr>)"

text \<open>Any number of steps, with their total cost.\<close>

inductive engine_steps ::
  "('bl, 'c, 'k) host \<Rightarrow> (nat \<Rightarrow> bytes option) \<Rightarrow> engine_options \<Rightarrow> ('bl, 'c, 'k) engine_system \<Rightarrow> nat \<Rightarrow> ('bl, 'c, 'k) engine_system \<Rightarrow> bool"
  for H rng options where
  none: "engine_steps H rng options s 0 s"
| more: "engine_steps H rng options s n s' \<Longrightarrow> engine_step H rng options s' c s'' \<Longrightarrow> engine_steps H rng options s (n + c) s''"

text \<open>A put without interruption is the two steps of its thread.\<close>

lemma put_core_steps:
  assumes "put_core H rng now ttl_now options cf key value ttl (sy_core s) = (Ok b, core')"
  shows "engine_steps H rng options s 1 (s\<lparr>sy_core := core'\<rparr>)"
proof -
  let ?r = "put_record options now ttl_now cf key value ttl"
  obtain core1 where c: "length key \<le> MAX_KEY_SIZE" "length value \<le> MAX_VALUE_SIZE" "log_phase H rng cf ?r (sy_core s) = (Ok (), core1)"
    "put_phase H rng now options cf ?r core1 = (Ok b, core')"
    using assms by (cases "log_phase H rng cf ?r (sy_core s)"; cases "fst (log_phase H rng cf ?r (sy_core s))")
      (auto simp: put_core_def Let_def split: if_splits)
  let ?s1 = "s\<lparr>sy_core := core1, sy_pending := sy_pending s @ [PendingPut cf ?r]\<rparr>"
  have "engine_step H rng options s 0 ?s1" by (rule engine_step.log [OF starts_write.put [OF c(1,2) refl] c(3)])
  moreover have "engine_step H rng options ?s1 1 (s\<lparr>sy_core := core'\<rparr>)"
    using engine_step.memory [of ?s1 "sy_pending s" "PendingPut cf ?r" "[]" H rng options now] c(4) by (simp add: memory_phase_def)
  ultimately show ?thesis
    using engine_steps.more [OF engine_steps.more [OF engine_steps.none]] by (metis add_0)
qed

subsection \<open>Invariants\<close>

lemma changes_counts: "changes_to n core (add_degraded core)" "changes_to n core (add_unreadable core)"
  unfolding add_degraded_def add_unreadable_def
  by (rule changes_version_set, rule exI [of _ 0], simp add: evolves_def, simp)+

lemma changes_candidates: "changes_to (length cs) core (snd (apply_candidates H reason cs core))"
proof (induction cs arbitrary: core)
  case (Cons c cs)
  have add: "changes_to (Suc (length cs)) core1 (snd (apply_candidates H reason cs (core1\<lparr>co_version_set := add_table H cf t (co_version_set core1)\<rparr>)))"
    for core1 cf t
    using changes_trans [OF changes_add_table [of 1] Cons.IH] by simp
  show ?case
  proof (cases "cd_outcome c")
    case (DegradedBloom t)
    then show ?thesis using changes_same_trans [OF changes_counts(1) add] by (simp add: Let_def)
  next
    case (Corrupt e)
    obtain res disk where q: "quarantine reason (cd_path c) (co_sst_dir core) = (res, disk)" by fastforce
    have "changes_to (length cs) core (snd (bind_st (res, core\<lparr>co_sst_dir := disk\<rparr>) (\<lambda>_ core1. apply_candidates H reason cs (add_unreadable core1))))"
      by (rule changes_bind0) (simp_all add: changes_sst_dir changes_same_trans [OF changes_counts(2) Cons.IH])
    then show ?thesis using Corrupt q changes_mono by fastforce
  qed (use add in simp)
qed simp

lemma changes_memory_phase: "changes_to 1 core (snd (memory_phase H rng now options w core))"
  using changes_put_phase changes_delete_phase by (cases w) (auto simp: memory_phase_def changes_add_range simp del: One_nat_def)

lemma step_changes: "engine_step H rng options s c s' \<Longrightarrow> changes_to c (sy_core s) (sy_core s')"
proof (induction rule: engine_step.induct)
  case (log cf r w s core')
  then show ?case using changes_log [of 0 "sy_core s" H rng cf r] by simp
qed (simp_all add: changes_log changes_memory_phase changes_set_batch changes_delete_batch changes_commit changes_flush changes_get changes_scan
    changes_compact changes_sst_dir changes_apply_plan changes_candidates reconcile_tables_def Let_def del: One_nat_def)

lemma steps_changes: "engine_steps H rng options s c s' \<Longrightarrow> changes_to c (sy_core s) (sy_core s')"
  by (induction rule: engine_steps.induct) (auto intro: changes_trans step_changes)

subsection \<open>Plans of background compactions\<close>

definition live_plans :: "('bl, 'c, 'k) engine_system \<Rightarrow> 'bl compaction_plan set" where
  "live_plans s = set (sy_plans s) \<union> fst ` set (sy_results s)"

text \<open>
  After \<open>n\<close> changes of table lists, a plan that was made after the \<open>k\<close>-th of them has the tables of
  that time.
\<close>

definition plans_tracked :: "('bl, 'c, 'k) host \<Rightarrow> u64 \<Rightarrow> nat \<Rightarrow> ('bl, 'c, 'k) engine_system \<Rightarrow> bool" where
  "plans_tracked H g n s \<longleftrightarrow>
     vs_compaction_generation (co_version_set (sy_core s)) = g + word_of_nat n \<and>
     (\<forall>p\<in>live_plans s. \<exists>k\<le>n. pl_generation p = g + word_of_nat k \<and>
        (k = n \<longrightarrow> pl_tables p = get_tables H (pl_cf p) (co_version_set (sy_core s))))"

lemma plans_tracked_evolves:
  assumes "plans_tracked H g n s" "evolves m (co_version_set (sy_core s)) (co_version_set (sy_core s'))" "live_plans s' \<subseteq> live_plans s"
  shows "plans_tracked H g (n + m) s'"
proof -
  have "\<exists>k\<le>n + m. pl_generation p = g + word_of_nat k \<and> (k = n + m \<longrightarrow> pl_tables p = get_tables H (pl_cf p) (co_version_set (sy_core s')))"
    if "p \<in> live_plans s'" for p
  proof -
    have "p \<in> live_plans s" using assms(3) that by (rule subsetD)
    from bspec [OF conjunct2 [OF assms(1) [unfolded plans_tracked_def]] this]
    obtain k where k: "k \<le> n" "pl_generation p = g + word_of_nat k" "k = n \<longrightarrow> pl_tables p = get_tables H (pl_cf p) (co_version_set (sy_core s))"
      by (elim exE conjE)
    have "pl_tables p = get_tables H (pl_cf p) (co_version_set (sy_core s'))" if "k = n + m"
      using that k(1,3) assms(2) by (simp add: evolves_def get_tables_def cf_tables_def)
    then show ?thesis using k(1,2) by (intro exI [of _ k]) simp
  qed
  then show ?thesis using assms(1,2) by (simp add: plans_tracked_def evolves_def add.assoc)
qed

lemma step_live_plans:
  "engine_step H rng options s c s' \<Longrightarrow>
     live_plans s' \<subseteq> live_plans s \<or> (\<exists>p\<in>set (build_plans H options (sy_core s)). s' = s\<lparr>sy_plans := sy_plans s @ [p]\<rparr>)"
  by (induction rule: engine_step.induct) (auto simp: live_plans_def)

lemma step_plans_tracked:
  assumes "engine_step H rng options s c s'" "plans_tracked H g n s"
  shows "\<exists>m\<le>c. plans_tracked H g (n + m) s'"
proof (cases "live_plans s' \<subseteq> live_plans s")
  case True
  obtain m where "m \<le> c" "evolves m (co_version_set (sy_core s)) (co_version_set (sy_core s'))"
    using step_changes [OF assms(1)] by (auto simp: changes_to_def)
  then show ?thesis using plans_tracked_evolves [OF assms(2) _ True] by blast
next
  case False
  then obtain p where p: "s' = s\<lparr>sy_plans := sy_plans s @ [p]\<rparr>" "p \<in> set (build_plans H options (sy_core s))"
    using step_live_plans [OF assms(1)] by blast
  then have "pl_tables p = get_tables H (pl_cf p) (co_version_set (sy_core s))"
    "pl_generation p = vs_compaction_generation (co_version_set (sy_core s))"
    by (auto simp: build_plans_def List.map_filter_def plan_cf_def Let_def split: if_splits)
  then have "plans_tracked H g n s'" using assms(2) by (auto simp: plans_tracked_def p(1) live_plans_def)
  then show ?thesis by (intro exI [of _ 0]) simp
qed

lemma steps_plans_tracked:
  assumes "engine_steps H rng options s c s'" "live_plans s = {}"
  shows "\<exists>n\<le>c. plans_tracked H (vs_compaction_generation (co_version_set (sy_core s))) n s'"
  using assms
proof (induction rule: engine_steps.induct)
  case (none s)
  then show ?case by (intro exI [of _ 0]) (simp add: plans_tracked_def)
next
  case (more s n s' c s'')
  then obtain k where "k \<le> n" "plans_tracked H (vs_compaction_generation (co_version_set (sy_core s))) k s'" by blast
  with step_plans_tracked [OF more.hyps(2) this(2)] obtain m where "m \<le> c" "plans_tracked H (vs_compaction_generation (co_version_set (sy_core s))) (k + m) s''" by blast
  then show ?case using \<open>k \<le> n\<close> by (intro exI [of _ "k + m"]) simp
qed

lemma tracked_current:
  assumes "plans_tracked H g n s" "n < 2 ^ 64" "p \<in> live_plans s" "pl_generation p = vs_compaction_generation (co_version_set (sy_core s))"
  shows "pl_tables p = get_tables H (pl_cf p) (co_version_set (sy_core s))"
proof -
  obtain k where k: "k \<le> n" "pl_generation p = g + word_of_nat k" "k = n \<longrightarrow> pl_tables p = get_tables H (pl_cf p) (co_version_set (sy_core s))"
    using assms(1,3) by (auto simp: plans_tracked_def)
  have "(word_of_nat k :: u64) = word_of_nat n" using assms(1,4) k(2) by (simp add: plans_tracked_def)
  then have "unat (word_of_nat k :: u64) = unat (word_of_nat n :: u64)" by (rule arg_cong)
  then have "k mod 2 ^ 64 = n mod 2 ^ 64" by (simp add: unsigned_of_nat take_bit_eq_mod)
  then show ?thesis using k(1,3) assms(2) by simp
qed

text \<open>What the replacement of groups removes.\<close>

lemma collect_groups_subset:
  "set (fst (collect_groups n groups (removed, m))) \<subseteq> set removed \<union> {i. i < n \<and> (\<exists>g\<in>set groups. i \<in> set (fst g))}"
proof (induction groups arbitrary: removed m)
  case (Cons g groups)
  obtain "is" os where g: "g = (is, os)" by (cases g)
  have IH: "set (fst (collect_groups n groups (removed', m'))) \<subseteq> set removed' \<union> {i. i < n \<and> (\<exists>g\<in>set groups. i \<in> set (fst g))}" for removed' m'
    by (rule Cons.IH)
  show ?case unfolding g collect_groups.simps Let_def
    using IH [of removed m] IH [of "removed @ List.filter (\<lambda>i. i < n) is"] by (fastforce split: if_splits)
qed simp

lemma removed_paths:
  assumes "q \<in> set (fst (atomic_replace_groups H cf groups vs))"
  shows "\<exists>(is, _)\<in>set groups. \<exists>i\<in>set is. i < length (cf_tables vs cf) \<and> tb_path (cf_tables vs cf ! i) = Some q"
proof -
  obtain ts where ts: "map_of (vs_tables vs) cf = Some ts"
    using assms by (auto simp: atomic_replace_groups_def split: option.splits)
  obtain removed m where c: "collect_groups (length ts) groups ([], []) = (removed, m)" by fastforce
  have "q \<in> set (snd (replace_pass removed m 0 ts))"
    using assms ts c by (auto simp: atomic_replace_groups_def split: if_splits prod.splits)
  then obtain i where i: "i \<in> set removed" "i < length ts" "tb_path (ts ! i) = Some q"
    unfolding replace_pass_snd map_filter_options by (auto simp: in_set_enumerate_eq split: if_splits)
  then obtain g where "g \<in> set groups" "i \<in> set (fst g)" using collect_groups_subset [of "length ts" groups "[]" "[]"] c by auto
  then show ?thesis using i ts by (auto simp: cf_tables_def intro!: bexI [of _ g] split: prod.splits)
qed

lemma apply_plan_effect:
  assumes "pl_tables p = get_tables H (pl_cf p) (co_version_set core)"
  shows "cf \<noteq> pl_cf p \<Longrightarrow> cf_tables (co_version_set (apply_plan H p results core)) cf = cf_tables (co_version_set core) cf"
    "co_sst_dir (apply_plan H p results core) q = co_sst_dir core q \<or>
       (\<exists>(is, _)\<in>set results. \<exists>i\<in>set is. i < length (pl_tables p) \<and> tb_path (pl_tables p ! i) = Some q)"
proof -
  let ?r = "atomic_replace_groups H (pl_cf p) results (co_version_set core)"
  have "cf \<noteq> pl_cf p \<Longrightarrow> cf_tables (snd ?r) cf = cf_tables (co_version_set core) cf"
    by (auto simp: atomic_replace_groups_def cf_tables_def clear_cache_def update_conv' split: option.splits prod.splits)
  then show "cf \<noteq> pl_cf p \<Longrightarrow> cf_tables (co_version_set (apply_plan H p results core)) cf = cf_tables (co_version_set core) cf"
    by (simp add: apply_plan_def replace_and_remove_def case_prod_beta)
  show "co_sst_dir (apply_plan H p results core) q = co_sst_dir core q \<or>
       (\<exists>(is, _)\<in>set results. \<exists>i\<in>set is. i < length (pl_tables p) \<and> tb_path (pl_tables p ! i) = Some q)"
  proof (cases "q \<in> set (fst ?r)")
    case True
    have "tb_path (tb_clone X t) = tb_path t" for X and t :: "'a table" by (simp add: tb_clone_def)
    then show ?thesis using removed_paths [OF True] unfolding assms get_tables_def by (auto 0 4)
  qed (simp add: apply_plan_def replace_and_remove_def case_prod_beta remove_files_eq)
qed

subsection \<open>Logs and flushes\<close>

lemma flush_clears_log:
  assumes "flush_memtable_impl H rng now options cf core = (Ok b, core')" "memtables_of core cf \<noteq> []" "mt_data (last (memtables_of core cf)) \<noteq> []"
  shows "\<exists>w. map_of (co_wals core') cf = Some w \<and> wal_file w = []"
proof -
  have m: "map_of (co_memtables core) cf = Some (memtables_of core cf)" using assms(2) by (auto simp: memtables_of_def split: option.splits)
  let ?mem = "last (memtables_of core cf)" and ?core1 = "core\<lparr>co_memtables := AList.update cf (butlast (memtables_of core cf)) (co_memtables core)\<rparr>"
  have run: "flush_popped H rng now options cf ?mem ?core1 = (Ok b, core')"
    using assms m by (simp add: flush_memtable_impl_def)
  have last: "\<exists>core3. on_wal cf (\<lambda>w. Ok (wal_clear w)) core3 = (Ok (), core')"
    if "bind_st (on_wal cf (\<lambda>w. Ok (wal_clear w)) core3) (\<lambda>_ core4. (Ok (g core4), core4)) = (Ok b, core')" for core3 :: "('a, 'b, 'c) engine_core" and g
    using that by (cases "on_wal cf (\<lambda>w. Ok (wal_clear w)) core3"; cases "fst (on_wal cf (\<lambda>w. Ok (wal_clear w)) core3)") auto
  obtain r disk where w: "write_sst (h_crates H) rng (storage_config_of options) now (eo_encryption options) (sst_name ''flush'' now)
      (flush_entries now ?mem) (co_sst_dir core) = (r, disk)" by fastforce
  have "\<exists>core3. on_wal cf (\<lambda>w. Ok (wal_clear w)) core3 = (Ok (), core')"
    using run w
    by (cases r; cases "from_sstable_path (h_crates H) disk (sst_name ''flush'' now) (Some (eo_encryption options))")
      (auto simp: flush_popped_def Let_def split: if_splits dest!: last)
  then show ?thesis using on_wal_others(1) by (fastforce simp: wal_clear_def)
qed

subsection \<open>Example runs\<close>

definition idle :: "('bl, 'c, 'k) engine_core \<Rightarrow> ('bl, 'c, 'k) engine_system" where
  "idle core = \<lparr>sy_core = core, sy_pending = [], sy_plans = [], sy_results = []\<rparr>"

lemma demo_flush_logged:
  "\<exists>b core'. flush_memtable_impl demo_host (\<lambda>_. None) 0 demo_options ''default'' (demo_core\<lparr>co_wals := [(''default'', w)]\<rparr>) = (Ok b, core') \<and>
     bytes_of core' ''default'' = 0"
proof -
  have enc: "eo_encryption demo_options = encryption_default" by (simp add: demo_options_def engine_options_default_def)
  have w: "write_sst demo_crates (\<lambda>_. None) (storage_config_of demo_options) 0 encryption_default ''flush_0.sst'' demo_entries Map.empty = (Ok (), demo_disk)"
    using demo_build_rate [of FP_RATE] by (simp add: write_sst_def demo_storage_config demo_disk_def)
  obtain t where "from_sstable_path demo_crates demo_disk ''flush_0.sst'' (Some encryption_default) = Ok t"
    using from_sstable_path_ok [OF demo_build demo_laws demo_sizes(1-4), of demo_disk "''flush_0.sst''"] by (auto simp: demo_disk_def)
  with w enc show ?thesis
    by (simp add: flush_memtable_impl_def demo_core_def flush_popped_def demo_flush_entries on_wal_def wal_handle_def bytes_of_def Let_def)
qed

text \<open>Two tables that were loaded from files, ready for a merge.\<close>

definition two_loaded :: "(unit, unit, (bytes \<times> bytes) list) engine_core" where
  "two_loaded = demo_core
     \<lparr>co_version_set := (vs_new demo_host encryption_default (Some ()))\<lparr>vs_tables := [(''default'', [demo_table\<lparr>tb_data := []\<rparr>, demo_table\<lparr>tb_data := []\<rparr>])]\<rparr>,
      co_compaction := compaction_new SizeTiered (compaction_options_default\<lparr>cp_compaction_threshold := 2\<rparr>) (storage_config_of demo_options)\<rparr>"

lemma two_loaded_run:
  "\<exists>p results s. engine_steps demo_host (\<lambda>_. None) demo_options (idle two_loaded) 0 s \<and> sy_results s = [(p, results)] \<and>
     pl_generation p = vs_compaction_generation (co_version_set (sy_core s)) \<and> map fst results = [[0, 1]]"
proof -
  let ?ts = "[demo_table\<lparr>tb_data := []\<rparr>, demo_table\<lparr>tb_data := []\<rparr>]" and ?X = "h_crates demo_host"
  have tables: "cf_tables (co_version_set two_loaded) ''default'' = ?ts" "column_families (co_version_set two_loaded) = [''default'']"
    by (simp_all add: two_loaded_def cf_tables_def column_families_def)
  have groups: "pick_compaction ?X SizeTiered (map (tb_clone ?X) ?ts) = [[0, 1]]"
    using group_reloaded [of "map (tb_clone ?X) ?ts"] by (simp add: pick_compaction_def upt_conv_Cons)
  define p where "p = \<lparr>pl_cf = ''default'', pl_tables = map (tb_clone ?X) ?ts, pl_groups = [[0, 1]],
      pl_compaction = compaction_clone (co_compaction two_loaded), pl_options = demo_options,
      pl_range_tombstones = tombstones_of two_loaded ''default'', pl_generation = vs_compaction_generation (co_version_set two_loaded)\<rparr>"
  have "plan_cf demo_host demo_options two_loaded ''default'' = Some p"
    using groups tables(1) by (simp add: plan_cf_def get_tables_def two_loaded_def compaction_new_def p_def Let_def)
  then have "p \<in> set (build_plans demo_host demo_options (sy_core (idle two_loaded)))"
    using tables(2) by (simp add: build_plans_def List.map_filter_def idle_def)
  then have 1: "engine_step demo_host (\<lambda>_. None) demo_options (idle two_loaded) 0 ((idle two_loaded)\<lparr>sy_plans := [p]\<rparr>)"
    using engine_step.plan [of p demo_host demo_options "idle two_loaded"] by (simp add: idle_def)
  obtain r disk where c: "compact ?X (\<lambda>_. None) 5 (pl_compaction p) [0, 1] (map (tb_clone ?X) ?ts) encryption_default (pl_range_tombstones p) Map.empty = (r, disk)"
    by fastforce
  have "cc_strategy (pl_compaction p) = SizeTiered" by (simp add: p_def compaction_clone_def two_loaded_def compaction_new_def compaction_options_default_def)
  then obtain m where r: "r = Ok ([], m)"
    using compact_reloaded_disk(2) [OF _ c] by auto
  have "eo_encryption demo_options = encryption_default" by (simp add: demo_options_def engine_options_default_def)
  then have "run_groups ?X (\<lambda>_. None) (\<lambda>_. 5) 0 p [[0, 1]] Map.empty = (Ok [([0, 1], [])], disk)"
    using c r by (simp add: p_def)
  then have 2: "engine_step demo_host (\<lambda>_. None) demo_options ((idle two_loaded)\<lparr>sy_plans := [p]\<rparr>) 0
      \<lparr>sy_core = two_loaded\<lparr>co_sst_dir := disk\<rparr>, sy_pending = [], sy_plans = [], sy_results = [(p, [([0, 1], [])])]\<rparr>"
    using engine_step.run [of "(idle two_loaded)\<lparr>sy_plans := [p]\<rparr>" "[]" p "[]" demo_host "\<lambda>_. None" "\<lambda>_. 5"]
    by (simp add: idle_def p_def two_loaded_def)
  show ?thesis
    using engine_steps.more [OF engine_steps.more [OF engine_steps.none 1] 2] by (intro exI conjI) (auto simp: p_def)
qed

subsection \<open>Properties\<close>

text \<open>C16: a background compaction never works on the wrong tables. Whatever other threads did between
  its plan and its result, applying the result either changes nothing, because the generation
  counter has moved, or finds exactly the tables that were planned; then it removes no file but
  those of the tables that it merged and leaves the other column families alone. The counter must
  not wrap around, which takes \<open>2 ^ 64\<close> changes.\<close>

theorem plan_applies_to_its_tables:
  assumes "engine_steps H rng options s c s'" and "live_plans s = {}" and "c < 2 ^ 64" and "(p, results) \<in> set (sy_results s')"
  shows "apply_plan H p results (sy_core s') = sy_core s' \<or>
    get_tables H (pl_cf p) (co_version_set (sy_core s')) = pl_tables p \<and>
    (\<forall>cf. cf \<noteq> pl_cf p \<longrightarrow>
       cf_tables (co_version_set (apply_plan H p results (sy_core s'))) cf = cf_tables (co_version_set (sy_core s')) cf) \<and>
    (\<forall>q. co_sst_dir (apply_plan H p results (sy_core s')) q = co_sst_dir (sy_core s') q \<or>
       (\<exists>(is, _)\<in>set results. \<exists>i\<in>set is. i < length (pl_tables p) \<and> tb_path (pl_tables p ! i) = Some q))"
proof (cases "pl_generation p = vs_compaction_generation (co_version_set (sy_core s'))")
  case True
  obtain n where n: "n \<le> c" "plans_tracked H (vs_compaction_generation (co_version_set (sy_core s))) n s'"
    using steps_plans_tracked [OF assms(1,2)] by blast
  have "p \<in> live_plans s'" using assms(4) by (force simp: live_plans_def)
  then have "pl_tables p = get_tables H (pl_cf p) (co_version_set (sy_core s'))"
    using tracked_current [OF n(2) _ _ True] n(1) assms(3) by simp
  note t = this and e = apply_plan_effect [OF this]
  show ?thesis by (rule disjI2, intro conjI allI impI) (simp add: t, erule e(1), rule e(2))
qed (simp add: apply_plan_def)

theorem plan_applies_to_its_tables_witness:
  "\<exists>p results s. engine_steps demo_host (\<lambda>_. None) demo_options (idle two_loaded) 0 s \<and> sy_results s = [(p, results)] \<and>
     map fst results = [[0, 1]] \<and> pl_generation p = vs_compaction_generation (co_version_set (sy_core s)) \<and>
     (apply_plan demo_host p results (sy_core s) = sy_core s \<or>
      get_tables demo_host (pl_cf p) (co_version_set (sy_core s)) = pl_tables p)"
proof -
  obtain p results s where r: "engine_steps demo_host (\<lambda>_. None) demo_options (idle two_loaded) 0 s" "sy_results s = [(p, results)]"
    "pl_generation p = vs_compaction_generation (co_version_set (sy_core s))" "map fst results = [[0, 1]]"
    using two_loaded_run by (elim exE conjE)
  have l: "live_plans (idle two_loaded) = {}" by (simp add: live_plans_def idle_def)
  have "apply_plan demo_host p results (sy_core s) = sy_core s \<or>
      get_tables demo_host (pl_cf p) (co_version_set (sy_core s)) = pl_tables p"
    using plan_applies_to_its_tables [OF r(1) l, of p results] r(2) by auto
  with r show ?thesis by (intro exI [of _ p] exI [of _ results] exI [of _ s]) simp
qed

text \<open>C15: every state that the threads can reach from a well-formed one is well formed, also after
  failures: each of the maps has one entry per column family, every memtable has one record per key,
  stored under its own key, its range deletions are also known to the engine, and no log has more
  fsynced bytes than bytes.\<close>

theorem engine_states_well_formed:
  assumes "engine_steps H rng options s c s'" and "core_wf (sy_core s)"
  shows "core_wf (sy_core s')"
  using steps_changes [OF assms(1)] assms(2) by (simp add: changes_to_def)

theorem engine_states_well_formed_witness:
  "\<exists>s. engine_steps demo_host (\<lambda>_. None) demo_options (idle two_loaded) 0 s \<and> sy_results s \<noteq> [] \<and> core_wf (sy_core s)"
proof -
  have "core_wf two_loaded"
    by (simp add: core_wf_def two_loaded_def mem_wf_def wals_wf_def) (simp add: demo_core_def)
  then show ?thesis
    using two_loaded_run engine_states_well_formed [of demo_host "\<lambda>_. None" demo_options "idle two_loaded" 0] by (fastforce simp: idle_def)
qed



end
