(* ===== verification/Engine_Search.thy ===== *)
theory Engine_Search
  imports Engine_Store
begin

text \<open>
  Prefix searches: the pages that \<open>search_prefix\<close> returns are consecutive parts of the sorted list of
  all shown keys with the prefix.
\<close>

subsection \<open>The upper bound of a prefix\<close>

text \<open>Texts have no byte \<open>0xFF\<close>.\<close>

lemma lossy_no_ff: "0xFF \<notin> set (from_utf8_lossy bs)"
proof (induction bs rule: from_utf8_lossy.induct)
  case (1 bs)
  show ?case
  proof (cases "bs = []")
    case False
    obtain valid n where st: "utf8_step bs = (valid, n)" by fastforce
    have "0xFF \<notin> set (take n bs)" if valid
    proof -
      have at: "bs ! i \<noteq> 0xFF" if "i < n" "i < length bs" for i
      proof -
        have "i = 0 \<or> i = 1 \<or> i = 2 \<or> i = 3" using st that(1) \<open>valid\<close> by (auto simp: utf8_step_def Let_def split: if_splits)
        then show ?thesis using st that \<open>valid\<close>
          by (auto simp: utf8_step_def is_continuation_def second_ok_def Let_def split: if_splits)
      qed
      show ?thesis
      proof
        assume "0xFF \<in> set (take n bs)"
        then obtain i where "i < length (take n bs)" "take n bs ! i = 0xFF" by (auto simp: in_set_conv_nth)
        then show False using at by auto
      qed
    qed
    moreover have "0xFF \<notin> set (from_utf8_lossy (drop n bs))" using "1.IH" False st by simp
    ultimately show ?thesis using False st by (simp add: from_utf8_lossy.simps [of bs] replacement_char_def)
  qed (simp add: from_utf8_lossy.simps)
qed

lemma utf8_no_ff: "is_utf8 bs \<Longrightarrow> 0xFF \<notin> set bs"
  using lossy_no_ff [of bs] by (simp add: is_utf8_def)

lemma byte_succ:
  fixes b :: u8
  assumes "b \<noteq> 0xFF"
  shows "b < 0xFF" "unat (b + 1) = unat b + 1"
proof -
  have "unat b < 2 ^ 8" using unsigned_less [of b] by simp
  moreover have "unat b \<noteq> 255" using assms by (simp add: word_unat_eq_iff)
  ultimately have n: "unat b < 255" by simp
  then show "b < 0xFF" by (simp add: word_less_nat_alt)
  have "(b + 1) = word_of_nat (unat b + 1)" by simp
  then show "unat (b + 1) = unat b + 1" using n by (simp only: unsigned_of_nat) (simp add: take_bit_eq_mod)
qed

lemma prefix_carry_last: "b \<noteq> 0xFF \<Longrightarrow> prefix_carry (bs @ [b]) = Some (bs @ [b + 1])"
  by (induction bs) (simp_all add: byte_succ(1))

lemma byte_between: "(b :: u8) \<noteq> 0xFF \<Longrightarrow> (b < c \<or> b = c) \<and> c < b + 1 \<longleftrightarrow> c = b"
  using byte_succ(2) [of b] by (auto simp: word_less_nat_alt word_unat_eq_iff)

lemma between_prefix:
  assumes "b \<noteq> (0xFF :: u8)"
  shows "bs @ [b] \<le> key \<and> key < bs @ [b + 1] \<longleftrightarrow> starts_with (bs @ [b]) key"
proof (induction bs arbitrary: key)
  case Nil
  show ?case
  proof (cases key)
    case (Cons c ks)
    then show ?thesis using byte_between [OF assms, of c] by (simp add: starts_with_def)
  qed (simp add: starts_with_def)
next
  case IH: (Cons a bs)
  show ?case
  proof (cases key)
    case (Cons c ks)
    then show ?thesis using IH [of ks] by (auto simp: starts_with_def)
  qed (simp add: starts_with_def)
qed

lemma prefix_range:
  assumes "0xFF \<notin> set prefix"
  shows "in_range (Some prefix) (prefix_end prefix) key \<longleftrightarrow> starts_with prefix key"
proof (cases prefix rule: rev_cases)
  case Nil
  then show ?thesis by (simp add: prefix_end_def in_range_def starts_with_def)
next
  case (snoc bs b)
  then have b: "b \<noteq> 0xFF" using assms by auto
  then show ?thesis using between_prefix [OF b, of bs key] by (simp add: snoc prefix_end_def prefix_carry_last in_range_def)
qed

subsection \<open>Pages\<close>

text \<open>The keys with a prefix that are shown, in order, and those after a cursor.\<close>

definition prefix_matches :: "catalogue \<Rightarrow> u128 \<Rightarrow> bytes \<Rightarrow> ('bl, 'c, 'k) engine_core \<Rightarrow> (bytes \<times> bytes) list" where
  "prefix_matches cat now prefix core = scan_result cat now (Some prefix) (prefix_end prefix) core ''default''"

definition after :: "bytes option \<Rightarrow> (bytes \<times> bytes) list \<Rightarrow> (bytes \<times> bytes) list" where
  "after cursor xs = List.filter (\<lambda>(k, _). case cursor of None \<Rightarrow> True | Some c \<Rightarrow> c < k) xs"

lemma prefix_matches_spec:
  assumes "engine_ok H cat core" "0xFF \<notin> set prefix"
  shows "strict_keys (prefix_matches cat now prefix core)"
    "map_of (prefix_matches cat now prefix core) key =
       (if starts_with prefix key \<and> \<not> starts_with TTL_PREFIX key then view cat now core ''default'' key else None)"
  using scan_result_spec [OF assms(1)] prefix_range [OF assms(2)] by (simp_all add: prefix_matches_def)

lemma scan_from_cursor:
  assumes ok: "engine_ok H cat core" and p: "0xFF \<notin> set prefix" "starts_with prefix c"
  shows "scan_result cat now (Some c) (prefix_end prefix) core ''default'' =
    List.filter (\<lambda>e. c \<le> fst e) (prefix_matches cat now prefix core)"
proof (rule strict_keys_map_of_eq)
  note s = scan_result_spec [OF ok]
  show "strict_keys (scan_result cat now (Some c) (prefix_end prefix) core ''default'')" by (rule s)
  show "strict_keys (List.filter (\<lambda>e. c \<le> fst e) (prefix_matches cat now prefix core))"
    by (rule strict_keys_filter) (simp add: prefix_matches_def s)
  have "prefix \<le> c" using p prefix_range [OF p(1), of c] by (simp add: in_range_def)
  then have "in_range (Some c) (prefix_end prefix) key \<longleftrightarrow> c \<le> key \<and> starts_with prefix key" for key
    using prefix_range [OF p(1), of key] by (auto simp: in_range_def)
  moreover have "map_of (List.filter (\<lambda>e. c \<le> fst e) xs) key = (if c \<le> key then map_of xs key else None)" for xs :: "(bytes \<times> bytes) list" and key
    by (induction xs) auto
  ultimately show "map_of (scan_result cat now (Some c) (prefix_end prefix) core ''default'') =
      map_of (List.filter (\<lambda>e. c \<le> fst e) (prefix_matches cat now prefix core))"
    by (auto simp: fun_eq_iff s(2) prefix_matches_spec(2) [OF ok p(1)])
qed

text \<open>Dropping the cursor itself from a page.\<close>

lemma skip_cursor:
  assumes "strict_keys (xs :: (bytes \<times> bytes) list)"
  shows "\<exists>m. Suc n \<le> m \<and> dropWhile (\<lambda>(k, _). Some c = Some k) (take (Suc (Suc n)) (List.filter (\<lambda>e. c \<le> fst e) xs)) =
    take m (after (Some c) xs)"
proof -
  let ?ys = "List.filter (\<lambda>e. c \<le> fst e) xs"
  have ys: "strict_keys ?ys" by (rule strict_keys_filter [OF assms])
  have after: "after (Some c) xs = List.filter (\<lambda>e. c < fst e) ?ys"
    by (auto simp: after_def case_prod_beta intro!: filter_cong)
  show ?thesis
  proof (cases ?ys)
    case Nil
    then show ?thesis by (intro exI [of _ "Suc n"]) (simp add: after)
  next
    case (Cons y zs)
    have zs: "\<forall>z\<in>set zs. fst y < fst z" using ys Cons by simp
    have "y \<in> set ?ys" unfolding Cons by simp
    then have y: "c \<le> fst y" by simp
    have gt: "List.filter (\<lambda>e. c < fst e) zs = zs" using zs y by (auto simp: filter_id_conv)
    have stop: "dropWhile (\<lambda>(k, _). Some c = Some k) (take m zs) = take m zs" for m
    proof (cases "take m zs")
      case (Cons z zs')
      then have "z \<in> set zs" by (metis in_set_takeD list.set_intros(1))
      then show ?thesis using Cons zs y by (auto simp: case_prod_beta)
    qed auto
    show ?thesis
    proof (cases "fst y = c")
      case True
      then show ?thesis using stop [of "Suc n"] gt unfolding after Cons
        by (intro exI [of _ "Suc n"]) (auto simp: case_prod_beta)
    next
      case False
      then show ?thesis using y gt unfolding after Cons
        by (intro exI [of _ "Suc (Suc n)"]) (auto simp: case_prod_beta)
    qed
  qed
qed

lemma search_prefix_correct:
  assumes ok: "engine_ok H cat core" "host_laws H" "kv_coherent H cat cf (co_version_set core)" and p: "0xFF \<notin> set prefix"
    and cursor: "\<forall>c. cursor = Some c \<longrightarrow> starts_with prefix c"
    and rest: "rest = after cursor (prefix_matches cat now prefix core)"
  shows "\<exists>core'. search_prefix H now prefix cursor limit core =
      (Ok (take limit rest, if limit < length rest \<and> 0 < limit \<and> is_utf8 (fst (rest ! (limit - 1))) then Some (fst (rest ! (limit - 1))) else None), core') \<and>
    same_but_caches core core' \<and> engine_ok H cat core' \<and> kv_coherent H cat cf (co_version_set core')"
proof -
  let ?start = "case cursor of Some c \<Rightarrow> c | None \<Rightarrow> prefix" and ?extra = "if cursor = None then 1 else 2"
  let ?scan = "scan_result cat now (Some ?start) (prefix_end prefix) core ''default''"
  obtain core' where c: "scan_cf H now ''default'' (Some ?start) (prefix_end prefix) (Some (limit + ?extra)) core = (Ok (take (limit + ?extra) ?scan), core')"
    "same_but_caches core core'" "engine_ok H cat core'" "kv_coherent H cat cf (co_version_set core')"
    using for_each_visible_correct [OF ok, of now "''default''" "Some ?start" "prefix_end prefix" "limit + ?extra"] by (auto simp: scan_cf_def)
  have "\<exists>m>limit. dropWhile (\<lambda>(k, _). cursor = Some k) (take (limit + ?extra) ?scan) = take m rest"
  proof (cases cursor)
    case None
    then have "dropWhile (\<lambda>(k, _). cursor = Some k) (take (limit + ?extra) ?scan) = take (Suc limit) rest"
      by (cases "take (Suc limit) ?scan") (auto simp: rest after_def prefix_matches_def case_prod_beta)
    then show ?thesis by blast
  next
    case (Some a)
    have "?scan = List.filter (\<lambda>e. a \<le> fst e) (prefix_matches cat now prefix core)"
      using scan_from_cursor [OF ok(1) p] cursor Some by simp
    then show ?thesis using skip_cursor [OF prefix_matches_spec(1) [OF ok(1) p], of limit a] Some rest by (auto simp: Suc_le_eq)
  qed
  then obtain m where m: "limit < m" "dropWhile (\<lambda>(k, _). cursor = Some k) (take (limit + ?extra) ?scan) = take m rest" by blast
  have page: "take limit (take m rest) = take limit rest" using m(1) by (simp add: min_def)
  have more: "limit < length (take m rest) \<longleftrightarrow> limit < length rest" using m(1) by auto
  have last: "0 < limit \<Longrightarrow> last (take limit rest) = rest ! (limit - 1)" "take limit rest \<noteq> [] \<longleftrightarrow> 0 < limit" if "limit < length rest"
    using that by (cases rest; auto simp: last_conv_nth)+
  have "search_prefix H now prefix cursor limit core =
      (Ok (take limit rest, if limit < length rest \<and> take limit rest \<noteq> [] \<and> is_utf8 (fst (last (take limit rest))) then Some (fst (last (take limit rest))) else None), core')"
    unfolding search_prefix_def Let_def c(1) bind_st.simps m(2) page more ..
  then show ?thesis using c(2-4) last by (intro exI [of _ core']) auto
qed

subsection \<open>Properties\<close>

text \<open>C20: prefix search is complete pagination. The keys of the default column family that start
  with a prefix and are shown, in key order, form one list; a search without a cursor returns its
  first \<open>limit\<close> entries, and a search with a cursor the next \<open>limit\<close> entries after the cursor. The
  new cursor is the last key of the page if more entries follow and that key is a text.\<close>

theorem search_prefix_pages:
  assumes "engine_ok H cat core" and "host_laws H" and "kv_coherent H cat cf (co_version_set core)" and "is_utf8 prefix"
    and "\<forall>c. cursor = Some c \<longrightarrow> starts_with prefix c"
  shows "\<exists>xs core'. strict_keys xs \<and>
    (\<forall>key. map_of xs key = (if starts_with prefix key \<and> \<not> starts_with TTL_PREFIX key then view cat now core ''default'' key else None)) \<and>
    (let rest = after cursor xs
     in search_prefix H now prefix cursor limit core =
          (Ok (take limit rest, if limit < length rest \<and> 0 < limit \<and> is_utf8 (fst (rest ! (limit - 1))) then Some (fst (rest ! (limit - 1))) else None), core')) \<and>
    same_but_caches core core' \<and> engine_ok H cat core' \<and> kv_coherent H cat cf (co_version_set core')"
proof -
  note p = utf8_no_ff [OF assms(4)]
  show ?thesis
    using search_prefix_correct [OF assms(1-3) p assms(5) refl, of now limit] prefix_matches_spec [OF assms(1) p]
    by (intro exI [of _ "prefix_matches cat now prefix core"]) (auto simp: Let_def)
qed

theorem search_prefix_pages_witness:
  "\<exists>core'. search_prefix demo_host 9 [1] None 5 demo_core = (Ok ([([1], [2])], None), core')"
proof -
  have u: "is_utf8 [1]" by (simp add: is_utf8_def from_utf8_lossy.simps utf8_step_def)
  have none: "\<forall>c. None = Some c \<longrightarrow> starts_with [1] c" by simp
  obtain xs core' where x: "strict_keys xs"
    "\<forall>key. map_of xs key = (if starts_with [1] key \<and> \<not> starts_with TTL_PREFIX key then view Map.empty 9 demo_core ''default'' key else None)"
    "search_prefix demo_host 9 [1] None 5 demo_core = (Ok (take 5 (after None xs), if 5 < length (after None xs) \<and> 0 < (5 :: nat) \<and>
       is_utf8 (fst (after None xs ! (5 - 1))) then Some (fst (after None xs ! (5 - 1))) else None), core')"
    using search_prefix_pages [OF demo_core_ok demo_host_laws demo_core_kv [of "''default''"] u none, of 9 5] unfolding Let_def by (elim exE conjE)
  have view: "view Map.empty 9 demo_core ''default'' key = (if key = [1] then Some [2] else None)" for key
    by (simp add: view_def entry_at_def memtable_record_def mt_get_def hidden_def covering_range_tombstone_ts_def option_max_def
        iterator_max_def List.map_filter_def max_covering_range_tombstone_def) (simp add: cf_tables_def vs_new_def)
  have "map_of xs = map_of [([1], [2])]"
    using x(2) unfolding view by (auto simp: fun_eq_iff starts_with_def TTL_PREFIX_def as_bytes_def)
  then have "xs = [([1], [2])]" using strict_keys_map_of_eq [OF x(1)] by simp
  then show ?thesis using x(3) by (simp add: after_def)
qed

end
