(* ===== verification/Engine_Index.thy ===== *)
theory Engine_Index
  imports Engine_Search Engine_Batch
begin

text \<open>
  \<open>src/core/engine/mod.rs\<close>: \<open>put_cf\<close> and \<open>delete_cf\<close> as their callers see them, with the secondary
  indexes that they maintain after the write, and the index queries.

  The JSON parser is a parameter: it gives, for a text that it accepts, the string under each field.
  A write of an index entry is itself a \<open>put_cf\<close>. The recursion has fuel, and running out of it is
  the value \<open>None\<close>; each nested write has its own clock readings and random bytes, found by its
  place in the tree of calls. Shipping to replicas, change events and the start of a background
  compaction (\<open>Engine_Steps\<close>) come after the writes and change none of the engine's state.
\<close>

type_synonym json_parser = "bytes \<Rightarrow> (bytes \<Rightarrow> bytes option) option"

record tick =
  tk_now :: u128
  tk_ttl_now :: u128
  tk_search :: u128
  tk_rng :: "nat \<Rightarrow> bytes option"

subsection \<open>Index keys\<close>

definition INDEX_PREFIX :: bytes where "INDEX_PREFIX = as_bytes ''__idx:''"

definition schema_prefix :: bytes where "schema_prefix = INDEX_PREFIX @ as_bytes ''__schema:index:''"

definition index_prefix :: "bytes \<Rightarrow> bytes \<Rightarrow> bytes" where
  "index_prefix field value = INDEX_PREFIX @ as_bytes ''index:'' @ field @ as_bytes '':'' @ value @ as_bytes '':''"

definition index_entry :: "bytes \<Rightarrow> bytes \<Rightarrow> bytes \<Rightarrow> bytes" where
  "index_entry field value key = index_prefix field value @ from_utf8_lossy key"

definition strip_prefix :: "bytes \<Rightarrow> bytes \<Rightarrow> bytes option" where
  "strip_prefix prefix s = (if starts_with prefix s then Some (drop (length prefix) s) else None)"

text \<open>The fields of the schema keys, and the index entries of a value.\<close>

definition field_names :: "bytes list \<Rightarrow> bytes list" where
  "field_names idx_keys = List.map_filter (\<lambda>k. strip_prefix schema_prefix (from_utf8_lossy k)) idx_keys"

definition index_entries :: "(bytes \<Rightarrow> bytes option) \<Rightarrow> bytes \<Rightarrow> bytes list \<Rightarrow> bytes list" where
  "index_entries json_val key idx_keys =
     List.map_filter (\<lambda>f. map_option (\<lambda>v. index_entry f v key) (json_val f)) (field_names idx_keys)"

subsection \<open>Writes with their indexes\<close>

fun each_entry ::
  "(nat \<Rightarrow> bytes \<Rightarrow> 's \<Rightarrow> (bool outcome \<times> 's) option) \<Rightarrow> nat \<Rightarrow> bytes list \<Rightarrow> 's \<Rightarrow> (unit outcome \<times> 's) option" where
  "each_entry write i [] core = Some (Ok (), core)"
| "each_entry write i (e # es) core =
     (case write i e core of
        None \<Rightarrow> None
      | Some (Ok _, core1) \<Rightarrow> each_entry write (Suc i) es core1
      | Some (Err x, core1) \<Rightarrow> Some (Err x, core1)
      | Some (Panic, core1) \<Rightarrow> Some (Panic, core1))"

definition update_indexes ::
  "(nat \<Rightarrow> bytes \<Rightarrow> ('bl, 'c, 'k) engine_core \<Rightarrow> (bool outcome \<times> ('bl, 'c, 'k) engine_core) option) \<Rightarrow> json_parser \<Rightarrow> ('bl, 'c, 'k) host
   \<Rightarrow> u128 \<Rightarrow> bytes \<Rightarrow> bytes \<Rightarrow> ('bl, 'c, 'k) engine_core \<Rightarrow> (unit outcome \<times> ('bl, 'c, 'k) engine_core) option" where
  "update_indexes put J H now key value core =
     (case J value of
        None \<Rightarrow> Some (Ok (), core)
      | Some json_val \<Rightarrow>
          (case search_prefix H now schema_prefix None 100 core of
             (Ok (index_fields, _), core1) \<Rightarrow> each_entry put 0 (index_entries json_val key (map fst index_fields)) core1
           | (Err x, core1) \<Rightarrow> Some (Err x, core1)
           | (Panic, core1) \<Rightarrow> Some (Panic, core1)))"

text \<open>An error of the index update is logged and dropped.\<close>

definition best_effort :: "bool \<Rightarrow> (unit outcome \<times> 's) option \<Rightarrow> (bool outcome \<times> 's) option" where
  "best_effort needs_compact r = map_option (\<lambda>(res, core). (if res = Panic then Panic else Ok needs_compact, core)) r"

primrec put_cf ::
  "nat \<Rightarrow> json_parser \<Rightarrow> ('bl, 'c, 'k) host \<Rightarrow> (nat list \<Rightarrow> tick) \<Rightarrow> nat list \<Rightarrow> engine_options \<Rightarrow> string \<Rightarrow> bytes \<Rightarrow> bytes \<Rightarrow> u128 option
   \<Rightarrow> ('bl, 'c, 'k) engine_core \<Rightarrow> (bool outcome \<times> ('bl, 'c, 'k) engine_core) option" where
  "put_cf 0 J H env path options cf key value ttl core = None"
| "put_cf (Suc n) J H env path options cf key value ttl core =
     (let t = env path
      in case put_core H (tk_rng t) (tk_now t) (tk_ttl_now t) options cf key value ttl core of
           (Ok needs_compact, core1) \<Rightarrow>
             best_effort needs_compact
               (update_indexes (\<lambda>i entry. put_cf n J H env (path @ [i]) options cf entry [] None) J H (tk_search t) key value core1)
         | (Err x, core1) \<Rightarrow> Some (Err x, core1)
         | (Panic, core1) \<Rightarrow> Some (Panic, core1))"

definition create_index ::
  "nat \<Rightarrow> json_parser \<Rightarrow> ('bl, 'c, 'k) host \<Rightarrow> (nat list \<Rightarrow> tick) \<Rightarrow> engine_options \<Rightarrow> string \<Rightarrow> bytes
   \<Rightarrow> ('bl, 'c, 'k) engine_core \<Rightarrow> (bool outcome \<times> ('bl, 'c, 'k) engine_core) option" where
  "create_index n J H env options cf field core = put_cf n J H env [] options cf (schema_prefix @ field) (as_bytes ''1'') None core"

subsection \<open>Deletions with their indexes\<close>

definition remove_indexes ::
  "(nat \<Rightarrow> bytes \<Rightarrow> ('bl, 'c, 'k) engine_core \<Rightarrow> (bool outcome \<times> ('bl, 'c, 'k) engine_core) option) \<Rightarrow> json_parser \<Rightarrow> ('bl, 'c, 'k) host
   \<Rightarrow> u128 \<Rightarrow> bytes \<Rightarrow> bytes \<Rightarrow> ('bl, 'c, 'k) engine_core \<Rightarrow> (unit outcome \<times> ('bl, 'c, 'k) engine_core) option" where
  "remove_indexes delete J H now key old_value core =
     (case search_prefix H now schema_prefix None 100 core of
        (Ok (index_fields, _), core1) \<Rightarrow>
          (if index_fields = [] then Some (Ok (), core1)
           else case J old_value of
                  None \<Rightarrow> Some (Ok (), core1)
                | Some json_val \<Rightarrow> each_entry delete 0 (index_entries json_val key (map fst index_fields)) core1)
      | (Err x, core1) \<Rightarrow> Some (Err x, core1)
      | (Panic, core1) \<Rightarrow> Some (Panic, core1))"

primrec delete_cf ::
  "nat \<Rightarrow> json_parser \<Rightarrow> ('bl, 'c, 'k) host \<Rightarrow> (nat list \<Rightarrow> tick) \<Rightarrow> nat list \<Rightarrow> engine_options \<Rightarrow> string \<Rightarrow> bytes
   \<Rightarrow> ('bl, 'c, 'k) engine_core \<Rightarrow> (bool outcome \<times> ('bl, 'c, 'k) engine_core) option" where
  "delete_cf 0 J H env path options cf key core = None"
| "delete_cf (Suc n) J H env path options cf key core =
     (let t = env path
      in case delete_core H (tk_rng t) (tk_now t) (tk_ttl_now t) options cf key core of
           (Ok needs_compact, core1) \<Rightarrow>
             (case get_cf H (tk_search t) cf key core1 of
                (Panic, core2) \<Rightarrow> Some (Panic, core2)
              | (Ok (Some old_value), core2) \<Rightarrow>
                  best_effort needs_compact
                    (remove_indexes (\<lambda>i entry. delete_cf n J H env (path @ [i]) options cf entry) J H (tk_search t) key old_value core2)
              | (_, core2) \<Rightarrow>
                  (case get_cf H (tk_search t) cf (ttl_key key) core2 of
                     (Panic, core3) \<Rightarrow> Some (Panic, core3)
                   | (_, core3) \<Rightarrow> Some (Ok needs_compact, core3)))
         | (Err x, core1) \<Rightarrow> Some (Err x, core1)
         | (Panic, core1) \<Rightarrow> Some (Panic, core1))"

declare put_cf.simps [simp del] delete_cf.simps [simp del]

subsection \<open>Queries\<close>

definition list_indexes ::
  "('bl, 'c, 'k) host \<Rightarrow> u128 \<Rightarrow> ('bl, 'c, 'k) engine_core \<Rightarrow> bytes list outcome \<times> ('bl, 'c, 'k) engine_core" where
  "list_indexes H now core =
     bind_st (search_prefix H now schema_prefix None 100 core) (\<lambda>(results, _) core1. (Ok (field_names (map fst results)), core1))"

fun split_on :: "'a \<Rightarrow> 'a list \<Rightarrow> 'a list list" where
  "split_on c [] = [[]]"
| "split_on c (x # xs) =
     (if x = c then [] # split_on c xs
      else case split_on c xs of [] \<Rightarrow> [[x]] | y # ys \<Rightarrow> (x # y) # ys)"

text \<open>The text after the last colon of an index key.\<close>

definition primary_key :: "bytes \<Rightarrow> bytes option" where
  "primary_key idx_key =
     (let idx_str = from_utf8_lossy idx_key
      in if 58 \<in> set idx_str then Some (rev (takeWhile (\<lambda>b. b \<noteq> 58) (rev idx_str))) else None)"

text \<open>Lookups of the keys one after the other, until there are \<open>limit\<close> results; keys without a value and failing lookups are skipped.\<close>

fun fetch_each ::
  "('bl, 'c, 'k) host \<Rightarrow> u128 \<Rightarrow> string \<Rightarrow> (bytes \<Rightarrow> bool) \<Rightarrow> nat option \<Rightarrow> bytes list \<Rightarrow> ('bl, 'c, 'k) engine_core
   \<Rightarrow> (bytes \<times> bytes) list outcome \<times> ('bl, 'c, 'k) engine_core" where
  "fetch_each H now cf keep limit [] core = (Ok [], core)"
| "fetch_each H now cf keep limit (pk # pks) core =
     (case get_cf H now cf pk core of
        (Panic, core1) \<Rightarrow> (Panic, core1)
      | (res, core1) \<Rightarrow>
          let found = (case res of Ok (Some value) \<Rightarrow> if keep value then [(pk, value)] else [] | _ \<Rightarrow> []);
              rest = map_option (\<lambda>l. l - length found) limit
          in if rest = Some 0 then (Ok found, core1)
             else bind_st (fetch_each H now cf keep rest pks core1) (\<lambda>output core2. (Ok (found @ output), core2)))"

definition query_index ::
  "json_parser \<Rightarrow> ('bl, 'c, 'k) host \<Rightarrow> u128 \<Rightarrow> string \<Rightarrow> bytes \<Rightarrow> bytes \<Rightarrow> nat \<Rightarrow> ('bl, 'c, 'k) engine_core
   \<Rightarrow> (bytes \<times> bytes) list outcome \<times> ('bl, 'c, 'k) engine_core" where
  "query_index J H now cf fs vs limit core =
     (let field_list = split_on 44 fs; value_list = split_on 44 vs
      in if length field_list \<noteq> length value_list \<or> field_list = [] then (Err InvalidArgument, core)
         else if length field_list = 1
         then bind_st (search_prefix H now (index_prefix (field_list ! 0) (value_list ! 0)) None limit core) (\<lambda>(results, _) core1.
                fetch_each H now cf (\<lambda>_. True) None (List.map_filter (\<lambda>(k, _). primary_key k) results) core1)
         else bind_st (search_prefix H now (index_prefix (field_list ! 0) (value_list ! 0)) None 10000 core) (\<lambda>(results, _) core1.
                fetch_each H now cf
                  (\<lambda>value. case J value of
                     None \<Rightarrow> False
                   | Some json_val \<Rightarrow> list_all (\<lambda>(f, expected). json_val f = Some expected) (zip (tl field_list) (tl value_list)))
                  (Some limit) (List.map_filter (\<lambda>(k, _). primary_key k) results) core1))"

subsection \<open>Writes while the write buffer has room\<close>

text \<open>
  \<open>core'\<close> has the records \<open>rs\<close> of \<open>core\<close> written to the column family, in this order, and nothing else
  changed but caches, the contents of logs and the byte count.
\<close>

definition encryptor_of :: "('bl, 'c, 'k) engine_core \<Rightarrow> string \<Rightarrow> encryptor" where
  "encryptor_of core cf = (case map_of (co_wals core) cf of Some w \<Rightarrow> wal_encryptor w | None \<Rightarrow> encryptor_new (co_encryption core))"

definition written_in ::
  "string set \<Rightarrow> ('bl, 'c, 'k) host \<Rightarrow> catalogue \<Rightarrow> string \<Rightarrow> log_record list \<Rightarrow> ('bl, 'c, 'k) engine_core \<Rightarrow> ('bl, 'c, 'k) engine_core \<Rightarrow> bool" where
  "written_in C H cat cf rs core core' \<longleftrightarrow>
     engine_ok H cat core' \<and> (\<forall>cf \<in> C. kv_coherent H cat cf (co_version_set core')) \<and>
     (\<forall>cf' key. entry_at cat core' cf' key =
        (case (if cf' = cf then last_for key rs else None) of Some r \<Rightarrow> Some r | None \<Rightarrow> entry_at cat core cf' key)) \<and>
     (\<forall>cf' key. covering_range_tombstone_ts core' cf' key = covering_range_tombstone_ts core cf' key) \<and>
     (\<forall>cf' key. memtable_record core' cf' key =
        (case (if cf' = cf then last_for key rs else None) of Some r \<Rightarrow> Some r | None \<Rightarrow> memtable_record core cf' key)) \<and>
     same_tables (co_version_set core) (co_version_set core') \<and>
     encryptor_of core' cf = encryptor_of core cf \<and>
     bytes_of core' cf = bytes_of core cf + (\<Sum>r\<leftarrow>rs. length (lr_key r) + length (lr_value r))"

abbreviation only_written where "only_written \<equiv> written_in UNIV"

lemmas only_written_def = written_in_def [of UNIV]

lemma written_inD: "written_in C H cat cf rs core core' \<Longrightarrow> engine_ok H cat core' \<and> (\<forall>cf \<in> C. kv_coherent H cat cf (co_version_set core'))"
  by (simp add: written_in_def)

lemma only_writtenD: "only_written H cat cf rs core core' \<Longrightarrow> engine_ok H cat core' \<and> (\<forall>cf. kv_coherent H cat cf (co_version_set core'))"
  by (simp add: written_in_def)

lemma written_in_trans:
  assumes "written_in C H cat cf rs core core1" "written_in C H cat cf rs' core1 core'"
  shows "written_in C H cat cf (rs @ rs') core core'"
proof -
  have last: "last_for key (rs @ rs') = (case last_for key rs' of Some r \<Rightarrow> Some r | None \<Rightarrow> last_for key rs)" for key
    by (induction rs) (auto split: option.splits)
  show ?thesis using assms unfolding written_in_def last by (auto split: option.splits intro: same_tables_trans)
qed

lemma bytes_add: "bytes_of (add_bytes cf n core) cf = bytes_of core cf + n"
  by (simp add: bytes_of_def add_bytes_def Let_def update_conv')

lemma bytes_on_memtable [simp]: "bytes_of (on_memtable cf f core) cf' = bytes_of core cf'"
  by (simp add: bytes_of_def on_memtable_def Let_def)

lemma write_record_no_panic: "write_record X rng r w \<noteq> Panic"
  by (auto simp: write_record_def encode_frame_def encode_record_def encrypt_block_def ok_or_def Let_def split: option.splits if_splits prod.splits)

text \<open>A log with this encryptor can take the record.\<close>

definition can_log :: "('bl, 'c, 'k) host \<Rightarrow> (nat \<Rightarrow> bytes option) \<Rightarrow> encryptor \<Rightarrow> log_record \<Rightarrow> bool" where
  "can_log H rng e r \<longleftrightarrow> (\<forall>draws. \<exists>frame. encode_frame (h_crates H) rng e draws r = Ok frame)"

lemma log_phase_cases:
  assumes "log_phase H rng cf r core = (res, core')"
  shows "res \<noteq> Panic" "same_data core core'" "co_memtable_bytes core' = co_memtable_bytes core"
    "encryptor_of core' cf = encryptor_of core cf" "can_log H rng (encryptor_of core cf) r \<Longrightarrow> res = Ok ()"
proof -
  show "same_data core core'" using on_wal_same_data assms unfolding log_phase_def by blast
  have "core' = core\<lparr>co_wals := co_wals core'\<rparr>" using on_wal_same assms unfolding log_phase_def by blast
  then show "co_memtable_bytes core' = co_memtable_bytes core"
    by (metis engine_core.select_convs(2) engine_core.surjective engine_core.update_convs(5))
  obtain w core1 where w: "wal_handle cf core = (Ok w, core1)" "wal_encryptor w = encryptor_of core cf" "map_of (co_wals core1) cf = Some w"
    by (cases "map_of (co_wals core) cf")
      (auto simp: wal_handle_def ok_or_def Let_def encryptor_of_def wal_open_def set_sync_interval_def update_conv')
  show "res \<noteq> Panic"
    using assms write_record_no_panic [of "h_crates H" rng r w] w by (auto simp: log_phase_def on_wal_def split: outcome.splits)
  have keep: "wal_encryptor w' = wal_encryptor w" if "write_record (h_crates H) rng r w = Ok w'" for w'
    using that by (auto simp: write_record_def Let_def split: prod.splits if_splits)
  show "encryptor_of core' cf = encryptor_of core cf"
    using assms w keep by (auto simp: log_phase_def on_wal_def encryptor_of_def update_conv' split: outcome.splits)
  show "res = Ok ()" if log: "can_log H rng (encryptor_of core cf) r"
  proof -
    obtain fr draws where "encode_frame (h_crates H) rng (wal_encryptor w) (wal_rng w) r = Ok (fr, draws)"
      using log w(2) unfolding can_log_def by (metis surj_pair)
    then have "\<exists>w'. write_record (h_crates H) rng r w = Ok w'" by (simp add: write_record_def Let_def)
    then show ?thesis using assms w by (auto simp: log_phase_def on_wal_def)
  qed
qed

lemma same_data_written:
  assumes "engine_ok H cat core" "\<forall>cf \<in> C. kv_coherent H cat cf (co_version_set core)" "same_data core core'" "co_memtable_bytes core' = co_memtable_bytes core"
    and "encryptor_of core' cf = encryptor_of core cf"
  shows "written_in C H cat cf [] core core'"
  using assms by (simp add: written_in_def same_dataD bytes_of_def)

lemma inserted_written:
  assumes "engine_ok H cat core" "\<forall>cf \<in> C. kv_coherent H cat cf (co_version_set core)"
  shows "written_in C H cat cf [r] core (inserted cf r core)"
proof -
  have "co_wals (inserted cf r core) = co_wals core" "co_encryption (inserted cf r core) = co_encryption core"
    by (simp_all add: add_bytes_def on_memtable_def Let_def)
  then have "encryptor_of (inserted cf r core) cf = encryptor_of core cf" unfolding encryptor_of_def by (simp only:)
  then show ?thesis
    using assms by (auto simp: written_in_def inserted_ok bytes_add same_dataD(7) [OF add_bytes_same_data] memtable_record_insert)
qed

lemma put_core_written:
  assumes ok: "engine_ok H cat core" "\<forall>cf \<in> C. kv_coherent H cat cf (co_version_set core)"
    and room: "bytes_of core cf + length key + length value < write_buffer_limit options"
    and run: "put_core H rng now ttl_now options cf key value ttl core = (res, core')"
  shows "(res = Ok False \<and> written_in C H cat cf [put_record options now ttl_now cf key value ttl] core core') \<or>
         ((\<exists>e. res = Err e) \<and> written_in C H cat cf [] core core' \<and>
          (MAX_KEY_SIZE < length key \<or> MAX_VALUE_SIZE < length value \<or> \<not> can_log H rng (encryptor_of core cf) (put_record options now ttl_now cf key value ttl)))"
proof (cases "MAX_KEY_SIZE < length key \<or> MAX_VALUE_SIZE < length value")
  case True
  then show ?thesis using run same_data_written [OF ok] by (auto simp: put_core_def split: if_splits)
next
  case False
  let ?r = "put_record options now ttl_now cf key value ttl"
  obtain lres core1 where l: "log_phase H rng cf ?r core = (lres, core1)" by fastforce
  note c = log_phase_cases [OF l]
  have w: "written_in C H cat cf [] core core1" by (rule same_data_written [OF ok c(2-4)])
  have run1: "bind_st (lres, core1) (\<lambda>_. put_phase H rng now options cf ?r) = (res, core')"
    using run False unfolding put_core_def l [symmetric] by (simp add: Let_def)
  show ?thesis
  proof (cases lres)
    case (Ok u)
    have "bytes_of (inserted cf ?r core1) cf < write_buffer_limit options" using room c(3) by (simp add: bytes_add) (simp add: bytes_of_def)
    then have "res = Ok False" "core' = inserted cf ?r core1"
      using run1 Ok by (auto simp: put_phase_def flush_if_full_def)
    then show ?thesis
      using written_in_trans [OF w inserted_written [of H cat core1 C cf ?r]] written_inD [OF w] by auto
  next
    case (Err e)
    then have "\<not> can_log H rng (encryptor_of core cf) ?r" using c(5) by auto
    then show ?thesis using run1 w Err by auto
  qed (use c(1) in auto)
qed

lemma put_core_room:
  assumes "engine_ok H cat core" "\<forall>cf. kv_coherent H cat cf (co_version_set core)"
    and "bytes_of core cf + length key + length value < write_buffer_limit options"
    and "put_core H rng now ttl_now options cf key value ttl core = (res, core')"
  shows "(res = Ok False \<and> only_written H cat cf [put_record options now ttl_now cf key value ttl] core core') \<or>
         ((\<exists>e. res = Err e) \<and> only_written H cat cf [] core core' \<and>
          (MAX_KEY_SIZE < length key \<or> MAX_VALUE_SIZE < length value \<or> \<not> can_log H rng (encryptor_of core cf) (put_record options now ttl_now cf key value ttl)))"
  by (rule put_core_written [OF assms(1) _ assms(3,4)]) (use assms(2) in blast)

subsection \<open>The index entries of a write\<close>

lemma nested_put:
  assumes "J [] = None"
  shows "put_cf (Suc n) J H env path options cf key [] ttl core =
    Some (let t = env path in put_core H (tk_rng t) (tk_now t) (tk_ttl_now t) options cf key [] ttl core)"
  using assms by (simp add: put_cf.simps Let_def update_indexes_def best_effort_def split: outcome.splits prod.splits)

text \<open>The records of the index entries, numbered as the nested writes are.\<close>

definition entry_records :: "(nat list \<Rightarrow> tick) \<Rightarrow> nat list \<Rightarrow> engine_options \<Rightarrow> string \<Rightarrow> nat \<Rightarrow> bytes list \<Rightarrow> log_record list" where
  "entry_records env path options cf i es =
     map (\<lambda>(j, e). put_record options (tk_now (env (path @ [j]))) (tk_ttl_now (env (path @ [j]))) cf e [] None) (enumerate i es)"

definition can_index :: "('bl, 'c, 'k) host \<Rightarrow> (nat list \<Rightarrow> tick) \<Rightarrow> nat list \<Rightarrow> engine_options \<Rightarrow> encryptor \<Rightarrow> string \<Rightarrow> nat \<Rightarrow> bytes list \<Rightarrow> bool" where
  "can_index H env path options x cf i es \<longleftrightarrow>
     (\<forall>(j, e) \<in> set (enumerate i es). length e \<le> MAX_KEY_SIZE \<and>
        can_log H (tk_rng (env (path @ [j]))) x (put_record options (tk_now (env (path @ [j]))) (tk_ttl_now (env (path @ [j]))) cf e [] None))"

lemma each_entry_room:
  assumes J: "J [] = None"
  shows "engine_ok H cat core \<Longrightarrow> \<forall>cf \<in> C. kv_coherent H cat cf (co_version_set core) \<Longrightarrow>
    bytes_of core cf + (\<Sum>e\<leftarrow>es. length e) < write_buffer_limit options \<Longrightarrow>
    \<exists>res core' m. each_entry (\<lambda>i entry. put_cf (Suc n) J H env (path @ [i]) options cf entry [] None) i es core = Some (res, core') \<and>
      res \<noteq> Panic \<and> m \<le> length es \<and> (can_index H env path options (encryptor_of core cf) cf i es \<longrightarrow> m = length es) \<and>
      written_in C H cat cf (entry_records env path options cf i (take m es)) core core'"
proof (induction es arbitrary: i core)
  case Nil
  then show ?case using same_data_written [OF Nil.prems(1,2), of core] by (simp add: entry_records_def)
next
  case (Cons e es)
  let ?t = "env (path @ [i])"
  obtain res core1 where p: "put_core H (tk_rng ?t) (tk_now ?t) (tk_ttl_now ?t) options cf e [] None core = (res, core1)" by fastforce
  let ?r = "put_record options (tk_now ?t) (tk_ttl_now ?t) cf e [] None"
  have n: "put_cf (Suc n) J H env (path @ [i]) options cf e [] None core = Some (res, core1)"
    unfolding nested_put [of J, OF J] Let_def p ..
  consider "res = Ok False" "written_in C H cat cf [?r] core core1" | x where "res = Err x" "written_in C H cat cf [] core core1" "\<not> can_index H env path options (encryptor_of core cf) cf i (e # es)"
    using put_core_written [OF Cons.prems(1,2) _ p] Cons.prems(3) by (auto simp: can_index_def)
  then show ?case
  proof cases
    case 1
    have "bytes_of core1 cf = bytes_of core cf + length e" using 1(2) by (simp add: written_in_def)
    then obtain res' core' m where m: "each_entry (\<lambda>i entry. put_cf (Suc n) J H env (path @ [i]) options cf entry [] None) (Suc i) es core1 = Some (res', core')"
      "res' \<noteq> Panic" "m \<le> length es" "can_index H env path options (encryptor_of core1 cf) cf (Suc i) es \<longrightarrow> m = length es"
      "written_in C H cat cf (entry_records env path options cf (Suc i) (take m es)) core1 core'"
      using Cons.IH [of core1 "Suc i"] written_inD [OF 1(2)] Cons.prems(3) by auto
    have "written_in C H cat cf (entry_records env path options cf i (take (Suc m) (e # es))) core core'"
      using written_in_trans [OF 1(2) m(5)] by (simp add: entry_records_def)
    moreover have "can_index H env path options (encryptor_of core1 cf) cf (Suc i) es" if "can_index H env path options (encryptor_of core cf) cf i (e # es)"
      using that 1(2) by (simp add: can_index_def written_in_def)
    ultimately show ?thesis using m n 1(1) by (intro exI [of _ res'] exI [of _ core'] exI [of _ "Suc m"]) (simp)
  next
    case 2
    then show ?thesis using n by (intro exI [of _ "Err x"] exI [of _ core1] exI [of _ 0]) (simp add: entry_records_def)
  qed
qed

lemma caches_written:
  assumes "engine_ok H cat core'" "\<forall>cf \<in> C. kv_coherent H cat cf (co_version_set core')" "same_but_caches core core'"
  shows "written_in C H cat cf [] core core'"
proof -
  have c: "core' = core\<lparr>co_version_set := co_version_set core'\<rparr>" using assms(3) by (simp add: same_but_caches_def)
  have "bytes_of core' cf = bytes_of core cf" by (subst c) (simp add: bytes_of_def)
  moreover have "encryptor_of core' cf = encryptor_of core cf" by (subst c) (simp add: encryptor_of_def split: option.split)
  moreover have "memtable_record core' = memtable_record core"
    unfolding fun_eq_iff memtable_record_def same_but_caches_view(1) [OF assms(3)] by simp
  moreover have "same_tables (co_version_set core) (co_version_set core')" using assms(3) by (simp add: same_but_caches_def)
  ultimately show ?thesis using assms same_but_caches_view [OF assms(3)] by (simp add: written_in_def)
qed

lemma schema_prefix_no_ff: "0xFF \<notin> set schema_prefix"
  by (simp add: schema_prefix_def INDEX_PREFIX_def as_bytes_def)

text \<open>The index entries that a write of the value adds, from the fields registered in the default column family.\<close>

definition new_entries :: "json_parser \<Rightarrow> catalogue \<Rightarrow> u128 \<Rightarrow> bytes \<Rightarrow> bytes \<Rightarrow> ('bl, 'c, 'k) engine_core \<Rightarrow> bytes list" where
  "new_entries J cat now key value core =
     (case J value of None \<Rightarrow> [] | Some jv \<Rightarrow> index_entries jv key (map fst (take 100 (prefix_matches cat now schema_prefix core))))"

lemma search_schema:
  assumes ok: "engine_ok H cat core" "host_laws H" "\<forall>cf \<in> C. kv_coherent H cat cf (co_version_set core)" and C: "C \<noteq> {}"
  shows "\<exists>cursor core'. search_prefix H now schema_prefix None 100 core = (Ok (take 100 (prefix_matches cat now schema_prefix core), cursor), core') \<and>
    written_in C H cat cf [] core core'"
proof -
  have each: "\<exists>cursor core'. search_prefix H now schema_prefix None 100 core = (Ok (take 100 (prefix_matches cat now schema_prefix core), cursor), core') \<and>
      same_but_caches core core' \<and> engine_ok H cat core' \<and> kv_coherent H cat cf (co_version_set core')" if "cf \<in> C" for cf
    using search_prefix_correct [OF ok(1,2) bspec [OF ok(3) that] schema_prefix_no_ff, of None _ now 100] by (force simp: after_def)
  obtain cf0 where "cf0 \<in> C" using C by blast
  then obtain cursor core' where s: "search_prefix H now schema_prefix None 100 core = (Ok (take 100 (prefix_matches cat now schema_prefix core), cursor), core')"
    "same_but_caches core core'" "engine_ok H cat core'" using each by blast
  moreover have "\<forall>cf \<in> C. kv_coherent H cat cf (co_version_set core')" using each s(1) by force
  ultimately show ?thesis using caches_written by blast
qed

lemma put_cf_written_in:
  assumes ok: "engine_ok H cat core" "\<forall>cf \<in> C. kv_coherent H cat cf (co_version_set core)" "host_laws H" "C \<noteq> {}"
    and J: "J [] = None" and n: "2 \<le> n"
    and put: "put_core H (tk_rng (env [])) (tk_now (env [])) (tk_ttl_now (env [])) options cf key value ttl core = (res, core1)"
    and es: "es = (if res = Ok False then new_entries J cat (tk_search (env [])) key value core1 else [])"
    and room: "bytes_of core cf + length key + length value + (\<Sum>e\<leftarrow>es. length e) < write_buffer_limit options"
  shows "\<exists>core' m. put_cf n J H env [] options cf key value ttl core = Some (res, core') \<and> m \<le> length es \<and>
    (can_index H env [] options (encryptor_of core cf) cf 0 es \<longrightarrow> m = length es) \<and>
    written_in C H cat cf (entry_records env [] options cf 0 (take m es)) core1 core' \<and>
    (res = Ok False \<longrightarrow>
       written_in C H cat cf [put_record options (tk_now (env [])) (tk_ttl_now (env [])) cf key value ttl] core core1)"
proof -
  obtain k where k: "n = Suc (Suc k)" using le_Suc_ex [OF n] by auto
  let ?r = "put_record options (tk_now (env [])) (tk_ttl_now (env [])) cf key value ttl"
  let ?put = "\<lambda>i entry. put_cf (Suc k) J H env [i] options cf entry [] None"
  consider "res = Ok False" "written_in C H cat cf [?r] core core1" | x where "res = Err x" "written_in C H cat cf [] core core1"
    using put_core_written [OF ok(1,2) _ put] room by auto
  then show ?thesis
  proof cases
    case 1
    note ok1 = written_inD [OF 1(2), THEN conjunct1] written_inD [OF 1(2), THEN conjunct2]
    have run: "put_cf n J H env [] options cf key value ttl core =
        best_effort False (update_indexes ?put J H (tk_search (env [])) key value core1)"
      by (simp add: k put_cf.simps(2) Let_def put 1(1))
    have bytes: "bytes_of core1 cf = bytes_of core cf + length key + length value" using 1(2) by (simp add: written_in_def)
    show ?thesis
    proof (cases "J value")
      case None
      then show ?thesis
        using run 1 es same_data_written [OF ok1 same_data_refl]
        by (intro exI [of _ core1] exI [of _ 0]) (simp add: new_entries_def update_indexes_def best_effort_def entry_records_def)
    next
      case (Some jv)
      obtain cursor core2 where s: "search_prefix H (tk_search (env [])) schema_prefix None 100 core1 =
          (Ok (take 100 (prefix_matches cat (tk_search (env [])) schema_prefix core1), cursor), core2)" "written_in C H cat cf [] core1 core2"
        using search_schema [OF ok1(1) ok(3) ok1(2) ok(4)] by blast
      have e: "es = index_entries jv key (map fst (take 100 (prefix_matches cat (tk_search (env [])) schema_prefix core1)))"
        using es 1(1) Some by (simp add: new_entries_def)
      have "bytes_of core2 cf + (\<Sum>e\<leftarrow>es. length e) < write_buffer_limit options"
        using room bytes s(2) by (simp add: written_in_def)
      then obtain r' core' m where m: "each_entry ?put 0 es core2 = Some (r', core')" "r' \<noteq> Panic" "m \<le> length es"
        "can_index H env [] options (encryptor_of core2 cf) cf 0 es \<longrightarrow> m = length es" "written_in C H cat cf (entry_records env [] options cf 0 (take m es)) core2 core'"
        using each_entry_room [of J H cat core2 C cf es options k env "[]" 0, OF J] written_inD [OF s(2)] by auto
      have "put_cf n J H env [] options cf key value ttl core = Some (Ok False, core')"
        using run m(1,2) s(1) Some e by (simp add: update_indexes_def best_effort_def)
      moreover have "encryptor_of core2 cf = encryptor_of core cf" using s(2) 1(2) by (simp add: written_in_def)
      ultimately show ?thesis using m written_in_trans [OF s(2) m(5)] 1 by (intro exI [of _ core'] exI [of _ m]) simp
    qed
  next
    case 2
    have "put_cf n J H env [] options cf key value ttl core = Some (Err x, core1)" by (simp add: k put_cf.simps(2) Let_def put 2(1))
    moreover have "written_in C H cat cf [] core1 core1"
      using written_inD [OF 2(2)] same_data_written [of H cat core1 C core1] by simp
    ultimately show ?thesis using 2 es by (intro exI [of _ core1] exI [of _ 0]) (simp add: entry_records_def)
  qed
qed

lemma put_cf_written:
  assumes "engine_ok H cat core" "\<forall>cf. kv_coherent H cat cf (co_version_set core)" "host_laws H" "J [] = None" "2 \<le> n"
    and "put_core H (tk_rng (env [])) (tk_now (env [])) (tk_ttl_now (env [])) options cf key value ttl core = (res, core1)"
    and "es = (if res = Ok False then new_entries J cat (tk_search (env [])) key value core1 else [])"
    and "bytes_of core cf + length key + length value + (\<Sum>e\<leftarrow>es. length e) < write_buffer_limit options"
  shows "\<exists>core' m. put_cf n J H env [] options cf key value ttl core = Some (res, core') \<and> m \<le> length es \<and>
    (can_index H env [] options (encryptor_of core cf) cf 0 es \<longrightarrow> m = length es) \<and>
    only_written H cat cf (entry_records env [] options cf 0 (take m es)) core1 core' \<and>
    (res = Ok False \<longrightarrow>
       only_written H cat cf [put_record options (tk_now (env [])) (tk_ttl_now (env [])) cf key value ttl] core core1)"
  using put_cf_written_in [of H cat core UNIV J n env options cf key "value" ttl res core1 es] assms by simp


subsection \<open>Deletions\<close>

lemma delete_core_written:
  assumes ok: "engine_ok H cat core" "\<forall>cf \<in> C. kv_coherent H cat cf (co_version_set core)"
    and room: "bytes_of core cf + length key < write_buffer_limit options"
    and run: "delete_core H rng log_now now options cf key core = (res, core')"
  shows "(res = Ok False \<and> written_in C H cat cf [tombstone now key] core core') \<or> ((\<exists>e. res = Err e) \<and> written_in C H cat cf [] core core')"
proof -
  let ?r = "(tombstone log_now key)\<lparr>lr_column_family := Some cf\<rparr>"
  obtain lres core1 where l: "log_phase H rng cf ?r core = (lres, core1)" by fastforce
  note c = log_phase_cases [OF l]
  have w: "written_in C H cat cf [] core core1" by (rule same_data_written [OF ok c(2-4)])
  have run1: "bind_st (lres, core1) (\<lambda>_. delete_phase H rng now options cf key) = (res, core')"
    using run unfolding delete_core_def l .
  show ?thesis
  proof (cases lres)
    case (Ok u)
    have i: "add_bytes cf (length key) (on_memtable cf (mt_delete now key) core1) = inserted cf (tombstone now key) core1"
      by (simp add: mt_delete_def [abs_def] tombstone_def)
    have "bytes_of (inserted cf (tombstone now key) core1) cf < write_buffer_limit options"
      using room c(3) by (simp add: bytes_add tombstone_def) (simp add: bytes_of_def)
    then have "res = Ok False" "core' = inserted cf (tombstone now key) core1"
      using run1 Ok i by (auto simp: delete_phase_def flush_if_full_def)
    then show ?thesis
      using written_in_trans [OF w inserted_written [of H cat core1 C cf "tombstone now key"]] written_inD [OF w] by auto
  next
    case (Err e)
    then show ?thesis using run1 w by auto
  qed (use c(1) in auto)
qed

text \<open>
  The whole deletion. It reads the expiry entry of the key afterwards, which must not be in a table in
  a form that the read cannot return.
\<close>

lemma delete_cf_written_in:
  assumes ok: "engine_ok H cat core" "\<forall>cf \<in> C. kv_coherent H cat cf (co_version_set core)" "host_laws H" "C = {cf}"
    and room: "bytes_of core cf + length key < write_buffer_limit options"
    and plain: "memtable_record core cf (ttl_key key) = None \<longrightarrow> plain_lookup cat (tk_search (env path)) core cf (ttl_key key)"
  shows "\<exists>res core'. delete_cf (Suc n) J H env path options cf key core = Some (res, core') \<and>
    ((res = Ok False \<and> written_in C H cat cf [tombstone (tk_ttl_now (env path)) key] core core') \<or> ((\<exists>e. res = Err e) \<and> written_in C H cat cf [] core core'))"
proof -
  let ?t = "env path"
  obtain res core1 where d: "delete_core H (tk_rng ?t) (tk_now ?t) (tk_ttl_now ?t) options cf key core = (res, core1)" by fastforce
  consider "res = Ok False" "written_in C H cat cf [tombstone (tk_ttl_now ?t) key] core core1" | e where "res = Err e" "written_in C H cat cf [] core core1"
    using delete_core_written [OF ok(1,2) room d] by blast
  then show ?thesis
  proof cases
    case 1
    have m: "memtable_record core1 cf (ttl_key key) = None \<longrightarrow> memtable_record core cf (ttl_key key) = None"
      using 1(2) by (auto simp: written_in_def split: option.splits if_splits)
    have t: "same_tables (co_version_set core) (co_version_set core1)" using 1(2) by (simp add: written_in_def)
    have p: "memtable_record core1 cf (ttl_key key) = None \<Longrightarrow> plain_lookup cat (tk_search ?t) core1 cf (ttl_key key)"
      using m plain by (simp add: plain_lookup_def plain_key_def same_tables_cf [OF t])
    obtain core2 where g: "get_cf H (tk_search ?t) cf (ttl_key key) core1 = (Ok (view cat (tk_search ?t) core1 cf (ttl_key key)), core2)"
      "same_but_caches core1 core2" "engine_ok H cat core2" "kv_coherent H cat cf (co_version_set core2)"
      using get_cf_correct [OF written_inD [OF 1(2), THEN conjunct1] ok(3) _ p] written_inD [OF 1(2)] ok(4) by blast
    have m1: "memtable_record core1 cf key = Some (tombstone (tk_ttl_now ?t) key)" using 1(2) by (simp add: written_in_def tombstone_def)
    then have "get_cf H (tk_search ?t) cf key core1 = (Ok None, core1)" by (simp add: get_cf_def Let_def tombstone_def)
    then have "delete_cf (Suc n) J H env path options cf key core = Some (Ok False, core2)"
      using d 1(1) g(1) by (simp add: delete_cf.simps Let_def)
    moreover have "written_in C H cat cf [] core1 core2" using caches_written [OF g(3) _ g(2)] g(4) ok(4) by blast
    ultimately show ?thesis using written_in_trans [OF 1(2)] by fastforce
  next
    case 2
    then show ?thesis using d by (simp add: delete_cf.simps Let_def)
  qed
qed

lemma delete_core_room:
  assumes room: "bytes_of core cf + length key < write_buffer_limit options"
    and run: "delete_core H rng log_now now options cf key core = (Ok b, core')"
  shows "b = False \<and> (\<exists>r. memtable_record core' cf key = Some r \<and> lr_is_deleted r)"
proof -
  obtain core1 where c: "delete_phase H rng now options cf key core1 = (Ok b, core')" "co_memtable_bytes core1 = co_memtable_bytes core"
    using log_phase_then [OF run [unfolded delete_core_def]] by blast
  have "bytes_of (add_bytes cf (length key) (on_memtable cf (mt_delete now key) core1)) cf < write_buffer_limit options"
    using room c(2) by (simp add: bytes_add) (simp add: bytes_of_def)
  then have "b = False" "core' = add_bytes cf (length key) (on_memtable cf (mt_delete now key) core1)"
    using c(1) by (auto simp: delete_phase_def flush_if_full_def)
  moreover have "memtable_record (on_memtable cf (mt_insert (tombstone now key)) core1) cf key = Some (tombstone now key)"
    by (simp add: memtable_record_insert)
  ultimately show ?thesis by (simp add: mt_delete_def [abs_def] memtable_record_def memtables_of_def add_bytes_def Let_def)
qed

lemma get_deleted:
  "memtable_record core cf key = Some r \<Longrightarrow> lr_is_deleted r \<Longrightarrow> get_cf H now cf key core = (Ok None, core)"
  by (simp add: get_cf_def Let_def)

text \<open>A deletion looks for the old value only after it has written the tombstone and so never finds
  it: whatever the indexes are, their entries for the key stay.\<close>

lemma delete_keeps_index_entries:
  assumes "delete_core H (tk_rng (env path)) (tk_now (env path)) (tk_ttl_now (env path)) options cf key core = (Ok b, core1)"
    and "bytes_of core cf + length key < write_buffer_limit options"
  shows "delete_cf (Suc n) J H env path options cf key core =
    (case get_cf H (tk_search (env path)) cf (ttl_key key) core1 of (Panic, core2) \<Rightarrow> Some (Panic, core2) | (_, core2) \<Rightarrow> Some (Ok False, core2))"
  using delete_core_room [OF assms(2,1)] assms(1) by (auto simp: delete_cf.simps Let_def get_deleted split: outcome.splits prod.splits)

subsection \<open>Index queries\<close>

text \<open>The keys that are shown with a value that passes, with their values.\<close>

definition shown_pairs ::
  "catalogue \<Rightarrow> u128 \<Rightarrow> ('bl, 'c, 'k) engine_core \<Rightarrow> string \<Rightarrow> (bytes \<Rightarrow> bool) \<Rightarrow> bytes list \<Rightarrow> (bytes \<times> bytes) list" where
  "shown_pairs cat now core cf keep pks =
     List.map_filter (\<lambda>pk. case view cat now core cf pk of Some v \<Rightarrow> if keep v then Some (pk, v) else None | None \<Rightarrow> None) pks"

definition plain_lookups :: "catalogue \<Rightarrow> u128 \<Rightarrow> ('bl, 'c, 'k) engine_core \<Rightarrow> string \<Rightarrow> bytes list \<Rightarrow> bool" where
  "plain_lookups cat now core cf pks \<longleftrightarrow> (\<forall>key \<in> set pks. memtable_record core cf key = None \<longrightarrow> plain_lookup cat now core cf key)"

lemma plain_lookups_caches:
  assumes "same_but_caches core core'"
  shows "plain_lookups cat now core' cf pks = plain_lookups cat now core cf pks"
proof -
  have t: "same_tables (co_version_set core) (co_version_set core')" using assms by (simp add: same_but_caches_def)
  have "memtable_record core' cf = memtable_record core cf" by (simp add: fun_eq_iff memtable_record_def same_but_caches_view [OF assms])
  then show ?thesis
    by (simp add: plain_lookups_def plain_lookup_def plain_key_def same_tables_cf [OF t])
qed

lemma fetch_each_correct:
  assumes laws: "host_laws H"
  shows "engine_ok H cat core \<Longrightarrow> kv_coherent H cat cf (co_version_set core) \<Longrightarrow> plain_lookups cat now core cf pks \<Longrightarrow> limit \<noteq> Some 0 \<Longrightarrow>
    \<exists>core'. fetch_each H now cf keep limit pks core =
      (Ok (let out = shown_pairs cat now core cf keep pks in case limit of None \<Rightarrow> out | Some l \<Rightarrow> take l out), core') \<and> same_but_caches core core'"
proof (induction pks arbitrary: limit core)
  case Nil
  then show ?case by (simp add: shown_pairs_def split: option.split)
next
  case (Cons pk pks)
  obtain core1 where g: "get_cf H now cf pk core = (Ok (view cat now core cf pk), core1)" "same_but_caches core core1"
    "engine_ok H cat core1" "kv_coherent H cat cf (co_version_set core1)"
    using get_cf_correct [OF Cons.prems(1) laws Cons.prems(2), of pk now] Cons.prems(3) unfolding plain_lookups_def by (metis list.set_intros(1))
  define found where "found = (case view cat now core cf pk of Some v \<Rightarrow> if keep v then [(pk, v)] else [] | None \<Rightarrow> [])"
  define rest where "rest = map_option (\<lambda>l. l - length found) limit"
  have step: "fetch_each H now cf keep limit (pk # pks) core =
      (if rest = Some 0 then (Ok found, core1)
       else bind_st (fetch_each H now cf keep rest pks core1) (\<lambda>output core2. (Ok (found @ output), core2)))"
    by (simp only: fetch_each.simps g(1) prod.case outcome.case Let_def rest_def found_def)
  have out: "shown_pairs cat now core cf keep (pk # pks) = found @ shown_pairs cat now core cf keep pks"
    by (simp add: shown_pairs_def found_def List.map_filter_simps split: option.split)
  show ?case
  proof (cases "rest = Some 0")
    case True
    then obtain l where l: "limit = Some l" "l \<le> length found" by (auto simp: rest_def)
    moreover have "length found \<le> 1" by (simp add: found_def split: option.split)
    ultimately have "l = length found" using Cons.prems(4) by (cases l) auto
    then show ?thesis using True step g(2) l by (simp add: out)
  next
    case False
    have v: "shown_pairs cat now core1 cf keep pks = shown_pairs cat now core cf keep pks"
      by (simp add: shown_pairs_def same_but_caches_view [OF g(2)])
    obtain core' where r: "fetch_each H now cf keep rest pks core1 =
        (Ok (case rest of None \<Rightarrow> shown_pairs cat now core cf keep pks | Some l \<Rightarrow> take l (shown_pairs cat now core cf keep pks)), core')" "same_but_caches core1 core'"
      using Cons.IH [OF g(3,4) _ False] Cons.prems(3) plain_lookups_caches [OF g(2), of cat now cf pks] v by (auto simp: Let_def plain_lookups_def)
    moreover have "found @ (case rest of None \<Rightarrow> shown_pairs cat now core cf keep pks | Some l \<Rightarrow> take l (shown_pairs cat now core cf keep pks)) =
        (case limit of None \<Rightarrow> found @ shown_pairs cat now core cf keep pks | Some l \<Rightarrow> take l (found @ shown_pairs cat now core cf keep pks))"
      using False by (auto simp: rest_def split: option.splits)
    ultimately show ?thesis using False step same_but_caches_trans [OF g(2)] by (simp add: out Let_def split: option.splits)
  qed
qed

lemma split_on_ne [simp]: "split_on c xs \<noteq> []"
  by (cases xs) (auto split: list.split)

lemma search_index:
  assumes ok: "engine_ok H cat core" "host_laws H" "kv_coherent H cat cf (co_version_set core)" and p: "0xFF \<notin> set prefix"
  shows "\<exists>cursor core'. search_prefix H now prefix None l core = (Ok (take l (prefix_matches cat now prefix core), cursor), core') \<and>
    same_but_caches core core' \<and> engine_ok H cat core' \<and> kv_coherent H cat cf (co_version_set core')"
  using search_prefix_correct [OF ok p, of None _ now l] by (force simp: after_def)

lemma primary_key_entry:
  assumes "is_utf8 (index_entry f v key)" "is_utf8 key" "58 \<notin> set key"
  shows "primary_key (index_entry f v key) = Some key"
proof -
  have e: "from_utf8_lossy (index_entry f v key) = (INDEX_PREFIX @ as_bytes ''index:'' @ f @ as_bytes '':'' @ v) @ 58 # key"
    using assms(1,2) by (simp add: is_utf8_def index_entry_def index_prefix_def as_bytes_def)
  have "takeWhile (\<lambda>b. b \<noteq> 58) (rev key @ 58 # zs) = rev key" for zs
    using assms(3) by (subst takeWhile_append2) auto
  then show ?thesis by (simp add: primary_key_def e)
qed

text \<open>The values that have the remaining fields of a query.\<close>

definition other_fields_match :: "json_parser \<Rightarrow> bytes list \<Rightarrow> bytes list \<Rightarrow> bytes \<Rightarrow> bool" where
  "other_fields_match J fl vl value \<longleftrightarrow>
     (length fl \<noteq> 1 \<longrightarrow> (\<exists>jv. J value = Some jv \<and> list_all (\<lambda>(f, expected). jv f = Some expected) (zip (tl fl) (tl vl))))"

lemma query_index_unfold:
  assumes fl: "fl = split_on 44 fs" "vl = split_on 44 vs" "length fl = length vl"
  shows "query_index J H now cf fs vs limit core =
    bind_st (search_prefix H now (index_prefix (hd fl) (hd vl)) None (if length fl = 1 then limit else 10000) core) (\<lambda>(results, _) core1.
      fetch_each H now cf (other_fields_match J fl vl) (if length fl = 1 then None else Some limit)
        (List.map_filter primary_key (map fst results)) core1)"
proof -
  have ne: "fl \<noteq> []" "vl \<noteq> []" using fl by simp_all
  then have hd: "fl ! 0 = hd fl" "vl ! 0 = hd vl" by (simp_all add: hd_conv_nth)
  have mf: "List.map_filter (\<lambda>(k, _). primary_key k) xs = List.map_filter primary_key (map fst xs)" for xs :: "(bytes \<times> bytes) list"
    by (induction xs) (auto simp: List.map_filter_simps split: option.split)
  have keep: "(\<lambda>value. case J value of None \<Rightarrow> False | Some jv \<Rightarrow> P jv) = (\<lambda>value. \<exists>jv. J value = Some jv \<and> P jv)" for P
    by (intro ext) (simp split: option.split)
  show ?thesis
    using fl(3) ne unfolding query_index_def Let_def mf keep fl(1,2) [symmetric] hd other_fields_match_def [abs_def] by simp
qed


subsection \<open>An example engine with an index\<close>

lemma lossy_ascii: "list_all (\<lambda>b. b < 128) bs \<Longrightarrow> from_utf8_lossy bs = bs"
  by (induction bs) (simp_all add: from_utf8_lossy.simps [of "_ # _"] from_utf8_lossy.simps [of "[]"] utf8_step_def)

definition demo_json :: json_parser where
  "demo_json v = (if v = [8] then Some (\<lambda>f. if f = [102] then Some [97] else None) else None)"

definition indexed_core :: "(unit, unit, (bytes \<times> bytes) list) engine_core" where
  "indexed_core = fold (inserted ''default'')
     [log_record_new 0 (schema_prefix @ [102]) [49], log_record_new 0 (index_entry [102] [97] [7]) [], log_record_new 0 [7] [8]] demo_core"

definition demo_tick :: tick where
  "demo_tick = \<lparr>tk_now = 0, tk_ttl_now = 0, tk_search = 0, tk_rng = (\<lambda>_. None)\<rparr>"

lemma demo_index_entry: "index_entry [102] [97] [7] = index_prefix [102] [97] @ [7]"
  by (simp add: index_entry_def lossy_ascii)

lemma indexed_written: "batch_written demo_host Map.empty ''default''
     [log_record_new 0 (schema_prefix @ [102]) [49], log_record_new 0 (index_entry [102] [97] [7]) [], log_record_new 0 [7] [8]] demo_core indexed_core"
  unfolding indexed_core_def by (rule batch_written_one_by_one [OF demo_core_ok])

lemma indexed_core_ok: "engine_ok demo_host Map.empty indexed_core" "kv_coherent demo_host Map.empty cf (co_version_set indexed_core)"
  using indexed_written demo_core_kv by (simp_all add: batch_written_def)

lemma demo_entry: "entry_at Map.empty demo_core ''default'' key = (if key = [1] then Some (log_record_new 0 [1] [2]) else None)"
  "covering_range_tombstone_ts demo_core cf key = None"
  by (simp_all add: entry_at_def memtable_record_def mt_get_def covering_range_tombstone_ts_def option_max_def
      iterator_max_def List.map_filter_def max_covering_range_tombstone_def cf_tables_def vs_new_def)

lemma log_record_new_visible [simp]: "visible (Some (log_record_new t k v)) = Some v" "\<not> is_expired_at (log_record_new t k v) now"
  by (simp_all add: visible_def)

lemma demo_view: "view Map.empty now demo_core ''default'' key = (if key = [1] then Some [2] else None)"
  by (simp add: view_def demo_entry hidden_def)

lemma indexed_view:
  "view Map.empty now indexed_core ''default'' key =
     (if key = [7] then Some [8] else if key = index_entry [102] [97] [7] then Some []
      else if key = schema_prefix @ [102] then Some [49] else if key = [1] then Some [2] else None)"
  by (subst batch_written_view [OF indexed_written]) (auto simp: older_ranges_def demo_entry demo_view)

lemma prefix_matches_eq:
  assumes "engine_ok H cat core" "0xFF \<notin> set prefix" "strict_keys kvs"
    and "\<And>key. map_of kvs key = (if starts_with prefix key \<and> \<not> starts_with TTL_PREFIX key then view cat now core ''default'' key else None)"
  shows "prefix_matches cat now prefix core = kvs"
  by (rule strict_keys_map_of_eq) (auto simp: prefix_matches_spec [OF assms(1,2)] assms(3,4))


lemma indexed_log: "plain_encode r \<noteq> None \<Longrightarrow> can_log demo_host rng (encryptor_of indexed_core ''default'') r"
proof -
  assume "plain_encode r \<noteq> None"
  moreover have "co_wals indexed_core = []" "co_encryption indexed_core = encryption_default"
    by (simp_all add: indexed_core_def add_bytes_def on_memtable_def Let_def demo_core_def)
  ultimately show ?thesis
    by (auto simp: can_log_def encryptor_of_def encode_frame_def encode_record_def demo_host_def demo_crates_def plain_crates_def
        encryptor_new_def encryption_default_def ok_or_def split: option.splits)
qed

lemma indexed_bytes: "bytes_of indexed_core ''default'' < 100"
  by (simp add: indexed_core_def bytes_add demo_index_entry index_prefix_def schema_prefix_def INDEX_PREFIX_def as_bytes_def)
    (simp add: bytes_of_def demo_core_def)

lemma demo_limit: "100000 < write_buffer_limit demo_options"
  by (simp add: write_buffer_limit_def demo_options_def engine_options_default_def)


end
