(* ===== verification/Keyspace.thy ===== *)
theory Keyspace
  imports Engine_Index
begin

text \<open>
  \<open>src/api/keyspace.rs\<close>: the part of the key space that clients see. Keys that start with two
  underscores are the engine's own and never appear in a listing.

  A listing reads the engine in pages of at most 256 entries, each with its own clock reading.
\<close>

definition is_reserved :: "bytes \<Rightarrow> bool" where
  "is_reserved key \<longleftrightarrow> starts_with (as_bytes ''__'') key"

function collect_loop ::
  "('bl, 'c, 'k) host \<Rightarrow> (nat \<Rightarrow> u128) \<Rightarrow> nat \<Rightarrow> bytes option \<Rightarrow> nat \<Rightarrow> nat \<Rightarrow> (bytes \<Rightarrow> bytes \<Rightarrow> bool) \<Rightarrow> bytes option \<Rightarrow> nat
   \<Rightarrow> (bytes \<times> bytes) list \<Rightarrow> ('bl, 'c, 'k) engine_core \<Rightarrow> (bytes \<times> bytes) list outcome \<times> ('bl, 'c, 'k) engine_core" where
  "collect_loop H clock i upper limit scan_budget matches cursor examined output core =
     (if length output < limit \<and> examined < scan_budget then
        let page_size = min (scan_budget - examined) 256
        in case scan_cf H (clock i) ''default'' cursor upper (Some page_size) core of
             (Ok page, core1) \<Rightarrow>
               if page = [] then (Ok output, core1)
               else let next = fst (last page) @ [0];
                        output' = take limit (output @ List.filter (\<lambda>(key, value). \<not> is_reserved key \<and> matches key value) page)
                    in if length page < page_size then (Ok output', core1)
                       else collect_loop H clock (Suc i) upper limit scan_budget matches (Some next) (examined + length page) output' core1
           | (Err e, core1) \<Rightarrow> (Err e, core1)
           | (Panic, core1) \<Rightarrow> (Panic, core1)
      else (Ok output, core))"
  by pat_completeness auto
termination
  by (relation "measure (\<lambda>(_, _, _, _, _, scan_budget, _, _, examined, _, _). scan_budget - examined)") auto

declare collect_loop.simps [simp del]

definition collect ::
  "('bl, 'c, 'k) host \<Rightarrow> (nat \<Rightarrow> u128) \<Rightarrow> bytes option \<Rightarrow> bytes option \<Rightarrow> nat \<Rightarrow> nat \<Rightarrow> (bytes \<Rightarrow> bytes \<Rightarrow> bool)
   \<Rightarrow> ('bl, 'c, 'k) engine_core \<Rightarrow> (bytes \<times> bytes) list outcome \<times> ('bl, 'c, 'k) engine_core" where
  "collect H clock lower upper limit scan_budget matches core =
     collect_loop H clock 0 upper (min limit (MAX_SCAN_LIMIT + 1)) scan_budget matches lower 0 [] core"

definition keyspace_scan ::
  "('bl, 'c, 'k) host \<Rightarrow> (nat \<Rightarrow> u128) \<Rightarrow> bytes option \<Rightarrow> bytes option \<Rightarrow> nat
   \<Rightarrow> ('bl, 'c, 'k) engine_core \<Rightarrow> (bytes \<times> bytes) list outcome \<times> ('bl, 'c, 'k) engine_core" where
  "keyspace_scan H clock lower upper limit core = collect H clock lower upper limit usize_max (\<lambda>_ _. True) core"

definition scan_matching ::
  "('bl, 'c, 'k) host \<Rightarrow> (nat \<Rightarrow> u128) \<Rightarrow> bytes option \<Rightarrow> bytes option \<Rightarrow> nat \<Rightarrow> (bytes \<Rightarrow> bytes \<Rightarrow> bool)
   \<Rightarrow> ('bl, 'c, 'k) engine_core \<Rightarrow> (bytes \<times> bytes) list outcome \<times> ('bl, 'c, 'k) engine_core" where
  "scan_matching H clock lower upper limit matches core = collect H clock lower upper (min limit 100) 10000 matches core"

definition keyspace_prefix ::
  "('bl, 'c, 'k) host \<Rightarrow> (nat \<Rightarrow> u128) \<Rightarrow> bytes \<Rightarrow> bytes option \<Rightarrow> nat
   \<Rightarrow> ('bl, 'c, 'k) engine_core \<Rightarrow> ((bytes \<times> bytes) list \<times> bytes option) outcome \<times> ('bl, 'c, 'k) engine_core" where
  "keyspace_prefix H clock prefix cursor limit core =
     (let limit = min limit MAX_SCAN_LIMIT;
          lower = (case cursor of None \<Rightarrow> prefix | Some c \<Rightarrow> max prefix (c @ [0]));
          upper = prefix_end prefix
      in bind_st (keyspace_scan H clock (Some lower) upper (limit + 1) core) (\<lambda>rows core1.
           let more = limit < length rows;
               rows = take limit rows;
               next = (if more \<and> rows \<noteq> [] then Some (from_utf8_lossy (fst (last rows))) else None)
           in (Ok (rows, next), core1)))"

subsection \<open>Pages of a scan\<close>

lemma snoc_zero_le: "(k :: bytes) @ [0] \<le> x \<longleftrightarrow> k < x"
proof (induction k arbitrary: x)
  case Nil
  then show ?case by (cases x) (auto simp: word_neq_0_conv [symmetric])
next
  case (Cons a k)
  then show ?case by (cases x) auto
qed

lemma drop_strict:
  assumes "strict_keys xs" "0 < n" "n \<le> length xs"
  shows "drop n xs = List.filter (\<lambda>e. fst (last (take n xs)) < fst e) xs"
proof -
  let ?k = "fst (last (take n xs))"
  have ne: "take n xs \<noteq> []" using assms(2,3) by auto
  have app: "strict_keys (take n xs @ drop n xs)" using assms(1) by simp
  have "\<forall>e\<in>set (drop n xs). ?k < fst e"
    using app ne last_in_set [OF ne] unfolding sorted_wrt_append map_append by auto
  moreover have "\<forall>e\<in>set (take n xs). \<not> ?k < fst e"
  proof -
    obtain ys y where ys: "take n xs = ys @ [y]" using ne by (metis rev_exhaust)
    have "strict_keys (ys @ [y])" using app unfolding ys by (simp add: sorted_wrt_append)
    then show ?thesis unfolding ys by (auto simp: sorted_wrt_append)
  qed
  ultimately have "List.filter (\<lambda>e. ?k < fst e) (take n xs @ drop n xs) = drop n xs" by (simp only: filter_append) (simp add: filter_id_conv)
  then show ?thesis by simp
qed

lemma scan_result_after:
  assumes ok: "engine_ok H cat core" and low: "\<forall>lb. lower = Some lb \<longrightarrow> lb \<le> k"
  shows "scan_result cat now (Some (k @ [0])) upper core cf = List.filter (\<lambda>e. k < fst e) (scan_result cat now lower upper core cf)"
proof (rule strict_keys_map_of_eq)
  note s = scan_result_spec [OF ok]
  show "strict_keys (scan_result cat now (Some (k @ [0])) upper core cf)" by (rule s)
  show "strict_keys (List.filter (\<lambda>e. k < fst e) (scan_result cat now lower upper core cf))" by (rule strict_keys_filter) (rule s)
  have "in_range (Some (k @ [0])) upper key \<longleftrightarrow> k < key \<and> in_range lower upper key" for key
    using low by (auto simp: in_range_def snoc_zero_le split: option.splits)
  moreover have "map_of (List.filter (\<lambda>e. k < fst e) xs) key = (if k < key then map_of xs key else None)" for xs :: "(bytes \<times> bytes) list" and key
    by (induction xs) auto
  ultimately show "map_of (scan_result cat now (Some (k @ [0])) upper core cf) = map_of (List.filter (\<lambda>e. k < fst e) (scan_result cat now lower upper core cf))"
    by (auto simp: fun_eq_iff s(2))
qed

text \<open>No entry between the bounds changes its visibility while the scan runs.\<close>

definition steady :: "catalogue \<Rightarrow> (nat \<Rightarrow> u128) \<Rightarrow> ('bl, 'c, 'k) engine_core \<Rightarrow> bool" where
  "steady cat clock core \<longleftrightarrow> (\<forall>i key. view cat (clock i) core ''default'' key = view cat (clock 0) core ''default'' key)"

lemma steady_scan:
  assumes "engine_ok H cat core" "steady cat clock core"
  shows "scan_result cat (clock i) lower upper core ''default'' = scan_result cat (clock 0) lower upper core ''default''"
  using scan_result_spec [OF assms(1)] assms(2) by (intro strict_keys_map_of_eq) (auto simp: fun_eq_iff steady_def)

lemma same_but_caches_scan:
  assumes "engine_ok H cat core" "engine_ok H cat core'" "same_but_caches core core'"
  shows "scan_result cat now lower upper core' cf = scan_result cat now lower upper core cf"
  using scan_result_spec [OF assms(1)] scan_result_spec [OF assms(2)]
  by (intro strict_keys_map_of_eq) (auto simp: fun_eq_iff same_but_caches_view [OF assms(3)])

lemma scan_result_in_range:
  assumes "engine_ok H cat core" "e \<in> set (scan_result cat now lower upper core cf)"
  shows "in_range lower upper (fst e)"
proof -
  have "map_of (scan_result cat now lower upper core cf) (fst e) \<noteq> None" using assms(2) by (simp add: map_of_eq_None_iff)
  then show ?thesis using scan_result_spec(2) [OF assms(1)] by (metis (no_types, lifting))
qed

lemma take_take_append: "take n (take n xs @ ys) = take n (xs @ ys)"
  by (simp add: take_append min_def)

abbreviation offered :: "(bytes \<Rightarrow> bytes \<Rightarrow> bool) \<Rightarrow> (bytes \<times> bytes) list \<Rightarrow> (bytes \<times> bytes) list" where
  "offered matches \<equiv> List.filter (\<lambda>(key, value). \<not> is_reserved key \<and> matches key value)"

lemma collect_step:
  assumes "length out < limit" "examined < scan_budget" "ps = min (scan_budget - examined) 256"
    and "scan_cf H (clock i) ''default'' cursor upper (Some ps) core = (Ok page, core1)"
  shows "collect_loop H clock i upper limit scan_budget matches cursor examined out core =
    (if length page < ps then (Ok (take limit (out @ offered matches page)), core1)
     else collect_loop H clock (Suc i) upper limit scan_budget matches (Some (fst (last page) @ [0])) (examined + length page)
            (take limit (out @ offered matches page)) core1)"
  using assms by (subst collect_loop.simps) (auto simp: Let_def)

lemma collect_loop_correct:
  assumes laws: "host_laws H"
  shows "engine_ok H cat core \<Longrightarrow> kv_coherent H cat cf (co_version_set core) \<Longrightarrow> steady cat clock core \<Longrightarrow> length out \<le> limit \<Longrightarrow>
    \<exists>core'. collect_loop H clock i upper limit scan_budget matches cursor examined out core =
        (Ok (take limit (out @ offered matches (take (scan_budget - examined) (scan_result cat (clock 0) cursor upper core ''default'')))), core') \<and>
      same_but_caches core core' \<and> engine_ok H cat core' \<and> kv_coherent H cat cf (co_version_set core')"
proof (induction "scan_budget - examined" arbitrary: i cursor examined out core rule: less_induct)
  case less
  show ?case
  proof (cases "length out < limit \<and> examined < scan_budget")
    case False
    then have "take limit (out @ offered matches (take (scan_budget - examined) xs)) = out" for xs
      using less.prems(4) by (cases "length out < limit") auto
    then show ?thesis using False less.prems by (subst collect_loop.simps) auto
  next
    case True
    let ?all = "scan_result cat (clock 0) cursor upper core ''default''"
    define ps where "ps = min (scan_budget - examined) 256"
    have ps: "0 < ps" "ps \<le> scan_budget - examined" using True by (simp_all add: ps_def)
    obtain core1 where c: "scan_cf H (clock i) ''default'' cursor upper (Some ps) core = (Ok (take ps ?all), core1)"
      "same_but_caches core core1" "engine_ok H cat core1" "kv_coherent H cat cf (co_version_set core1)"
      using for_each_visible_correct [OF less.prems(1) laws less.prems(2), of "clock i" "''default''" cursor upper ps]
      unfolding steady_scan [OF less.prems(1,3), of i] by (auto simp: scan_cf_def)
    note step = collect_step [of out limit examined scan_budget ps H clock i cursor upper core, OF conjunct1 [OF True] conjunct2 [OF True] ps_def c(1), of matches]
    show ?thesis
    proof (cases "length ?all < ps")
      case True
      then show ?thesis using c ps step by auto
    next
      case False
      let ?k = "fst (last (take ps ?all))" and ?out = "take limit (out @ offered matches (take ps ?all))"
      have strict: "strict_keys ?all" by (rule scan_result_spec [OF less.prems(1)])
      have "take ps ?all \<noteq> []" using False ps(1) by auto
      then have "last (take ps ?all) \<in> set ?all" using in_set_takeD last_in_set by fast
      from scan_result_in_range [OF less.prems(1) this] have low: "\<forall>lb. cursor = Some lb \<longrightarrow> lb \<le> ?k"
        unfolding in_range_def by (metis (no_types, lifting) option.case(2))
      have rest: "scan_result cat (clock 0) (Some (?k @ [0])) upper core1 ''default'' = drop ps ?all"
        unfolding same_but_caches_scan [OF less.prems(1) c(3,2)] scan_result_after [OF less.prems(1) low]
        using drop_strict [OF strict ps(1)] False by simp
      have st: "steady cat clock core1" using less.prems(3) by (simp add: steady_def same_but_caches_view [OF c(2)])
      have fewer: "scan_budget - (examined + ps) < scan_budget - examined" and len: "length ?out \<le> limit" using ps by simp_all
      obtain core' where r: "collect_loop H clock (Suc i) upper limit scan_budget matches (Some (?k @ [0])) (examined + ps) ?out core1 =
          (Ok (take limit (?out @ offered matches (take (scan_budget - (examined + ps)) (drop ps ?all)))), core')"
        "same_but_caches core1 core'" "engine_ok H cat core'" "kv_coherent H cat cf (co_version_set core')"
        using less.hyps [OF fewer c(3,4) st len, of "Suc i" "Some (?k @ [0])"] unfolding rest by blast
      have "take (scan_budget - examined) ?all = take ps ?all @ take (scan_budget - (examined + ps)) (drop ps ?all)"
        using ps take_add [of ps "scan_budget - (examined + ps)" ?all] by simp
      then have "take limit (?out @ offered matches (take (scan_budget - (examined + ps)) (drop ps ?all))) =
          take limit (out @ offered matches (take (scan_budget - examined) ?all))"
        unfolding take_take_append by (simp only: filter_append append_assoc)
      moreover have "length (take ps ?all) = ps" using False by simp
      ultimately show ?thesis using step r same_but_caches_trans [OF c(2) r(2)] by (simp only: less_irrefl if_False) blast
    qed
  qed
qed

lemma collect_correct:
  assumes "engine_ok H cat core" "host_laws H" "kv_coherent H cat cf (co_version_set core)" "steady cat clock core"
  shows "\<exists>core'. collect H clock lower upper limit scan_budget matches core =
      (Ok (take (min limit (MAX_SCAN_LIMIT + 1)) (offered matches (take scan_budget (scan_result cat (clock 0) lower upper core ''default'')))), core') \<and>
    same_but_caches core core' \<and> engine_ok H cat core' \<and> kv_coherent H cat cf (co_version_set core')"
  using collect_loop_correct [OF assms(2,1,3,4), of "[]" "min limit (MAX_SCAN_LIMIT + 1)" 0 upper scan_budget matches lower 0]
  by (simp add: collect_def)

text \<open>What a client may see of a key.\<close>

definition client_view :: "catalogue \<Rightarrow> u128 \<Rightarrow> ('bl, 'c, 'k) engine_core \<Rightarrow> bytes \<Rightarrow> bytes option" where
  "client_view cat now core key = (if is_reserved key then None else view cat now core ''default'' key)"

lemma reserved_ttl: "starts_with TTL_PREFIX key \<Longrightarrow> is_reserved key"
proof -
  assume "starts_with TTL_PREFIX key"
  then have "take (length TTL_PREFIX) key = TTL_PREFIX" by (simp add: starts_with_def)
  then have "take 2 (take (length TTL_PREFIX) key) = take 2 TTL_PREFIX" by (rule arg_cong)
  then show ?thesis by (simp add: is_reserved_def starts_with_def TTL_PREFIX_def as_bytes_def numeral_2_eq_2)
qed

lemma map_of_offered:
  assumes "engine_ok H cat core"
  shows "strict_keys (offered matches (scan_result cat now lower upper core ''default''))"
    "map_of (offered matches (scan_result cat now lower upper core ''default'')) key =
       (if in_range lower upper key then (case client_view cat now core key of Some v \<Rightarrow> if matches key v then Some v else None | None \<Rightarrow> None) else None)"
proof -
  let ?all = "scan_result cat now lower upper core ''default''"
  note s = scan_result_spec [OF assms]
  show "strict_keys (offered matches ?all)" by (rule strict_keys_filter [OF s(1)])
  show "map_of (offered matches ?all) key =
       (if in_range lower upper key then (case client_view cat now core key of Some v \<Rightarrow> if matches key v then Some v else None | None \<Rightarrow> None) else None)"
    unfolding map_of_filter_entries [OF strict_keys_distinct [OF s(1)]] s(2)
    using reserved_ttl by (auto simp: client_view_def split: option.splits)
qed

lemma map_of_offered_any:
  assumes "engine_ok H cat core"
  shows "map_of (offered (\<lambda>_ _. True) (scan_result cat now lower upper core ''default'')) key =
    (if in_range lower upper key then client_view cat now core key else None)"
  unfolding map_of_offered(2) [OF assms] by (simp split: option.split)

lemma keyspace_scan_offered:
  assumes "engine_ok H cat core" "host_laws H" "kv_coherent H cat cf (co_version_set core)" "steady cat clock core"
    and "length (scan_result cat (clock 0) lower upper core ''default'') \<le> usize_max"
  shows "\<exists>core'. keyspace_scan H clock lower upper limit core =
      (Ok (take (min limit (MAX_SCAN_LIMIT + 1)) (offered (\<lambda>_ _. True) (scan_result cat (clock 0) lower upper core ''default''))), core') \<and>
    same_but_caches core core' \<and> engine_ok H cat core' \<and> kv_coherent H cat cf (co_version_set core')"
  using collect_correct [OF assms(1-4), of lower upper limit usize_max "\<lambda>_ _. True"] assms(5) by (simp add: keyspace_scan_def)

lemma offered_after:
  assumes ok: "engine_ok H cat core"
  shows "offered matches (scan_result cat now (Some (case cursor of None \<Rightarrow> lb | Some c \<Rightarrow> max lb (c @ [0]))) upper core ''default'') =
    after cursor (offered matches (scan_result cat now (Some lb) upper core ''default''))"
proof (rule strict_keys_map_of_eq)
  note m = map_of_offered [OF ok]
  let ?xs = "offered matches (scan_result cat now (Some lb) upper core ''default'')"
  show "strict_keys (offered matches (scan_result cat now (Some (case cursor of None \<Rightarrow> lb | Some c \<Rightarrow> max lb (c @ [0]))) upper core ''default''))"
    by (rule m)
  show "strict_keys (after cursor ?xs)" unfolding after_def by (rule strict_keys_filter) (rule m)
  have "map_of (after cursor ys) key = (if \<forall>c. cursor = Some c \<longrightarrow> c < key then map_of ys key else None)" for ys key
    by (induction ys) (auto simp: after_def split: option.splits)
  moreover have "in_range (Some (case cursor of None \<Rightarrow> lb | Some c \<Rightarrow> max lb (c @ [0]))) upper key \<longleftrightarrow>
      (\<forall>c. cursor = Some c \<longrightarrow> c < key) \<and> in_range (Some lb) upper key" for key
    by (auto simp: in_range_def snoc_zero_le split: option.splits)
  ultimately show "map_of (offered matches (scan_result cat now (Some (case cursor of None \<Rightarrow> lb | Some c \<Rightarrow> max lb (c @ [0]))) upper core ''default'')) =
      map_of (after cursor ?xs)"
    by (auto simp: fun_eq_iff m(2))
qed

lemma demo_client_view: "client_view Map.empty now demo_core key = (if key = [1] then Some [2] else None)"
  by (simp add: client_view_def demo_view is_reserved_def starts_with_def as_bytes_def)

lemma demo_steady: "steady Map.empty clock demo_core"
  by (simp add: steady_def demo_view)

lemma demo_scan_length: "length (scan_result Map.empty now lower upper demo_core ''default'') \<le> usize_max"
proof -
  note s = scan_result_spec [OF demo_core_ok]
  have "scan_result Map.empty now lower upper demo_core ''default'' = (if in_range lower upper [1] then [([1], [2])] else [])"
    by (rule strict_keys_map_of_eq) (auto simp: s fun_eq_iff demo_view starts_with_def TTL_PREFIX_def as_bytes_def)
  then show ?thesis by (simp add: usize_max_def)
qed

subsection \<open>Properties\<close>

text \<open>A listing returns, in key order and up to the limit, exactly the entries between the bounds that a
  client may see, although it reads the engine in pages of 256 entries; the engine's own keys never
  appear.\<close>

lemma keyspace_scan_correct:
  assumes "engine_ok H cat core" and "host_laws H" and "kv_coherent H cat cf (co_version_set core)" and "steady cat clock core"
    and "length (scan_result cat (clock 0) lower upper core ''default'') \<le> usize_max"
  shows "\<exists>xs core'. keyspace_scan H clock lower upper limit core = (Ok (take (min limit (MAX_SCAN_LIMIT + 1)) xs), core') \<and>
    strict_keys xs \<and> (\<forall>key. map_of xs key = (if in_range lower upper key then client_view cat (clock 0) core key else None)) \<and>
    same_but_caches core core' \<and> engine_ok H cat core' \<and> kv_coherent H cat cf (co_version_set core')"
proof -
  let ?xs = "offered (\<lambda>_ _. True) (scan_result cat (clock 0) lower upper core ''default'')"
  have "strict_keys ?xs" by (rule map_of_offered(1) [OF assms(1)])
  moreover have "\<forall>key. map_of ?xs key = (if in_range lower upper key then client_view cat (clock 0) core key else None)"
    by (intro allI map_of_offered_any [OF assms(1)])
  ultimately show ?thesis using keyspace_scan_offered [OF assms, of limit] by (intro exI [of _ ?xs]) blast
qed

text \<open>A prefix listing pages through the sorted list of all entries with the prefix that a client may see,
  without gaps or repetitions, and gives a cursor exactly when entries are left.\<close>

lemma keyspace_prefix_pages:
  assumes ok: "engine_ok H cat core" "host_laws H" "kv_coherent H cat cf (co_version_set core)" "steady cat clock core"
    and size: "\<forall>lower upper. length (scan_result cat (clock 0) lower upper core ''default'') \<le> usize_max" and "is_utf8 prefix"
    and utf8: "\<forall>key v. client_view cat (clock 0) core key = Some v \<longrightarrow> is_utf8 key" and limit: "0 < limit" "limit \<le> MAX_SCAN_LIMIT"
  shows "\<exists>xs core'. strict_keys xs \<and> (\<forall>key. map_of xs key = (if starts_with prefix key then client_view cat (clock 0) core key else None)) \<and>
    (let rest = after cursor xs
     in keyspace_prefix H clock prefix cursor limit core =
          (Ok (take limit rest, if limit < length rest then Some (fst (rest ! (limit - 1))) else None), core')) \<and>
    same_but_caches core core'"
proof -
  let ?any = "\<lambda>_ _. True" and ?lower = "case cursor of None \<Rightarrow> prefix | Some c \<Rightarrow> max prefix (c @ [0])"
  define xs where "xs = offered ?any (scan_result cat (clock 0) (Some prefix) (prefix_end prefix) core ''default'')"
  have xs: "strict_keys xs" "map_of xs key = (if starts_with prefix key then client_view cat (clock 0) core key else None)" for key
    unfolding xs_def map_of_offered_any [OF ok(1)] prefix_range [OF utf8_no_ff [OF \<open>is_utf8 prefix\<close>]]
    by (rule map_of_offered(1) [OF ok(1)], rule refl)
  have rest: "offered ?any (scan_result cat (clock 0) (Some ?lower) (prefix_end prefix) core ''default'') = after cursor xs"
    unfolding xs_def by (rule offered_after [OF ok(1)])
  obtain core' where c: "keyspace_scan H clock (Some ?lower) (prefix_end prefix) (limit + 1) core =
      (Ok (take (limit + 1) (after cursor xs)), core')" "same_but_caches core core'"
    using keyspace_scan_offered [OF ok size [rule_format], of "Some ?lower" "prefix_end prefix" "limit + 1"] limit(2)
    unfolding rest by (auto simp: min_def)
  have last: "from_utf8_lossy (fst (last (take limit (after cursor xs)))) = fst (after cursor xs ! (limit - 1))" if "limit < length (after cursor xs)"
  proof -
    have l: "last (take limit (after cursor xs)) = after cursor xs ! (limit - 1)" using that limit(1) by (subst last_conv_nth) auto
    have "after cursor xs ! (limit - 1) \<in> set xs" using that nth_mem [of "limit - 1" "after cursor xs"] by (simp add: after_def)
    then have "map_of xs (fst (after cursor xs ! (limit - 1))) \<noteq> None" by (simp add: map_of_eq_None_iff)
    then show ?thesis using utf8 unfolding l xs(2) by (force simp: is_utf8_def split: if_splits)
  qed
  have "keyspace_prefix H clock prefix cursor limit core =
      (Ok (take limit (after cursor xs), if limit < length (after cursor xs) then Some (fst (after cursor xs ! (limit - 1))) else None), core')"
    using limit last unfolding keyspace_prefix_def Let_def min_absorb1 [OF limit(2)] c(1) by (auto simp: min_def)
  then show ?thesis using xs c(2) by (intro exI [of _ xs] exI [of _ core']) (simp add: Let_def)
qed

end
