(* ===== verification/Auth.thy ===== *)
theory Auth
  imports Prelude "HOL-Library.Char_ord" "HOL-Library.List_Lexorder"
begin

text \<open>
  \<open>src/api/auth\<close>: API tokens, their manager, the credential file, and the checks of a request.

  SHA-256, base64, UUIDs, JSON and the random source are parameters (\<open>token_crates\<close>). The clock is an
  argument; \<open>None\<close> is a clock before 1970. The steps of replacing the credential file can fail
  before or after the rename.
\<close>

datatype auth_error =
    InvalidToken | TokenExpired | MissingToken | InsufficientPermissions | TokenNotFound
  | TokenGenerationFailed | InvalidPermission string | Internal

definition auth_status :: "auth_error \<Rightarrow> nat" where
  "auth_status e =
     (case e of
        InvalidToken \<Rightarrow> 401 | TokenExpired \<Rightarrow> 401 | MissingToken \<Rightarrow> 401 | InsufficientPermissions \<Rightarrow> 403
      | TokenNotFound \<Rightarrow> 404 | InvalidPermission _ \<Rightarrow> 400 | TokenGenerationFailed \<Rightarrow> 500 | Internal \<Rightarrow> 500)"

datatype permission = Read | Write | Delete | Admin

record api_token =
  at_id :: string
  at_name :: string
  at_token_hash :: string
  at_created_at :: u128
  at_expires_at :: "u128 option"
  at_permissions :: "permission list"

record token_snapshot =
  ts_version :: u32
  ts_tokens :: "api_token list"

record 'j token_crates =
  tc_sha256_hex :: "string \<Rightarrow> string"
  tc_base64 :: "bytes \<Rightarrow> string"
  tc_uuid_valid :: "string \<Rightarrow> bool"
  tc_json_encode :: "token_snapshot \<Rightarrow> 'j"
  tc_json_decode :: "'j \<Rightarrow> token_snapshot option"

subsection \<open>Tokens\<close>

definition hash_token :: "'j token_crates \<Rightarrow> string \<Rightarrow> string" where
  "hash_token X token = tc_sha256_hex X token"

definition constant_time_compare :: "string \<Rightarrow> string \<Rightarrow> bool" where
  "constant_time_compare a b =
     (if length a \<noteq> length b then False
      else fold (\<lambda>(x, y) acc. or acc (xor x y)) (zip (as_bytes a) (as_bytes b)) 0 = 0)"

definition api_token_new ::
  "'j token_crates \<Rightarrow> string \<Rightarrow> u128 option \<Rightarrow> string \<Rightarrow> string \<Rightarrow> u128 option \<Rightarrow> permission list \<Rightarrow> auth_error + api_token" where
  "api_token_new X uuid clock name raw_token expires_at permissions =
     (case clock of
        None \<Rightarrow> Inl Internal
      | Some now \<Rightarrow>
          Inr \<lparr>at_id = uuid, at_name = name, at_token_hash = hash_token X raw_token, at_created_at = now,
               at_expires_at = expires_at, at_permissions = permissions\<rparr>)"

definition is_expired :: "u128 option \<Rightarrow> api_token \<Rightarrow> auth_error + bool" where
  "is_expired clock t =
     (case at_expires_at t of
        Some expires_at \<Rightarrow> (case clock of None \<Rightarrow> Inl Internal | Some now \<Rightarrow> Inr (expires_at < now))
      | None \<Rightarrow> Inr False)"

definition has_permission :: "permission \<Rightarrow> api_token \<Rightarrow> bool" where
  "has_permission required t \<longleftrightarrow> (if Admin \<in> set (at_permissions t) then True else required \<in> set (at_permissions t))"

definition token_matches :: "'j token_crates \<Rightarrow> string \<Rightarrow> api_token \<Rightarrow> bool" where
  "token_matches X raw_token t = constant_time_compare (hash_token X raw_token) (at_token_hash t)"

definition generate_token :: "'j token_crates \<Rightarrow> bytes option \<Rightarrow> auth_error + string" where
  "generate_token X rng = (case rng of None \<Rightarrow> Inl Internal | Some random_bytes \<Rightarrow> Inr (''apx_'' @ tc_base64 X random_bytes))"

text \<open>\<open>to_lowercase\<close> on the ASCII letters, which decide the match.\<close>

definition permission_from_str :: "string \<Rightarrow> auth_error + permission" where
  "permission_from_str s =
     (let l = map (\<lambda>c. if CHR ''A'' \<le> c \<and> c \<le> CHR ''Z'' then char_of (of_char c + 32 :: nat) else c) s
      in if l \<in> {''read'', ''r''} then Inr Read
         else if l \<in> {''write'', ''w''} then Inr Write
         else if l \<in> {''delete'', ''d''} then Inr Delete
         else if l \<in> {''admin'', ''a''} then Inr Admin
         else Inl (InvalidPermission s))"

subsection \<open>The credential file\<close>

datatype save_fault = NoFault | BeforeRename | AfterRename

definition is_hex_digit :: "char \<Rightarrow> bool" where
  "is_hex_digit c \<longleftrightarrow> CHR ''0'' \<le> c \<and> c \<le> CHR ''9'' \<or> CHR ''a'' \<le> c \<and> c \<le> CHR ''f'' \<or> CHR ''A'' \<le> c \<and> c \<le> CHR ''F''"

definition valid_token_record :: "'j token_crates \<Rightarrow> api_token \<Rightarrow> bool" where
  "valid_token_record X t \<longleftrightarrow>
     tc_uuid_valid X (at_id t) \<and> length (at_token_hash t) = 64 \<and> list_all is_hex_digit (at_token_hash t)"

fun load_tokens :: "'j token_crates \<Rightarrow> api_token list \<Rightarrow> (string \<times> api_token) list \<Rightarrow> auth_error + (string \<times> api_token) list" where
  "load_tokens X [] tokens = Inr tokens"
| "load_tokens X (t # ts) tokens =
     (if \<not> valid_token_record X t then Inl Internal
      else if map_of tokens (at_id t) \<noteq> None then Inl Internal
      else load_tokens X ts (AList.update (at_id t) t tokens))"

definition store_load :: "'j token_crates \<Rightarrow> 'j option \<Rightarrow> auth_error + (string \<times> api_token) list" where
  "store_load X contents =
     (case contents of
        None \<Rightarrow> Inr []
      | Some bs \<Rightarrow>
          (case tc_json_decode X bs of
             None \<Rightarrow> Inl Internal
           | Some snapshot \<Rightarrow> if ts_version snapshot \<noteq> 1 then Inl Internal else load_tokens X (ts_tokens snapshot) []))"

definition store_save ::
  "'j token_crates \<Rightarrow> save_fault \<Rightarrow> (string \<times> api_token) list \<Rightarrow> 'j option \<Rightarrow> (auth_error + unit) \<times> 'j option" where
  "store_save X fault tokens contents =
     (let records = sort_key at_id (map snd tokens);
          bs = tc_json_encode X \<lparr>ts_version = 1, ts_tokens = records\<rparr>
      in case fault of
           NoFault \<Rightarrow> (Inr (), Some bs)
         | BeforeRename \<Rightarrow> (Inl Internal, contents)
         | AfterRename \<Rightarrow> (Inl Internal, Some bs))"

subsection \<open>The token manager\<close>

text \<open>
  \<open>tm_store\<close> is \<open>None\<close> without persistence, and otherwise what is in the credential file, whose text is of
  a type \<open>'j\<close> that only the JSON crate looks into.
\<close>

record 'j token_manager =
  tm_tokens :: "(string \<times> api_token) list"
  tm_store :: "'j option option"

definition manager_new :: "'j token_manager" where
  "manager_new = \<lparr>tm_tokens = [], tm_store = None\<rparr>"

definition open_persistent :: "'j token_crates \<Rightarrow> 'j option \<Rightarrow> auth_error + 'j token_manager" where
  "open_persistent X contents =
     (case store_load X contents of Inl e \<Rightarrow> Inl e | Inr tokens \<Rightarrow> Inr \<lparr>tm_tokens = tokens, tm_store = Some contents\<rparr>)"

text \<open>The part that creation and deletion share: save the new map first, then replace the old one.\<close>

definition replace_tokens :: "'j token_crates \<Rightarrow> save_fault \<Rightarrow> (string \<times> api_token) list \<Rightarrow> 'j token_manager \<Rightarrow> (auth_error + unit) \<times> 'j token_manager" where
  "replace_tokens X fault next tm =
     (case tm_store tm of
        None \<Rightarrow> (Inr (), tm\<lparr>tm_tokens := next\<rparr>)
      | Some contents \<Rightarrow>
          (case store_save X fault next contents of
             (Inl e, contents') \<Rightarrow> (Inl e, tm\<lparr>tm_store := Some contents'\<rparr>)
           | (Inr _, contents') \<Rightarrow> (Inr (), \<lparr>tm_tokens = next, tm_store = Some contents'\<rparr>)))"

definition create_token ::
  "'j token_crates \<Rightarrow> bytes option \<Rightarrow> string \<Rightarrow> u128 option \<Rightarrow> save_fault \<Rightarrow> string \<Rightarrow> u128 option \<Rightarrow> permission list \<Rightarrow> 'j token_manager
   \<Rightarrow> (auth_error + string \<times> api_token) \<times> 'j token_manager" where
  "create_token X rng uuid clock fault name expires_at permissions tm =
     (case generate_token X rng of
        Inl e \<Rightarrow> (Inl e, tm)
      | Inr raw_token \<Rightarrow>
          (case api_token_new X uuid clock name raw_token expires_at permissions of
             Inl e \<Rightarrow> (Inl e, tm)
           | Inr token \<Rightarrow>
               (case replace_tokens X fault (AList.update (at_id token) token (tm_tokens tm)) tm of
                  (Inl e, tm') \<Rightarrow> (Inl e, tm')
                | (Inr _, tm') \<Rightarrow> (Inr (raw_token, token), tm'))))"

fun validate_among :: "'j token_crates \<Rightarrow> u128 option \<Rightarrow> string \<Rightarrow> (string \<times> api_token) list \<Rightarrow> auth_error + api_token" where
  "validate_among X clock raw_token [] = Inl InvalidToken"
| "validate_among X clock raw_token ((_, t) # ts) =
     (if token_matches X raw_token t
      then (case is_expired clock t of Inl e \<Rightarrow> Inl e | Inr True \<Rightarrow> Inl TokenExpired | Inr False \<Rightarrow> Inr t)
      else validate_among X clock raw_token ts)"

definition validate_token :: "'j token_crates \<Rightarrow> u128 option \<Rightarrow> string \<Rightarrow> 'j token_manager \<Rightarrow> auth_error + api_token" where
  "validate_token X clock raw_token tm = validate_among X clock raw_token (tm_tokens tm)"

definition list_tokens :: "'j token_manager \<Rightarrow> api_token list" where
  "list_tokens tm = map snd (tm_tokens tm)"

definition get_token :: "string \<Rightarrow> 'j token_manager \<Rightarrow> auth_error + api_token" where
  "get_token i tm = (case map_of (tm_tokens tm) i of None \<Rightarrow> Inl TokenNotFound | Some t \<Rightarrow> Inr t)"

definition delete_token :: "'j token_crates \<Rightarrow> save_fault \<Rightarrow> string \<Rightarrow> 'j token_manager \<Rightarrow> (auth_error + unit) \<times> 'j token_manager" where
  "delete_token X fault i tm =
     (if map_of (tm_tokens tm) i = None then (Inl TokenNotFound, tm)
      else replace_tokens X fault (AList.delete i (tm_tokens tm)) tm)"

definition token_count :: "'j token_manager \<Rightarrow> nat" where
  "token_count tm = length (tm_tokens tm)"

subsection \<open>The checks of a request\<close>

datatype http_method = GET | PUT | DELETE | POST | PATCH | OtherMethod string

text \<open>The flag and the manager are application data; the token is in the request's extensions.\<close>

record 'j http_request =
  rq_method :: http_method
  rq_path :: string
  rq_credentials :: "string option"
  rq_auth_enabled :: "bool option"
  rq_manager :: "'j token_manager option"
  rq_token :: "api_token option"

definition auth_enabled :: "'j http_request \<Rightarrow> bool" where
  "auth_enabled req = (case rq_auth_enabled req of None \<Rightarrow> True | Some flag \<Rightarrow> flag)"

definition bearer_validator :: "'j token_crates \<Rightarrow> u128 option \<Rightarrow> string \<Rightarrow> 'j http_request \<Rightarrow> auth_error + 'j http_request" where
  "bearer_validator X clock credentials req =
     (if \<not> auth_enabled req then Inr req
      else case rq_manager req of
             None \<Rightarrow> Inl Internal
           | Some tm \<Rightarrow>
               (case validate_token X clock credentials tm of
                  Inr api_token \<Rightarrow> Inr (req\<lparr>rq_token := Some api_token\<rparr>)
                | Inl e \<Rightarrow> Inl e))"

definition request_validator :: "'j token_crates \<Rightarrow> u128 option \<Rightarrow> 'j http_request \<Rightarrow> auth_error + 'j http_request" where
  "request_validator X clock req =
     (if rq_method req = GET \<and> rq_path req = ''/health/liveness'' \<or> rq_auth_enabled req = Some False then Inr req
      else case rq_credentials req of
             Some credentials \<Rightarrow> bearer_validator X clock credentials req
           | None \<Rightarrow> Inl MissingToken)"

definition require_permission :: "permission \<Rightarrow> 'j http_request \<Rightarrow> auth_error + unit" where
  "require_permission expected req =
     (if \<not> auth_enabled req then Inr ()
      else case rq_token req of
             Some token \<Rightarrow> if has_permission expected token then Inr () else Inl InsufficientPermissions
           | None \<Rightarrow> Inl InsufficientPermissions)"

subsection \<open>Comparison and the credential file\<close>

lemma fold_or_xor: "fold (\<lambda>(x, y) acc. or acc (xor x y)) ps (c :: u8) = 0 \<longleftrightarrow> c = 0 \<and> (\<forall>(x, y) \<in> set ps. x = y)"
proof (induction ps arbitrary: c)
  case (Cons p ps)
  obtain x y where p: "p = (x, y)" by (cases p)
  have "xor x y = 0 \<longleftrightarrow> x = y" unfolding bit_eq_iff [of "xor x y"] bit_eq_iff [of x] by (simp add: bit_xor_iff)
  then have "or c (xor x y) = 0 \<longleftrightarrow> c = 0 \<and> x = y" by (simp add: or_eq_0_iff)
  then show ?case using Cons by (auto simp: p)
qed simp

lemma of_char_byte: "of_char c = (of_char d :: u8) \<longleftrightarrow> c = d"
proof
  assume "of_char c = (of_char d :: u8)"
  then have eq: "bit (of_char c :: u8) n = bit (of_char d :: u8) n" for n by simp
  have bits: "bit (of_char c :: u8) n \<longleftrightarrow> n < 8 \<and>
      [digit0 c, digit1 c, digit2 c, digit3 c, digit4 c, digit5 c, digit6 c, digit7 c] ! n" for n c
    unfolding of_char_def bit_horner_sum_bit_iff by (auto simp: possible_bit_def)
  show "c = d"
    using eq [of 0] eq [of 1] eq [of 2] eq [of 3] eq [of 4] eq [of 5] eq [of 6] eq [of 7]
    unfolding bits by (cases c, cases d) simp
qed simp

lemma constant_time_compare_eq: "constant_time_compare a b \<longleftrightarrow> a = b"
proof -
  have "length a = length b \<Longrightarrow> (\<forall>(x, y) \<in> set (zip (as_bytes a) (as_bytes b)). x = y) \<longleftrightarrow> a = b"
    by (induction a b rule: list_induct2) (auto simp: as_bytes_def of_char_byte)
  then show ?thesis by (auto simp: constant_time_compare_def fold_or_xor)
qed

text \<open>What the code relies on: JSON reads back what it wrote, and a SHA-256 digest has 64 hex digits.\<close>

definition token_crate_laws :: "'j token_crates \<Rightarrow> bool" where
  "token_crate_laws X \<longleftrightarrow>
     (\<forall>s. tc_json_decode X (tc_json_encode X s) = Some s) \<and>
     (\<forall>s. length (tc_sha256_hex X s) = 64 \<and> list_all is_hex_digit (tc_sha256_hex X s))"

text \<open>A map of tokens under their own identifiers.\<close>

definition tokens_ok :: "'j token_crates \<Rightarrow> (string \<times> api_token) list \<Rightarrow> bool" where
  "tokens_ok X tokens \<longleftrightarrow> distinct (map fst tokens) \<and> (\<forall>(i, t) \<in> set tokens. i = at_id t \<and> valid_token_record X t)"

text \<open>The credential file, where there is one, has the tokens of the manager.\<close>

definition manager_ok :: "'j token_crates \<Rightarrow> 'j token_manager \<Rightarrow> bool" where
  "manager_ok X tm \<longleftrightarrow> tokens_ok X (tm_tokens tm) \<and>
     (\<forall>contents. tm_store tm = Some contents \<longrightarrow>
        (\<exists>tokens. store_load X contents = Inr tokens \<and> tokens_ok X tokens \<and> map_of tokens = map_of (tm_tokens tm)))"

lemma load_tokens_all:
  assumes "\<forall>t \<in> set ts. valid_token_record X t" "distinct (map at_id ts)" "\<forall>t \<in> set ts. map_of tokens (at_id t) = None" "tokens_ok X tokens"
  shows "\<exists>tokens'. load_tokens X ts tokens = Inr tokens' \<and> tokens_ok X tokens' \<and>
    map_of tokens' = map_of tokens ++ map_of (map (\<lambda>t. (at_id t, t)) ts)"
  using assms
proof (induction ts arbitrary: tokens)
  case (Cons t ts)
  let ?tokens = "AList.update (at_id t) t tokens"
  have ok: "tokens_ok X ?tokens"
  proof -
    have "set ?tokens \<subseteq> insert (at_id t, t) (set tokens)" by (induction tokens) auto
    then show ?thesis using Cons.prems(1,4) by (auto simp: tokens_ok_def distinct_update)
  qed
  have "\<forall>t' \<in> set ts. map_of ?tokens (at_id t') = None"
    using Cons.prems(2,3) by (auto simp: update_conv' image_iff)
  then obtain tokens' where t': "load_tokens X ts ?tokens = Inr tokens'" "tokens_ok X tokens'"
    "map_of tokens' = map_of ?tokens ++ map_of (map (\<lambda>t. (at_id t, t)) ts)"
    using Cons.IH [of ?tokens] Cons.prems(1,2) ok by auto
  have "at_id t \<notin> dom (map_of (map (\<lambda>t. (at_id t, t)) ts))" using Cons.prems(2) by (auto simp: dom_map_of_conv_image_fst image_iff)
  then have "map_of tokens' = map_of tokens ++ map_of (map (\<lambda>t. (at_id t, t)) (t # ts))"
    unfolding t'(3) update_conv' by (simp add: map_add_upd_left)
  moreover have "load_tokens X (t # ts) tokens = Inr tokens'" using t'(1) Cons.prems(1,3) by simp
  ultimately show ?case using t'(2) by blast
qed simp

lemma store_roundtrip:
  assumes laws: "token_crate_laws X" and ok: "tokens_ok X tokens"
  shows "\<exists>tokens'. store_load X (snd (store_save X NoFault tokens contents)) = Inr tokens' \<and> tokens_ok X tokens' \<and> map_of tokens' = map_of tokens"
proof -
  let ?ts = "sort_key at_id (map snd tokens)"
  have ids: "map (\<lambda>(i, t). (at_id t, t)) tokens = tokens" using ok by (intro map_idI) (auto simp: tokens_ok_def)
  have fst: "map at_id (map snd tokens) = map fst tokens"
    using ok by (auto simp: tokens_ok_def)
  have d: "distinct (map at_id ?ts)" using ok fst by (simp add: tokens_ok_def distinct_map inj_on_def) (metis distinct_map inj_onD fst)
  have valid: "\<forall>t \<in> set ?ts. valid_token_record X t" using ok by (auto simp: tokens_ok_def)
  obtain tokens' where t': "load_tokens X ?ts [] = Inr tokens'" "tokens_ok X tokens'" "map_of tokens' = map_of (map (\<lambda>t. (at_id t, t)) ?ts)"
    using load_tokens_all [OF valid d, of "[]"] by (auto simp: tokens_ok_def)
  have kv: "map (\<lambda>t. (at_id t, t)) (map snd tokens) = tokens" using ids by (simp add: case_prod_beta' o_def)
  have "set (map (\<lambda>t. (at_id t, t)) ?ts) = set tokens" using arg_cong [OF kv, of set] by (simp add: image_image)
  then have "map_of (map (\<lambda>t. (at_id t, t)) ?ts) = map_of tokens"
    using d ok by (subst map_of_inject_set) (simp_all add: o_def tokens_ok_def)
  then show ?thesis using t' laws by (simp add: store_load_def store_save_def Let_def token_crate_laws_def)
qed

lemma replace_tokens_ok:
  assumes "token_crate_laws X" "tokens_ok X next" "replace_tokens X NoFault next tm = (r, tm')"
  shows "r = Inr () \<and> manager_ok X tm' \<and> tm_tokens tm' = next \<and> (tm_store tm' = None \<longleftrightarrow> tm_store tm = None)"
proof (cases "tm_store tm")
  case None
  then show ?thesis using assms by (auto simp: replace_tokens_def manager_ok_def)
next
  case (Some c)
  then have "tm' = \<lparr>tm_tokens = next, tm_store = Some (snd (store_save X NoFault next c))\<rparr>" "r = Inr ()"
    using assms(3) by (auto simp: replace_tokens_def store_save_def Let_def)
  then show ?thesis using store_roundtrip [OF assms(1,2), of c] assms(2) Some by (auto simp: manager_ok_def)
qed

text \<open>The answer for a raw token that at most one stored token matches.\<close>

lemma validate_unique:
  assumes ok: "tokens_ok X tokens" and one: "\<And>i t. map_of tokens i = Some t \<Longrightarrow> at_token_hash t = hash_token X raw \<longleftrightarrow> t = t0"
  shows "validate_among X (Some now) raw tokens =
    (if map_of tokens (at_id t0) = Some t0
     then if \<exists>e. at_expires_at t0 = Some e \<and> e < now then Inl TokenExpired else Inr t0
     else Inl InvalidToken)"
  using assms
proof (induction tokens)
  case (Cons p tokens)
  obtain i t where p: "p = (i, t)" by (cases p)
  have ok: "tokens_ok X tokens" "i = at_id t" "map_of tokens i = None"
    using Cons.prems(1) by (auto simp: tokens_ok_def p map_of_None_iff)
  have rest: "at_token_hash t' = hash_token X raw \<longleftrightarrow> t' = t0" if "map_of tokens j = Some t'" for j t'
  proof -
    have "j \<noteq> i" using that ok(3) by auto
    then show ?thesis using Cons.prems(2) [of j t'] that by (simp add: p)
  qed
  have here: "at_token_hash t = hash_token X raw \<longleftrightarrow> t = t0" using Cons.prems(2) [of i t] by (simp add: p)
  show ?case
  proof (cases "t = t0")
    case True
    then show ?thesis
      using here ok(2) by (auto simp: p token_matches_def constant_time_compare_eq is_expired_def split: option.splits)
  next
    case False
    have "(if i = at_id t0 then Some t else map_of tokens (at_id t0)) = Some t0 \<longleftrightarrow> map_of tokens (at_id t0) = Some t0"
      using False ok by auto
    then show ?thesis
      using False here Cons.IH [OF ok(1) rest] by (auto simp: p token_matches_def constant_time_compare_eq)
  qed
qed simp

lemma tokens_ok_update: "tokens_ok X tokens \<Longrightarrow> valid_token_record X t \<Longrightarrow> tokens_ok X (AList.update (at_id t) t tokens)"
proof -
  assume "tokens_ok X tokens" "valid_token_record X t"
  moreover have "set (AList.update (at_id t) t tokens) \<subseteq> insert (at_id t, t) (set tokens)" by (induction tokens) auto
  ultimately show ?thesis by (auto simp: tokens_ok_def distinct_update)
qed

lemma tokens_ok_delete: "tokens_ok X tokens \<Longrightarrow> tokens_ok X (AList.delete i tokens)"
  by (auto simp: tokens_ok_def AList.delete_eq distinct_map_filter)

lemma create_token_ok:
  assumes laws: "token_crate_laws X" and ok: "manager_ok X tm" and uuid: "tc_uuid_valid X uuid"
    and run: "create_token X rng uuid clock NoFault name expires permissions tm = (Inr (raw, t), tm1)"
  shows "manager_ok X tm1" "at_token_hash t = hash_token X raw" "at_id t = uuid" "at_expires_at t = expires" "at_permissions t = permissions"
    "tm_tokens tm1 = AList.update uuid t (tm_tokens tm)" "tm_store tm1 = None \<longleftrightarrow> tm_store tm = None"
proof -
  obtain now where t: "generate_token X rng = Inr raw" "t = \<lparr>at_id = uuid, at_name = name, at_token_hash = hash_token X raw,
      at_created_at = now, at_expires_at = expires, at_permissions = permissions\<rparr>"
    "replace_tokens X NoFault (AList.update (at_id t) t (tm_tokens tm)) tm = (Inr (), tm1)"
    using run by (auto simp: create_token_def api_token_new_def split: sum.splits option.splits prod.splits)
  have "valid_token_record X t" using laws uuid by (simp add: valid_token_record_def t(2) hash_token_def token_crate_laws_def)
  then have "tokens_ok X (AList.update (at_id t) t (tm_tokens tm))" using ok by (simp add: tokens_ok_update manager_ok_def)
  from replace_tokens_ok [OF laws this t(3)] t(2)
  show "manager_ok X tm1" "at_token_hash t = hash_token X raw" "at_id t = uuid" "at_expires_at t = expires" "at_permissions t = permissions"
    "tm_tokens tm1 = AList.update uuid t (tm_tokens tm)" "tm_store tm1 = None \<longleftrightarrow> tm_store tm = None" by auto
qed

text \<open>What a manager answers depends on its map only, and a restart gives the same map.\<close>

lemma restart_same:
  assumes "manager_ok X tm" "tm_store tm = Some c"
  shows "\<exists>tm'. open_persistent X c = Inr tm' \<and> manager_ok X tm' \<and> map_of (tm_tokens tm') = map_of (tm_tokens tm)"
proof -
  obtain tokens where "store_load X c = Inr tokens" "tokens_ok X tokens" "map_of tokens = map_of (tm_tokens tm)"
    using assms by (auto simp: manager_ok_def)
  then show ?thesis by (simp add: open_persistent_def manager_ok_def)
qed

text \<open>C36: a token that was just created is accepted until it expires, by the running manager and after every
  restart; once it is deleted, it is rejected by both. The manager and the credential file stay
  consistent throughout.\<close>

theorem token_lifecycle:
  assumes "token_crate_laws X" and "manager_ok X tm" and "tc_uuid_valid X uuid" and "tm_store tm = Some c"
    and "create_token X rng uuid clock NoFault name expires permissions tm = (Inr (raw, t), tm1)"
    and "map_of (tm_tokens tm) uuid = None" and "\<forall>t' \<in> set (list_tokens tm). at_token_hash t' \<noteq> hash_token X raw"
  shows "\<exists>tm2 tm3 tm4.
    manager_ok X tm1 \<and> open_persistent X (the (tm_store tm1)) = Inr tm2 \<and> delete_token X NoFault uuid tm1 = (Inr (), tm3) \<and>
    manager_ok X tm3 \<and> open_persistent X (the (tm_store tm3)) = Inr tm4 \<and>
    (\<forall>now. let answer = (if \<exists>e. expires = Some e \<and> e < now then Inl TokenExpired else Inr t)
           in validate_token X (Some now) raw tm1 = answer \<and> validate_token X (Some now) raw tm2 = answer \<and>
              validate_token X (Some now) raw tm3 = Inl InvalidToken \<and> validate_token X (Some now) raw tm4 = Inl InvalidToken)"
proof -
  note c = create_token_ok [OF assms(1-3,5)]
  obtain c1 where s1: "tm_store tm1 = Some c1" using c(7) assms(4) by auto
  obtain tm2 where tm2: "open_persistent X c1 = Inr tm2" "manager_ok X tm2" "map_of (tm_tokens tm2) = map_of (tm_tokens tm1)"
    using restart_same [OF c(1) s1] by blast
  have in1: "map_of (tm_tokens tm1) uuid = Some t" unfolding c(6) by (simp add: update_conv')
  obtain r tm3 where tm3: "replace_tokens X NoFault (AList.delete uuid (tm_tokens tm1)) tm1 = (r, tm3)" by fastforce
  have "tokens_ok X (AList.delete uuid (tm_tokens tm1))" using c(1) by (simp add: manager_ok_def tokens_ok_delete)
  note d = replace_tokens_ok [OF assms(1) this tm3]
  obtain c3 where s3: "tm_store tm3 = Some c3" using d s1 by auto
  obtain tm4 where tm4: "open_persistent X c3 = Inr tm4" "manager_ok X tm4" "map_of (tm_tokens tm4) = map_of (tm_tokens tm3)"
    using restart_same [OF _ s3] d by blast
  have one: "at_token_hash t' = hash_token X raw \<longleftrightarrow> t' = t" if "map_of (tm_tokens tm1) i = Some t'" for i t'
  proof (cases "i = uuid")
    case False
    then have m: "map_of (tm_tokens tm) i = Some t'" using that unfolding c(6) by (simp add: update_conv')
    then have "at_token_hash t' \<noteq> hash_token X raw" using assms(7) by (force simp: list_tokens_def dest: map_of_SomeD)
    then show ?thesis using c(2) by auto
  qed (use that in1 c(2) in auto)
  have three: "map_of (tm_tokens tm3) = (map_of (tm_tokens tm1))(uuid := None)" using d by (simp add: delete_conv')
  have v: "validate_token X (Some now) raw m = (if map_of (tm_tokens m) uuid = Some t
      then if \<exists>e. expires = Some e \<and> e < now then Inl TokenExpired else Inr t else Inl InvalidToken)"
    if "manager_ok X m" "map_of (tm_tokens m) \<subseteq>\<^sub>m map_of (tm_tokens tm1)" for m now
  proof -
    have "at_token_hash t' = hash_token X raw \<longleftrightarrow> t' = t" if "map_of (tm_tokens m) i = Some t'" for i t'
      using one [of i t'] that \<open>map_of (tm_tokens m) \<subseteq>\<^sub>m map_of (tm_tokens tm1)\<close> by (metis domI map_le_def)
    then show ?thesis
      using validate_unique [of X "tm_tokens m" raw t now] that(1) c(3,4) by (simp add: validate_token_def manager_ok_def)
  qed
  have "delete_token X NoFault uuid tm1 = (Inr (), tm3)" using in1 tm3 d by (simp add: delete_token_def)
  then show ?thesis
    using c(1) s1 s3 tm2 tm4 d in1 three v [of tm1] v [of tm2] v [of tm3] v [of tm4]
    by (intro exI [of _ tm2] exI [of _ tm3] exI [of _ tm4]) (simp add: Let_def map_le_def)
qed

text \<open>Example crates, in which the text of the credential file is the snapshot itself.\<close>

definition demo_token_crates :: "token_snapshot token_crates" where
  "demo_token_crates =
     \<lparr>tc_sha256_hex = (\<lambda>s. replicate 64 (CHR ''a'')), tc_base64 = (\<lambda>bs. ''b''), tc_uuid_valid = (\<lambda>s. True),
      tc_json_encode = (\<lambda>s. s), tc_json_decode = Some\<rparr>"

theorem token_lifecycle_witness:
  "\<exists>t tm1 tm3. create_token demo_token_crates (Some [7]) ''u1'' (Some 5) NoFault ''n'' (Some 9) [Read] \<lparr>tm_tokens = [], tm_store = Some None\<rparr>
       = (Inr (''apx_b'', t), tm1) \<and>
     validate_token demo_token_crates (Some 9) ''apx_b'' tm1 = Inr t \<and> validate_token demo_token_crates (Some 10) ''apx_b'' tm1 = Inl TokenExpired \<and>
     delete_token demo_token_crates NoFault ''u1'' tm1 = (Inr (), tm3) \<and> validate_token demo_token_crates (Some 9) ''apx_b'' tm3 = Inl InvalidToken"
proof -
  let ?tm = "\<lparr>tm_tokens = [], tm_store = Some None\<rparr> :: token_snapshot token_manager"
  have laws: "token_crate_laws demo_token_crates" by (simp add: token_crate_laws_def demo_token_crates_def is_hex_digit_def less_eq_char_def list_all_iff)
  have ok: "manager_ok demo_token_crates ?tm" by (simp add: manager_ok_def tokens_ok_def store_load_def)
  have uuid: "tc_uuid_valid demo_token_crates ''u1''" by (simp add: demo_token_crates_def)
  obtain t tm1 where c: "create_token demo_token_crates (Some [7]) ''u1'' (Some 5) NoFault ''n'' (Some 9) [Read] ?tm = (Inr (''apx_b'', t), tm1)"
    by (simp add: create_token_def generate_token_def api_token_new_def replace_tokens_def store_save_def demo_token_crates_def Let_def)
  show ?thesis
    using token_lifecycle [OF laws ok uuid _ c] c by (force simp: list_tokens_def Let_def)
qed

end
