(* ===== verification/Degradation.thy ===== *)
theory Degradation
  imports Prelude
begin

text \<open>
  \<open>src/infra/resilience/degradation.rs\<close>, the modes in which the service runs, and
  \<open>src/infra/health/disk_monitor.rs\<close>, which changes the mode when the disk fills up. The free space
  that the operating system reports is an argument. The thread that repeats the check is a sequence
  of checks.
\<close>

datatype degradation_mode = Normal | ReadOnly | Degraded

definition degradation_normal :: degradation_mode where "degradation_normal = Normal"

definition set_mode :: "degradation_mode \<Rightarrow> degradation_mode \<Rightarrow> degradation_mode" where
  "set_mode mode current = mode"

definition is_read_only :: "degradation_mode \<Rightarrow> bool" where "is_read_only mode \<longleftrightarrow> mode = ReadOnly"

definition is_degraded :: "degradation_mode \<Rightarrow> bool" where "is_degraded mode \<longleftrightarrow> mode = Degraded"

definition check_write_allowed :: "degradation_mode \<Rightarrow> bool" where
  "check_write_allowed mode = (case mode of Normal \<Rightarrow> True | Degraded \<Rightarrow> True | ReadOnly \<Rightarrow> False)"

subsection \<open>The disk monitor\<close>

record disk_monitor =
  dm_warn_threshold :: u64
  dm_critical_threshold :: u64

definition disk_monitor_default :: disk_monitor where
  "disk_monitor_default = \<lparr>dm_warn_threshold = 1073741824, dm_critical_threshold = 268435456\<rparr>"

text \<open>
  One check: the mode of the linked manager afterwards, and whether the critical callback runs. A
  failing query (\<open>None\<close>) changes nothing.
\<close>

definition check_space :: "disk_monitor \<Rightarrow> u64 option \<Rightarrow> degradation_mode option \<Rightarrow> u64 option \<times> degradation_mode option \<times> bool" where
  "check_space m free mgr =
     (case free of
        None \<Rightarrow> (None, mgr, False)
      | Some available \<Rightarrow>
          if available < dm_critical_threshold m then (Some available, map_option (set_mode ReadOnly) mgr, True)
          else (Some available, mgr, False))"

definition monitor_run :: "disk_monitor \<Rightarrow> u64 option list \<Rightarrow> degradation_mode option \<Rightarrow> degradation_mode option" where
  "monitor_run m reports mgr = fold (\<lambda>free mgr. fst (snd (check_space m free mgr))) reports mgr"

lemma monitor_run_mode:
  "monitor_run m reports (Some mode) =
     Some (if \<exists>a. Some a \<in> set reports \<and> a < dm_critical_threshold m then ReadOnly else mode)"
proof (induction reports rule: rev_induct)
  case (snoc r rs)
  then show ?case by (cases r) (auto simp: monitor_run_def check_space_def set_mode_def)
qed (simp add: monitor_run_def)

text \<open>
  Once the space was critical, writes stay rejected whatever space later checks report: no check
  leaves the read-only mode.
\<close>

lemma monitor_never_recovers:
  "available < dm_critical_threshold m \<Longrightarrow>
     \<not> check_write_allowed (the (monitor_run m (before @ Some available # later) (Some mode)))"
  by (auto simp: monitor_run_mode check_write_allowed_def)

end
