(* ===== verification/Api_Handlers.thy ===== *)
theory Api_Handlers
  imports Keyspace Auth Degradation Engine_Admin
begin

text \<open>
  \<open>src/api/mod.rs\<close>: the handlers of the REST interface, from the parsed request to the status and the
  JSON body of the reply. Keys, values and query parameters are the bytes of their UTF-8 text.

  A handler runs with the application data \<open>app\<close>: the engine's host and options, its degradation mode,
  the JSON and regular expression crates, and the readings of clock and random source during the
  request. \<open>None\<close> means that the fuel of the index recursion in \<open>Engine_Index\<close> was too small.
  \<open>Panicked\<close> is a request that ends in a panic. Response headers and audit messages are left out.
\<close>

datatype json = JNull | JBool bool | JNum nat | JStr bytes | JArr "json list" | JObj "(string \<times> json) list"

datatype reply = Reply (status: nat) (body: json) | Panicked

record ('bl, 'c, 'k) app =
  ap_host :: "('bl, 'c, 'k) host"
  ap_json :: json_parser
  ap_regex :: "bytes \<Rightarrow> (bytes \<Rightarrow> bool) option"
  ap_fuel :: nat
  ap_options :: engine_options
  ap_mode :: degradation_mode
  ap_env :: "nat list \<Rightarrow> tick"
  ap_clock :: "nat \<Rightarrow> u128"

type_synonym ('bl, 'c, 'k) answer = "(reply \<times> ('bl, 'c, 'k) engine_core) option"

subsection \<open>Replies\<close>

definition jtext :: "string \<Rightarrow> json" where "jtext s = JStr (as_bytes s)"

definition error_reply :: "nat \<Rightarrow> string \<Rightarrow> reply" where
  "error_reply code message = Reply code (JObj [(''error'', jtext message)])"

definition failure_reply :: "nat \<Rightarrow> string \<Rightarrow> reply" where
  "failure_reply code message = Reply code (JObj [(''success'', JBool False), (''message'', jtext message)])"

definition internal_error :: reply where "internal_error = error_reply 500 ''internal server error''"

definition internal_failure :: reply where "internal_failure = failure_reply 500 ''internal server error''"

definition status_ok :: reply where "status_ok = Reply 200 (JObj [(''status'', jtext ''ok'')])"

definition success :: "(string \<times> json) list \<Rightarrow> reply" where
  "success data = Reply 200 (JObj [(''success'', JBool True), (''data'', JObj data)])"

definition rejected :: reply where "rejected = error_reply 400 ''reserved key prefix''"

definition read_only_message :: string where "read_only_message = ''engine is in read-only mode; writes are rejected''"

definition key_value :: "bytes \<times> bytes \<Rightarrow> json" where
  "key_value kv = JObj [(''key'', JStr (from_utf8_lossy (fst kv))), (''value'', JStr (from_utf8_lossy (snd kv)))]"

definition key_values :: "(bytes \<times> bytes) list \<Rightarrow> json" where "key_values kvs = JArr (map key_value kvs)"

definition optional :: "bytes option \<Rightarrow> json" where "optional s = (case s of None \<Rightarrow> JNull | Some t \<Rightarrow> JStr t)"

text \<open>The reply of a failed permission check; the texts of other authentication errors do not occur here.\<close>

definition auth_reply :: "auth_error \<Rightarrow> reply" where
  "auth_reply e = Reply (auth_status e) (JObj [(''error'', jtext ''Insufficient permissions''), (''status'', JNum (auth_status e))])"

text \<open>The early returns that the handlers share.\<close>

definition with_permission :: "permission \<Rightarrow> 'j http_request \<Rightarrow> 's \<Rightarrow> (reply \<times> 's) option \<Rightarrow> (reply \<times> 's) option" where
  "with_permission expected req s rest = (case require_permission expected req of Inl e \<Rightarrow> Some (auth_reply e, s) | Inr _ \<Rightarrow> rest)"

definition unless :: "bool \<Rightarrow> reply \<Rightarrow> 's \<Rightarrow> (reply \<times> 's) option \<Rightarrow> (reply \<times> 's) option" where
  "unless bad r s rest = (if bad then Some (r, s) else rest)"

definition reply_to :: "reply \<Rightarrow> ('a \<Rightarrow> reply) \<Rightarrow> 'a outcome \<times> 's \<Rightarrow> reply \<times> 's" where
  "reply_to failed good r = (case r of (Ok a, s) \<Rightarrow> (good a, s) | (Err _, s) \<Rightarrow> (failed, s) | (Panic, s) \<Rightarrow> (Panicked, s))"

subsection \<open>Single keys\<close>

definition get_key :: "('bl, 'c, 'k) app \<Rightarrow> 'j http_request \<Rightarrow> bytes \<Rightarrow> ('bl, 'c, 'k) engine_core \<Rightarrow> ('bl, 'c, 'k) answer" where
  "get_key A req key core =
     with_permission Read req core (
     unless (is_reserved key) rejected core (
     Some (reply_to internal_error
       (\<lambda>found. case found of
          Some value \<Rightarrow> Reply 200 (JObj [(''key'', JStr key), (''value'', JStr (from_utf8_lossy value))])
        | None \<Rightarrow> error_reply 404 ''key not found'')
       (get_cf (ap_host A) (ap_clock A 0) ''default'' key core))))"

definition ttl_nanos :: "u64 \<Rightarrow> u128" where "ttl_nanos secs = ucast secs * 1000000000"

text \<open>\<open>set_cf_with_ttl\<close> or \<open>put_cf\<close>, as the body has a TTL or not.\<close>

definition store ::
  "('bl, 'c, 'k) app \<Rightarrow> nat list \<Rightarrow> bytes \<Rightarrow> bytes \<Rightarrow> u64 option \<Rightarrow> ('bl, 'c, 'k) engine_core \<Rightarrow> (bool outcome \<times> ('bl, 'c, 'k) engine_core) option" where
  "store A path key value ttl_secs core =
     put_cf (ap_fuel A) (ap_json A) (ap_host A) (ap_env A) path (ap_options A) ''default'' key value (map_option ttl_nanos ttl_secs) core"

definition put_key ::
  "('bl, 'c, 'k) app \<Rightarrow> 'j http_request \<Rightarrow> bytes \<Rightarrow> bytes \<Rightarrow> u64 option \<Rightarrow> ('bl, 'c, 'k) engine_core \<Rightarrow> ('bl, 'c, 'k) answer" where
  "put_key A req key value ttl_secs core =
     with_permission Write req core (
     unless (\<not> check_write_allowed (ap_mode A)) (error_reply 503 read_only_message) core (
     unless (is_reserved key) rejected core (
     unless (key = []) (error_reply 400 ''key must not be empty'') core (
     unless (4096 < length key) (error_reply 400 ''key too long'') core (
     map_option (reply_to internal_error (\<lambda>_. status_ok)) (store A [] key value ttl_secs core))))))"

definition post_key ::
  "('bl, 'c, 'k) app \<Rightarrow> 'j http_request \<Rightarrow> bytes \<Rightarrow> bytes \<Rightarrow> u64 option \<Rightarrow> ('bl, 'c, 'k) engine_core \<Rightarrow> ('bl, 'c, 'k) answer" where
  "post_key A req key value ttl_secs core =
     with_permission Write req core (
     unless (is_reserved key) rejected core (
     unless (\<not> check_write_allowed (ap_mode A)) (failure_reply 503 read_only_message) core (
     unless (key = []) (failure_reply 400 ''key must not be empty'') core (
     unless (4096 < length key) (failure_reply 400 ''key too long'') core (
     map_option (reply_to internal_failure (\<lambda>_. success [(''key'', JStr key)])) (store A [] key value ttl_secs core))))))"

text \<open>The remaining time comes from the side entry of the key, read after the key itself.\<close>

definition ttl_reply :: "bytes \<Rightarrow> u128 \<Rightarrow> bytes option outcome \<Rightarrow> reply" where
  "ttl_reply key now ttl =
     (let answer = (\<lambda>secs expired. Reply 200 (JObj [(''key'', JStr key), (''ttl_secs'', secs), (''expired'', JBool expired)]))
      in case ttl of
           Panic \<Rightarrow> Panicked
         | Ok (Some ttl_raw) \<Rightarrow>
             if length ttl_raw = 16
             then let expires_at = u128_from_le ttl_raw
                  in if expires_at \<le> now then answer (JNum 0) True
                     else answer (JNum (unat (ucast ((expires_at - now) div 1000000000) :: u64))) False
             else answer JNull False
         | _ \<Rightarrow> answer JNull False)"

definition get_key_ttl :: "('bl, 'c, 'k) app \<Rightarrow> 'j http_request \<Rightarrow> bytes \<Rightarrow> ('bl, 'c, 'k) engine_core \<Rightarrow> ('bl, 'c, 'k) answer" where
  "get_key_ttl A req key core =
     with_permission Read req core (
     unless (is_reserved key) rejected core (
     Some (case get_cf (ap_host A) (ap_clock A 0) ''default'' key core of
             (Ok (Some _), core1) \<Rightarrow>
               (case get_cf (ap_host A) (ap_clock A 1) ''default'' (TTL_PREFIX @ key) core1 of
                  (ttl, core2) \<Rightarrow> (ttl_reply key (ap_clock A 2) ttl, core2))
           | (Ok None, core1) \<Rightarrow> (error_reply 404 ''key not found'', core1)
           | (Err _, core1) \<Rightarrow> (internal_error, core1)
           | (Panic, core1) \<Rightarrow> (Panicked, core1))))"

definition update_key_ttl ::
  "('bl, 'c, 'k) app \<Rightarrow> 'j http_request \<Rightarrow> bytes \<Rightarrow> u64 \<Rightarrow> ('bl, 'c, 'k) engine_core \<Rightarrow> ('bl, 'c, 'k) answer" where
  "update_key_ttl A req key ttl_secs core =
     with_permission Write req core (
     unless (\<not> check_write_allowed (ap_mode A)) (error_reply 503 read_only_message) core (
     unless (is_reserved key) rejected core (
     case get_cf (ap_host A) (ap_clock A 0) ''default'' key core of
       (Ok (Some value), core1) \<Rightarrow>
         map_option (reply_to internal_error
             (\<lambda>_. Reply 200 (JObj [(''status'', jtext ''ok''), (''key'', JStr key), (''ttl_secs'', JNum (unat ttl_secs))])))
           (store A [] key value (Some ttl_secs) core1)
     | (Ok None, core1) \<Rightarrow> Some (error_reply 404 ''key not found'', core1)
     | (Err _, core1) \<Rightarrow> Some (internal_error, core1)
     | (Panic, core1) \<Rightarrow> Some (Panicked, core1))))"

definition delete_key :: "('bl, 'c, 'k) app \<Rightarrow> 'j http_request \<Rightarrow> bytes \<Rightarrow> ('bl, 'c, 'k) engine_core \<Rightarrow> ('bl, 'c, 'k) answer" where
  "delete_key A req key core =
     with_permission Delete req core (
     unless (\<not> check_write_allowed (ap_mode A)) (error_reply 503 read_only_message) core (
     unless (is_reserved key) rejected core (
     map_option (reply_to internal_error (\<lambda>_. status_ok))
       (delete_cf (ap_fuel A) (ap_json A) (ap_host A) (ap_env A) [] (ap_options A) ''default'' key core))))"

subsection \<open>Batches and prefixes\<close>

definition batch_delete_keys ::
  "('bl, 'c, 'k) app \<Rightarrow> 'j http_request \<Rightarrow> bytes list \<Rightarrow> ('bl, 'c, 'k) engine_core \<Rightarrow> ('bl, 'c, 'k) answer" where
  "batch_delete_keys A req keys core =
     with_permission Delete req core (
     unless (list_ex is_reserved keys) rejected core (
     unless (\<not> check_write_allowed (ap_mode A)) (error_reply 503 read_only_message) core (
     unless (keys = []) (Reply 200 (JObj [(''deleted_count'', JNum 0)])) core (
     Some (reply_to internal_error (\<lambda>_. Reply 200 (JObj [(''deleted_count'', JNum (length keys))]))
       (delete_batch_cf (ap_host A) (tk_rng (ap_env A [])) (ap_clock A) (ap_options A) ''default'' keys core))))))"

definition delete_keys_by_prefix ::
  "('bl, 'c, 'k) app \<Rightarrow> 'j http_request \<Rightarrow> bytes option \<Rightarrow> ('bl, 'c, 'k) engine_core \<Rightarrow> ('bl, 'c, 'k) answer" where
  "delete_keys_by_prefix A req prefix core =
     with_permission Delete req core (
     unless (\<not> check_write_allowed (ap_mode A)) (error_reply 503 read_only_message) core (
     unless (prefix = None \<or> prefix = Some []) (error_reply 400 ''prefix query parameter is required'') core (
     let prefix = the prefix
     in unless (is_reserved prefix \<or> starts_with prefix (as_bytes ''__'')) rejected core (
        Some (reply_to internal_error (\<lambda>_. Reply 200 (JObj [(''status'', jtext ''ok''), (''prefix'', JStr prefix)]))
          (delete_range_cf (ap_host A) (tk_rng (ap_env A [])) (ap_clock A 0) (ap_clock A 1) ''default'' prefix
             (case prefix_end prefix of Some upper \<Rightarrow> upper | None \<Rightarrow> []) core))))))"

record batch_record =
  bx_key :: bytes
  bx_value :: bytes
  bx_ttl_secs :: "u64 option"

definition MAX_BATCH_SIZE :: nat where "MAX_BATCH_SIZE = 1000"

text \<open>The writes of a batch; the count is that of the successful ones.\<close>

fun store_each ::
  "('bl, 'c, 'k) app \<Rightarrow> nat \<Rightarrow> batch_record list \<Rightarrow> nat \<Rightarrow> ('bl, 'c, 'k) engine_core \<Rightarrow> ('bl, 'c, 'k) answer" where
  "store_each A i [] count core = Some (success [(''count'', JNum count)], core)"
| "store_each A i (r # rs) count core =
     (case store A [i] (bx_key r) (bx_value r) (bx_ttl_secs r) core of
        None \<Rightarrow> None
      | Some (Ok _, core1) \<Rightarrow> store_each A (Suc i) rs (Suc count) core1
      | Some (Err _, core1) \<Rightarrow> store_each A (Suc i) rs count core1
      | Some (Panic, core1) \<Rightarrow> Some (Panicked, core1))"

text \<open>The texts that name the size of the batch or the length of the key are shortened to their constant part.\<close>

definition batch_key_error :: "bytes \<Rightarrow> reply option" where
  "batch_key_error key =
     (if key = [] then Some (failure_reply 400 ''key must not be empty'')
      else if 4096 < length key then Some (failure_reply 400 ''key too long'')
      else None)"

definition batch_keys ::
  "('bl, 'c, 'k) app \<Rightarrow> 'j http_request \<Rightarrow> batch_record list \<Rightarrow> ('bl, 'c, 'k) engine_core \<Rightarrow> ('bl, 'c, 'k) answer" where
  "batch_keys A req records core =
     with_permission Write req core (
     unless (list_ex (\<lambda>r. is_reserved (bx_key r)) records) rejected core (
     unless (\<not> check_write_allowed (ap_mode A)) (failure_reply 503 read_only_message) core (
     unless (MAX_BATCH_SIZE < length records) (failure_reply 400 ''batch size exceeds maximum'') core (
     case List.map_filter (\<lambda>r. batch_key_error (bx_key r)) records of
       e # _ \<Rightarrow> Some (e, core)
     | [] \<Rightarrow> store_each A 0 records 0 core))))"

subsection \<open>Listings\<close>

definition scan_limit_of :: "nat option \<Rightarrow> nat" where
  "scan_limit_of limit = min (case limit of None \<Rightarrow> 100 | Some l \<Rightarrow> l) MAX_SCAN_LIMIT"

definition get_keys ::
  "('bl, 'c, 'k) app \<Rightarrow> 'j http_request \<Rightarrow> bytes option \<Rightarrow> bytes option \<Rightarrow> nat option \<Rightarrow> ('bl, 'c, 'k) engine_core \<Rightarrow> ('bl, 'c, 'k) answer" where
  "get_keys A req prefix cursor limit core =
     with_permission Read req core (
     unless (case prefix of Some p \<Rightarrow> is_reserved p | None \<Rightarrow> False) rejected core (
     let limit = scan_limit_of limit; names = (\<lambda>rows. JArr (map (\<lambda>(k, _). JStr (from_utf8_lossy k)) rows))
     in Some (case prefix of
          Some p \<Rightarrow>
            reply_to internal_error (\<lambda>(rows, new_cursor). Reply 200 (JObj [(''keys'', names rows), (''cursor'', optional new_cursor)]))
              (keyspace_prefix (ap_host A) (ap_clock A) p cursor limit core)
        | None \<Rightarrow>
            reply_to internal_error (\<lambda>rows. Reply 200 (JObj [(''keys'', names (take limit rows))]))
              (keyspace_scan (ap_host A) (ap_clock A) None None limit core))))"

text \<open>
  \<open>keys_range\<close> and \<open>scan_keys\<close> page with the same code: they scan from the cursor on for one entry
  more than the limit, drop the entry of the cursor and look whether more than the limit is left.
\<close>

definition page_of :: "bytes option \<Rightarrow> nat \<Rightarrow> (bytes \<times> bytes) list \<Rightarrow> (bytes \<times> bytes) list \<times> bytes option \<times> bool" where
  "page_of cursor limit rows =
     (let records = dropWhile (\<lambda>(k, _). cursor = Some k) rows;
          has_more = limit < length records;
          records = take limit records;
          new_cursor = (if has_more \<and> records \<noteq> [] \<and> is_utf8 (fst (last records)) then Some (fst (last records)) else None)
      in (records, new_cursor, has_more))"

definition scan_page ::
  "('bl, 'c, 'k) app \<Rightarrow> bytes option \<Rightarrow> bytes option \<Rightarrow> bytes option \<Rightarrow> nat option \<Rightarrow> ('bl, 'c, 'k) engine_core
   \<Rightarrow> ((bytes \<times> bytes) list \<times> bytes option \<times> bool) outcome \<times> ('bl, 'c, 'k) engine_core" where
  "scan_page A lower upper cursor limit core =
     (let limit = scan_limit_of limit; lower = (case cursor of Some c \<Rightarrow> Some c | None \<Rightarrow> lower)
      in bind_st (keyspace_scan (ap_host A) (ap_clock A) lower upper (limit + 1) core) (\<lambda>rows core1.
           (Ok (page_of cursor limit rows), core1)))"

definition keys_range ::
  "('bl, 'c, 'k) app \<Rightarrow> 'j http_request \<Rightarrow> bytes option \<Rightarrow> bytes option \<Rightarrow> bytes option \<Rightarrow> nat option \<Rightarrow> ('bl, 'c, 'k) engine_core
   \<Rightarrow> ('bl, 'c, 'k) answer" where
  "keys_range A req lower upper cursor limit core =
     with_permission Read req core (
     Some (reply_to internal_error
       (\<lambda>(records, new_cursor, has_more).
          Reply 200 (JObj [(''keys'', key_values records), (''cursor'', optional new_cursor), (''has_more'', JBool has_more)]))
       (scan_page A lower upper cursor limit core)))"

definition scan_keys ::
  "('bl, 'c, 'k) app \<Rightarrow> 'j http_request \<Rightarrow> bytes option \<Rightarrow> bytes option \<Rightarrow> bytes option \<Rightarrow> nat option \<Rightarrow> ('bl, 'c, 'k) engine_core
   \<Rightarrow> ('bl, 'c, 'k) answer" where
  "scan_keys A req lower upper cursor limit core =
     with_permission Read req core (
     Some (reply_to internal_failure
       (\<lambda>(records, new_cursor, has_more).
          success [(''records'', key_values records), (''cursor'', optional new_cursor), (''has_more'', JBool has_more)])
       (scan_page A lower upper cursor limit core)))"

subsection \<open>Searches\<close>

definition search_keys ::
  "('bl, 'c, 'k) app \<Rightarrow> 'j http_request \<Rightarrow> bytes option \<Rightarrow> bytes option \<Rightarrow> bytes option \<Rightarrow> bytes option \<Rightarrow> nat option
   \<Rightarrow> ('bl, 'c, 'k) engine_core \<Rightarrow> ('bl, 'c, 'k) answer" where
  "search_keys A req q prefix mode cursor limit core =
     with_permission Read req core (
     let limit = scan_limit_of limit;
         query_str = (case q of Some t \<Rightarrow> t | None \<Rightarrow> case prefix of Some t \<Rightarrow> t | None \<Rightarrow> []);
         mode = (case mode of Some m \<Rightarrow> m | None \<Rightarrow> as_bytes ''prefix'')
     in unless (is_reserved query_str) rejected core (
        if mode = as_bytes ''contains'' \<or> mode = as_bytes ''substring'' then
          Some (reply_to internal_error (\<lambda>rows. success [(''records'', key_values rows)])
            (scan_matching (ap_host A) (ap_clock A) None None limit (\<lambda>key _. contains_bytes query_str (from_utf8_lossy key)) core))
        else if mode = as_bytes ''regex'' then
          (case ap_regex A query_str of
             None \<Rightarrow> Some (error_reply 400 ''invalid regex'', core)
           | Some is_match \<Rightarrow>
               Some (reply_to internal_error
                 (\<lambda>rows. success [(''records'', key_values (take limit (List.filter (\<lambda>(k, _). is_match (from_utf8_lossy k)) rows)))])
                 (keyspace_scan (ap_host A) (ap_clock A) None None 10000 core)))
        else
          Some (reply_to internal_failure
            (\<lambda>(rows, new_cursor). success [(''records'', key_values rows), (''cursor'', optional new_cursor)])
            (keyspace_prefix (ap_host A) (ap_clock A) query_str cursor limit core))))"

definition value_search_keys ::
  "('bl, 'c, 'k) app \<Rightarrow> 'j http_request \<Rightarrow> bytes option \<Rightarrow> nat option \<Rightarrow> ('bl, 'c, 'k) engine_core \<Rightarrow> ('bl, 'c, 'k) answer" where
  "value_search_keys A req q limit core =
     with_permission Read req core (
     unless (q = None \<or> q = Some []) (error_reply 400 ''q parameter is required'') core (
     Some (reply_to internal_error (\<lambda>rows. success [(''records'', key_values rows)])
       (scan_matching (ap_host A) (ap_clock A) None None (min (case limit of None \<Rightarrow> 100 | Some l \<Rightarrow> l) 100)
          (\<lambda>_ value. contains_bytes (the q) (from_utf8_lossy value)) core))))"

subsection \<open>Secondary indexes\<close>

definition query_by_index ::
  "('bl, 'c, 'k) app \<Rightarrow> 'j http_request \<Rightarrow> bytes option \<Rightarrow> bytes option \<Rightarrow> nat option \<Rightarrow> ('bl, 'c, 'k) engine_core \<Rightarrow> ('bl, 'c, 'k) answer" where
  "query_by_index A req idx eq limit core =
     with_permission Read req core (
     unless (idx = None) (error_reply 400 ''index parameter is required'') core (
     unless (eq = None) (error_reply 400 ''eq parameter is required'') core (
     Some (reply_to internal_error
       (\<lambda>rows. success [(''records'', key_values (List.filter (\<lambda>(key, _). \<not> is_reserved key) rows))])
       (query_index (ap_json A) (ap_host A) (ap_clock A 0) ''default'' (the idx) (the eq)
          (min (case limit of None \<Rightarrow> 100 | Some l \<Rightarrow> l) 1000) core)))))"

definition create_index_handler ::
  "('bl, 'c, 'k) app \<Rightarrow> 'j http_request \<Rightarrow> bytes \<Rightarrow> bytes \<Rightarrow> ('bl, 'c, 'k) engine_core \<Rightarrow> ('bl, 'c, 'k) answer" where
  "create_index_handler A req key field core =
     with_permission Write req core (
     unless (is_reserved key) rejected core (
     map_option (reply_to internal_error
         (\<lambda>_. Reply 200 (JObj [(''status'', jtext ''ok''), (''key'', JStr key), (''field'', JStr field)])))
       (create_index (ap_fuel A) (ap_json A) (ap_host A) (ap_env A) (ap_options A) ''default'' field core)))"

definition list_indexes_handler :: "('bl, 'c, 'k) app \<Rightarrow> 'j http_request \<Rightarrow> ('bl, 'c, 'k) engine_core \<Rightarrow> ('bl, 'c, 'k) answer" where
  "list_indexes_handler A req core =
     with_permission Read req core (
     Some (reply_to internal_error (\<lambda>fs. Reply 200 (JObj [(''indexes'', JArr (map JStr fs))]))
       (list_indexes (ap_host A) (ap_clock A 0) core)))"

subsection \<open>Statistics and administration\<close>

definition get_stats :: "'j http_request \<Rightarrow> ('bl, 'c, 'k) engine_core \<Rightarrow> ('bl, 'c, 'k) answer" where
  "get_stats req core =
     with_permission Read req core (
     let s = engine_stats ''default'' core
     in Some (Reply 200 (JObj
          [(''sst_files'', JNum (vst_sst_files s)), (''sst_kb'', JNum (vst_sst_kb s)), (''mem_records'', JNum (st_mem_records s)),
           (''mem_kb'', JNum (st_mem_kb s)), (''wal_kb'', JNum (st_wal_kb s)), (''total_records'', JNum (vst_total_records s)),
           (''quarantined_sstables'', JNum (st_quarantined_sstables s)), (''unreadable_sstables'', JNum (st_unreadable_sstables s)),
           (''degraded_bloom_sstables'', JNum (st_degraded_bloom_sstables s)), (''max_levels_reached'', JNum (vst_max_levels_reached s))]), core))"

definition get_stats_all :: "'j http_request \<Rightarrow> ('bl, 'c, 'k) engine_core \<Rightarrow> ('bl, 'c, 'k) answer" where
  "get_stats_all req core =
     with_permission Read req core (
     let s = engine_stats ''default'' core
     in Some (success
          [(''mem_records'', JNum (st_mem_records s)), (''mem_kb'', JNum (st_mem_kb s)), (''sst_kb'', JNum (vst_sst_kb s)),
           (''sst_files'', JNum (vst_sst_files s)), (''wal_kb'', JNum (st_wal_kb s)), (''total_records'', JNum (vst_total_records s)),
           (''quarantined_sstables'', JNum (st_quarantined_sstables s)), (''unreadable_sstables'', JNum (st_unreadable_sstables s)),
           (''degraded_bloom_sstables'', JNum (st_degraded_bloom_sstables s))], core))"

definition admin_flush :: "('bl, 'c, 'k) app \<Rightarrow> 'j http_request \<Rightarrow> ('bl, 'c, 'k) engine_core \<Rightarrow> ('bl, 'c, 'k) answer" where
  "admin_flush A req core =
     with_permission Admin req core (
     unless (\<not> check_write_allowed (ap_mode A)) (error_reply 503 read_only_message) core (
     Some (reply_to (error_reply 500 ''flush failed'') (\<lambda>_. status_ok)
       (flush_memtable_impl (ap_host A) (tk_rng (ap_env A [])) (ap_clock A 0) (ap_options A) ''default'' core))))"

text \<open>Every compaction has its own readings of the clock.\<close>

definition admin_compact :: "('bl, 'c, 'k) app \<Rightarrow> 'j http_request \<Rightarrow> ('bl, 'c, 'k) engine_core \<Rightarrow> ('bl, 'c, 'k) answer" where
  "admin_compact A req core =
     with_permission Admin req core (
     unless (\<not> check_write_allowed (ap_mode A)) (error_reply 503 read_only_message) core (
     Some (reply_to (error_reply 500 ''compaction failed'')
       (\<lambda>results. Reply 200 (JObj [(''compactions'', JArr (map (\<lambda>(cf, m).
          JObj [(''cf'', jtext cf), (''files_merged'', JNum (cm_files_merged m)), (''bytes_read'', JNum (unat (cm_bytes_read m))),
                (''bytes_written'', JNum (unat (cm_bytes_written m)))]) results))]))
       (compact_every_cf (ap_host A) (tk_rng (ap_env A [])) (\<lambda>i j. tk_now (ap_env A [i, j])) (ap_options A) core))))"

end
