(* ===== verification/Api_Transactions.thy ===== *)
theory Api_Transactions
  imports Api_Handlers Transaction_Correct
begin

text \<open>
  \<open>src/api/transactions.rs\<close>, the open transactions of REST clients, and the transaction handlers of
  \<open>src/api/mod.rs\<close>. A transaction belongs to the token that began it, expires after a fixed time and
  counts against the limits of its owner and of the server.

  UUIDs are 128-bit numbers; making one from random bytes, reading and printing it are functions of
  the UUID crate (\<open>uuid_crate\<close>). A moment of the monotonic clock is a number of nanoseconds.
\<close>

datatype owner = Token string | Anonymous

definition owner_of :: "'j http_request \<Rightarrow> permission \<Rightarrow> reply + owner" where
  "owner_of req permission =
     (case require_permission permission req of
        Inl e \<Rightarrow> Inl (auth_reply e)
      | Inr _ \<Rightarrow>
          if rq_auth_enabled req = Some False then Inr Anonymous
          else case rq_token req of Some token \<Rightarrow> Inr (Token (at_id token)) | None \<Rightarrow> Inl (Reply 401 JNull))"

record active_transaction =
  ac_owner :: owner
  ac_created_at :: nat
  ac_transaction :: transaction

datatype transaction_error = TxnNotFound | TxnCapacity | TxnIdentifier

definition txn_error_reply :: "transaction_error \<Rightarrow> reply" where
  "txn_error_reply e =
     (case e of
        TxnNotFound \<Rightarrow> error_reply 404 ''transaction not found''
      | TxnCapacity \<Rightarrow> error_reply 429 ''too many open transactions''
      | TxnIdentifier \<Rightarrow> error_reply 503 ''secure transaction identifier unavailable'')"

record uuid_crate =
  uc_from_random :: "bytes \<Rightarrow> u128"
  uc_parse :: "bytes \<Rightarrow> u128 option"
  uc_text :: "u128 \<Rightarrow> bytes"

type_synonym entries = "(u128 \<times> active_transaction) list"

record transaction_manager =
  xm_transactions :: entries
  xm_lifetime :: nat
  xm_max_per_owner :: nat
  xm_max_total :: nat

definition with_limits :: "nat \<Rightarrow> nat \<Rightarrow> nat \<Rightarrow> transaction_manager" where
  "with_limits lifetime max_per_owner max_total =
     \<lparr>xm_transactions = [], xm_lifetime = lifetime, xm_max_per_owner = max_per_owner, xm_max_total = max_total\<rparr>"

definition transaction_manager_new :: transaction_manager where
  "transaction_manager_new = with_limits 300000000000 32 1024"

definition unexpired :: "nat \<Rightarrow> nat \<Rightarrow> entries \<Rightarrow> entries" where
  "unexpired lifetime now entries = List.filter (\<lambda>(_, entry). now - ac_created_at entry < lifetime) entries"

definition txn_prune :: "nat \<Rightarrow> transaction_manager \<Rightarrow> transaction_manager" where
  "txn_prune now m = m\<lparr>xm_transactions := unexpired (xm_lifetime m) now (xm_transactions m)\<rparr>"

definition owned_by :: "owner \<Rightarrow> entries \<Rightarrow> nat" where
  "owned_by owner entries = length (List.filter (\<lambda>(_, entry). ac_owner entry = owner) entries)"

text \<open>The tries for an identifier that is not in use, each with fresh random bytes.\<close>

fun fresh_id :: "uuid_crate \<Rightarrow> bytes option list \<Rightarrow> entries \<Rightarrow> transaction_error + u128" where
  "fresh_id U [] entries = Inl TxnIdentifier"
| "fresh_id U (None # draws) entries = Inl TxnIdentifier"
| "fresh_id U (Some bs # draws) entries =
     (let i = uc_from_random U bs in if map_of entries i = None then Inr i else fresh_id U draws entries)"

definition begin_txn_for ::
  "uuid_crate \<Rightarrow> (nat \<Rightarrow> bytes option) \<Rightarrow> nat \<Rightarrow> owner \<Rightarrow> u64 \<Rightarrow> transaction_manager \<Rightarrow> (transaction_error + u128) \<times> u64 \<times> transaction_manager" where
  "begin_txn_for U rng now owner next_txn_id m =
     (let m1 = txn_prune now m; entries = xm_transactions m1
      in if xm_lifetime m = 0 \<or> xm_max_total m \<le> length entries \<or> xm_max_per_owner m \<le> owned_by owner entries
         then (Inl TxnCapacity, next_txn_id, m1)
         else case fresh_id U (map rng [0..<8]) entries of
                Inl e \<Rightarrow> (Inl e, next_txn_id, m1)
              | Inr i \<Rightarrow>
                  (case txn_new next_txn_id of
                     (t, next') \<Rightarrow>
                       (Inr i, next', m1\<lparr>xm_transactions := (i, \<lparr>ac_owner = owner, ac_created_at = now, ac_transaction = t\<rparr>) # entries\<rparr>)))"

definition with_transaction ::
  "uuid_crate \<Rightarrow> nat \<Rightarrow> bytes \<Rightarrow> owner \<Rightarrow> (transaction \<Rightarrow> transaction) \<Rightarrow> transaction_manager \<Rightarrow> (transaction_error + unit) \<times> transaction_manager" where
  "with_transaction U now txn_id owner change m =
     (let m1 = txn_prune now m
      in case uc_parse U txn_id of
           None \<Rightarrow> (Inl TxnNotFound, m1)
         | Some i \<Rightarrow>
             (case map_of (xm_transactions m1) i of
                None \<Rightarrow> (Inl TxnNotFound, m1)
              | Some entry \<Rightarrow>
                  if ac_owner entry \<noteq> owner then (Inl TxnNotFound, m1)
                  else (Inr (), m1\<lparr>xm_transactions :=
                          AList.update i (entry\<lparr>ac_transaction := change (ac_transaction entry)\<rparr>) (xm_transactions m1)\<rparr>)))"

definition take_txn :: "uuid_crate \<Rightarrow> nat \<Rightarrow> bytes \<Rightarrow> owner \<Rightarrow> transaction_manager \<Rightarrow> (transaction_error + transaction) \<times> transaction_manager" where
  "take_txn U now txn_id owner m =
     (let m1 = txn_prune now m
      in case uc_parse U txn_id of
           None \<Rightarrow> (Inl TxnNotFound, m1)
         | Some i \<Rightarrow>
             (case map_of (xm_transactions m1) i of
                None \<Rightarrow> (Inl TxnNotFound, m1)
              | Some entry \<Rightarrow>
                  if ac_owner entry \<noteq> owner then (Inl TxnNotFound, m1)
                  else (Inr (ac_transaction entry), m1\<lparr>xm_transactions := AList.delete i (xm_transactions m1)\<rparr>)))"

subsection \<open>Handlers\<close>

text \<open>The state that the handlers share; \<open>sv_next_txn_id\<close> is the counter of the engine's transactions.\<close>

record ('bl, 'c, 'k) server =
  sv_core :: "('bl, 'c, 'k) engine_core"
  sv_txns :: transaction_manager
  sv_next_txn_id :: u64

text \<open>What a request brings along besides the application data: its readings of the monotonic clock and of the random source.\<close>

record arrival =
  ar_now :: nat
  ar_rng :: "nat \<Rightarrow> bytes option"

definition with_owner ::
  "permission \<Rightarrow> 'j http_request \<Rightarrow> 's \<Rightarrow> (owner \<Rightarrow> reply \<times> 's) \<Rightarrow> reply \<times> 's" where
  "with_owner permission req s rest = (case owner_of req permission of Inl r \<Rightarrow> (r, s) | Inr owner \<Rightarrow> rest owner)"

definition begin_txn ::
  "uuid_crate \<Rightarrow> arrival \<Rightarrow> 'j http_request \<Rightarrow> ('bl, 'c, 'k) server \<Rightarrow> reply \<times> ('bl, 'c, 'k) server" where
  "begin_txn U ar req s =
     with_owner Write req s (\<lambda>owner.
     case begin_txn_for U (ar_rng ar) (ar_now ar) owner (sv_next_txn_id s) (sv_txns s) of
       (res, next_txn_id, m) \<Rightarrow>
         (case res of
            Inl e \<Rightarrow> txn_error_reply e
          | Inr i \<Rightarrow> Reply 200 (JObj [(''txn_id'', JStr (uc_text U i))]),
          s\<lparr>sv_txns := m, sv_next_txn_id := next_txn_id\<rparr>))"

text \<open>Staging a write: the checks that \<open>txn_put\<close> and \<open>txn_delete\<close> share.\<close>

definition stage ::
  "uuid_crate \<Rightarrow> arrival \<Rightarrow> degradation_mode \<Rightarrow> owner \<Rightarrow> bytes \<Rightarrow> bytes \<Rightarrow> (transaction \<Rightarrow> transaction) \<Rightarrow> ('bl, 'c, 'k) server
   \<Rightarrow> reply \<times> ('bl, 'c, 'k) server" where
  "stage U ar mode owner txn_id key change s =
     (if is_reserved key then (rejected, s)
      else if \<not> check_write_allowed mode then (error_reply 503 read_only_message, s)
      else case with_transaction U (ar_now ar) txn_id owner change (sv_txns s) of
             (res, m) \<Rightarrow> (case res of Inl e \<Rightarrow> txn_error_reply e | Inr _ \<Rightarrow> status_ok, s\<lparr>sv_txns := m\<rparr>))"

definition txn_put_handler ::
  "uuid_crate \<Rightarrow> arrival \<Rightarrow> degradation_mode \<Rightarrow> 'j http_request \<Rightarrow> bytes \<Rightarrow> bytes \<Rightarrow> bytes \<Rightarrow> string option \<Rightarrow> ('bl, 'c, 'k) server
   \<Rightarrow> reply \<times> ('bl, 'c, 'k) server" where
  "txn_put_handler U ar mode req txn_id key value cf s =
     with_owner Write req s (\<lambda>owner.
     stage U ar mode owner txn_id key (txn_put_cf (case cf of Some c \<Rightarrow> c | None \<Rightarrow> ''default'') key value) s)"

definition txn_delete_handler ::
  "uuid_crate \<Rightarrow> arrival \<Rightarrow> degradation_mode \<Rightarrow> 'j http_request \<Rightarrow> bytes \<Rightarrow> bytes \<Rightarrow> string option \<Rightarrow> ('bl, 'c, 'k) server
   \<Rightarrow> reply \<times> ('bl, 'c, 'k) server" where
  "txn_delete_handler U ar mode req txn_id key cf s =
     with_owner Delete req s (\<lambda>owner.
     stage U ar mode owner txn_id key (txn_delete_cf (case cf of Some c \<Rightarrow> c | None \<Rightarrow> ''default'') key) s)"

definition txn_done :: "bytes \<Rightarrow> reply" where
  "txn_done txn_id = Reply 200 (JObj [(''status'', jtext ''ok''), (''txn_id'', JStr txn_id)])"

text \<open>A commit does not look at the degradation mode.\<close>

definition txn_commit_handler ::
  "('bl, 'c, 'k) app \<Rightarrow> uuid_crate \<Rightarrow> arrival \<Rightarrow> 'j http_request \<Rightarrow> bytes \<Rightarrow> ('bl, 'c, 'k) server \<Rightarrow> reply \<times> ('bl, 'c, 'k) server" where
  "txn_commit_handler A U ar req txn_id s =
     with_owner Write req s (\<lambda>owner.
     case take_txn U (ar_now ar) txn_id owner (sv_txns s) of
       (Inl e, m) \<Rightarrow> (txn_error_reply e, s\<lparr>sv_txns := m\<rparr>)
     | (Inr t, m) \<Rightarrow>
         (case txn_commit (ap_host A) (tk_rng (ap_env A [])) (ap_clock A) (ap_options A) t (sv_core s) of
            (res, core, _) \<Rightarrow>
              (case res of Ok _ \<Rightarrow> txn_done txn_id | Err _ \<Rightarrow> error_reply 500 ''commit failed'' | Panic \<Rightarrow> Panicked,
               s\<lparr>sv_core := core, sv_txns := m\<rparr>)))"

definition txn_rollback_handler ::
  "uuid_crate \<Rightarrow> arrival \<Rightarrow> 'j http_request \<Rightarrow> bytes \<Rightarrow> ('bl, 'c, 'k) server \<Rightarrow> reply \<times> ('bl, 'c, 'k) server" where
  "txn_rollback_handler U ar req txn_id s =
     with_owner Write req s (\<lambda>owner.
     case take_txn U (ar_now ar) txn_id owner (sv_txns s) of
       (Inl e, m) \<Rightarrow> (txn_error_reply e, s\<lparr>sv_txns := m\<rparr>)
     | (Inr t, m) \<Rightarrow> (txn_done txn_id, s\<lparr>sv_txns := m\<rparr>))"

end
