(* ===== verification/Engine_Effects.thy ===== *)
theory Engine_Effects
  imports Keyspace
begin

text \<open>
  What the engine's read operations may change, whatever the state and the files are: caches and the
  list of files found unreadable. The memtables, the logs, the tables and the files stay.
\<close>

definition only_read :: "('bl, 'c, 'k) engine_core \<Rightarrow> ('bl, 'c, 'k) engine_core \<Rightarrow> bool" where
  "only_read core core' \<longleftrightarrow>
     vs_tables (co_version_set core') = vs_tables (co_version_set core) \<and> core' = core\<lparr>co_version_set := co_version_set core'\<rparr>"

lemma only_read_refl [simp]: "only_read core core"
  by (simp add: only_read_def)

lemma only_read_trans:
  assumes "only_read core core1" "only_read core1 core2"
  shows "only_read core core2"
proof -
  have c1: "core1 = core\<lparr>co_version_set := co_version_set core1\<rparr>" and c2: "core2 = core1\<lparr>co_version_set := co_version_set core2\<rparr>"
    using assms by (auto simp: only_read_def)
  have "core2 = core\<lparr>co_version_set := co_version_set core2\<rparr>" by (subst c2, subst c1) simp
  then show ?thesis using assms by (simp add: only_read_def)
qed

lemma only_read_bind:
  assumes "only_read core (snd r)" "\<And>a c. only_read c (snd (f a c))"
  shows "only_read core (snd (bind_st r f))"
  using assms only_read_trans by (cases "(r, f)" rule: bind_st.cases) fastforce+

lemma only_read_version_set:
  assumes "\<And>a vs'. f (co_version_set core) = Ok (a, vs') \<Longrightarrow> vs_tables vs' = vs_tables (co_version_set core)"
  shows "only_read core (snd (on_version_set f core))"
  using assms by (auto simp: on_version_set_def only_read_def split: outcome.splits)

lemma and_then_Ok: "and_then r f = Ok x \<longleftrightarrow> (\<exists>a. r = Ok a \<and> f a = Ok x)"
  by (cases r) auto

lemma record_lookup_tables: "record_lookup H disk key ts vs = Ok (v, vs') \<Longrightarrow> vs_tables vs' = vs_tables vs"
proof (induction ts arbitrary: vs)
  case (Cons t ts)
  show ?case
    using Cons.prems
    by (cases "tb_path t") (auto simp: and_then_Ok keep_block_cache_def case_prod_beta dest!: Cons.IH split: if_splits option.splits)
qed simp

lemma value_lookup_tables: "value_lookup H disk now key ts vs = Ok (v, vs') \<Longrightarrow> vs_tables vs' = vs_tables vs"
proof (induction ts arbitrary: vs)
  case (Cons t ts)
  show ?case
    using Cons.prems
    by (auto simp: quarantine_path_def put_cached_def Let_def dest!: Cons.IH split: if_splits option.splits list.splits outcome.splits prod.splits)
qed simp

lemma record_iters_tables: "record_iters H disk lower upper ts iters vs = Ok (its, vs') \<Longrightarrow> vs_tables vs' = vs_tables vs"
  by (induction ts arbitrary: iters vs) (fastforce simp: and_then_Ok keep_block_cache_def case_prod_beta split: if_splits option.splits)+

lemma vs_get_tables: "vs_get H disk now cf key vs = Ok (v, vs') \<Longrightarrow> vs_tables vs' = vs_tables vs"
  by (auto simp: vs_get_def dest: value_lookup_tables split: option.splits)

lemma vs_get_record_tables: "vs_get_record H disk cf key vs = Ok (v, vs') \<Longrightarrow> vs_tables vs' = vs_tables vs"
  by (auto simp: vs_get_record_def dest: record_lookup_tables split: option.splits)

lemma record_iters_in_range_tables: "record_iters_in_range H disk cf lower upper vs = Ok (its, vs') \<Longrightarrow> vs_tables vs' = vs_tables vs"
  by (auto simp: record_iters_in_range_def dest: record_iters_tables split: option.splits)

lemma visible_loop_tables: "visible_loop H disk now cf covering lower upper limit m vs = Ok (rows, vs') \<Longrightarrow> vs_tables vs' = vs_tables vs"
proof (induction H disk now cf covering lower upper limit m vs arbitrary: rows vs' rule: visible_loop.induct)
  case (1 H disk now cf covering lower upper limit m vs)
  have l: "vs_tables vs1 = vs_tables vs" if "legacy_expired H disk now cf (mg_key m) (mg_record m) vs = Ok (b, vs1)" for b vs1
    using that by (auto simp: legacy_expired_def and_then_Ok dest: vs_get_tables split: option.splits)
  show ?case
  proof (cases "mg_is_valid m \<and> 0 < limit \<and> \<not> (case upper of Some ub \<Rightarrow> ub \<le> mg_key m | None \<Rightarrow> False)")
    case False
    then show ?thesis using "1.prems" by (subst (asm) visible_loop.simps) (auto simp: Let_def split: if_splits)
  next
    case go: True
    show ?thesis
    proof (cases "(case lower of Some lb \<Rightarrow> mg_key m < lb | None \<Rightarrow> False) \<or> starts_with TTL_PREFIX (mg_key m)")
      case True
      have "visible_loop H disk now cf covering lower upper limit (mg_next m) vs = Ok (rows, vs')"
        using "1.prems" go True by (subst (asm) visible_loop.simps) (simp add: Let_def)
      then show ?thesis using "1.IH"(1) go True by blast
    next
      case False
      obtain b vs1 where e: "legacy_expired H disk now cf (mg_key m) (mg_record m) vs = Ok (b, vs1)"
        using "1.prems" go False by (subst (asm) visible_loop.simps) (auto simp: Let_def and_then_Ok)
      show ?thesis
      proof (cases "\<not> hidden now covering (mg_key m) (mg_value m) (mg_record m) \<and> \<not> b")
        case True
        obtain rest where "visible_loop H disk now cf covering lower upper (limit - 1) (mg_next m) vs1 = Ok (rest, vs')"
          using "1.prems" go False e True by (subst (asm) visible_loop.simps) (auto simp: Let_def and_then_Ok)
        then show ?thesis using "1.IH"(2) go False e True l [OF e] by (metis prod.collapse)
      next
        case show_not: False
        have "visible_loop H disk now cf covering lower upper limit (mg_next m) vs1 = Ok (rows, vs')"
          using "1.prems" go False e show_not by (subst (asm) visible_loop.simps) (auto simp: Let_def)
        then show ?thesis using "1.IH"(3) go False e show_not l [OF e] by (metis prod.collapse)
      qed
    qed
  qed
qed

lemma only_read_get: "only_read core (snd (get_cf H now cf key core))"
  unfolding get_cf_def Let_def check_ttl_def
  by (auto simp: check_ttl_def dest: vs_get_tables vs_get_record_tables intro!: only_read_bind only_read_version_set split: option.split)

lemma only_read_scan: "only_read core (snd (scan_cf H now cf lower upper limit core))"
  unfolding scan_cf_def for_each_visible_record_def Let_def
  by (auto dest: visible_loop_tables record_iters_in_range_tables intro!: only_read_bind only_read_version_set split: option.split)

lemma only_read_search_prefix: "only_read core (snd (search_prefix H now p cursor limit core))"
  unfolding search_prefix_def Let_def by (auto intro!: only_read_bind only_read_scan)

lemma only_read_fetch: "only_read core (snd (fetch_each H now cf keep limit pks core))"
proof (induction pks arbitrary: limit core)
  case (Cons pk pks)
  obtain res core1 where g: "get_cf H now cf pk core = (res, core1)" by fastforce
  then have c: "only_read core core1" using only_read_get [of core H now cf pk] by simp
  have "only_read core1 (snd (bind_st (fetch_each H now cf keep l pks core1) f))" if "\<And>a c. only_read c (snd (f a c))" for l and f :: "_ \<Rightarrow> _ \<Rightarrow> (bytes \<times> bytes) list outcome \<times> _"
    by (rule only_read_bind [OF Cons.IH that])
  then show ?case using g c by (auto simp: Let_def only_read_trans split: outcome.split)
qed simp

lemma only_read_collect_loop: "only_read core (snd (collect_loop H clock i upper limit budget matches cursor examined out core))"
proof (induction H clock i upper limit budget matches cursor examined out core rule: collect_loop.induct)
  case (1 H clock i upper limit budget matches cursor examined out core)
  obtain res core1 where s: "scan_cf H (clock i) ''default'' cursor upper (Some (min (budget - examined) 256)) core = (res, core1)" by fastforce
  then have c: "only_read core core1"
    using only_read_scan [of core H "clock i" "''default''" cursor upper "Some (min (budget - examined) 256)"] by simp
  show ?case
    using "1.IH" s c by (subst collect_loop.simps) (auto simp: Let_def intro: only_read_trans split: outcome.split)
qed

lemma only_read_keyspace:
  "only_read core (snd (keyspace_scan H clock lower upper limit core))"
  "only_read core (snd (scan_matching H clock lower upper limit matches core))"
  "only_read core (snd (keyspace_prefix H clock p cursor limit core))"
  by (auto simp: keyspace_scan_def scan_matching_def collect_def keyspace_prefix_def Let_def only_read_collect_loop intro!: only_read_bind)

lemma only_read_indexes:
  "only_read core (snd (query_index J H now cf fs vs limit core))" "only_read core (snd (list_indexes H now core))"
  by (auto simp: query_index_def list_indexes_def Let_def intro!: only_read_bind only_read_search_prefix only_read_fetch)

end
