(* ===== verification/Api.thy ===== *)
theory Api
  imports Api_Transactions Engine_Effects
begin

text \<open>
  The REST interface as a whole: the requests that \<open>configure\<close> of \<open>src/api/mod.rs\<close> routes to the
  handlers of \<open>Api_Handlers\<close> and \<open>Api_Transactions\<close>, and what holds for all of them.
\<close>

datatype api_call =
    GetKey bytes
  | PutKey bytes bytes "u64 option"
  | PostKey bytes bytes "u64 option"
  | GetKeyTtl bytes
  | UpdateKeyTtl bytes u64
  | DeleteKey bytes
  | BatchDeleteKeys "bytes list"
  | DeleteKeysByPrefix "bytes option"
  | BatchKeys "batch_record list"
  | GetKeys "bytes option" "bytes option" "nat option"
  | KeysRange "bytes option" "bytes option" "bytes option" "nat option"
  | ScanKeys "bytes option" "bytes option" "bytes option" "nat option"
  | SearchKeys "bytes option" "bytes option" "bytes option" "bytes option" "nat option"
  | ValueSearchKeys "bytes option" "nat option"
  | QueryByIndex "bytes option" "bytes option" "nat option"
  | CreateIndex bytes bytes
  | ListIndexes
  | GetStats
  | GetStatsAll
  | AdminFlush
  | AdminCompact
  | BeginTxn
  | TxnPut bytes bytes bytes "string option"
  | TxnDelete bytes bytes "string option"
  | TxnCommit bytes
  | TxnRollback bytes

definition on_core :: "('bl, 'c, 'k) server \<Rightarrow> ('bl, 'c, 'k) answer \<Rightarrow> (reply \<times> ('bl, 'c, 'k) server) option" where
  "on_core s a = map_option (\<lambda>(r, core). (r, s\<lparr>sv_core := core\<rparr>)) a"

fun handle ::
  "('bl, 'c, 'k) app \<Rightarrow> uuid_crate \<Rightarrow> arrival \<Rightarrow> 'j http_request \<Rightarrow> api_call \<Rightarrow> ('bl, 'c, 'k) server
   \<Rightarrow> (reply \<times> ('bl, 'c, 'k) server) option" where
  "handle A U ar req (GetKey key) s = on_core s (get_key A req key (sv_core s))"
| "handle A U ar req (PutKey key value ttl) s = on_core s (put_key A req key value ttl (sv_core s))"
| "handle A U ar req (PostKey key value ttl) s = on_core s (post_key A req key value ttl (sv_core s))"
| "handle A U ar req (GetKeyTtl key) s = on_core s (get_key_ttl A req key (sv_core s))"
| "handle A U ar req (UpdateKeyTtl key ttl) s = on_core s (update_key_ttl A req key ttl (sv_core s))"
| "handle A U ar req (DeleteKey key) s = on_core s (delete_key A req key (sv_core s))"
| "handle A U ar req (BatchDeleteKeys keys) s = on_core s (batch_delete_keys A req keys (sv_core s))"
| "handle A U ar req (DeleteKeysByPrefix prefix) s = on_core s (delete_keys_by_prefix A req prefix (sv_core s))"
| "handle A U ar req (BatchKeys records) s = on_core s (batch_keys A req records (sv_core s))"
| "handle A U ar req (GetKeys prefix cursor limit) s = on_core s (get_keys A req prefix cursor limit (sv_core s))"
| "handle A U ar req (KeysRange lower upper cursor limit) s = on_core s (keys_range A req lower upper cursor limit (sv_core s))"
| "handle A U ar req (ScanKeys lower upper cursor limit) s = on_core s (scan_keys A req lower upper cursor limit (sv_core s))"
| "handle A U ar req (SearchKeys q prefix mode cursor limit) s = on_core s (search_keys A req q prefix mode cursor limit (sv_core s))"
| "handle A U ar req (ValueSearchKeys q limit) s = on_core s (value_search_keys A req q limit (sv_core s))"
| "handle A U ar req (QueryByIndex idx eq limit) s = on_core s (query_by_index A req idx eq limit (sv_core s))"
| "handle A U ar req (CreateIndex key field) s = on_core s (create_index_handler A req key field (sv_core s))"
| "handle A U ar req ListIndexes s = on_core s (list_indexes_handler A req (sv_core s))"
| "handle A U ar req GetStats s = on_core s (get_stats req (sv_core s))"
| "handle A U ar req GetStatsAll s = on_core s (get_stats_all req (sv_core s))"
| "handle A U ar req AdminFlush s = on_core s (admin_flush A req (sv_core s))"
| "handle A U ar req AdminCompact s = on_core s (admin_compact A req (sv_core s))"
| "handle A U ar req BeginTxn s = Some (begin_txn U ar req s)"
| "handle A U ar req (TxnPut i key value cf) s = Some (txn_put_handler U ar (ap_mode A) req i key value cf s)"
| "handle A U ar req (TxnDelete i key cf) s = Some (txn_delete_handler U ar (ap_mode A) req i key cf s)"
| "handle A U ar req (TxnCommit i) s = Some (txn_commit_handler A U ar req i s)"
| "handle A U ar req (TxnRollback i) s = Some (txn_rollback_handler U ar req i s)"

text \<open>The permission that each request asks for, and the keys that it names.\<close>

fun needed :: "api_call \<Rightarrow> permission" where
  "needed (PutKey _ _ _) = Write"
| "needed (PostKey _ _ _) = Write"
| "needed (UpdateKeyTtl _ _) = Write"
| "needed (DeleteKey _) = Delete"
| "needed (BatchDeleteKeys _) = Delete"
| "needed (DeleteKeysByPrefix _) = Delete"
| "needed (BatchKeys _) = Write"
| "needed (CreateIndex _ _) = Write"
| "needed AdminFlush = Admin"
| "needed AdminCompact = Admin"
| "needed BeginTxn = Write"
| "needed (TxnPut _ _ _ _) = Write"
| "needed (TxnDelete _ _ _) = Delete"
| "needed (TxnCommit _) = Write"
| "needed (TxnRollback _) = Write"
| "needed _ = Read"

fun named_keys :: "api_call \<Rightarrow> bytes list" where
  "named_keys (GetKey key) = [key]"
| "named_keys (PutKey key _ _) = [key]"
| "named_keys (PostKey key _ _) = [key]"
| "named_keys (GetKeyTtl key) = [key]"
| "named_keys (UpdateKeyTtl key _) = [key]"
| "named_keys (DeleteKey key) = [key]"
| "named_keys (BatchDeleteKeys keys) = keys"
| "named_keys (DeleteKeysByPrefix (Some prefix)) = [prefix]"
| "named_keys (BatchKeys records) = map bx_key records"
| "named_keys (CreateIndex key _) = [key]"
| "named_keys (TxnPut _ key _ _) = [key]"
| "named_keys (TxnDelete _ key _) = [key]"
| "named_keys _ = []"

subsection \<open>Guards\<close>

lemmas handler_defs = get_key_def put_key_def post_key_def get_key_ttl_def update_key_ttl_def delete_key_def batch_delete_keys_def
  delete_keys_by_prefix_def batch_keys_def get_keys_def keys_range_def scan_keys_def search_keys_def value_search_keys_def
  query_by_index_def create_index_handler_def list_indexes_handler_def get_stats_def get_stats_all_def admin_flush_def admin_compact_def
  begin_txn_def txn_put_handler_def txn_delete_handler_def txn_commit_handler_def txn_rollback_handler_def with_owner_def owner_of_def stage_def

lemma refused_without_permission:
  "require_permission (needed call) req = Inl e \<Longrightarrow> handle A U ar req call s = Some (auth_reply e, s)"
  by (cases call) (simp_all add: handler_defs with_permission_def on_core_def)

lemma require_permission_error: "require_permission p req = Inl e \<Longrightarrow> e = InsufficientPermissions"
  by (auto simp: require_permission_def split: if_splits option.splits)

lemma auth_reply_status: "require_permission p req = Inl e \<Longrightarrow> status (auth_reply e) = 403"
  by (drule require_permission_error) (simp add: auth_reply_def auth_status_def)

lemma owner_of_error: "owner_of req p = Inl r \<Longrightarrow> status r = 403"
  by (auto simp: owner_of_def auth_reply_def auth_status_def require_permission_def auth_enabled_def split: sum.splits if_splits option.splits)

lemma reply_status_simps [simp]:
  "status (error_reply c m) = c" "status (failure_reply c m) = c" "status rejected = 400"
  by (simp_all add: error_reply_def failure_reply_def rejected_def)

text \<open>A request that is turned away leaves the state as it was.\<close>

definition refused :: "'s \<Rightarrow> (reply \<times> 's) option \<Rightarrow> bool" where
  "refused s a \<longleftrightarrow> (\<exists>r. a = Some (r, s) \<and> status r \<in> {400, 403, 503})"

lemma refused_rules:
  "refused s rest \<Longrightarrow> refused s (with_permission p req s rest)"
  "(bad \<Longrightarrow> status r \<in> {400, 403, 503}) \<Longrightarrow> (\<not> bad \<Longrightarrow> refused s rest) \<Longrightarrow> refused s (unless bad r s rest)"
  "refused (sv_core srv) a \<Longrightarrow> refused srv (on_core srv a)"
  "(\<And>owner. refused s (Some (f owner))) \<Longrightarrow> refused s (Some (with_owner p req s f))"
  by (auto simp: refused_def with_permission_def unless_def on_core_def with_owner_def auth_reply_status dest: owner_of_error split: sum.splits)

lemma stage_refused: "is_reserved key \<Longrightarrow> refused s (Some (stage U ar mode owner i key change s))"
  by (simp add: refused_def stage_def)

lemma reserved_key_refused:
  "\<exists>key \<in> set (named_keys call). is_reserved key \<Longrightarrow> refused s (handle A U ar req call s)"
  by (cases call rule: named_keys.cases)
    (auto simp: get_key_def put_key_def post_key_def get_key_ttl_def update_key_ttl_def delete_key_def batch_delete_keys_def
      delete_keys_by_prefix_def batch_keys_def create_index_handler_def txn_put_handler_def txn_delete_handler_def
      list_ex_iff Let_def intro!: refused_rules stage_refused)

lemma reply_to_state [simp]: "snd (reply_to failed good r) = snd r"
  by (auto simp: reply_to_def split: prod.splits outcome.splits)

definition ignores_mode :: "api_call \<Rightarrow> bool" where
  "ignores_mode call \<longleftrightarrow> (case call of TxnCommit _ \<Rightarrow> True | CreateIndex _ _ \<Rightarrow> True | _ \<Rightarrow> False)"

text \<open>A request that only reads.\<close>

definition answer_reads :: "('bl, 'c, 'k) engine_core \<Rightarrow> ('bl, 'c, 'k) answer \<Rightarrow> bool" where
  "answer_reads core a \<longleftrightarrow> (\<forall>r core'. a = Some (r, core') \<longrightarrow> only_read core core')"

lemma answer_reads_rules:
  "only_read core core' \<Longrightarrow> answer_reads core (Some (r, core'))"
  "answer_reads core rest \<Longrightarrow> answer_reads core (with_permission p req core rest)"
  "(\<not> bad \<Longrightarrow> answer_reads core rest) \<Longrightarrow> answer_reads core (unless bad r core rest)"
  "only_read core (snd res) \<Longrightarrow> answer_reads core (Some (reply_to failed good res))"
  by (auto simp: answer_reads_def with_permission_def unless_def reply_to_def split: sum.splits prod.splits outcome.splits)

lemma get_key_ttl_reads: "answer_reads core (get_key_ttl A req key core)"
proof -
  note g = only_read_get [of core "ap_host A" "ap_clock A 0" "''default''" key]
  have "only_read core core2" if "get_cf (ap_host A) (ap_clock A 0) ''default'' key core = (res, core1)"
      "get_cf (ap_host A) (ap_clock A 1) ''default'' (TTL_PREFIX @ key) core1 = (res', core2)" for res core1 res' core2
    using g only_read_get [of core1 "ap_host A" "ap_clock A 1" "''default''" "TTL_PREFIX @ key"] that only_read_trans by (metis snd_conv)
  then show ?thesis
    using g by (auto simp: get_key_ttl_def intro!: answer_reads_rules split: prod.split outcome.split option.split)
qed

lemma scan_page_reads: "only_read core (snd (scan_page A lower upper cursor limit core))"
  by (auto simp: scan_page_def Let_def intro!: only_read_bind only_read_keyspace)

lemma handler_reads:
  "answer_reads core (get_key A req key core)" "answer_reads core (get_keys A req p c l core)"
  "answer_reads core (keys_range A req lo up c l core)" "answer_reads core (scan_keys A req lo up c l core)"
  "answer_reads core (search_keys A req q p m c l core)" "answer_reads core (value_search_keys A req q l core)"
  "answer_reads core (query_by_index A req idx eq l core)" "answer_reads core (list_indexes_handler A req core)"
  "answer_reads core (get_stats req core)" "answer_reads core (get_stats_all req core)"
  by (auto simp: get_key_def get_keys_def keys_range_def scan_keys_def search_keys_def value_search_keys_def query_by_index_def
    list_indexes_handler_def get_stats_def get_stats_all_def Let_def intro!: answer_reads_rules only_read_get only_read_keyspace
    only_read_indexes scan_page_reads split: option.split)

lemma read_only_writes:
  assumes "\<not> check_write_allowed (ap_mode A)"
  shows "answer_reads core (put_key A req key v t core)" "answer_reads core (post_key A req key v t core)"
    "answer_reads core (update_key_ttl A req key n core)" "answer_reads core (delete_key A req key core)"
    "answer_reads core (batch_delete_keys A req keys core)" "answer_reads core (delete_keys_by_prefix A req p core)"
    "answer_reads core (batch_keys A req rs core)" "answer_reads core (admin_flush A req core)" "answer_reads core (admin_compact A req core)"
  using assms by (auto simp: put_key_def post_key_def update_key_ttl_def delete_key_def batch_delete_keys_def delete_keys_by_prefix_def
    batch_keys_def admin_flush_def admin_compact_def intro!: answer_reads_rules)

lemma txn_handlers_keep_core:
  "sv_core (snd (begin_txn U ar req s)) = sv_core s" "sv_core (snd (txn_rollback_handler U ar req i s)) = sv_core s"
  "sv_core (snd (txn_put_handler U ar mode req i key v cf s)) = sv_core s" "sv_core (snd (txn_delete_handler U ar mode req i key cf s)) = sv_core s"
  by (auto simp: begin_txn_def txn_rollback_handler_def txn_put_handler_def txn_delete_handler_def with_owner_def stage_def
    split: sum.split prod.split)

lemma read_only_reads:
  assumes "ap_mode A = ReadOnly" "\<not> ignores_mode call" "handle A U ar req call s = Some (r, s')"
  shows "only_read (sv_core s) (sv_core s')"
proof -
  have ro: "\<not> check_write_allowed (ap_mode A)" using assms(1) by (simp add: check_write_allowed_def)
  have core: "only_read (sv_core s) (sv_core s')" if "on_core s a = Some (r, s')" "answer_reads (sv_core s) a" for a
    using that by (auto simp: on_core_def answer_reads_def)
  have txn: "sv_core s' = sv_core (snd p)" if "p = (r, s')" for p using that by simp
  show ?thesis
    using assms(2,3)
    by (cases call)
      (auto simp: ignores_mode_def handler_reads get_key_ttl_reads read_only_writes [OF ro] txn_handlers_keep_core dest!: core dest: txn)
qed

lemma commit_ignores_mode: "txn_commit_handler (A\<lparr>ap_mode := mode\<rparr>) U ar req i s = txn_commit_handler A U ar req i s"
  unfolding txn_commit_handler_def by (simp cong: prod.case_cong sum.case_cong)


text \<open>An example server: an open interface over the example engine.\<close>

definition open_request :: "unit http_request" where
  "open_request = \<lparr>rq_method = PUT, rq_path = ''/keys'', rq_credentials = None, rq_auth_enabled = Some False, rq_manager = None, rq_token = None\<rparr>"

definition demo_app :: "degradation_mode \<Rightarrow> (unit, unit, (bytes \<times> bytes) list) app" where
  "demo_app mode = \<lparr>ap_host = demo_host, ap_json = demo_json, ap_regex = (\<lambda>_. None), ap_fuel = 2, ap_options = demo_options, ap_mode = mode,
     ap_env = (\<lambda>_. demo_tick), ap_clock = (\<lambda>_. 0)\<rparr>"

lemma open_request_permits: "require_permission p open_request = Inr ()"
  by (simp add: require_permission_def open_request_def auth_enabled_def)

definition demo_server :: "(unit, unit, (bytes \<times> bytes) list) server" where
  "demo_server = \<lparr>sv_core = demo_core, sv_txns = transaction_manager_new, sv_next_txn_id = 1\<rparr>"

definition demo_uuid :: uuid_crate where
  "demo_uuid = \<lparr>uc_from_random = (\<lambda>bs. of_nat (length bs)), uc_parse = (\<lambda>bs. case bs of [b] \<Rightarrow> Some (ucast b) | _ \<Rightarrow> None), uc_text = (\<lambda>u. [ucast u])\<rparr>"

definition demo_arrival :: arrival where
  "demo_arrival = \<lparr>ar_now = 0, ar_rng = (\<lambda>i. Some (replicate i 0))\<rparr>"


end
