(* ===== verification/Api_Correct.thy ===== *)
theory Api_Correct
  imports Api
begin

text \<open>
  What clients of the REST interface observe: a write is read back, and the transactions of different
  owners do not interfere.
\<close>

subsection \<open>Writes\<close>

lemma reserved_append: "is_reserved p \<Longrightarrow> is_reserved (p @ q)"
  by (cases p; cases "tl p") (auto simp: is_reserved_def starts_with_def as_bytes_def)

lemma index_keys_reserved: "is_reserved schema_prefix" "is_reserved (index_entry f v k)" "is_reserved (TTL_PREFIX @ k)"
  by (simp_all add: is_reserved_def starts_with_def schema_prefix_def index_entry_def index_prefix_def INDEX_PREFIX_def TTL_PREFIX_def as_bytes_def)

lemma starts_with_reserved: "is_reserved p \<Longrightarrow> starts_with p key \<Longrightarrow> is_reserved key"
  using reserved_append by (metis append_take_drop_id starts_with_def)

lemma written_in_view:
  assumes "written_in C H cat cf rs core core'" "last_for key rs = None \<or> cf' \<noteq> cf"
  shows "view cat now core' cf' key = view cat now core cf' key"
proof -
  have c: "covering_range_tombstone_ts core' cf' = covering_range_tombstone_ts core cf'"
    using assms(1) unfolding written_in_def fun_eq_iff by blast
  have "entry_at cat core' cf' key = entry_at cat core cf' key" using assms by (auto simp: written_in_def)
  then show ?thesis unfolding view_def c by simp
qed

lemma schema_matches_unchanged:
  assumes "engine_ok H cat core" "written_in C H cat cf rs core core1" "\<forall>r \<in> set rs. \<not> is_reserved (lr_key r)"
  shows "prefix_matches cat now schema_prefix core1 = prefix_matches cat now schema_prefix core"
proof (rule strict_keys_map_of_eq)
  note s = prefix_matches_spec [OF assms(1) schema_prefix_no_ff] prefix_matches_spec [OF written_inD [OF assms(2), THEN conjunct1] schema_prefix_no_ff]
  show "strict_keys (prefix_matches cat now schema_prefix core1)" "strict_keys (prefix_matches cat now schema_prefix core)" by (rule s)+
  show "map_of (prefix_matches cat now schema_prefix core1) = map_of (prefix_matches cat now schema_prefix core)"
  proof
    fix k
    have none: "last_for k rs = None" if "starts_with schema_prefix k"
      using assms(3) starts_with_reserved [OF index_keys_reserved(1) that] by (induction rs) auto
    have "view cat now core1 ''default'' k = view cat now core ''default'' k" if "starts_with schema_prefix k"
      by (rule written_in_view [OF assms(2)]) (use none [OF that] in blast)
    then show "map_of (prefix_matches cat now schema_prefix core1) k = map_of (prefix_matches cat now schema_prefix core) k"
      unfolding s by auto
  qed
qed

lemma schema_unchanged:
  assumes "engine_ok H cat core" "written_in C H cat cf [r] core core1" "\<not> is_reserved (lr_key r)"
  shows "new_entries J cat now key value core1 = new_entries J cat now key value core"
  using schema_matches_unchanged [OF assms(1,2)] assms(3) by (simp add: new_entries_def split: option.split)

lemma entry_records_keys:
  assumes "r \<in> set (entry_records env path options cf i (take m (new_entries J cat now key value core)))"
  shows "starts_with INDEX_PREFIX (lr_key r)"
proof -
  have k: "lr_key (put_record options a b cf e [] None) = e" for a b e
    by (simp add: put_record_def log_record_new_def Let_def split: option.split)
  obtain e where "e \<in> set (new_entries J cat now key value core)" "lr_key r = e"
    using assms by (force simp: entry_records_def k in_set_enumerate_eq intro: nth_mem)
  then show ?thesis
    by (auto simp: new_entries_def index_entries_def starts_with_def index_entry_def index_prefix_def List.map_filter_def split: option.splits)
qed

lemma last_for_other:
  assumes "\<forall>r \<in> set rs. starts_with p (lr_key r)" "\<not> starts_with p key"
  shows "last_for key rs = None"
  using assms by (induction rs) auto

lemma not_index: "\<not> is_reserved key \<Longrightarrow> \<not> starts_with INDEX_PREFIX key"
  using starts_with_reserved [of INDEX_PREFIX key] by (auto simp: is_reserved_def starts_with_def INDEX_PREFIX_def as_bytes_def)

text \<open>
  A write through the engine, as the handlers make it: with room in the buffer it changes nothing of
  the keys that clients may name, except for its own key if it succeeds.
\<close>

lemma store_effect:
  assumes ok: "engine_ok (ap_host A) cat core" "\<forall>cf. kv_coherent (ap_host A) cat cf (co_version_set core)" "host_laws (ap_host A)"
    and J: "ap_json A [] = None" and n: "2 \<le> ap_fuel A" and key: "\<not> is_reserved key"
    and room: "bytes_of core ''default'' + length key + length value +
        (\<Sum>e\<leftarrow>new_entries (ap_json A) cat (tk_search (ap_env A [])) key value core. length e) < write_buffer_limit (ap_options A)"
    and rd: "rd = put_record (ap_options A) (tk_now (ap_env A [])) (tk_ttl_now (ap_env A [])) ''default'' key value (map_option ttl_nanos ttl)"
  obtains res core' where "store A [] key value ttl core = Some (res, core')" "res \<noteq> Panic"
    "length key \<le> MAX_KEY_SIZE \<and> length value \<le> MAX_VALUE_SIZE \<and> can_log (ap_host A) (tk_rng (ap_env A [])) (encryptor_of core ''default'') rd \<Longrightarrow>
       \<exists>b. res = Ok b"
    "engine_ok (ap_host A) cat core'" "\<forall>cf. kv_coherent (ap_host A) cat cf (co_version_set core')"
    "covering_range_tombstone_ts core' ''default'' = covering_range_tombstone_ts core ''default''"
    "\<And>k. \<not> starts_with INDEX_PREFIX k \<Longrightarrow> k \<noteq> key \<or> (\<forall>b. res \<noteq> Ok b) \<Longrightarrow>
       entry_at cat core' ''default'' k = entry_at cat core ''default'' k \<and> memtable_record core' ''default'' k = memtable_record core ''default'' k"
    "\<And>b. res = Ok b \<Longrightarrow> entry_at cat core' ''default'' key = Some rd \<and> memtable_record core' ''default'' key = Some rd"
    "same_tables (co_version_set core) (co_version_set core')"
proof -
  let ?t = "ap_env A []" and ?cf = "''default''"
  obtain res core1 where p: "put_core (ap_host A) (tk_rng ?t) (tk_now ?t) (tk_ttl_now ?t) (ap_options A) ?cf key value (map_option ttl_nanos ttl) core = (res, core1)"
    by fastforce
  have k: "lr_key rd = key" unfolding rd by (simp add: put_record_def log_record_new_def new_with_ttl_def Let_def split: option.split)
  have w: "(res = Ok False \<and> only_written (ap_host A) cat ?cf [rd] core core1) \<or> ((\<exists>e. res = Err e) \<and> only_written (ap_host A) cat ?cf [] core core1 \<and>
      (MAX_KEY_SIZE < length key \<or> MAX_VALUE_SIZE < length value \<or> \<not> can_log (ap_host A) (tk_rng ?t) (encryptor_of core ?cf) rd))"
    unfolding rd by (rule put_core_room [OF ok(1,2) _ p]) (use room in simp)
  define es where "es = (if res = Ok False then new_entries (ap_json A) cat (tk_search ?t) key value core1 else [])"
  have "(\<Sum>e\<leftarrow>es. length e) \<le> (\<Sum>e\<leftarrow>new_entries (ap_json A) cat (tk_search ?t) key value core. length e)"
    using w schema_unchanged [OF ok(1)] key k by (auto simp: es_def)
  then have r: "bytes_of core ?cf + length key + length value + (\<Sum>e\<leftarrow>es. length e) < write_buffer_limit (ap_options A)" using room by linarith
  obtain core' m where c: "store A [] key value ttl core = Some (res, core')"
    "only_written (ap_host A) cat ?cf (entry_records (ap_env A) [] (ap_options A) ?cf 0 (take m es)) core1 core'"
    using put_cf_written [of "ap_host A" cat core "ap_json A" "ap_fuel A" "ap_env A" "ap_options A" ?cf key "value" "map_option ttl_nanos ttl" res core1 es, OF ok J n p es_def r] by (auto simp: store_def)
  have "\<forall>r \<in> set (entry_records (ap_env A) [] (ap_options A) ?cf 0 (take m es)). starts_with INDEX_PREFIX (lr_key r)"
    unfolding es_def by (cases "res = Ok False") (auto dest: entry_records_keys, simp add: entry_records_def)
  then have l: "last_for k (entry_records (ap_env A) [] (ap_options A) ?cf 0 (take m es)) = None" if "\<not> starts_with INDEX_PREFIX k" for k
    using that by (rule last_for_other)
  show ?thesis
  proof (rule that [OF c(1)])
    show "covering_range_tombstone_ts core' ?cf = covering_range_tombstone_ts core ?cf"
      using c(2) w unfolding only_written_def fun_eq_iff by auto
    show "entry_at cat core' ?cf k = entry_at cat core ?cf k \<and> memtable_record core' ?cf k = memtable_record core ?cf k" if "\<not> starts_with INDEX_PREFIX k" "k \<noteq> key \<or> (\<forall>b. res \<noteq> Ok b)" for k
      using c(2) w l [OF that(1)] that(2) k by (auto simp: only_written_def)
    show "entry_at cat core' ?cf key = Some rd \<and> memtable_record core' ?cf key = Some rd" if "res = Ok b" for b
      using c(2) w l [OF not_index [OF key]] that k by (auto simp: only_written_def)
    show "same_tables (co_version_set core) (co_version_set core')" using c(2) w by (auto simp: only_written_def intro: same_tables_trans)
  qed (use w only_writtenD [OF c(2)] in auto)
qed

lemma put_key_succeeds:
  assumes ok: "engine_ok (ap_host A) cat core" "\<forall>cf. kv_coherent (ap_host A) cat cf (co_version_set core)" "host_laws (ap_host A)"
    and J: "ap_json A [] = None" "2 \<le> ap_fuel A" and key: "\<not> is_reserved key" "key \<noteq> []" "length key \<le> 4096"
    and room: "bytes_of core ''default'' + length key + length value +
        (\<Sum>e\<leftarrow>new_entries (ap_json A) cat (tk_search (ap_env A [])) key value core. length e) < write_buffer_limit (ap_options A)"
    and rd: "rd = put_record (ap_options A) (tk_now (ap_env A [])) (tk_ttl_now (ap_env A [])) ''default'' key value (map_option ttl_nanos ttl)"
    and req: "require_permission Write req = Inr ()" "check_write_allowed (ap_mode A)"
    and log: "length value \<le> MAX_VALUE_SIZE" "can_log (ap_host A) (tk_rng (ap_env A [])) (encryptor_of core ''default'') rd"
  obtains core' where "put_key A req key value ttl core = Some (status_ok, core')"
proof -
  obtain res core' where c: "store A [] key value ttl core = Some (res, core')"
    "length key \<le> MAX_KEY_SIZE \<and> length value \<le> MAX_VALUE_SIZE \<and> can_log (ap_host A) (tk_rng (ap_env A [])) (encryptor_of core ''default'') rd \<Longrightarrow>
       \<exists>b. res = Ok b"
    by (rule store_effect [OF ok J key(1) room rd, of thesis]) blast
  then obtain b where "res = Ok b" using log key(3) by (auto simp: MAX_KEY_SIZE_def)
  then have "put_key A req key value ttl core = Some (status_ok, core')"
    using key req c(1) by (simp add: put_key_def with_permission_def unless_def reply_to_def)
  then show ?thesis by (rule that)
qed

text \<open>The text that a client gets for a key.\<close>

definition value_reply :: "bytes \<Rightarrow> bytes \<Rightarrow> reply" where
  "value_reply key value = Reply 200 (JObj [(''key'', JStr key), (''value'', JStr (from_utf8_lossy value))])"


text \<open>The example host with another record codec.\<close>

definition codec_host :: "(log_record \<Rightarrow> bytes option) \<Rightarrow> (bytes \<Rightarrow> log_record option) \<Rightarrow> (unit, unit, (bytes \<times> bytes) list) host" where
  "codec_host enc dec = demo_host\<lparr>h_crates := demo_crates\<lparr>x_encode_record := enc, x_decode_record := dec\<rparr>\<rparr>"

lemma codec_host_ok:
  assumes "\<And>r bs. enc r = Some bs \<Longrightarrow> dec bs = Some r"
  shows "engine_ok (codec_host enc dec) Map.empty demo_core" "kv_coherent (codec_host enc dec) Map.empty cf (co_version_set demo_core)"
    "host_laws (codec_host enc dec)"
proof -
  let ?H = "codec_host enc dec"
  show "engine_ok ?H Map.empty demo_core"
    by (simp add: engine_ok_def mem_wf_def) (simp add: store_ok_def files_ok_def vs_new_def cached_blocks_ok_def cf_tables_def)
  show "kv_coherent ?H Map.empty cf (co_version_set demo_core)"
    by (simp add: kv_coherent_def get_cached_def vs_new_def demo_host_def codec_host_def)
  obtain rng where laws: "crate_laws demo_crates rng" using demo_laws by blast
  have "lz4_law (h_crates ?H) = lz4_law demo_crates" unfolding lz4_law_def codec_host_def by simp
  moreover have "aes_law (h_crates ?H) = aes_law demo_crates" unfolding aes_law_def codec_host_def by simp
  moreover have "bloom_law (h_crates ?H) = bloom_law demo_crates" unfolding bloom_law_def codec_host_def by simp
  moreover have "cache_law (h_crates ?H) = cache_law demo_crates" unfolding cache_law_def codec_host_def by simp
  moreover have "postcard_law (h_crates ?H)" using laws assms unfolding crate_laws_def postcard_law_def codec_host_def by simp
  ultimately have "crate_laws (h_crates ?H) rng" using laws by (simp only: crate_laws_def)
  moreover have "kv_law ?H = kv_law demo_host" unfolding kv_law_def codec_host_def by simp
  ultimately show "host_laws ?H" using demo_kv unfolding host_laws_def by blast
qed

lemma demo_can_log: "plain_encode r \<noteq> None \<Longrightarrow> can_log demo_host rng (encryptor_of demo_core ''default'') r"
  by (auto simp: can_log_def encryptor_of_def demo_core_def encode_frame_def encode_record_def demo_host_def demo_crates_def plain_crates_def
      encryptor_new_def encryption_default_def ok_or_def split: option.splits)

lemma demo_bytes: "bytes_of demo_core ''default'' < 100"
  by (simp add: bytes_of_def demo_core_def)


subsection \<open>Transactions of several clients\<close>

text \<open>The limits of the transaction manager hold.\<close>

definition txns_ok :: "transaction_manager \<Rightarrow> bool" where
  "txns_ok m \<longleftrightarrow>
     distinct (map fst (xm_transactions m)) \<and> length (xm_transactions m) \<le> xm_max_total m \<and>
     (\<forall>owner. owned_by owner (xm_transactions m) \<le> xm_max_per_owner m)"

definition same_limits :: "transaction_manager \<Rightarrow> transaction_manager \<Rightarrow> bool" where
  "same_limits m m' \<longleftrightarrow> xm_lifetime m' = xm_lifetime m \<and> xm_max_total m' = xm_max_total m \<and> xm_max_per_owner m' = xm_max_per_owner m"

text \<open>What a manager operation on behalf of an owner does.\<close>

definition owner_safe :: "nat \<Rightarrow> owner \<Rightarrow> transaction_manager \<Rightarrow> transaction_manager \<Rightarrow> bool" where
  "owner_safe now owner m m' \<longleftrightarrow>
     txns_ok m' \<and> same_limits m m' \<and>
     (\<forall>i entry. map_of (xm_transactions m) i = Some entry \<and> ac_owner entry \<noteq> owner \<and> now - ac_created_at entry < xm_lifetime m \<longrightarrow>
        map_of (xm_transactions m') i = Some entry)"

lemma length_filter_update:
  assumes "map_of xs k = Some v" "distinct (map fst xs)" "P (k, v) = P (k, v')"
  shows "length (List.filter P (AList.update k v' xs)) = length (List.filter P xs)"
  using assms by (induction xs) auto

lemma txn_prune_safe: "txns_ok m \<Longrightarrow> owner_safe now owner m (txn_prune now m)"
proof -
  assume ok: "txns_ok m"
  let ?f = "\<lambda>(_ :: u128, entry). now - ac_created_at entry < xm_lifetime m"
  have p: "xm_transactions (txn_prune now m) = List.filter ?f (xm_transactions m)" by (simp add: txn_prune_def unexpired_def)
  have d: "distinct (map fst (xm_transactions m))" using ok by (simp add: txns_ok_def)
  have "owned_by o' (List.filter ?f xs) \<le> owned_by o' xs" for o' xs
    unfolding owned_by_def by (induction xs) auto
  then have "\<forall>o'. owned_by o' (List.filter ?f (xm_transactions m)) \<le> xm_max_per_owner m"
    using ok order_trans unfolding txns_ok_def by blast
  moreover have "length (List.filter ?f (xm_transactions m)) \<le> xm_max_total m"
    using ok order_trans [OF length_filter_le] unfolding txns_ok_def by blast
  ultimately have "txns_ok (txn_prune now m)"
    using d unfolding txns_ok_def p by (auto simp: txn_prune_def distinct_map_filter)
  moreover have "map_of (List.filter ?f (xm_transactions m)) i = Some entry"
    if "map_of (xm_transactions m) i = Some entry" "now - ac_created_at entry < xm_lifetime m" for i entry
    using that d by (simp add: distinct_map_filter)
  ultimately show ?thesis by (auto simp: owner_safe_def same_limits_def p) (simp_all add: txn_prune_def)
qed

lemma safe_trans: "owner_safe now owner m m1 \<Longrightarrow> owner_safe now owner m1 m2 \<Longrightarrow> owner_safe now owner m m2"
  by (auto simp: owner_safe_def same_limits_def)

lemma update_safe:
  assumes "txns_ok m" "map_of (xm_transactions m) i = Some entry" "ac_owner entry = owner" "ac_owner entry' = owner"
  shows "owner_safe now owner m (m\<lparr>xm_transactions := AList.update i entry' (xm_transactions m)\<rparr>)"
proof -
  have d: "distinct (map fst (xm_transactions m))" using assms(1) by (simp add: txns_ok_def)
  have "length (AList.update i entry' (xm_transactions m)) = length (xm_transactions m)"
    using length_filter_update [OF assms(2) d, of "\<lambda>_. True" entry'] by simp
  moreover have "owned_by o' (AList.update i entry' (xm_transactions m)) = owned_by o' (xm_transactions m)" for o'
    unfolding owned_by_def by (rule length_filter_update [OF assms(2) d]) (simp add: assms(3,4))
  moreover have "map_of (AList.update i entry' (xm_transactions m)) j = Some e" if "map_of (xm_transactions m) j = Some e" "ac_owner e \<noteq> owner" for j e
    using that assms(2,3) by (auto simp del: map_of_eq_Some_iff simp: update_conv')
  ultimately show ?thesis
    unfolding owner_safe_def using assms(1) d by (auto simp del: map_of_eq_Some_iff simp: txns_ok_def same_limits_def distinct_update)
qed

lemma delete_safe:
  assumes "txns_ok m" "map_of (xm_transactions m) i = Some entry" "ac_owner entry = owner"
  shows "owner_safe now owner m (m\<lparr>xm_transactions := AList.delete i (xm_transactions m)\<rparr>)"
proof -
  have o: "owned_by o' (AList.delete i xs) \<le> owned_by o' xs" for o' xs
    unfolding owned_by_def AList.delete_eq by (induction xs) auto
  have "length (AList.delete i xs) \<le> length xs" for xs :: entries by (simp add: AList.delete_eq)
  then have "length (AList.delete i (xm_transactions m)) \<le> xm_max_total m" "\<forall>o'. owned_by o' (AList.delete i (xm_transactions m)) \<le> xm_max_per_owner m"
    using assms(1) o order_trans unfolding txns_ok_def by blast+
  moreover have "map_of (AList.delete i (xm_transactions m)) j = Some e" if "map_of (xm_transactions m) j = Some e" "ac_owner e \<noteq> owner" for j e
    using that assms(2,3) by (auto simp del: map_of_eq_Some_iff simp: delete_conv')
  ultimately show ?thesis
    unfolding owner_safe_def using assms(1) by (auto simp del: map_of_eq_Some_iff simp: txns_ok_def same_limits_def distinct_delete)
qed

lemma with_transaction_safe:
  assumes "txns_ok m" "with_transaction U now txn_id owner change m = (res, m')"
  shows "owner_safe now owner m m'"
proof -
  note p = txn_prune_safe [OF assms(1), of now owner]
  have ok: "txns_ok (txn_prune now m)" using p by (simp add: owner_safe_def)
  show ?thesis
    using assms(2) p safe_trans [OF p update_safe [OF ok]]
    by (auto simp: with_transaction_def Let_def split: option.splits if_splits)
qed

lemma take_txn_safe:
  assumes "txns_ok m" "take_txn U now txn_id owner m = (res, m')"
  shows "owner_safe now owner m m'"
proof -
  note p = txn_prune_safe [OF assms(1), of now owner]
  have ok: "txns_ok (txn_prune now m)" using p by (simp add: owner_safe_def)
  show ?thesis
    using assms(2) p safe_trans [OF p delete_safe [OF ok]]
    by (auto simp: take_txn_def Let_def split: option.splits if_splits)
qed

lemma fresh_id_fresh: "fresh_id U draws entries = Inr i \<Longrightarrow> map_of entries i = None"
  by (induction U draws entries rule: fresh_id.induct) (auto simp: Let_def split: if_splits)

lemma begin_safe:
  assumes "txns_ok m" "begin_txn_for U rng now owner n m = (res, n', m')"
  shows "owner_safe now owner m m'"
proof -
  note p = txn_prune_safe [OF assms(1), of now owner]
  let ?m1 = "txn_prune now m"
  have ok: "txns_ok ?m1" "same_limits m ?m1" using p by (simp_all add: owner_safe_def)
  have "owner_safe now owner ?m1 (?m1\<lparr>xm_transactions := (i, \<lparr>ac_owner = owner, ac_created_at = now, ac_transaction = t\<rparr>) # xm_transactions ?m1\<rparr>)"
    if "map_of (xm_transactions ?m1) i = None" "length (xm_transactions ?m1) < xm_max_total m" "owned_by owner (xm_transactions ?m1) < xm_max_per_owner m" for i t
    using ok that by (auto simp: owner_safe_def txns_ok_def same_limits_def owned_by_def map_of_eq_None_iff image_iff)
  note new = safe_trans [OF p this]
  show ?thesis
  proof (cases "xm_lifetime m = 0 \<or> xm_max_total m \<le> length (xm_transactions ?m1) \<or> xm_max_per_owner m \<le> owned_by owner (xm_transactions ?m1)")
    case True
    then show ?thesis using assms(2) p by (auto simp: begin_txn_for_def Let_def)
  next
    case False
    then show ?thesis
      using assms(2) p new fresh_id_fresh [of U "map rng [0..<8]" "xm_transactions ?m1"]
      by (auto simp: begin_txn_for_def Let_def txn_new_def not_le simp del: map_of_eq_None_iff split: sum.splits)
  qed
qed

text \<open>A request of some client, and a sequence of them.\<close>

record ('bl, 'c, 'k, 'j) request =
  rs_app :: "('bl, 'c, 'k) app"
  rs_arrival :: arrival
  rs_request :: "'j http_request"
  rs_call :: api_call

fun serve :: "uuid_crate \<Rightarrow> ('bl, 'c, 'k, 'j) request list \<Rightarrow> ('bl, 'c, 'k) server \<Rightarrow> ('bl, 'c, 'k) server option" where
  "serve U [] s = Some s"
| "serve U (x # xs) s =
     (case handle (rs_app x) U (rs_arrival x) (rs_request x) (rs_call x) s of
        None \<Rightarrow> None
      | Some (r, s') \<Rightarrow> serve U xs s')"

definition speaks_for :: "'j http_request \<Rightarrow> owner \<Rightarrow> bool" where
  "speaks_for req owner \<longleftrightarrow> (\<exists>permission. owner_of req permission = Inr owner)"

lemma safe_keep: "txns_ok m \<Longrightarrow> owner_safe now owner m m"
  by (simp add: owner_safe_def same_limits_def)

lemma handle_safe:
  assumes ok: "txns_ok (sv_txns s)" and run: "handle A U ar req call s = Some (r, s')"
  shows "sv_txns s' = sv_txns s \<or> (\<exists>owner. speaks_for req owner \<and> owner_safe (ar_now ar) owner (sv_txns s) (sv_txns s'))"
proof -
  have core: "sv_txns s' = sv_txns s" if "on_core s a = Some (r, s')" for a using that by (auto simp: on_core_def)
  have own: "sv_txns s' = sv_txns s \<or> (\<exists>owner. speaks_for req owner \<and> f owner = (r, s'))" if "with_owner p req s f = (r, s')" for p f
    using that by (auto simp: with_owner_def speaks_for_def split: sum.splits)
  have st: "sv_txns s' = sv_txns s \<or> owner_safe (ar_now ar) owner (sv_txns s) (sv_txns s')" if "stage U ar mode owner i key change s = (r, s')" for mode owner i key change
    using that with_transaction_safe [OF ok] by (auto simp: stage_def split: if_splits prod.splits)
  show ?thesis
  proof (cases call)
    case BeginTxn
    then show ?thesis using run by (fastforce simp: begin_txn_def dest!: own dest: begin_safe [OF ok] split: prod.splits)
  next
    case (TxnPut i key v cf)
    then show ?thesis using run st by (auto simp: txn_put_handler_def dest!: own)
  next
    case (TxnDelete i key cf)
    then show ?thesis using run st by (auto simp: txn_delete_handler_def dest!: own)
  next
    case (TxnCommit i)
    then show ?thesis using run by (fastforce simp: txn_commit_handler_def dest!: own dest: take_txn_safe [OF ok] split: prod.splits sum.splits)
  next
    case (TxnRollback i)
    then show ?thesis using run by (fastforce simp: txn_rollback_handler_def dest!: own dest: take_txn_safe [OF ok] split: prod.splits sum.splits)
  qed (use run in \<open>auto dest: core\<close>)
qed

lemma handle_keeps:
  assumes "txns_ok (sv_txns s)" "handle A U ar req call s = Some (r, s')"
  shows "txns_ok (sv_txns s')" "same_limits (sv_txns s) (sv_txns s')"
    "map_of (xm_transactions (sv_txns s)) i = Some entry \<Longrightarrow> \<not> speaks_for req (ac_owner entry) \<Longrightarrow> ar_now ar - ac_created_at entry < xm_lifetime (sv_txns s) \<Longrightarrow>
       map_of (xm_transactions (sv_txns s')) i = Some entry"
  using handle_safe [OF assms] assms(1) by (auto simp: owner_safe_def same_limits_def)


text \<open>Two clients with a token each.\<close>

definition client :: "string \<Rightarrow> unit http_request" where
  "client i = \<lparr>rq_method = POST, rq_path = ''/txn'', rq_credentials = None, rq_auth_enabled = Some True, rq_manager = None,
     rq_token = Some \<lparr>at_id = i, at_name = i, at_token_hash = [], at_created_at = 0, at_expires_at = None, at_permissions = [Write]\<rparr>\<rparr>"

definition client_begins :: "string \<Rightarrow> (unit, unit, (bytes \<times> bytes) list, unit) request" where
  "client_begins i = \<lparr>rs_app = demo_app degradation_normal, rs_arrival = demo_arrival, rs_request = client i, rs_call = BeginTxn\<rparr>"

definition begun_server :: "(unit, unit, (bytes \<times> bytes) list) server" where
  "begun_server = demo_server\<lparr>sv_txns := transaction_manager_new\<lparr>xm_transactions := [(0, \<lparr>ac_owner = Token ''a'', ac_created_at = 0,
     ac_transaction = \<lparr>tx_txn_id = 1, tx_writes = []\<rparr>\<rparr>)]\<rparr>, sv_next_txn_id := 2\<rparr>"


end
