(* ===== verification/Api_Pages.thy ===== *)
theory Api_Pages
  imports Api_Correct
begin

text \<open>
  The pages of \<open>GET /scan\<close> and \<open>GET /keys/range\<close>, and the answer of \<open>GET /keys/{key}/ttl\<close>, against what the
  engine shows.
\<close>

subsection \<open>Pages\<close>

text \<open>The entries between two bounds that a client may see, in order.\<close>

definition client_entries :: "catalogue \<Rightarrow> u128 \<Rightarrow> bytes option \<Rightarrow> bytes option \<Rightarrow> ('bl, 'c, 'k) engine_core \<Rightarrow> (bytes \<times> bytes) list" where
  "client_entries cat now lower upper core = offered (\<lambda>_ _. True) (scan_result cat now lower upper core ''default'')"

lemma client_entries_from:
  assumes ok: "engine_ok H cat core" and c: "map_of (client_entries cat now lower upper core) c = Some v"
  shows "client_entries cat now (Some c) upper core = (c, v) # after (Some c) (client_entries cat now lower upper core)"
proof (rule strict_keys_map_of_eq)
  let ?xs = "client_entries cat now lower upper core"
  note m = map_of_offered(1) [OF ok, folded client_entries_def] map_of_offered_any [OF ok, folded client_entries_def]
  show "strict_keys (client_entries cat now (Some c) upper core)" unfolding client_entries_def by (rule map_of_offered(1) [OF ok])
  have "strict_keys ?xs" unfolding client_entries_def by (rule map_of_offered(1) [OF ok])
  then have "strict_keys (after (Some c) ?xs)" unfolding after_def by (rule strict_keys_filter)
  then show "strict_keys ((c, v) # after (Some c) ?xs)" by (auto simp: after_def)
  have a: "map_of (after (Some c) ys) key = (if c < key then map_of ys key else None)" for ys key
    by (induction ys) (auto simp: after_def)
  have c': "in_range lower upper c" "client_view cat now core c = Some v" using c unfolding m by (auto split: if_splits)
  have "in_range (Some c) upper key \<longleftrightarrow> key = c \<or> c < key \<and> in_range lower upper key" for key
    using c'(1) by (auto simp: in_range_def split: option.splits)
  then show "map_of (client_entries cat now (Some c) upper core) = map_of ((c, v) # after (Some c) ?xs)"
    using c' by (auto simp: fun_eq_iff m a)
qed

definition scan_reply :: "(bytes \<times> bytes) list \<Rightarrow> bytes option \<Rightarrow> bool \<Rightarrow> reply" where
  "scan_reply records cursor has_more =
     success [(''records'', key_values records), (''cursor'', optional cursor), (''has_more'', JBool has_more)]"

lemma scan_page_entries:
  assumes ok: "engine_ok (ap_host A) cat core" "host_laws (ap_host A)" "kv_coherent (ap_host A) cat cf (co_version_set core)" "steady cat (ap_clock A) core"
    and size: "\<forall>lower upper. length (scan_result cat (ap_clock A 0) lower upper core ''default'') \<le> usize_max"
  shows "\<exists>core'. scan_page A lower upper cursor limit core =
      (Ok (page_of cursor (scan_limit_of limit) (take (scan_limit_of limit + 1)
         (client_entries cat (ap_clock A 0) (case cursor of Some c \<Rightarrow> Some c | None \<Rightarrow> lower) upper core))), core') \<and> same_but_caches core core'"
proof -
  have "min (scan_limit_of limit + 1) (MAX_SCAN_LIMIT + 1) = scan_limit_of limit + 1" by (simp add: scan_limit_of_def)
  then show ?thesis
    using keyspace_scan_offered [OF ok size [rule_format], of "case cursor of Some c \<Rightarrow> Some c | None \<Rightarrow> lower" upper "scan_limit_of limit + 1"]
    by (auto simp: scan_page_def Let_def client_entries_def)
qed

text \<open>C39: the first page of a scan has the first entries that a client may see between the bounds, says whether
  there are more, and then names the last key of the page as the cursor. The page for a cursor has the
  entries after the cursor, but always claims to be the last one, however many entries are left.
\<close>

theorem scan_pages:
  assumes ok: "engine_ok (ap_host A) cat core" "host_laws (ap_host A)" "kv_coherent (ap_host A) cat cf (co_version_set core)" "steady cat (ap_clock A) core"
    and size: "\<forall>lower upper. length (scan_result cat (ap_clock A 0) lower upper core ''default'') \<le> usize_max"
    and req: "require_permission Read req = Inr ()" and limit: "0 < limit" "limit \<le> MAX_SCAN_LIMIT"
    and xs: "xs = client_entries cat (ap_clock A 0) lower upper core" "\<forall>(key, _) \<in> set xs. is_utf8 key" and c: "map_of xs c = Some v"
  shows "\<exists>core1 core2.
    scan_keys A req lower upper None (Some limit) core =
      Some (scan_reply (take limit xs) (if limit < length xs then Some (fst (xs ! (limit - 1))) else None) (limit < length xs), core1) \<and>
    scan_keys A req lower upper (Some c) (Some limit) core = Some (scan_reply (take limit (after (Some c) xs)) None False, core2) \<and>
    same_but_caches core core1 \<and> same_but_caches core core2"
proof -
  have l: "scan_limit_of (Some limit) = limit" using limit(2) by (simp add: scan_limit_of_def)
  note page = scan_page_entries [OF ok size, of lower upper _ "Some limit", unfolded l]
  obtain core1 where p1: "scan_page A lower upper None (Some limit) core = (Ok (page_of None limit (take (limit + 1) xs)), core1)" "same_but_caches core core1"
    using page [of None] by (auto simp: xs(1))
  obtain core2 where p2: "scan_page A lower upper (Some c) (Some limit) core =
      (Ok (page_of (Some c) limit (take (limit + 1) ((c, v) # after (Some c) xs))), core2)" "same_but_caches core core2"
    using page [of "Some c"] client_entries_from [OF ok(1) c [unfolded xs(1)]] by (auto simp: xs(1))
  have first: "page_of None limit (take (limit + 1) xs) =
      (take limit xs, if limit < length xs then Some (fst (xs ! (limit - 1))) else None, limit < length xs)"
  proof -
    have no: "dropWhile (\<lambda>(k, _). None = Some k) ys = ys" for ys :: "(bytes \<times> bytes) list" by (cases ys) auto
    have "last (take limit xs) = xs ! (limit - 1)" if "limit < length xs" using that limit(1) by (subst last_conv_nth) auto
    moreover have "xs ! (limit - 1) \<in> set xs" if "limit < length xs" using that by simp
    ultimately show ?thesis using limit(1) xs(2) unfolding page_of_def no Let_def by (auto simp: min_def case_prod_beta)
  qed
  have "(c, w) \<notin> set (after (Some c) xs)" for w by (auto simp: after_def)
  then have "dropWhile (\<lambda>(k, _). Some c = Some k) (take limit (after (Some c) xs)) = take limit (after (Some c) xs)"
    by (cases "take limit (after (Some c) xs)") (auto dest: in_set_takeD [of _ limit], metis in_set_takeD list.set_intros(1))
  then have "page_of (Some c) limit (take (limit + 1) ((c, v) # after (Some c) xs)) = (take limit (after (Some c) xs), None, False)"
    by (simp add: page_of_def Let_def)
  then show ?thesis
    using p1 p2 first req by (simp add: scan_keys_def with_permission_def reply_to_def scan_reply_def)
qed

theorem scan_pages_witness:
  "\<exists>core'. scan_keys (demo_app degradation_normal) open_request None None None (Some 5) demo_core = Some (scan_reply [([1], [2])] None False, core')"
proof -
  let ?A = "demo_app degradation_normal"
  have A: "ap_host ?A = demo_host" "ap_clock ?A = (\<lambda>_. 0)" by (simp_all add: demo_app_def)
  have e: "strict_keys (client_entries Map.empty 0 None None demo_core)" "map_of (client_entries Map.empty 0 None None demo_core) key = client_view Map.empty 0 demo_core key" for key
    unfolding client_entries_def map_of_offered_any [OF demo_core_ok] by (rule map_of_offered(1) [OF demo_core_ok]) (simp add: in_range_def)
  have xs: "client_entries Map.empty 0 None None demo_core = [([1], [2])]"
    by (rule strict_keys_map_of_eq [OF e(1)]) (auto simp: fun_eq_iff e(2) demo_client_view)
  have "is_utf8 [1]" by (simp add: is_utf8_def lossy_ascii)
  then show ?thesis
    using scan_pages [of ?A Map.empty demo_core "''default''" open_request 5 "[([1], [2])]" None None "[1]" "[2]", unfolded A]
      demo_core_ok demo_host_laws demo_core_kv demo_steady demo_scan_length open_request_permits
    by (auto simp: xs MAX_SCAN_LIMIT_def)
qed

subsection \<open>Remaining time\<close>

lemma plain_lookup_same:
  assumes "same_tables (co_version_set core) (co_version_set core')"
  shows "plain_lookup cat now core' cf key = plain_lookup cat now core cf key"
  by (simp add: plain_lookup_def plain_key_def same_tables_cf [OF assms])

definition ttl_answer :: "bytes \<Rightarrow> json \<Rightarrow> bool \<Rightarrow> reply" where
  "ttl_answer key secs expired = Reply 200 (JObj [(''key'', JStr key), (''ttl_secs'', secs), (''expired'', JBool expired)])"

text \<open>A key that was written with a TTL, and has not been flushed to a table since, is reported as having no
  expiry: the remaining time is looked up in a side entry that only a flush writes.
\<close>

lemma ttl_unknown_before_flush:
  assumes ok: "engine_ok (ap_host A) cat core" "\<forall>cf. kv_coherent (ap_host A) cat cf (co_version_set core)" "host_laws (ap_host A)"
    and J: "ap_json A [] = None" "2 \<le> ap_fuel A" and key: "\<not> is_reserved key" "key \<noteq> []" "length key \<le> 4096"
    and room: "bytes_of core ''default'' + length key + length value +
        (\<Sum>e\<leftarrow>new_entries (ap_json A) cat (tk_search (ap_env A [])) key value core. length e) < write_buffer_limit (ap_options A)"
    and rd: "rd = put_record (ap_options A) (tk_now (ap_env A [])) (tk_ttl_now (ap_env A [])) ''default'' key value (Some (ttl_nanos secs))"
    and req: "require_permission Read req = Inr ()"
    and put: "put_key A req key value (Some secs) core = Some (status_ok, core')"
    and visible: "\<not> hidden (clock 0) (covering_range_tombstone_ts core ''default'') key value (Some rd)"
    and unflushed: "entry_at cat core ''default'' (TTL_PREFIX @ key) = None" "plain_lookup cat (clock 1) core ''default'' (TTL_PREFIX @ key)"
  shows "\<exists>core2. get_key_ttl (A\<lparr>ap_clock := clock\<rparr>) req key core' = Some (ttl_answer key JNull False, core2)"
proof -
  have rd': "rd = put_record (ap_options A) (tk_now (ap_env A [])) (tk_ttl_now (ap_env A [])) ''default'' key value (map_option ttl_nanos (Some secs))"
    by (simp add: rd)
  obtain res core1 where c: "store A [] key value (Some secs) core = Some (res, core1)" "engine_ok (ap_host A) cat core1"
    "\<forall>cf. kv_coherent (ap_host A) cat cf (co_version_set core1)" "covering_range_tombstone_ts core1 ''default'' = covering_range_tombstone_ts core ''default''"
    "\<And>k. \<not> starts_with INDEX_PREFIX k \<Longrightarrow> k \<noteq> key \<or> (\<forall>b. res \<noteq> Ok b) \<Longrightarrow>
       entry_at cat core1 ''default'' k = entry_at cat core ''default'' k \<and> memtable_record core1 ''default'' k = memtable_record core ''default'' k"
    "\<And>b. res = Ok b \<Longrightarrow> entry_at cat core1 ''default'' key = Some rd \<and> memtable_record core1 ''default'' key = Some rd"
    "same_tables (co_version_set core) (co_version_set core1)"
    by (rule store_effect [OF ok J key(1) room rd', of thesis]) blast
  obtain b where b: "res = Ok b" "core' = core1"
    using put c(1) by (cases res) (auto simp: put_key_def with_permission_def unless_def reply_to_def status_ok_def rejected_def
      internal_error_def error_reply_def auth_reply_def split: sum.splits if_splits)
  have v: "lr_value rd = value" unfolding rd by (simp add: put_record_def log_record_new_def new_with_ttl_def Let_def split: option.split)
  have m: "memtable_record core' ''default'' key = Some rd" using c(6) b by blast
  then have g: "get_cf (ap_host A) (clock 0) ''default'' key core' = (Ok (Some value), core')"
    using visible v b(2) by (auto simp: get_cf_def c(4) hidden_def Let_def split: option.splits)
  have "\<not> starts_with INDEX_PREFIX (TTL_PREFIX @ key)" by (simp add: starts_with_def INDEX_PREFIX_def TTL_PREFIX_def as_bytes_def)
  moreover have "TTL_PREFIX @ key \<noteq> key" by (simp add: TTL_PREFIX_def as_bytes_def)
  ultimately have "view cat (clock 1) core1 ''default'' (TTL_PREFIX @ key) = None" using c(5) unflushed(1) by (simp add: view_def)
  moreover have "plain_lookup cat (clock 1) core1 ''default'' (TTL_PREFIX @ key)" unfolding plain_lookup_same [OF c(7)] by (rule unflushed(2))
  ultimately obtain core2 where "get_cf (ap_host A) (clock 1) ''default'' (TTL_PREFIX @ key) core' = (Ok None, core2)"
    using get_cf_correct [OF c(2) ok(3) spec [OF c(3)], of "''default''" "TTL_PREFIX @ key" "clock 1"] b(2) by auto
  then show ?thesis
    using g req key(1) by (simp add: get_key_ttl_def with_permission_def unless_def ttl_reply_def ttl_answer_def Let_def)
qed

end
