(* ===== verification/Migration.thy ===== *)
theory Migration
  imports Engine_Core Wal_Rewrite "HOL-Library.Char_ord"
begin

text \<open>
  \<open>src/storage/migration.rs\<close>: rewriting a database directory under another encryption. The source is
  read, a new tree is built beside it and published at the end with a rename that replaces nothing.

  A directory is a tree of named nodes, in the order in which the system lists them. Of the operating
  system the model has what the code asks it: whether locks are free, whether the output exists, and
  whether the rename succeeds. Every file has its own source of random numbers, found by its path.
\<close>

datatype fs_node = RegularFile bytes | Directory "(string \<times> fs_node) list" | SpecialFile

record migration_report =
  mr_sstables :: u64
  mr_wal_frames :: u64
  mr_copied_files :: u64

definition LOCK_NAME :: string where "LOCK_NAME = ''.apexstore.lock''"

definition report_default :: migration_report where
  "report_default = \<lparr>mr_sstables = 0, mr_wal_frames = 0, mr_copied_files = 0\<rparr>"

subsection \<open>A table file\<close>

text \<open>\<open>StorageConfig::default\<close> with a block size that holds the largest block of the source.\<close>

definition migration_config :: "meta_block \<Rightarrow> storage_config" where
  "migration_config metadata =
     (let sizes = map (\<lambda>b. unat (bm_uncompressed_size b)) (mb_blocks metadata);
          max_block = (if sizes = [] then 4096 else Max (set sizes))
      in \<lparr>sc_block_size = min (max 4096 max_block) (MAX_VALUE_SIZE + MAX_KEY_SIZE + 4096),
          sc_bloom_false_positive_rate = FP_RATE, sc_prefix_compression_enabled = False\<rparr>)"

fun migrate_entries ::
  "('bl, 'c) crates \<Rightarrow> (nat \<Rightarrow> bytes option) \<Rightarrow> (bytes \<times> log_record) list \<Rightarrow> sst_builder \<Rightarrow> u64 \<Rightarrow> (sst_builder \<times> u64) outcome" where
  "migrate_entries X rng [] b count = Ok (b, count)"
| "migrate_entries X rng ((key, record) # entries) b count =
     (if key \<noteq> lr_key record then Err CorruptedData
      else and_then (sb_add X rng key record b) (\<lambda>b1. migrate_entries X rng entries b1 (count + 1)))"

text \<open>One block after the other, each up to the first key of the next one.\<close>

fun migrate_blocks ::
  "('bl, 'c) crates \<Rightarrow> (nat \<Rightarrow> bytes option) \<Rightarrow> 'bl sst_reader \<Rightarrow> block_meta list \<Rightarrow> 'c \<Rightarrow> sst_builder \<Rightarrow> u64 \<Rightarrow> (sst_builder \<times> u64) outcome" where
  "migrate_blocks X rng rd [] c b count = Ok (b, count)"
| "migrate_blocks X rng rd (block # blocks) c b count =
     (let stop = (case blocks of [] \<Rightarrow> None | next # _ \<Rightarrow> Some (bm_first_key next))
      in case scan_range X rd (Some (bm_first_key block)) stop c of
           (entries, c1) \<Rightarrow>
             and_then entries (\<lambda>es.
             and_then (migrate_entries X rng es b count) (\<lambda>(b1, count1).
             migrate_blocks X rng rd blocks c1 b1 count1)))"

text \<open>The reader of a migration has a block cache of its own, \<open>c\<close>.\<close>

definition open_for_migration :: "('bl, 'c) crates \<Rightarrow> u64 \<Rightarrow> bool \<Rightarrow> bytes \<Rightarrow> encryption_config \<Rightarrow> bool \<Rightarrow> 'bl sst_reader outcome" where
  "open_for_migration X table_id mmap_works source from allow_legacy_zero =
     (let result = rd_open X source from table_id mmap_works
      in if result = Err LegacyEncryptionMigrationRequired \<and> allow_legacy_zero
         then rd_open X source \<lparr>ec_key = replicate 32 0, ec_enabled = True\<rparr> table_id mmap_works
         else result)"

definition rewrite_sstable ::
  "('bl, 'c) crates \<Rightarrow> 'c \<Rightarrow> u64 \<Rightarrow> bool \<Rightarrow> (nat \<Rightarrow> bytes option) \<Rightarrow> bytes \<Rightarrow> encryption_config \<Rightarrow> encryption_config \<Rightarrow> bool \<Rightarrow> bytes outcome" where
  "rewrite_sstable X c table_id mmap_works rng source from to allow_legacy_zero =
     and_then (open_for_migration X table_id mmap_works source from allow_legacy_zero) (\<lambda>reader.
       let metadata = rd_metadata reader
       in and_then (migrate_blocks X rng reader (mb_blocks metadata) c (sb_new (migration_config metadata) (mb_timestamp metadata) to) 0)
            (\<lambda>(builder, count).
              if count \<noteq> mb_record_count metadata then Err CorruptedData
              else sb_finish X rng builder))"

subsection \<open>A directory\<close>

definition has_sst_extension :: "string \<Rightarrow> bool" where
  "has_sst_extension name \<longleftrightarrow> 4 < length name \<and> drop (length name - 4) name = ''.sst''"

definition is_wal_name :: "string \<Rightarrow> bool" where
  "is_wal_name name \<longleftrightarrow> name = ''wal.log'' \<or> (take 4 name = ''wal-'' \<and> drop (length name - 4) name = ''.log'')"

text \<open>What the migration of every file has in common.\<close>

record ('bl, 'c) migration =
  mi_crates :: "('bl, 'c) crates"
  mi_legacy :: legacy_codec
  mi_cache :: 'c
  mi_table_id :: "string list \<Rightarrow> u64"
  mi_mmap_works :: bool
  mi_rng :: "string list \<Rightarrow> nat \<Rightarrow> bytes option"
  mi_locked :: "string list \<Rightarrow> bool"
  mi_from :: encryption_config
  mi_to :: encryption_config
  mi_allow_legacy_zero :: bool

text \<open>A regular file: what it becomes, and how the report counts it.\<close>

definition migrate_file ::
  "('bl, 'c) migration \<Rightarrow> string list \<Rightarrow> string \<Rightarrow> bytes \<Rightarrow> migration_report \<Rightarrow> (bytes \<times> migration_report) outcome" where
  "migrate_file M path name source report =
     (if has_sst_extension name then
        and_then (rewrite_sstable (mi_crates M) (mi_cache M) (mi_table_id M path) (mi_mmap_works M) (mi_rng M path) source
            (mi_from M) (mi_to M) (mi_allow_legacy_zero M))
          (\<lambda>target. Ok (target, report\<lparr>mr_sstables := mr_sstables report + 1\<rparr>))
      else if is_wal_name name then
        and_then (rewrite_for_migration (mi_crates M) (mi_legacy M) (mi_rng M path) source name [] (mi_from M) (mi_to M) (mi_allow_legacy_zero M))
          (\<lambda>(target, frames). Ok (wal_file target, report\<lparr>mr_wal_frames := mr_wal_frames report + word_of_nat frames\<rparr>))
      else Ok (source, report\<lparr>mr_copied_files := mr_copied_files report + 1\<rparr>))"

definition nested_lock_ok :: "('bl, 'c) migration \<Rightarrow> string list \<Rightarrow> (string \<times> fs_node) list \<Rightarrow> bool" where
  "nested_lock_ok M path entries =
     (case map_of entries LOCK_NAME of
        None \<Rightarrow> True
      | Some (RegularFile _) \<Rightarrow> \<not> mi_locked M path
      | Some _ \<Rightarrow> False)"

lemma size_list_insort_key [simp]: "size_list f (insort_key k x xs) = Suc (f x + size_list f xs)"
  by (induction xs) auto

lemma size_list_sort_key [simp]: "size_list f (sort_key k xs) = size_list f xs"
  by (induction xs) auto

function rewrite_entries ::
  "('bl, 'c) migration \<Rightarrow> string list \<Rightarrow> (string \<times> fs_node) list \<Rightarrow> migration_report \<Rightarrow> ((string \<times> fs_node) list \<times> migration_report) outcome" where
  "rewrite_entries M path [] report = Ok ([], report)"
| "rewrite_entries M path ((name, node) # entries) report =
     (if node = SpecialFile then Err InvalidArgument
      else if name = LOCK_NAME then rewrite_entries M path entries report
      else and_then
        (case node of
           Directory sub \<Rightarrow>
             if \<not> nested_lock_ok M (path @ [name]) sub then Err InvalidArgument
             else and_then (rewrite_entries M (path @ [name]) (sort_key fst sub) report) (\<lambda>(out, report1). Ok (Directory out, report1))
         | RegularFile source \<Rightarrow>
             and_then (migrate_file M (path @ [name]) name source report) (\<lambda>(target, report1). Ok (RegularFile target, report1))
         | SpecialFile \<Rightarrow> Err InvalidArgument)
        (\<lambda>(target, report1).
          and_then (rewrite_entries M path entries report1) (\<lambda>(targets, report2). Ok ((name, target) # targets, report2))))"
  by pat_completeness auto
termination
  by (relation "measure (\<lambda>(_, _, es, _). size_list (size_prod (\<lambda>_. 0) size) es)") auto

definition rewrite_directory ::
  "('bl, 'c) migration \<Rightarrow> string list \<Rightarrow> (string \<times> fs_node) list \<Rightarrow> migration_report \<Rightarrow> ((string \<times> fs_node) list \<times> migration_report) outcome" where
  "rewrite_directory M path entries report = rewrite_entries M path (sort_key fst entries) report"

subsection \<open>The whole migration\<close>

text \<open>
  What the operating system answers on the way: the source, whether the lock of the source and then
  that of the staging directory is free, whether the output exists before and after the conversion,
  whether its parent exists, its name, whether it lies in the source, and whether the staging directory
  can be made and renamed.
\<close>

record migration_site =
  si_platform_supported :: bool
  si_source :: "fs_node option"
  si_lock_free :: bool
  si_output_exists :: bool
  si_parent_exists :: bool
  si_output_name :: "string option"
  si_output_inside_source :: bool
  si_staging_works :: bool
  si_output_appeared :: bool
  si_rename_works :: bool

definition lock_is_regular :: "(string \<times> fs_node) list \<Rightarrow> bool" where
  "lock_is_regular entries = (case map_of entries LOCK_NAME of Some (RegularFile _) \<Rightarrow> True | Some _ \<Rightarrow> False | None \<Rightarrow> True)"

text \<open>The result: the report, and the directory that is published, which has a lock file of its own.\<close>

definition migrate_inner ::
  "('bl, 'c) migration \<Rightarrow> migration_site \<Rightarrow> (migration_report \<times> fs_node) outcome" where
  "migrate_inner M S =
     (if \<not> si_platform_supported S then Err InvalidArgument
      else if ec_enabled (mi_to M) \<and> ec_key (mi_to M) = replicate 32 0 then Err InvalidArgument
      else case si_source S of
        None \<Rightarrow> Err (Io OtherKind)
      | Some (Directory entries) \<Rightarrow>
          if \<not> lock_is_regular entries then Err InvalidArgument
          else if \<not> si_lock_free S then Err InvalidArgument
          else if si_output_exists S then Err InvalidArgument
          else if \<not> si_parent_exists S then Err (Io OtherKind)
          else if si_output_name S = None then Err InvalidArgument
          else if si_output_inside_source S then Err InvalidArgument
          else if \<not> si_staging_works S then Err (Io OtherKind)
          else and_then (rewrite_directory M [] (if map_of entries LOCK_NAME = None then (LOCK_NAME, RegularFile []) # entries else entries) report_default)
            (\<lambda>(out, report).
              if si_output_appeared S then Err InvalidArgument
              else if \<not> si_rename_works S then Err (Io OtherKind)
              else Ok (report, Directory ((LOCK_NAME, RegularFile []) # out)))
      | Some _ \<Rightarrow> Err InvalidArgument)"

definition migrate_encryption :: "('bl, 'c) migration \<Rightarrow> migration_site \<Rightarrow> (migration_report \<times> fs_node) outcome" where
  "migrate_encryption M S = migrate_inner (M\<lparr>mi_allow_legacy_zero := False\<rparr>) S"

definition migrate_encryption_with_legacy_fallback :: "('bl, 'c) migration \<Rightarrow> migration_site \<Rightarrow> (migration_report \<times> fs_node) outcome" where
  "migrate_encryption_with_legacy_fallback M S = migrate_inner (M\<lparr>mi_allow_legacy_zero := True\<rparr>) S"

subsection \<open>A migrated table\<close>

lemma migrate_entries_add_all:
  "\<forall>(key, record) \<in> set es. lr_key record = key \<Longrightarrow>
   migrate_entries X rng es b count = and_then (sb_add_all X rng es b) (\<lambda>b1. Ok (b1, count + word_of_nat (length es)))"
proof (induction es arbitrary: b count)
  case (Cons e es)
  obtain key rd where e: "e = (key, rd)" by fastforce
  then show ?case using Cons by (cases "sb_add X rng key rd b") (auto simp: algebra_simps)
qed simp

lemma sb_add_all_append: "sb_add_all X rng (es @ fs) b = and_then (sb_add_all X rng es b) (sb_add_all X rng fs)"
proof (induction es arbitrary: b)
  case (Cons e es)
  obtain key rd where e: "e = (key, rd)" by fastforce
  then show ?case using Cons by (cases "sb_add X rng key rd b") auto
qed simp

text \<open>Scanning from the first key of a block to that of the next one gives the entries of the block.\<close>

lemma filter_block:
  assumes ok: "segs_ok (pre @ s # suf)"
  shows "List.filter (\<lambda>x. in_range (Some (seg_first s)) (case suf of [] \<Rightarrow> None | t # _ \<Rightarrow> Some (seg_first t)) (fst x))
      (seg_ents (pre @ s # suf)) = fst s"
proof -
  let ?P = "\<lambda>x. in_range (Some (seg_first s)) (case suf of [] \<Rightarrow> None | t # _ \<Rightarrow> Some (seg_first t)) (fst x)"
  have okS: "segs_ok (s # suf)" using segs_ok_append [OF ok] by blast
  have "\<forall>x \<in> set (seg_ents pre). \<not> ?P x"
    using seg_before [OF ok order_refl] by (fastforce simp: in_range_def)
  moreover have "\<forall>x \<in> set (fst s). ?P x"
    using segs_ok_Cons(3) [OF okS] segs_ok_first_less [OF okS] by (auto simp: in_range_def split: list.split)
  moreover have "\<forall>x \<in> set (seg_ents suf). \<not> ?P x"
  proof (cases suf)
    case (Cons t ts)
    have okT: "segs_ok (t # ts)" using segs_ok_Cons(1) [OF okS] Cons by simp
    then have "hd (fst t) \<in> set (fst t)" by (simp add: segs_ok_def)
    then have "\<forall>x \<in> set (seg_ents ts). seg_first t < fst x" using segs_ok_Cons(4) [OF okT] by blast
    then have "\<forall>x \<in> set (seg_ents suf). seg_first t \<le> fst x"
      using segs_ok_Cons(3) [OF okT] Cons by (simp add: ball_Un less_imp_le)
    then show ?thesis using Cons by (fastforce simp: in_range_def)
  qed simp
  ultimately show ?thesis by (simp add: filter_empty_conv filter_id_conv)
qed

lemma migrate_blocks_add_all:
  assumes f: "sst_file X enc kvs segs meta mw file" and rd: "reader_for enc meta file rd" and law: "cache_law X"
    and keys: "\<forall>(key, record) \<in> set kvs. lr_key record = key"
    and "cache_coherent X (rd_table_id rd) segs c" "segs = pre @ suf"
  shows "migrate_blocks X rng rd (map (\<lambda>s. fst (snd s)) suf) c b count =
    and_then (sb_add_all X rng (seg_ents suf) b) (\<lambda>b1. Ok (b1, count + word_of_nat (length (seg_ents suf))))"
  using assms(5,6)
proof (induction suf arbitrary: pre c b count)
  case (Cons s suf)
  have kvs: "kvs = seg_ents (pre @ s # suf)" using sst_fileD(1) [OF f] Cons.prems(2) by simp
  have first: "\<forall>t \<in> set (s # suf). bm_first_key (fst (snd t)) = seg_first t" using sst_file_segs(2) [OF f] Cons.prems(2) by simp
  have stop: "(case map (\<lambda>s. fst (snd s)) suf of [] \<Rightarrow> None | next # _ \<Rightarrow> Some (bm_first_key next)) =
      (case suf of [] \<Rightarrow> None | t # _ \<Rightarrow> Some (seg_first t))"
    using first by (cases suf) auto
  have "List.filter (\<lambda>x. in_range (Some (seg_first s)) (case suf of [] \<Rightarrow> None | t # _ \<Rightarrow> Some (seg_first t)) (fst x)) kvs = fst s"
    unfolding kvs using filter_block sst_file_segs(1) [OF f] Cons.prems(2) by blast
  then obtain c1 where scan: "scan_range X rd (Some (seg_first s)) (case suf of [] \<Rightarrow> None | t # _ \<Rightarrow> Some (seg_first t)) c = (Ok (fst s), c1)"
    "cache_coherent X (rd_table_id rd) segs c1"
    using scan_range_correct [OF f rd law Cons.prems(1)] by metis
  have entries: "migrate_entries X rng (fst s) b count = and_then (sb_add_all X rng (fst s) b) (\<lambda>b1. Ok (b1, count + word_of_nat (length (fst s))))"
    using keys kvs by (intro migrate_entries_add_all) auto
  show ?case
    using Cons.IH [OF scan(2), of "pre @ [s]"] Cons.prems(2) scan(1) first
    by (cases "sb_add_all X rng (fst s) b")
      (auto simp: Let_def stop entries sb_add_all_append algebra_simps)
qed simp

text \<open>
  Rewriting a table file is building a table with the same entries and the same timestamp under the
  new encryption.
\<close>

lemma rewrite_sstable_rebuilds:
  assumes build: "sst_build X rng cfg ts from kvs = Ok file" and laws: "crate_laws X rng" and "valid_config cfg"
    and "\<forall>e\<in>set kvs. valid_entry X cfg e" and small: "length file < 2 ^ 32" and "length kvs < 2 ^ 64"
    and fresh: "\<forall>i. x_cache_get X c (tid, i) = None" and keys: "\<forall>(key, record) \<in> set kvs. lr_key record = key"
  shows "\<exists>rd. rd_open X file from tid mm = Ok rd \<and>
    rewrite_sstable X c tid mm rng' file from to allow = sst_build X rng' (migration_config (rd_metadata rd)) ts to kvs"
proof -
  obtain segs meta mw where f: "sst_file X from kvs segs meta mw file" "mb_timestamp meta = ts"
    using sst_build_file [OF assms(1-5)] by blast
  obtain rd where rd: "rd_open X file from tid mm = Ok rd" "reader_for from meta file rd" "rd_table_id rd = tid"
    using rd_open_file [OF f(1) laws small assms(6)] by blast
  have coherent: "cache_coherent X (rd_table_id rd) segs c" and law: "cache_law X"
    using laws fresh rd(3) by (simp_all add: cache_coherent_def cache_get_def crate_laws_def)
  have meta: "rd_metadata rd = meta" using rd(2) by (simp add: reader_for_def)
  note d = sst_fileD [OF f(1)]
  have "open_for_migration X tid mm file from allow = Ok rd" using rd(1) by (simp add: open_for_migration_def)
  then have "rewrite_sstable X c tid mm rng' file from to allow = sst_build X rng' (migration_config meta) ts to kvs"
    using migrate_blocks_add_all [OF f(1) rd(2) law keys coherent, of "[]" segs rng' "sb_new (migration_config meta) ts to" 0]
    by (cases "sb_add_all X rng' kvs (sb_new (migration_config meta) ts to)")
      (auto simp: rewrite_sstable_def Let_def meta f(2) d(8) d(11) d(1) [symmetric] sst_build_def)
  then show ?thesis using rd(1) meta by blast
qed

subsection \<open>A migrated directory\<close>

fun file_at :: "string list \<Rightarrow> fs_node \<Rightarrow> bytes option" where
  "file_at [] (RegularFile bs) = Some bs"
| "file_at (name # path) (Directory entries) = (case map_of entries name of None \<Rightarrow> None | Some node \<Rightarrow> file_at path node)"
| "file_at _ _ = None"

text \<open>Names are unique in every directory.\<close>

inductive tidy :: "fs_node \<Rightarrow> bool" where
  "tidy (RegularFile bs)"
| "tidy SpecialFile"
| "distinct (map fst entries) \<Longrightarrow> (\<forall>(_, node) \<in> set entries. tidy node) \<Longrightarrow> tidy (Directory entries)"

inductive_simps tidy_simps [simp]: "tidy (RegularFile bs)" "tidy SpecialFile" "tidy (Directory entries)"

text \<open>A file and what a migration makes of it.\<close>

definition migrates_to :: "('bl, 'c) migration \<Rightarrow> string list \<Rightarrow> bytes \<Rightarrow> bytes \<Rightarrow> bool" where
  "migrates_to M path source target \<longleftrightarrow>
     (\<exists>report report'. migrate_file M path (last path) source report = Ok (target, report'))"

definition migrated_at :: "('bl, 'c) migration \<Rightarrow> string list \<Rightarrow> string list \<Rightarrow> fs_node \<Rightarrow> fs_node \<Rightarrow> bool" where
  "migrated_at M base path source target \<longleftrightarrow>
     (case file_at path source of
        None \<Rightarrow> file_at path target = None
      | Some bs \<Rightarrow>
          if LOCK_NAME \<in> set path then file_at path target = None
          else \<exists>bs'. file_at path target = Some bs' \<and> migrates_to M (base @ path) bs bs')"

lemma tidy_sort: "tidy (Directory es) \<Longrightarrow> tidy (Directory (sort_key fst es))"
  by (simp add: distinct_map inj_on_def)

lemma file_at_sort: "tidy (Directory es) \<Longrightarrow> file_at path (Directory (sort_key fst es)) = file_at path (Directory es)"
  by (cases path) (simp_all add: map_of_sort_key)

text \<open>The successful runs, as a relation.\<close>

inductive rewritten :: "('bl, 'c) migration \<Rightarrow> string list \<Rightarrow> (string \<times> fs_node) list \<Rightarrow> (string \<times> fs_node) list \<Rightarrow> bool" for M where
  empty: "rewritten M base [] []"
| lock: "rewritten M base es out \<Longrightarrow> rewritten M base ((LOCK_NAME, node) # es) out"
| directory:
    "name \<noteq> LOCK_NAME \<Longrightarrow> rewritten M (base @ [name]) (sort_key fst sub) sub' \<Longrightarrow> rewritten M base es out \<Longrightarrow>
     rewritten M base ((name, Directory sub) # es) ((name, Directory sub') # out)"
| regular:
    "name \<noteq> LOCK_NAME \<Longrightarrow> migrates_to M (base @ [name]) source target \<Longrightarrow> rewritten M base es out \<Longrightarrow>
     rewritten M base ((name, RegularFile source) # es) ((name, RegularFile target) # out)"

lemma rewrite_entries_rewritten: "rewrite_entries M base es report = Ok (out, report') \<Longrightarrow> rewritten M base es out"
proof (induction M base es report arbitrary: out report' rule: rewrite_entries.induct)
  case (1 M base report)
  then show ?case by (simp add: rewritten.empty)
next
  case (2 M base name node es report)
  then show ?case
    by (cases node) (auto simp: migrates_to_def split: if_splits intro!: rewritten.intros exI)
qed

lemma rewritten_names: "rewritten M base es out \<Longrightarrow> fst ` set out = fst ` set es - {LOCK_NAME}"
  by (induction rule: rewritten.induct) auto

lemma migrated_at_Nil: "migrated_at M base [] (Directory es) (Directory out)"
  by (simp add: migrated_at_def split: option.split)

lemma migrated_at_here:
  "name \<noteq> LOCK_NAME \<Longrightarrow>
   migrated_at M base (name # p) (Directory ((name, x) # es)) (Directory ((name, y) # out)) \<longleftrightarrow> migrated_at M (base @ [name]) p x y"
  by (simp add: migrated_at_def split: option.split)

lemma migrated_at_there:
  "n \<noteq> name \<Longrightarrow>
   migrated_at M base (n # p) (Directory ((name, x) # es)) (Directory ((name, y) # out)) \<longleftrightarrow>
   migrated_at M base (n # p) (Directory es) (Directory out)"
  by (simp add: migrated_at_def split: option.split)

lemma migrated_at_Cons:
  assumes "name \<noteq> LOCK_NAME" "\<And>p. migrated_at M (base @ [name]) p x y" "\<And>p. migrated_at M base p (Directory es) (Directory out)"
  shows "migrated_at M base path (Directory ((name, x) # es)) (Directory ((name, y) # out))"
proof (cases path)
  case (Cons n p)
  show ?thesis
    unfolding Cons using assms by (cases "n = name") (auto simp: migrated_at_here migrated_at_there)
qed (simp add: migrated_at_Nil)

lemma rewritten_files:
  "rewritten M base es out \<Longrightarrow> tidy (Directory es) \<Longrightarrow> migrated_at M base path (Directory es) (Directory out)"
proof (induction arbitrary: path rule: rewritten.induct)
  case (empty base)
  then show ?case by (cases path) (simp_all add: migrated_at_def)
next
  case (lock base es out node)
  have none: "map_of out LOCK_NAME = None" using rewritten_names [OF lock.hyps] by (auto simp: map_of_eq_None_iff)
  have IH: "migrated_at M base path (Directory es) (Directory out)" using lock.IH lock.prems by simp
  show ?case
    using IH none by (cases path) (auto simp: migrated_at_def split: option.splits if_splits)
next
  case (directory name base sub sub' es out)
  have sub: "tidy (Directory sub)" and es: "tidy (Directory es)" using directory.prems by simp_all
  have IH: "migrated_at M (base @ [name]) p (Directory sub) (Directory sub')" for p
    using directory.IH(1) [OF tidy_sort [OF sub], of p] by (simp add: migrated_at_def file_at_sort [OF sub])
  show ?case
    by (rule migrated_at_Cons [OF directory.hyps(1) IH directory.IH(2) [OF es]])
next
  case (regular name base source target es out)
  have es: "tidy (Directory es)" using regular.prems by simp
  have here: "migrated_at M (base @ [name]) p (RegularFile source) (RegularFile target)" for p
    using regular.hyps(2) by (cases p) (simp_all add: migrated_at_def)
  show ?case
    by (rule migrated_at_Cons [OF regular.hyps(1) here regular.IH [OF es]])
qed

text \<open>A built table returns what was added to it.\<close>

lemma built_table_reads:
  assumes "sst_build X rng cfg ts enc kvs = Ok file" and "crate_laws X rng" and "valid_config cfg"
    and "\<forall>e\<in>set kvs. valid_entry X cfg e" and "length file < 2 ^ 32" and "length kvs < 2 ^ 64"
    and "\<forall>i. x_cache_get X c (tid, i) = None"
  shows "\<exists>rd c'. rd_open X file enc tid mm = Ok rd \<and> rd_get X rd key c = (Ok (map_of kvs key), c')"
proof -
  obtain segs meta mw where f: "sst_file X enc kvs segs meta mw file"
    using sst_build_file [OF assms(1-5)] by blast
  obtain rd where rd: "rd_open X file enc tid mm = Ok rd" "reader_for enc meta file rd" "rd_table_id rd = tid"
    "\<forall>k\<in>fst ` set kvs. might_contain X rd k"
    using rd_open_file [OF f assms(2,5,6)] by blast
  have "cache_coherent X (rd_table_id rd) segs c"
    using assms(7) rd(3) by (simp add: cache_coherent_def cache_get_def)
  then show ?thesis using rd_get_correct [OF f rd(2) _ _ rd(4)] rd(1) assms(2) by (auto simp: crate_laws_def)
qed

text \<open>The source of a table file that some run of the engine built.\<close>

definition table_source :: "('bl, 'c) migration \<Rightarrow> u128 \<Rightarrow> (bytes \<times> log_record) list \<Rightarrow> bytes \<Rightarrow> bool" where
  "table_source M ts kvs file \<longleftrightarrow>
     (\<exists>rng cfg. sst_build (mi_crates M) rng cfg ts (mi_from M) kvs = Ok file \<and> crate_laws (mi_crates M) rng \<and> valid_config cfg \<and>
       (\<forall>e \<in> set kvs. valid_entry (mi_crates M) cfg e)) \<and>
     length file < 2 ^ 32 \<and> length kvs < 2 ^ 64 \<and> (\<forall>(key, record) \<in> set kvs. lr_key record = key)"

text \<open>The source of a log file: the records that were written to a new log.\<close>

definition log_source :: "('bl, 'c) migration \<Rightarrow> log_record list \<Rightarrow> bytes \<Rightarrow> bool" where
  "log_source M rs file \<longleftrightarrow>
     (\<exists>rng w. write_all (mi_crates M) rng rs (wal_open [] (mi_from M)) = Ok w \<and> wal_file w = file \<and> crate_laws (mi_crates M) rng) \<and>
     (\<forall>r \<in> set rs. fits_log (mi_crates M) r)"

lemma migrated_table:
  assumes "migrates_to M path file file'" "has_sst_extension (last path)" "table_source M ts kvs file"
    "\<forall>tid i. x_cache_get (mi_crates M) (mi_cache M) (tid, i) = None"
  shows "\<exists>old. rd_open (mi_crates M) file (mi_from M) (mi_table_id M path) (mi_mmap_works M) = Ok old \<and>
    sst_build (mi_crates M) (mi_rng M path) (migration_config (rd_metadata old)) ts (mi_to M) kvs = Ok file' \<and>
    (length file' < 2 ^ 32 \<and> valid_config (migration_config (rd_metadata old)) \<and> crate_laws (mi_crates M) (mi_rng M path) \<longrightarrow>
      (\<exists>rd c'. rd_open (mi_crates M) file' (mi_to M) tid mm = Ok rd \<and> rd_get (mi_crates M) rd key (mi_cache M) = (Ok (map_of kvs key), c')))"
proof -
  obtain rng cfg where s: "sst_build (mi_crates M) rng cfg ts (mi_from M) kvs = Ok file" "crate_laws (mi_crates M) rng" "valid_config cfg"
    "\<forall>e \<in> set kvs. valid_entry (mi_crates M) cfg e" "length file < 2 ^ 32" "length kvs < 2 ^ 64" "\<forall>(key, record) \<in> set kvs. lr_key record = key"
    using assms(3) unfolding table_source_def by blast
  obtain old where old: "rd_open (mi_crates M) file (mi_from M) (mi_table_id M path) (mi_mmap_works M) = Ok old"
    "rewrite_sstable (mi_crates M) (mi_cache M) (mi_table_id M path) (mi_mmap_works M) (mi_rng M path) file (mi_from M) (mi_to M)
      (mi_allow_legacy_zero M) = sst_build (mi_crates M) (mi_rng M path) (migration_config (rd_metadata old)) ts (mi_to M) kvs"
    using rewrite_sstable_rebuilds [OF s(1-6) _ s(7)] assms(4) by blast
  then have b: "sst_build (mi_crates M) (mi_rng M path) (migration_config (rd_metadata old)) ts (mi_to M) kvs = Ok file'"
    using assms(1,2) by (auto simp: migrates_to_def migrate_file_def)
  have "\<forall>e \<in> set kvs. valid_entry (mi_crates M) (migration_config (rd_metadata old)) e"
    using s(4) by (simp add: valid_entry_def migration_config_def Let_def)
  then show ?thesis using old(1) b built_table_reads [OF b _ _ _ _ s(6)] assms(4) by blast
qed

lemma migrated_log:
  assumes "migrates_to M path file file'" "is_wal_name (last path)" "\<not> has_sst_extension (last path)" "log_source M rs file"
  shows "\<exists>w. write_all (mi_crates M) (mi_rng M path) rs (set_sync_interval usize_max (wal_open [] (mi_to M))) = Ok w \<and> wal_file w = file'"
proof -
  obtain report report' out frames where r: "rewrite_for_migration (mi_crates M) (mi_legacy M) (mi_rng M path) file (last path) [] (mi_from M) (mi_to M)
      (mi_allow_legacy_zero M) = Ok (out, frames)" "file' = wal_file out"
    using assms(1-3) by (auto simp: migrates_to_def migrate_file_def)
  obtain rng w where w: "write_all (mi_crates M) rng rs (wal_open [] (mi_from M)) = Ok w" "wal_file w = file" "crate_laws (mi_crates M) rng"
    "\<forall>r \<in> set rs. fits_log (mi_crates M) r"
    using assms(4) unfolding log_source_def by blast
  obtain cf where "wal_cf_of_file_name (last path) = Ok cf" using r(1) by (auto simp: rewrite_for_migration_def)
  from wal_migration_complete [OF w(1,3,4) this] r w(2) show ?thesis by (auto simp: wal_sync_def)
qed

lemma published_at:
  assumes run: "migrate_inner M S = Ok (report, out)" and src: "si_source S = Some source" and tidy: "tidy source" and path: "path \<noteq> [LOCK_NAME]"
  shows "migrated_at M [] path source out"
proof -
  obtain es where es: "source = Directory es" using run src by (auto simp: migrate_inner_def split: if_splits fs_node.splits)
  let ?es = "if map_of es LOCK_NAME = None then (LOCK_NAME, RegularFile []) # es else es"
  obtain out0 where r: "rewrite_directory M [] ?es report_default = Ok (out0, report)" and out: "out = Directory ((LOCK_NAME, RegularFile []) # out0)"
    using run src unfolding es migrate_inner_def by (auto split: if_splits)
  have t: "tidy (Directory ?es)" using tidy es by (auto simp: map_of_eq_None_iff)
  have m: "migrated_at M [] path (Directory ?es) (Directory out0)"
    using rewritten_files [OF rewrite_entries_rewritten [OF r [unfolded rewrite_directory_def]] tidy_sort [OF t], of path]
    by (simp add: migrated_at_def file_at_sort [OF t])
  have lock: "file_at p (RegularFile bs) = None" if "p \<noteq> []" for p bs using that by (cases p) auto
  have none: "map_of out0 LOCK_NAME = None"
    using rewritten_names [OF rewrite_entries_rewritten [OF r [unfolded rewrite_directory_def]]] by (auto simp: map_of_eq_None_iff)
  have "file_at path (Directory ?es) = file_at path source"
    using path lock by (cases path) (auto simp: es)
  moreover have "file_at path out = file_at path (Directory out0)"
    using path lock none by (cases path) (auto simp: out)
  ultimately show ?thesis using m by (auto simp: migrated_at_def split: option.splits if_splits)
qed

lemma migrated_plain:
  "migrates_to M path file file' \<Longrightarrow> \<not> has_sst_extension (last path) \<Longrightarrow> \<not> is_wal_name (last path) \<Longrightarrow> file' = file"
  by (auto simp: migrates_to_def migrate_file_def)

subsection \<open>Properties\<close>

text \<open>C29: a migration that succeeds publishes a directory with the same files, lock files apart. A table
  is built anew from the same entries with the same timestamp, and a lookup in it under the new
  encryption returns the record of the old table. A log has the same records in the same order
  under the new encryption. Every other file is copied.\<close>

theorem migration_keeps_data:
  assumes run: "migrate_inner M S = Ok (report, out)" and src: "si_source S = Some source" "tidy source"
    and fresh: "\<forall>tid i. x_cache_get (mi_crates M) (mi_cache M) (tid, i) = None" and path: "LOCK_NAME \<notin> set path"
  shows "case file_at path source of
      None \<Rightarrow> file_at path out = None
    | Some file \<Rightarrow> \<exists>file'. file_at path out = Some file' \<and>
        (has_sst_extension (last path) \<longrightarrow> table_source M ts kvs file \<longrightarrow>
          (\<exists>old. rd_open (mi_crates M) file (mi_from M) (mi_table_id M path) (mi_mmap_works M) = Ok old \<and>
            sst_build (mi_crates M) (mi_rng M path) (migration_config (rd_metadata old)) ts (mi_to M) kvs = Ok file' \<and>
            (length file' < 2 ^ 32 \<and> valid_config (migration_config (rd_metadata old)) \<and> crate_laws (mi_crates M) (mi_rng M path) \<longrightarrow>
              (\<exists>rd c'. rd_open (mi_crates M) file' (mi_to M) tid mm = Ok rd \<and>
                rd_get (mi_crates M) rd key (mi_cache M) = (Ok (map_of kvs key), c'))))) \<and>
        (is_wal_name (last path) \<and> \<not> has_sst_extension (last path) \<longrightarrow> log_source M rs file \<longrightarrow>
          (\<exists>w. write_all (mi_crates M) (mi_rng M path) rs (set_sync_interval usize_max (wal_open [] (mi_to M))) = Ok w \<and> wal_file w = file')) \<and>
        (\<not> is_wal_name (last path) \<and> \<not> has_sst_extension (last path) \<longrightarrow> file' = file)"
proof -
  have m: "migrated_at M [] path source out" using path by (intro published_at [OF run src]) auto
  show ?thesis
  proof (cases "file_at path source")
    case None
    then show ?thesis using m by (simp add: migrated_at_def)
  next
    case (Some f0)
    then obtain file' where f: "file_at path out = Some file'" "migrates_to M path f0 file'"
      using m path by (auto simp: migrated_at_def)
    show ?thesis
      using f(1) migrated_table [OF f(2) _ _ fresh, of ts kvs tid mm key] migrated_log [OF f(2), of rs] migrated_plain [OF f(2)]
      unfolding Some by auto
  qed
qed

text \<open>An example: a directory with one table and one other file.\<close>

definition demo_migration :: "(unit, unit) migration" where
  "demo_migration = \<lparr>mi_crates = demo_crates, mi_legacy = \<lparr>lc_decode_v0 = (\<lambda>_. None), lc_decode_v1 = (\<lambda>_. None)\<rparr>, mi_cache = (),
     mi_table_id = (\<lambda>_. 3), mi_mmap_works = True, mi_rng = (\<lambda>_ _. None), mi_locked = (\<lambda>_. False),
     mi_from = encryption_default, mi_to = encryption_default, mi_allow_legacy_zero = False\<rparr>"

definition demo_source :: fs_node where
  "demo_source = Directory [(''b.sst'', RegularFile demo_file), (''a'', RegularFile [7])]"

definition demo_site :: migration_site where
  "demo_site = \<lparr>si_platform_supported = True, si_source = Some demo_source, si_lock_free = True, si_output_exists = False,
     si_parent_exists = True, si_output_name = Some ''new'', si_output_inside_source = False, si_staging_works = True,
     si_output_appeared = False, si_rename_works = True\<rparr>"

lemma demo_open: "case rd_open demo_crates demo_file encryption_default 3 True of Ok rd \<Rightarrow> rd_metadata rd = demo_meta | _ \<Rightarrow> False"
  by code_simp

lemma demo_block_4096: "block_add [1] [1, 2] (block_new 4096) = (True, demo_block\<lparr>blk_block_size := 4096\<rparr>)"
  "block_encode (x_crc32 demo_crates) (demo_block\<lparr>blk_block_size := 4096\<rparr>) = demo_encoded" "blk_offsets (demo_block\<lparr>blk_block_size := 4096\<rparr>) \<noteq> []"
  by code_simp+

lemma demo_config_4096: "migration_config demo_meta = \<lparr>sc_block_size = 4096, sc_bloom_false_positive_rate = FP_RATE, sc_prefix_compression_enabled = False\<rparr>"
  by (simp add: migration_config_def demo_meta_def MAX_VALUE_SIZE_def)

lemma demo_rewrite: "rewrite_sstable demo_crates () 3 True (\<lambda>_. None) demo_file encryption_default encryption_default False = Ok demo_file"
proof -
  have build: "sst_build demo_crates (\<lambda>_. None) (migration_config demo_meta) 0 encryption_default demo_entries = Ok demo_file"
    using demo_add(4) demo_block_4096 demo_seal unfolding demo_config_4096
    by (simp add: sst_build_def demo_entries_def sb_add_def sb_new_def sb_place_def encode_record_def
        encryption_default_def encryptor_new_def Let_def sb_finish_def flush_current_block_def
        extract_first_key_from_block_def seal_def build_bloom_filter_def encode_meta_def demo_meta_def
        demo_file_def demo_encoded_def)
  have keys: "\<forall>(key, rd) \<in> set demo_entries. lr_key rd = key" by (simp add: demo_entries_def log_record_new_def)
  have fresh: "\<forall>i. x_cache_get demo_crates () (3, i) = None" using demo_sizes(5) by blast
  show ?thesis
    using rewrite_sstable_rebuilds [OF demo_build demo_laws demo_sizes(1-4) fresh keys, of True "\<lambda>_. None" encryption_default False]
      demo_open build by auto
qed

lemma encryption_off: "\<not> ec_enabled encryption_default"
  by (simp add: encryption_default_def)

lemma demo_names:
  "LOCK_NAME \<le> ''a''" "LOCK_NAME \<le> ''b.sst''" "''a'' \<le> ''b.sst''" "\<not> ''b.sst'' \<le> ''a''" "''a'' \<noteq> LOCK_NAME" "''b.sst'' \<noteq> LOCK_NAME"
  "has_sst_extension ''b.sst''" "\<not> has_sst_extension ''a''" "\<not> is_wal_name ''a''"
  by code_simp+

theorem migration_keeps_data_witness:
  "\<exists>report out. migrate_inner demo_migration demo_site = Ok (report, out) \<and> file_at [''a''] out = Some [7] \<and>
     (\<exists>file' rd c'. file_at [''b.sst''] out = Some file' \<and> rd_open demo_crates file' encryption_default 4 False = Ok rd \<and>
        rd_get demo_crates rd [1] () = (Ok (Some (log_record_new 0 [1] [2])), c'))"
proof -
  have sorted: "sort_key fst [(LOCK_NAME, RegularFile []), (''b.sst'', RegularFile demo_file), (''a'', RegularFile [7])] =
      [(LOCK_NAME, RegularFile []), (''a'', RegularFile [7]), (''b.sst'', RegularFile demo_file)]"
    using demo_names by simp
  obtain report where run: "migrate_inner demo_migration demo_site =
      Ok (report, Directory [(LOCK_NAME, RegularFile []), (''a'', RegularFile [7]), (''b.sst'', RegularFile demo_file)])"
    using demo_rewrite sorted demo_names
    by (simp add: migrate_inner_def demo_site_def demo_source_def demo_migration_def encryption_off
        lock_is_regular_def rewrite_directory_def migrate_file_def)
  let ?M = "demo_migration" and ?out = "Directory [(LOCK_NAME, RegularFile []), (''a'', RegularFile [7]), (''b.sst'', RegularFile demo_file)]"
  have src: "si_source demo_site = Some demo_source" "tidy demo_source" by (simp_all add: demo_site_def demo_source_def)
  have fresh: "\<forall>tid i. x_cache_get (mi_crates ?M) (mi_cache ?M) (tid, i) = None" using demo_sizes(5) by (simp add: demo_migration_def)
  have keys: "\<forall>(key, rd) \<in> set demo_entries. lr_key rd = key" by (simp add: demo_entries_def log_record_new_def)
  have table: "table_source ?M 0 demo_entries demo_file"
    unfolding table_source_def demo_migration_def using demo_build demo_laws demo_sizes(1-4) keys by auto
  note kept = migration_keeps_data [OF run src fresh, of _ 0 demo_entries 4 False "[1]" "[]"]
  have lock: "LOCK_NAME \<notin> set [''a'']" "LOCK_NAME \<notin> set [''b.sst'']" using demo_names by auto
  have at: "file_at [''a''] demo_source = Some [7]" "file_at [''b.sst''] demo_source = Some demo_file"
    "file_at [''a''] ?out = Some [7]" "file_at [''b.sst''] ?out = Some demo_file"
    using demo_names by (simp_all add: demo_source_def)
  have valid: "valid_config (migration_config demo_meta)" by (simp add: demo_config_4096 valid_config_def)
  obtain old where old: "rd_open demo_crates demo_file encryption_default 3 True = Ok old" "rd_metadata old = demo_meta"
    using demo_open by (auto split: outcome.splits)
  have "\<exists>rd c'. rd_open demo_crates demo_file encryption_default 4 False = Ok rd \<and> rd_get demo_crates rd [1] () = (Ok (map_of demo_entries [1]), c')"
    using kept [OF lock(2)] table demo_names(7) old valid demo_laws demo_sizes(3) unfolding at demo_migration_def by auto
  then show ?thesis using run at by (simp add: demo_entries_def)
qed

end
