(* ===== verification/Crdt.thy ===== *)
theory Crdt
  imports Prelude
begin

text \<open>
  \<open>src/infra/crdt.rs\<close>: a last-writer-wins map, a grow-only counter, a counter with decrements and an
  observed-remove set.

  Hash maps are association lists with one entry per key, and sets of tags are lists without
  repetition. Sums of \<open>u64\<close> values wrap around, as in a release build.
\<close>

subsection \<open>Last-writer-wins map\<close>

record crdt_entry =
  ce_key :: bytes
  ce_value :: bytes
  ce_timestamp :: u64

type_synonym crdt_engine = "(bytes \<times> bytes \<times> u64) list"

definition crdt_new :: crdt_engine where "crdt_new = []"

definition crdt_merge :: "bytes \<Rightarrow> bytes \<Rightarrow> u64 \<Rightarrow> crdt_engine \<Rightarrow> crdt_engine" where
  "crdt_merge key value timestamp state =
     (case map_of state key of
        Some (_, existing_ts) \<Rightarrow> if timestamp \<le> existing_ts then state else AList.update key (value, timestamp) state
      | None \<Rightarrow> AList.update key (value, timestamp) state)"

definition resolve_conflicts :: "bytes \<Rightarrow> crdt_engine \<Rightarrow> crdt_entry option" where
  "resolve_conflicts key state =
     map_option (\<lambda>(value, ts). \<lparr>ce_key = key, ce_value = value, ce_timestamp = ts\<rparr>) (map_of state key)"

definition get_state :: "bytes \<Rightarrow> crdt_engine \<Rightarrow> (bytes \<times> u64) option" where
  "get_state key state = map_of state key"

definition get_all_entries :: "crdt_engine \<Rightarrow> crdt_entry list" where
  "get_all_entries state = map (\<lambda>(key, value, timestamp). \<lparr>ce_key = key, ce_value = value, ce_timestamp = timestamp\<rparr>) state"

definition crdt_len :: "crdt_engine \<Rightarrow> nat" where "crdt_len state = length state"

definition crdt_clear :: "crdt_engine \<Rightarrow> crdt_engine" where "crdt_clear state = []"

subsection \<open>Counters\<close>

type_synonym gcounter = "(string \<times> u64) list"

definition u64_saturating_add :: "u64 \<Rightarrow> u64 \<Rightarrow> u64" where
  "u64_saturating_add a b = (if 2 ^ 64 \<le> unat a + unat b then -1 else a + b)"

definition gc_new :: gcounter where "gc_new = []"

text \<open>\<open>entry(node).or_insert(0)\<close>\<close>

definition gc_count :: "gcounter \<Rightarrow> string \<Rightarrow> u64" where
  "gc_count c node = (case map_of c node of None \<Rightarrow> 0 | Some n \<Rightarrow> n)"

definition gc_increment :: "string \<Rightarrow> u64 \<Rightarrow> gcounter \<Rightarrow> gcounter" where
  "gc_increment node_id amount c = AList.update node_id (u64_saturating_add (gc_count c node_id) amount) c"

definition gc_value :: "gcounter \<Rightarrow> u64" where
  "gc_value c = sum_list (map snd c)"

definition gc_merge :: "gcounter \<Rightarrow> gcounter \<Rightarrow> gcounter" where
  "gc_merge c other = fold (\<lambda>(node, count) c. AList.update node (max (gc_count c node) count) c) other c"

record pn_counter =
  pn_positive :: gcounter
  pn_negative :: gcounter

definition pn_new :: pn_counter where "pn_new = \<lparr>pn_positive = gc_new, pn_negative = gc_new\<rparr>"

definition pn_increment :: "string \<Rightarrow> u64 \<Rightarrow> pn_counter \<Rightarrow> pn_counter" where
  "pn_increment node_id amount c = c\<lparr>pn_positive := gc_increment node_id amount (pn_positive c)\<rparr>"

definition pn_decrement :: "string \<Rightarrow> u64 \<Rightarrow> pn_counter \<Rightarrow> pn_counter" where
  "pn_decrement node_id amount c = c\<lparr>pn_negative := gc_increment node_id amount (pn_negative c)\<rparr>"

text \<open>An \<open>i64\<close> has the bits of the word.\<close>

definition pn_value :: "pn_counter \<Rightarrow> u64" where
  "pn_value c = gc_value (pn_positive c) - gc_value (pn_negative c)"

definition pn_merge :: "pn_counter \<Rightarrow> pn_counter \<Rightarrow> pn_counter" where
  "pn_merge c other =
     \<lparr>pn_positive = gc_merge (pn_positive c) (pn_positive other), pn_negative = gc_merge (pn_negative c) (pn_negative other)\<rparr>"

subsection \<open>Observed-remove set\<close>

type_synonym 'a or_set = "('a \<times> string list) list"

definition os_new :: "'a or_set" where "os_new = []"

definition os_tags :: "'a or_set \<Rightarrow> 'a \<Rightarrow> string list" where
  "os_tags s element = (case map_of s element of None \<Rightarrow> [] | Some tags \<Rightarrow> tags)"

definition os_add :: "'a \<Rightarrow> string \<Rightarrow> 'a or_set \<Rightarrow> 'a or_set" where
  "os_add element tag s = AList.update element (List.insert tag (os_tags s element)) s"

definition os_remove :: "'a \<Rightarrow> 'a or_set \<Rightarrow> 'a or_set" where
  "os_remove element s = AList.delete element s"

definition os_contains :: "'a \<Rightarrow> 'a or_set \<Rightarrow> bool" where
  "os_contains element s = (case map_of s element of None \<Rightarrow> False | Some tags \<Rightarrow> tags \<noteq> [])"

definition os_elements :: "'a or_set \<Rightarrow> 'a list" where
  "os_elements s = map fst (List.filter (\<lambda>(_, tags). tags \<noteq> []) s)"

definition os_merge :: "'a or_set \<Rightarrow> 'a or_set \<Rightarrow> 'a or_set" where
  "os_merge s other = fold (\<lambda>(elem, tags) s. AList.update elem (fold List.insert tags (os_tags s elem)) s) other s"

subsection \<open>Convergence\<close>

text \<open>
  What an observer sees of a state, and a merge that joins it: replicas that have merged the same
  states agree, in whatever order and however often they merged them.
\<close>

definition merge_all :: "('s \<Rightarrow> 's \<Rightarrow> 's) \<Rightarrow> 's \<Rightarrow> 's list \<Rightarrow> 's" where
  "merge_all merge a bs = fold (\<lambda>b a. merge a b) bs a"

locale replicated =
  fixes wf :: "'s \<Rightarrow> bool" and observe :: "'s \<Rightarrow> 'o" and merge :: "'s \<Rightarrow> 's \<Rightarrow> 's" and join :: "'o \<Rightarrow> 'o \<Rightarrow> 'o"
  assumes wf_merge: "wf a \<Longrightarrow> wf b \<Longrightarrow> wf (merge a b)"
    and observe_merge: "wf a \<Longrightarrow> wf b \<Longrightarrow> observe (merge a b) = join (observe a) (observe b)"
    and join_commute: "join x y = join y x"
    and join_assoc: "join (join x y) z = join x (join y z)"
    and join_idem: "join x x = x"
begin

lemma merge_all_wf: "wf a \<Longrightarrow> (\<And>b. b \<in> set bs \<Longrightarrow> wf b) \<Longrightarrow> wf (merge_all merge a bs)"
  unfolding merge_all_def by (induction bs arbitrary: a) (auto simp: wf_merge)

lemma observe_merge_all:
  "wf a \<Longrightarrow> (\<And>b. b \<in> set bs \<Longrightarrow> wf b) \<Longrightarrow> observe (merge_all merge a bs) = fold (\<lambda>b x. join x (observe b)) bs (observe a)"
  unfolding merge_all_def by (induction bs arbitrary: a) (auto simp: wf_merge observe_merge)

end

sublocale replicated \<subseteq> join_set: semilattice_set join
  by unfold_locales (simp_all add: join_assoc join_idem, rule join_commute)

context replicated
begin

lemma fold_join_set: "fold (\<lambda>b x. join x (observe b)) bs x = join_set.F (insert x (observe ` set bs))"
proof (induction bs arbitrary: x)
  case (Cons b bs)
  have "insert x (observe ` set (b # bs)) = insert x (insert (observe b) (observe ` set bs))" by simp
  moreover have "join_set.F (insert (join x (observe b)) (observe ` set bs)) = join_set.F (insert x (insert (observe b) (observe ` set bs)))"
    by (cases "observe ` set bs = {}") (simp_all add: join_set.insert_not_elem join_assoc)
  ultimately show ?case using Cons by simp
qed simp

lemma merge_all_agree:
  assumes "wf a" "wf b" "\<And>c. c \<in> set as \<Longrightarrow> wf c" "\<And>c. c \<in> set bs \<Longrightarrow> wf c" "insert a (set as) = insert b (set bs)"
  shows "observe (merge_all merge a as) = observe (merge_all merge b bs)"
  using assms(5) by (simp add: observe_merge_all assms(1-4) fold_join_set flip: image_insert)

end

text \<open>The hash maps have one entry per key.\<close>

abbreviation one_per_key :: "('k \<times> 'v) list \<Rightarrow> bool" where
  "one_per_key m \<equiv> distinct (map fst m)"

lemma gc_count_update: "gc_count (AList.update node n c) = (gc_count c)(node := n)"
  by (simp add: gc_count_def fun_eq_iff update_conv)

lemma gc_merge_correct:
  assumes "one_per_key c" "one_per_key other"
  shows "one_per_key (gc_merge c other)" "gc_count (gc_merge c other) node = max (gc_count c node) (gc_count other node)"
proof -
  have "one_per_key (gc_merge c other) \<and> gc_count (gc_merge c other) node = max (gc_count c node) (gc_count other node)"
    using assms unfolding gc_merge_def
  proof (induction other arbitrary: c)
    case (Cons e other)
    obtain n v where e: "e = (n, v)" by force
    have "gc_count other n = 0" using Cons.prems(2) map_of_None_iff [of other n] by (simp add: e gc_count_def)
    moreover have "gc_count (e # other) = (gc_count other)(n := v)" by (simp add: e gc_count_def fun_eq_iff)
    ultimately show ?case
      using Cons.IH [of "AList.update n (max (gc_count c n) v) c"] Cons.prems
      by (auto simp: e distinct_update gc_count_update max.assoc)
  qed (simp add: gc_count_def)
  then show "one_per_key (gc_merge c other)" "gc_count (gc_merge c other) node = max (gc_count c node) (gc_count other node)" by simp_all
qed

lemma set_fold_insert: "set (fold List.insert ts us) = set us \<union> set ts"
  by (induction ts arbitrary: us) auto

lemma os_tags_update: "os_tags (AList.update e ts s) = (os_tags s)(e := ts)"
  by (simp add: os_tags_def fun_eq_iff update_conv)

lemma os_merge_correct:
  assumes "one_per_key s" "one_per_key other"
  shows "one_per_key (os_merge s other)" "set (os_tags (os_merge s other) e) = set (os_tags s e) \<union> set (os_tags other e)"
proof -
  have "one_per_key (os_merge s other) \<and> set (os_tags (os_merge s other) e) = set (os_tags s e) \<union> set (os_tags other e)"
    using assms unfolding os_merge_def
  proof (induction other arbitrary: s)
    case (Cons p other)
    obtain x ts where p: "p = (x, ts)" by force
    have "os_tags other x = []" using Cons.prems(2) map_of_None_iff [of other x] by (simp add: p os_tags_def)
    moreover have "os_tags (p # other) = (os_tags other)(x := ts)" by (simp add: p os_tags_def fun_eq_iff)
    ultimately show ?case
      using Cons.IH [of "AList.update x (fold List.insert ts (os_tags s x)) s"] Cons.prems
      by (auto simp: p distinct_update os_tags_update set_fold_insert)
  qed (simp add: os_tags_def)
  then show "one_per_key (os_merge s other)" "set (os_tags (os_merge s other) e) = set (os_tags s e) \<union> set (os_tags other e)" by simp_all
qed

interpretation gcounters: replicated one_per_key gc_count gc_merge "\<lambda>f g node. max (f node) (g node)"
  by unfold_locales (auto simp: gc_merge_correct fun_eq_iff ac_simps)

definition pn_wf :: "pn_counter \<Rightarrow> bool" where
  "pn_wf c \<longleftrightarrow> one_per_key (pn_positive c) \<and> one_per_key (pn_negative c)"

definition pn_counts :: "pn_counter \<Rightarrow> (string \<Rightarrow> u64) \<times> (string \<Rightarrow> u64)" where
  "pn_counts c = (gc_count (pn_positive c), gc_count (pn_negative c))"

interpretation pncounters: replicated pn_wf pn_counts pn_merge
  "\<lambda>(f, g) (f', g'). (\<lambda>node. max (f node) (f' node), \<lambda>node. max (g node) (g' node))"
  by unfold_locales (auto simp: pn_wf_def pn_counts_def pn_merge_def gc_merge_correct fun_eq_iff ac_simps)

interpretation orsets: replicated one_per_key "\<lambda>s e. set (os_tags s e)" os_merge "\<lambda>f g e. f e \<union> g e"
  by unfold_locales (auto simp: os_merge_correct fun_eq_iff)

lemma sum_list_words: "distinct ns \<Longrightarrow> sum_list (map f ns) = (\<Sum>n\<in>set ns. f n)"
  by (simp add: sum_list_distinct_conv_sum_set)

lemma gc_value_counts: "one_per_key c \<Longrightarrow> gc_value c = (\<Sum>node | gc_count c node \<noteq> 0. gc_count c node)"
proof -
  assume d: "one_per_key c"
  have eq: "gc_count c (fst e) = snd e" if "e \<in> set c" for e
    unfolding gc_count_def using that d by (subst map_of_is_SomeI [of c "fst e" "snd e"]) auto
  have "gc_value c = sum_list (map (gc_count c) (map fst c))"
    unfolding gc_value_def by (simp add: eq cong: map_cong)
  also have "\<dots> = (\<Sum>node\<in>fst ` set c. gc_count c node)" using sum_list_words [OF d] by simp
  also have "\<dots> = (\<Sum>node | gc_count c node \<noteq> 0. gc_count c node)"
    by (rule sum.mono_neutral_right) (auto simp: gc_count_def image_iff split: option.splits, metis fst_conv map_of_SomeD)
  finally show ?thesis .
qed

lemma os_contains_tags: "os_contains e s \<longleftrightarrow> set (os_tags s e) \<noteq> {}"
  by (cases "map_of s e") (simp_all add: os_contains_def os_tags_def del: map_of_eq_Some_iff)

lemma pn_value_counts:
  assumes "pn_wf c" "pn_wf d" "pn_counts c = pn_counts d"
  shows "pn_value c = pn_value d"
  using assms by (simp add: pn_value_def pn_wf_def pn_counts_def gc_value_counts)

lemma crdt_merge_all:
  "case get_state key (fold (\<lambda>(k, v, t). crdt_merge k v t) es crdt_new) of
     None \<Rightarrow> \<forall>v t. (key, v, t) \<notin> set es
   | Some (v, t) \<Rightarrow> (key, v, t) \<in> set es \<and> (\<forall>v' t'. (key, v', t') \<in> set es \<longrightarrow> t' \<le> t)"
proof (induction es rule: rev_induct)
  case (snoc e es)
  obtain k v t where e: "e = (k, v, t)" by (cases e)
  show ?case
    using snoc by (force simp: e get_state_def crdt_merge_def update_conv split: option.splits if_splits)
qed (simp add: get_state_def crdt_new_def)

text \<open>C40: replicas that have merged the same states agree on the value of a counter and on the
  members of a set, in whatever order and however often they merged them.\<close>

theorem replicas_converge:
  assumes "\<forall>c \<in> insert a (set as). pn_wf c" and "insert a (set as) = insert b (set bs)"
    and "\<forall>s \<in> insert x (set xs). one_per_key s" and "insert x (set xs) = insert y (set ys)"
  shows "pn_value (merge_all pn_merge a as) = pn_value (merge_all pn_merge b bs) \<and>
         (os_contains e (merge_all os_merge x xs) \<longleftrightarrow> os_contains e (merge_all os_merge y ys))"
proof
  have wf: "pn_wf c" if "c \<in> insert b (set bs)" for c using that assms(1,2) by blast
  show "pn_value (merge_all pn_merge a as) = pn_value (merge_all pn_merge b bs)"
    using wf assms(1,2) by (intro pn_value_counts pncounters.merge_all_wf pncounters.merge_all_agree) auto
  have wf: "one_per_key s" if "s \<in> insert y (set ys)" for s using that assms(3,4) by blast
  have "(\<lambda>e. set (os_tags (merge_all os_merge x xs) e)) = (\<lambda>e. set (os_tags (merge_all os_merge y ys) e))"
    using wf assms(3,4) by (intro orsets.merge_all_agree) auto
  then show "os_contains e (merge_all os_merge x xs) \<longleftrightarrow> os_contains e (merge_all os_merge y ys)"
    unfolding os_contains_tags by metis
qed

definition pn_one :: pn_counter where "pn_one = pn_increment ''n1'' 5 pn_new"
definition pn_two :: pn_counter where "pn_two = pn_decrement ''n2'' 2 pn_new"
definition os_one :: "nat or_set" where "os_one = os_add 7 ''t1'' os_new"
definition os_two :: "nat or_set" where "os_two = os_add 7 ''t2'' os_new"

lemmas crdt_demo_defs = pn_one_def pn_two_def os_one_def os_two_def pn_increment_def pn_decrement_def pn_new_def gc_new_def
  gc_increment_def gc_count_def os_add_def os_new_def os_tags_def pn_wf_def u64_saturating_add_def

theorem replicas_converge_witness:
  "pn_value (merge_all pn_merge pn_one [pn_two]) = pn_value (merge_all pn_merge pn_two [pn_one, pn_two]) \<and>
   (os_contains 7 (merge_all os_merge os_one [os_two]) \<longleftrightarrow> os_contains 7 (merge_all os_merge os_two [os_two, os_one]))"
  by (rule replicas_converge) (auto simp: crdt_demo_defs)

text \<open>The last-writer-wins map keeps for every key the entry with the highest timestamp, so that
  replicas agree in whatever order the entries arrive, unless two entries of a key have the same
  timestamp and different values: then the first to arrive stays.\<close>

lemma last_writer_wins:
  fixes es es' :: "(bytes \<times> bytes \<times> u64) list"
  defines "merged \<equiv> \<lambda>es. fold (\<lambda>(k, v, t). crdt_merge k v t) es crdt_new"
  shows "(case get_state key (merged es) of
            None \<Rightarrow> \<forall>v t. (key, v, t) \<notin> set es
          | Some (v, t) \<Rightarrow> (key, v, t) \<in> set es \<and> (\<forall>v' t'. (key, v', t') \<in> set es \<longrightarrow> t' \<le> t)) \<and>
         (set es = set es' \<and> (\<forall>v v' t. (key, v, t) \<in> set es \<and> (key, v', t) \<in> set es \<longrightarrow> v = v') \<longrightarrow>
            get_state key (merged es) = get_state key (merged es')) \<and>
         (v1 \<noteq> v2 \<longrightarrow> get_state key (merged [(key, v1, t), (key, v2, t)]) \<noteq> get_state key (merged [(key, v2, t), (key, v1, t)]))"
proof (intro conjI impI)
  show "get_state key (merged es) = get_state key (merged es')"
    if same: "set es = set es' \<and> (\<forall>v v' t. (key, v, t) \<in> set es \<and> (key, v', t) \<in> set es \<longrightarrow> v = v')"
  proof (cases "get_state key (merged es)")
    case None
    then show ?thesis using same crdt_merge_all [of key es] crdt_merge_all [of key es'] unfolding merged_def
      by (auto split: option.splits)
  next
    case (Some p)
    obtain v t where p: "p = (v, t)" by (cases p)
    obtain v' t' where other: "get_state key (merged es') = Some (v', t')"
      using Some same crdt_merge_all [of key es] crdt_merge_all [of key es'] unfolding merged_def p
      by (auto split: option.splits)
    have in1: "(key, v, t) \<in> set es" and max1: "\<And>v' t'. (key, v', t') \<in> set es \<Longrightarrow> t' \<le> t"
      using Some crdt_merge_all [of key es] unfolding merged_def p by auto
    have in2: "(key, v', t') \<in> set es'" and max2: "\<And>v t. (key, v, t) \<in> set es' \<Longrightarrow> t \<le> t'"
      using other crdt_merge_all [of key es'] unfolding merged_def by auto
    have "t = t'" using in1 in2 max1 max2 same by (metis antisym)
    then have "v = v'" using in1 in2 same by blast
    then show ?thesis using \<open>t = t'\<close> Some other p by simp
  qed
qed (use crdt_merge_all [of key es] in \<open>simp_all add: merged_def get_state_def crdt_merge_def crdt_new_def\<close>)

text \<open>
  A removal leaves no trace: merging with a replica that has not seen it brings the element back, and
  so does merging with the replica's own earlier state.
\<close>

lemma removed_element_returns:
  assumes "one_per_key s" "one_per_key other" "os_contains e other"
  shows "\<not> os_contains e (os_remove e s) \<and> os_contains e (os_merge (os_remove e s) other)"
proof -
  have "one_per_key (os_remove e s)" using assms(1) by (simp add: os_remove_def distinct_delete)
  then show ?thesis
    using assms by (simp add: os_contains_tags os_merge_correct) (simp add: os_tags_def os_remove_def delete_conv')
qed

end
