(* ===== verification/Step_System.thy ===== *)
theory Step_System
  imports Main
begin

text \<open>
  Components that several threads use are step relations on their shared state. What every step keeps
  holds in every state that is reached; each such component interprets the interface with its own
  steps and its own invariant.
\<close>

locale step_invariant =
  fixes step :: "'s \<Rightarrow> 's \<Rightarrow> bool"
    and inv :: "'s \<Rightarrow> bool"
  assumes preserved: "step s s' \<Longrightarrow> inv s \<Longrightarrow> inv s'"
begin

lemma reachable: "step\<^sup>*\<^sup>* s s' \<Longrightarrow> inv s \<Longrightarrow> inv s'"
  by (induction rule: rtranclp_induct) (blast intro: preserved)+

text \<open>An invariant that implies a bound gives the bound in every reached state.\<close>

lemma reachable_bound: "step\<^sup>*\<^sup>* s s' \<Longrightarrow> inv s \<Longrightarrow> (\<And>t. inv t \<Longrightarrow> bound t) \<Longrightarrow> bound s'"
  by (blast intro: reachable)

end

end
