(* ===== verification/Circuit_Breaker.thy ===== *)
theory Circuit_Breaker
  imports Prelude Step_System
begin

text \<open>
  \<open>src/infra/resilience/circuit_breaker.rs\<close>.

  A call of the breaker takes the lock three times: to read the state, to leave the open state, and
  to record the outcome. \<open>call\<close> is one call on its own; \<open>breaker_step\<close> interleaves the calls of any
  number of threads. Clock readings, in milliseconds, are arguments.
\<close>

subsection \<open>The breaker\<close>

datatype breaker_state = Closed | Open | HalfOpen

record breaker =
  br_state :: breaker_state
  failure_count :: u64
  success_count :: u64
  failure_threshold :: u64
  success_threshold :: u64
  cooldown :: nat
  opened_at :: "nat option"

definition breaker_new :: "u64 \<Rightarrow> u64 \<Rightarrow> nat \<Rightarrow> breaker" where
  "breaker_new failures successes wait =
     \<lparr>br_state = Closed, failure_count = 0, success_count = 0, failure_threshold = failures,
      success_threshold = successes, cooldown = wait, opened_at = None\<rparr>"

definition breaker_default :: breaker where
  "breaker_default = breaker_new 5 3 30000"

definition breaker_reset :: "breaker \<Rightarrow> breaker" where
  "breaker_reset b = b\<lparr>br_state := Closed, failure_count := 0, success_count := 0, opened_at := None\<rparr>"

definition record_success :: "breaker \<Rightarrow> breaker" where
  "record_success b =
     (case br_state b of
        Closed \<Rightarrow> b\<lparr>failure_count := 0\<rparr>
      | HalfOpen \<Rightarrow>
          let b = b\<lparr>success_count := success_count b + 1\<rparr> in
          if success_threshold b \<le> success_count b
          then b\<lparr>br_state := Closed, failure_count := 0, success_count := 0, opened_at := None\<rparr> else b
      | Open \<Rightarrow> b\<lparr>br_state := Closed, failure_count := 0, success_count := 0, opened_at := None\<rparr>)"

definition record_failure :: "nat \<Rightarrow> breaker \<Rightarrow> breaker" where
  "record_failure now b =
     (case br_state b of
        Closed \<Rightarrow>
          let b = b\<lparr>failure_count := failure_count b + 1\<rparr> in
          if failure_threshold b \<le> failure_count b then b\<lparr>br_state := Open, opened_at := Some now\<rparr> else b
      | HalfOpen \<Rightarrow> b\<lparr>br_state := Open, opened_at := Some now, success_count := 0\<rparr>
      | Open \<Rightarrow> b\<lparr>opened_at := Some now\<rparr>)"

text \<open>The check of a call that read the given state: the breaker afterwards, unless the call is rejected.\<close>

definition enter :: "breaker_state \<Rightarrow> nat \<Rightarrow> breaker \<Rightarrow> breaker option" where
  "enter current_state now b =
     (case current_state of
        Open \<Rightarrow>
          (case opened_at b of
             Some t \<Rightarrow> if cooldown b \<le> now - t then Some (b\<lparr>br_state := HalfOpen, success_count := 0\<rparr>) else None
           | None \<Rightarrow> None)
      | HalfOpen \<Rightarrow> Some b
      | Closed \<Rightarrow> Some b)"

datatype 'e call_error = CircuitOpen | OperationFailed 'e

definition call :: "nat \<Rightarrow> nat \<Rightarrow> 'e + 'a \<Rightarrow> breaker \<Rightarrow> ('e call_error + 'a) \<times> breaker" where
  "call now later f b =
     (case enter (br_state b) now b of
        None \<Rightarrow> (Inl CircuitOpen, b)
      | Some b \<Rightarrow>
          (case f of
             Inr result \<Rightarrow> (Inr result, record_success b)
           | Inl e \<Rightarrow> (Inl (OperationFailed e), record_failure later b)))"

text \<open>The calls in progress: those that have read the state, and those that run their operation.\<close>

record breaker_system =
  bs_breaker :: breaker
  bs_seen :: "breaker_state list"
  bs_running :: nat

inductive breaker_step :: "breaker_system \<Rightarrow> breaker_system \<Rightarrow> bool" where
  read_state: "breaker_step s (s\<lparr>bs_seen := br_state (bs_breaker s) # bs_seen s\<rparr>)"
| admit: "bs_seen s = xs @ st # ys \<Longrightarrow> enter st now (bs_breaker s) = Some b \<Longrightarrow>
    breaker_step s \<lparr>bs_breaker = b, bs_seen = xs @ ys, bs_running = Suc (bs_running s)\<rparr>"
| reject: "bs_seen s = xs @ st # ys \<Longrightarrow> enter st now (bs_breaker s) = None \<Longrightarrow> breaker_step s (s\<lparr>bs_seen := xs @ ys\<rparr>)"
| succeed: "bs_running s = Suc n \<Longrightarrow> breaker_step s (s\<lparr>bs_breaker := record_success (bs_breaker s), bs_running := n\<rparr>)"
| failing: "bs_running s = Suc n \<Longrightarrow> breaker_step s (s\<lparr>bs_breaker := record_failure now (bs_breaker s), bs_running := n\<rparr>)"
| resetting: "breaker_step s (s\<lparr>bs_breaker := breaker_reset (bs_breaker s)\<rparr>)"

subsection \<open>Correctness\<close>

text \<open>The open and the half-open breaker know when they opened; the counters stay at or below their thresholds.\<close>

definition breaker_ok :: "breaker \<Rightarrow> bool" where
  "breaker_ok b \<longleftrightarrow>
     (br_state b = Closed \<longleftrightarrow> opened_at b = None) \<and>
     (br_state b = Closed \<longrightarrow> failure_count b < max 1 (failure_threshold b)) \<and>
     failure_count b \<le> max 1 (failure_threshold b) \<and> success_count b < max 1 (success_threshold b)"

definition same_settings :: "breaker \<Rightarrow> breaker \<Rightarrow> bool" where
  "same_settings b c \<longleftrightarrow> failure_threshold c = failure_threshold b \<and> success_threshold c = success_threshold b \<and> cooldown c = cooldown b"

lemma same_settings_refl [simp]: "same_settings b b"
  by (simp add: same_settings_def)

lemma same_settings_trans: "same_settings b c \<Longrightarrow> same_settings c d \<Longrightarrow> same_settings b d"
  by (simp add: same_settings_def)

lemma word_one_less_max: "(0::u64) < max 1 n"
  by (simp add: less_max_iff_disj)

lemma word_succ_le: "(a::u64) < b \<Longrightarrow> a + 1 \<le> b"
  by (simp add: inc_le)

lemma breaker_new_ok: "breaker_ok (breaker_new f s w)"
  by (simp add: breaker_ok_def breaker_new_def word_one_less_max)

lemma breaker_reset_ok: "breaker_ok b \<Longrightarrow> breaker_ok (breaker_reset b) \<and> same_settings b (breaker_reset b)"
  by (simp add: breaker_ok_def breaker_reset_def same_settings_def word_one_less_max)

lemma record_success_ok: "breaker_ok b \<Longrightarrow> breaker_ok (record_success b) \<and> same_settings b (record_success b)"
  by (cases "br_state b")
    (auto simp: breaker_ok_def record_success_def same_settings_def word_one_less_max Let_def not_le less_max_iff_disj)

lemma record_failure_ok: "breaker_ok b \<Longrightarrow> breaker_ok (record_failure now b) \<and> same_settings b (record_failure now b)"
  by (cases "br_state b")
    (auto simp: breaker_ok_def record_failure_def same_settings_def word_one_less_max Let_def not_le less_max_iff_disj
      intro: word_succ_le)

lemma enter_ok: "breaker_ok b \<Longrightarrow> enter st now b = Some b' \<Longrightarrow> breaker_ok b' \<and> same_settings b b'"
  by (cases st) (auto simp: breaker_ok_def enter_def same_settings_def word_one_less_max split: option.splits if_splits)

definition breaker_inv :: "breaker \<Rightarrow> breaker_system \<Rightarrow> bool" where
  "breaker_inv b sys \<longleftrightarrow> breaker_ok (bs_breaker sys) \<and> same_settings b (bs_breaker sys)"

interpretation breaker_threads: step_invariant breaker_step "breaker_inv b"
proof
  fix sys sys'
  assume step: "breaker_step sys sys'" and inv: "breaker_inv b sys"
  from step have "breaker_ok (bs_breaker sys') \<and> same_settings (bs_breaker sys) (bs_breaker sys')"
    using inv by cases (auto simp: breaker_inv_def record_success_ok record_failure_ok breaker_reset_ok dest: enter_ok)
  then show "breaker_inv b sys'" using inv by (auto simp: breaker_inv_def intro: same_settings_trans)
qed

text \<open>Whatever the threads do, the breaker is open or half-open exactly while it knows when it
  opened, and its counters never pass their thresholds, so that counting never overflows.\<close>

lemma breaker_counters_bounded:
  assumes "breaker_step\<^sup>*\<^sup>* \<lparr>bs_breaker = breaker_new f s w, bs_seen = [], bs_running = 0\<rparr> sys"
  shows "breaker_ok (bs_breaker sys) \<and> same_settings (breaker_new f s w) (bs_breaker sys)"
  using breaker_threads.reachable [OF assms, of "breaker_new f s w"] by (simp add: breaker_inv_def breaker_new_ok)

text \<open>A sequence of calls, each with the clock at its start and end and the outcome of its operation.\<close>

fun calls :: "(nat \<times> nat \<times> ('e + 'a)) list \<Rightarrow> breaker \<Rightarrow> ('e call_error + 'a) list \<times> breaker" where
  "calls [] b = ([], b)"
| "calls ((now, later, f) # cs) b =
     (let (r, b) = call now later f b; (rs, b) = calls cs b in (r # rs, b))"

lemma word_unat_succ: "(a::u64) < b \<Longrightarrow> unat (a + 1) = Suc (unat a)"
  using unsigned_less [of b, where ?'a = nat] by (simp add: word_less_nat_alt unat_word_ariths)

lemma closed_stays_closed:
  "br_state b = Closed \<Longrightarrow> \<forall>(now, later, f) \<in> set cs. \<exists>x. f = Inr x \<Longrightarrow>
   br_state (snd (calls cs b)) = Closed \<and> fst (calls cs b) = map (\<lambda>(now, later, f). map_sum OperationFailed (\<lambda>x. x) f) cs"
proof (induction cs arbitrary: b)
  case (Cons c cs)
  obtain now later x where c: "c = (now, later, Inr x)" using Cons.prems(2) by (cases c) auto
  show ?case using Cons.IH [of "record_success b"] Cons.prems
    by (simp add: c call_def enter_def record_success_def case_prod_beta)
qed simp

lemma half_open_closes:
  "br_state b = HalfOpen \<Longrightarrow> success_count b < max 1 (success_threshold b) \<Longrightarrow> \<forall>(now, later, f) \<in> set cs. \<exists>x. f = Inr x \<Longrightarrow>
   unat (max 1 (success_threshold b)) \<le> unat (success_count b) + length cs \<Longrightarrow>
   br_state (snd (calls cs b)) = Closed \<and> fst (calls cs b) = map (\<lambda>(now, later, f). map_sum OperationFailed (\<lambda>x. x) f) cs"
proof (induction cs arbitrary: b)
  case Nil
  then show ?case by (simp add: word_less_nat_alt)
next
  case (Cons c cs)
  obtain now later x where c: "c = (now, later, Inr x)" using Cons.prems(3) by (cases c) auto
  have count: "unat (success_count b + 1) = Suc (unat (success_count b))"
    by (rule word_unat_succ [OF Cons.prems(2)])
  have step: "calls (c # cs) b = (Inr x # fst (calls cs (record_success b)), snd (calls cs (record_success b)))"
    using Cons.prems(1) by (simp add: c call_def enter_def case_prod_beta)
  show ?case
  proof (cases "success_threshold b \<le> success_count b + 1")
    case True
    then have "br_state (record_success b) = Closed" using Cons.prems(1) by (simp add: record_success_def)
    then show ?thesis using closed_stays_closed [of "record_success b" cs] Cons.prems(3) unfolding step by (simp add: c)
  next
    case False
    then have b': "record_success b = b\<lparr>success_count := success_count b + 1\<rparr>"
      using Cons.prems(1) by (simp add: record_success_def)
    show ?thesis
      using Cons.IH [of "record_success b"] Cons.prems False count unfolding step by (simp add: c b' not_le less_max_iff_disj)
  qed
qed

text \<open>C37: an open breaker rejects every call, without running its operation, until the cooldown has
  passed; from then on as many successful calls as the threshold asks for all run and close it.\<close>

theorem breaker_recovers:
  assumes ok: "breaker_ok b"
    and cooled: "br_state b = Open \<longrightarrow> (\<exists>t. opened_at b = Some t \<and> cooldown b \<le> fst (hd cs) - t)"
    and success: "\<forall>(now, later, f) \<in> set cs. \<exists>x. f = Inr x"
    and enough: "unat (max 1 (success_threshold b)) \<le> length cs"
  shows "br_state (snd (calls cs b)) = Closed \<and> fst (calls cs b) = map (\<lambda>(now, later, f). map_sum OperationFailed (\<lambda>x. x) f) cs \<and>
         (br_state b = Open \<and> opened_at b = Some t \<and> now - t < cooldown b \<longrightarrow> call now later f b = (Inl CircuitOpen, b))"
proof (intro conjI impI)
  have "br_state (snd (calls cs b)) = Closed \<and> fst (calls cs b) = map (\<lambda>(now, later, f). map_sum OperationFailed (\<lambda>x. x) f) cs"
  proof (cases "br_state b")
    case Closed
    then show ?thesis by (rule closed_stays_closed [OF _ success])
  next
    case HalfOpen
    then show ?thesis using ok enough by (intro half_open_closes [OF _ _ success]) (simp_all add: breaker_ok_def)
  next
    case Open
    have "cs \<noteq> []" using enough word_one_less_max [of "success_threshold b"] by (auto simp: word_less_nat_alt)
    then obtain first later f rest where "cs = (first, later, f) # rest" by (metis list.exhaust prod_cases3)
    moreover obtain x where "f = Inr x" using success calculation by auto
    ultimately have cs: "cs = (first, later, Inr x) # rest" by simp
    let ?h = "b\<lparr>br_state := HalfOpen, success_count := 0\<rparr>"
    have "enter Open first b = Some ?h" using cooled Open by (auto simp: cs enter_def)
    then have "calls cs b = calls cs ?h" using Open by (simp add: cs call_def) (simp add: enter_def)
    then show ?thesis
      using enough word_one_less_max half_open_closes [of ?h cs] success by simp
  qed
  then show "br_state (snd (calls cs b)) = Closed" "fst (calls cs b) = map (\<lambda>(now, later, f). map_sum OperationFailed (\<lambda>x. x) f) cs"
    by simp_all
qed (simp add: call_def enter_def)

definition tripped_breaker :: breaker where
  "tripped_breaker = record_failure 1000 (record_failure 900 (breaker_new 2 2 500))"

theorem breaker_recovers_witness:
  "br_state (snd (calls [(1500, 1501, Inr 1), (1600, 1601, Inr 2)] tripped_breaker :: (unit call_error + nat) list \<times> breaker)) = Closed \<and>
   call 1200 1201 (Inr 3 :: unit + nat) tripped_breaker = (Inl CircuitOpen, tripped_breaker)"
proof -
  have b: "tripped_breaker = (breaker_new 2 2 500)\<lparr>br_state := Open, failure_count := 2, opened_at := Some 1000\<rparr>"
    by (simp add: tripped_breaker_def record_failure_def breaker_new_def Let_def word_le_nat_alt)
  have ok: "breaker_ok tripped_breaker" by (simp add: b breaker_ok_def breaker_new_def)
  have "br_state tripped_breaker = Open" "opened_at tripped_breaker = Some 1000" "cooldown tripped_breaker = 500"
    "success_threshold tripped_breaker = 2" by (simp_all add: b breaker_new_def)
  then show ?thesis
    using breaker_recovers [OF ok, of "[(1500, 1501, Inr 1), (1600, 1601, Inr 2)] :: (nat \<times> nat \<times> (unit + nat)) list"
      1000 1200 1201 "Inr 3 :: unit + nat"]
    by (simp add: max_def del: calls.simps)
qed

text \<open>
  A call that was admitted while the breaker was closed and succeeds after other calls have opened
  it closes it at once, before the cooldown.
\<close>

lemma late_success_closes:
  defines "b \<equiv> breaker_new 1 2 500"
  defines "b' \<equiv> record_failure 1000 b"
  shows "breaker_step\<^sup>*\<^sup>* \<lparr>bs_breaker = b, bs_seen = [], bs_running = 0\<rparr> \<lparr>bs_breaker = b', bs_seen = [], bs_running = 1\<rparr> \<and>
         br_state b' = Open \<and>
         (\<exists>sys. breaker_step \<lparr>bs_breaker = b', bs_seen = [], bs_running = 1\<rparr> sys \<and> br_state (bs_breaker sys) = Closed)"
proof (intro conjI exI)
  let ?s = "\<lambda>b seen n. \<lparr>bs_breaker = b, bs_seen = seen, bs_running = n\<rparr>"
  have closed: "br_state b = Closed" by (simp add: b_def breaker_new_def)
  have "breaker_step\<^sup>*\<^sup>* (?s b [] 0) (?s b [Closed] 0)"
    using read_state [of "?s b [] 0"] by (simp add: closed r_into_rtranclp)
  also have "breaker_step (?s b [Closed] 0) (?s b [] (Suc 0))"
    using admit [of "?s b [Closed] 0" "[]" Closed "[]"] by (simp add: enter_def)
  also have "breaker_step (?s b [] (Suc 0)) (?s b [Closed] (Suc 0))"
    using read_state [of "?s b [] (Suc 0)"] by (simp add: closed)
  also have "breaker_step (?s b [Closed] (Suc 0)) (?s b [] (Suc (Suc 0)))"
    using admit [of "?s b [Closed] (Suc 0)" "[]" Closed "[]"] by (simp add: enter_def)
  also have "breaker_step (?s b [] (Suc (Suc 0))) (?s b' [] 1)"
    using failing [of "?s b [] (Suc (Suc 0))" "Suc 0" 1000] by (simp add: b'_def)
  finally show "breaker_step\<^sup>*\<^sup>* (?s b [] 0) (?s b' [] 1)" .
  show opened: "br_state b' = Open" by (simp add: b'_def b_def record_failure_def breaker_new_def)
  show "breaker_step (?s b' [] 1) (?s (record_success b') [] 0)"
    using succeed [of "?s b' [] 1" 0] by simp
  show "br_state (bs_breaker (?s (record_success b') [] 0)) = Closed"
    by (simp add: record_success_def opened)
qed

end
