(* ===== verification/Rate_Limiter.thy ===== *)
theory Rate_Limiter
  imports Prelude "HOL-Library.AList"
begin

text \<open>
  \<open>src/api/rate_limiter.rs\<close>: requests per peer and per route in a sliding window of one minute. The
  peers are spread over 16 shards by a hash, which is a parameter. A moment is a number of
  nanoseconds of the monotonic clock.
\<close>

definition WINDOW :: nat where "WINDOW = 60000000000"

definition prune_timestamps :: "nat \<Rightarrow> nat list \<Rightarrow> nat list" where
  "prune_timestamps now timestamps = dropWhile (\<lambda>t. WINDOW \<le> now - t) timestamps"

record ip_track =
  tr_timestamps :: "nat list"
  tr_endpoint_timestamps :: "(string \<times> nat list) list"

definition track_new :: ip_track where "track_new = \<lparr>tr_timestamps = [], tr_endpoint_timestamps = []\<rparr>"

definition track_prune :: "nat \<Rightarrow> ip_track \<Rightarrow> ip_track" where
  "track_prune now track =
     \<lparr>tr_timestamps = prune_timestamps now (tr_timestamps track),
      tr_endpoint_timestamps =
        List.filter (\<lambda>(_, ts). ts \<noteq> []) (map (\<lambda>(route, ts). (route, prune_timestamps now ts)) (tr_endpoint_timestamps track))\<rparr>"

record 'ip rate_limit_shard =
  sh_requests :: "('ip \<times> ip_track) list"
  sh_last_cleanup :: nat

definition shard_prune :: "nat \<Rightarrow> 'ip rate_limit_shard \<Rightarrow> 'ip rate_limit_shard" where
  "shard_prune now shard =
     \<lparr>sh_requests = List.filter (\<lambda>(_, track). tr_timestamps track \<noteq> []) (map (\<lambda>(ip, track). (ip, track_prune now track)) (sh_requests shard)),
      sh_last_cleanup = now\<rparr>"

definition NUM_SHARDS :: nat where "NUM_SHARDS = 16"

record 'ip rate_limiter_state =
  rl_shards :: "'ip rate_limit_shard list"
  rl_max_requests_per_minute :: nat
  rl_endpoint_limits :: "(string \<times> nat) list"

definition rate_limiter_new :: "nat \<Rightarrow> nat \<Rightarrow> 'ip rate_limiter_state" where
  "rate_limiter_new now max_requests =
     \<lparr>rl_shards = replicate NUM_SHARDS \<lparr>sh_requests = [], sh_last_cleanup = now\<rparr>,
      rl_max_requests_per_minute = max_requests, rl_endpoint_limits = []\<rparr>"

definition shard_for :: "('ip \<Rightarrow> u64) \<Rightarrow> 'ip \<Rightarrow> nat" where
  "shard_for hash peer = unat (hash peer) mod NUM_SHARDS"

definition set_endpoint_limit :: "string \<Rightarrow> nat \<Rightarrow> 'ip rate_limiter_state \<Rightarrow> 'ip rate_limiter_state" where
  "set_endpoint_limit endpoint limit st = st\<lparr>rl_endpoint_limits := AList.update endpoint limit (rl_endpoint_limits st)\<rparr>"

definition limit_of :: "'ip rate_limiter_state \<Rightarrow> string option \<Rightarrow> nat" where
  "limit_of st endpoint = (case endpoint of None \<Rightarrow> 0 | Some route \<Rightarrow> case map_of (rl_endpoint_limits st) route of None \<Rightarrow> 0 | Some l \<Rightarrow> l)"

definition route_timestamps :: "ip_track \<Rightarrow> string \<Rightarrow> nat list" where
  "route_timestamps track route = (case map_of (tr_endpoint_timestamps track) route of None \<Rightarrow> [] | Some ts \<Rightarrow> ts)"

text \<open>The check of one peer's track, after it was pruned: whether the request is rejected, and the track afterwards.\<close>

definition check_track :: "nat \<Rightarrow> nat \<Rightarrow> nat \<Rightarrow> string option \<Rightarrow> ip_track \<Rightarrow> bool \<times> ip_track" where
  "check_track max_requests endpoint_limit now endpoint track =
     (if 0 < max_requests \<and> max_requests \<le> length (tr_timestamps track) then (True, track)
      else case endpoint of
             Some route \<Rightarrow>
               if 0 < endpoint_limit \<and> endpoint_limit \<le> length (route_timestamps track route) then (True, track)
               else (False, track\<lparr>tr_timestamps := tr_timestamps track @ [now],
                       tr_endpoint_timestamps := AList.update route (route_timestamps track route @ [now]) (tr_endpoint_timestamps track)\<rparr>)
           | None \<Rightarrow> (False, track\<lparr>tr_timestamps := tr_timestamps track @ [now]\<rparr>))"

definition shard_check ::
  "nat \<Rightarrow> nat \<Rightarrow> nat \<Rightarrow> string option \<Rightarrow> 'ip \<Rightarrow> 'ip rate_limit_shard \<Rightarrow> bool \<times> 'ip rate_limit_shard" where
  "shard_check max_requests endpoint_limit now endpoint peer shard =
     (let shard = (if WINDOW \<le> now - sh_last_cleanup shard then shard_prune now shard else shard);
          track = track_prune now (case map_of (sh_requests shard) peer of None \<Rightarrow> track_new | Some t \<Rightarrow> t)
      in case check_track max_requests endpoint_limit now endpoint track of
           (limited, track') \<Rightarrow> (limited, shard\<lparr>sh_requests := AList.update peer track' (sh_requests shard)\<rparr>))"

definition is_rate_limited ::
  "('ip \<Rightarrow> u64) \<Rightarrow> nat \<Rightarrow> 'ip \<Rightarrow> string option \<Rightarrow> 'ip rate_limiter_state \<Rightarrow> bool \<times> 'ip rate_limiter_state" where
  "is_rate_limited hash now peer endpoint st =
     (let endpoint_limit = limit_of st endpoint; max_requests = rl_max_requests_per_minute st; i = shard_for hash peer
      in if max_requests = 0 \<and> endpoint_limit = 0 then (False, st)
         else case shard_check max_requests endpoint_limit now endpoint peer (rl_shards st ! i) of
                (limited, shard') \<Rightarrow> (limited, st\<lparr>rl_shards := (rl_shards st)[i := shard']\<rparr>))"

record 'ip ip_summary =
  is_ip :: 'ip
  is_request_count :: nat
  is_endpoint_counts :: "(string \<times> nat) list"

definition get_summary :: "(nat \<Rightarrow> nat) \<Rightarrow> 'ip rate_limiter_state \<Rightarrow> 'ip ip_summary list \<times> 'ip rate_limiter_state" where
  "get_summary clock st =
     (let shards = map (\<lambda>(i, shard). shard_prune (clock i) shard) (enumerate 0 (rl_shards st))
      in (concat (map (\<lambda>shard. map (\<lambda>(ip, track).
            \<lparr>is_ip = ip, is_request_count = length (tr_timestamps track),
             is_endpoint_counts = map (\<lambda>(route, ts). (route, length ts)) (tr_endpoint_timestamps track)\<rparr>) (sh_requests shard)) shards),
          st\<lparr>rl_shards := shards\<rparr>))"

subsection \<open>The requests in the window\<close>

text \<open>
  The specification looks at all requests that were accepted so far, with their peers and routes, and
  counts those in the window.
\<close>

type_synonym 'ip request_log = "('ip \<times> string option \<times> nat) list"

definition recent :: "nat \<Rightarrow> nat list \<Rightarrow> nat list" where
  "recent now ts = List.filter (\<lambda>t. now - t < WINDOW) ts"

definition peer_times :: "'ip request_log \<Rightarrow> 'ip \<Rightarrow> nat list" where
  "peer_times log peer = map (\<lambda>(_, _, t). t) (List.filter (\<lambda>(p, _, _). p = peer) log)"

definition route_times :: "'ip request_log \<Rightarrow> 'ip \<Rightarrow> string \<Rightarrow> nat list" where
  "route_times log peer route = map (\<lambda>(_, _, t). t) (List.filter (\<lambda>(p, e, _). p = peer \<and> e = Some route) log)"

definition over_limit :: "nat \<Rightarrow> nat \<Rightarrow> 'ip request_log \<Rightarrow> nat \<Rightarrow> 'ip \<Rightarrow> string option \<Rightarrow> bool" where
  "over_limit max_requests endpoint_limit log now peer endpoint \<longleftrightarrow>
     0 < max_requests \<and> max_requests \<le> length (recent now (peer_times log peer)) \<or>
     (\<exists>route. endpoint = Some route \<and> 0 < endpoint_limit \<and> endpoint_limit \<le> length (recent now (route_times log peer route)))"

fun spec_run :: "nat \<Rightarrow> (string option \<Rightarrow> nat) \<Rightarrow> 'ip request_log \<Rightarrow> 'ip request_log \<Rightarrow> bool list" where
  "spec_run max_requests limits log [] = []"
| "spec_run max_requests limits log ((peer, endpoint, now) # rs) =
     (let limited = over_limit max_requests (limits endpoint) log now peer endpoint
      in limited # spec_run max_requests limits (if limited then log else log @ [(peer, endpoint, now)]) rs)"

fun limiter_run :: "('ip \<Rightarrow> u64) \<Rightarrow> 'ip rate_limiter_state \<Rightarrow> 'ip request_log \<Rightarrow> bool list" where
  "limiter_run hash st [] = []"
| "limiter_run hash st ((peer, endpoint, now) # rs) =
     (case is_rate_limited hash now peer endpoint st of (limited, st') \<Rightarrow> limited # limiter_run hash st' rs)"

subsection \<open>Pruning keeps what is recent\<close>

lemma recent_recent: "now \<le> now' \<Longrightarrow> recent now' (recent now ts) = recent now' ts"
  unfolding recent_def filter_filter by (rule filter_cong) auto

lemma recent_append [simp]: "recent now (xs @ ys) = recent now xs @ recent now ys"
  by (simp add: recent_def)

lemma recent_now [simp]: "recent now [now] = [now]" "recent now [] = []"
  by (simp_all add: recent_def WINDOW_def)

lemma prune_recent: "sorted ts \<Longrightarrow> prune_timestamps now ts = recent now ts"
proof (induction ts)
  case (Cons t ts)
  then have "\<forall>t' \<in> set ts. t \<le> t'" by simp
  then have "\<not> WINDOW \<le> now - t \<Longrightarrow> recent now ts = ts" by (fastforce simp: recent_def filter_id_conv)
  then show ?case using Cons by (auto simp: prune_timestamps_def recent_def)
qed (simp add: prune_timestamps_def recent_def)

text \<open>The times of a track are sorted and not in the future, and every time of a route is a time of the peer.\<close>

definition track_ok :: "nat \<Rightarrow> ip_track \<Rightarrow> bool" where
  "track_ok now track \<longleftrightarrow>
     sorted (tr_timestamps track) \<and> (\<forall>t \<in> set (tr_timestamps track). t \<le> now) \<and> distinct (map fst (tr_endpoint_timestamps track)) \<and>
     (\<forall>(_, ts) \<in> set (tr_endpoint_timestamps track). sorted ts \<and> set ts \<subseteq> set (tr_timestamps track))"

lemma track_new_ok [simp]: "track_ok now track_new"
  by (simp add: track_ok_def track_new_def)

lemma track_okD:
  assumes "track_ok now track"
  shows "sorted (route_timestamps track route)" "set (route_timestamps track route) \<subseteq> set (tr_timestamps track)"
  using assms by (auto simp: track_ok_def route_timestamps_def dest!: map_of_SomeD split: option.splits)

lemma track_prune_recent:
  assumes "track_ok now track"
  shows "tr_timestamps (track_prune now' track) = recent now' (tr_timestamps track)"
    "route_timestamps (track_prune now' track) route = recent now' (route_timestamps track route)"
proof -
  show "tr_timestamps (track_prune now' track) = recent now' (tr_timestamps track)"
    using assms by (simp add: track_prune_def prune_recent track_ok_def)
  have "(case map_of (List.filter (\<lambda>(_, ts). ts \<noteq> []) (map (\<lambda>(route, ts). (route, prune_timestamps now' ts)) es)) route of None \<Rightarrow> [] | Some ts \<Rightarrow> ts) =
      recent now' (case map_of es route of None \<Rightarrow> [] | Some ts \<Rightarrow> ts)"
    if "distinct (map fst es)" "\<forall>(_, ts) \<in> set es. sorted ts" for es
    using that
  proof (induction es)
    case (Cons e es)
    obtain r ts where e: "e = (r, ts)" by fastforce
    have no: "map_of (List.filter (\<lambda>(_, ts). ts \<noteq> []) (map (\<lambda>(route, ts). (route, prune_timestamps now' ts)) es)) r = None"
      using Cons.prems(1) unfolding e map_of_eq_None_iff by force
    show ?case using Cons no by (auto simp: e prune_recent)
  qed simp
  then show "route_timestamps (track_prune now' track) route = recent now' (route_timestamps track route)"
    using assms by (fastforce simp: route_timestamps_def track_prune_def track_ok_def)
qed

lemma recent_sorted: "sorted ts \<Longrightarrow> sorted (recent now ts)" "set (recent now ts) \<subseteq> set ts"
  by (auto simp: recent_def sorted_wrt_filter)

lemma track_prune_ok:
  assumes "track_ok now track" "now \<le> now'"
  shows "track_ok now' (track_prune now' track)"
proof -
  have t: "tr_timestamps (track_prune now' track) = recent now' (tr_timestamps track)" by (rule track_prune_recent [OF assms(1)])
  have "sorted ts \<and> set ts \<subseteq> set (recent now' (tr_timestamps track))" if e: "(r, ts) \<in> set (tr_endpoint_timestamps (track_prune now' track))" for r ts
  proof -
    obtain ts0 where "(r, ts0) \<in> set (tr_endpoint_timestamps track)" "ts = prune_timestamps now' ts0"
      using e by (auto simp: track_prune_def)
    then have "sorted ts0" "set ts0 \<subseteq> set (tr_timestamps track)" "ts = recent now' ts0" using assms(1) by (auto simp: track_ok_def prune_recent)
    then show ?thesis by (auto simp: recent_def sorted_wrt_filter)
  qed
  moreover have "distinct (map fst (tr_endpoint_timestamps (track_prune now' track)))"
    using assms(1) by (auto simp: track_ok_def track_prune_def comp_def case_prod_beta intro: distinct_map_filter)
  ultimately show ?thesis
    using assms unfolding track_ok_def t by (auto simp: recent_def sorted_wrt_filter intro: order_trans)
qed

lemma track_ok_later: "track_ok now track \<Longrightarrow> now \<le> now' \<Longrightarrow> track_ok now' track"
  by (force simp: track_ok_def)

text \<open>The track of a peer in its shard.\<close>

definition track_in :: "'ip rate_limit_shard \<Rightarrow> 'ip \<Rightarrow> ip_track" where
  "track_in shard peer = (case map_of (sh_requests shard) peer of None \<Rightarrow> track_new | Some t \<Rightarrow> t)"

definition shard_ok :: "nat \<Rightarrow> 'ip rate_limit_shard \<Rightarrow> bool" where
  "shard_ok now shard \<longleftrightarrow> distinct (map fst (sh_requests shard)) \<and> (\<forall>peer. track_ok now (track_in shard peer))"

text \<open>Two tracks with the same requests in the window.\<close>

definition same_recent :: "nat \<Rightarrow> ip_track \<Rightarrow> ip_track \<Rightarrow> bool" where
  "same_recent now track track' \<longleftrightarrow>
     recent now (tr_timestamps track') = recent now (tr_timestamps track) \<and>
     (\<forall>route. recent now (route_timestamps track' route) = recent now (route_timestamps track route))"

lemma same_recent_refl [simp]: "same_recent now track track"
  by (simp add: same_recent_def)

lemma same_recent_prune: "track_ok now track \<Longrightarrow> same_recent now' track (track_prune now' track)"
  by (simp add: same_recent_def track_prune_recent recent_recent)

lemma map_of_retain:
  assumes "distinct (map fst xs)"
  shows "map_of (List.filter (\<lambda>(_, v). P v) (map (\<lambda>(k, v). (k, f v)) xs)) k =
    (case map_of xs k of None \<Rightarrow> None | Some v \<Rightarrow> if P (f v) then Some (f v) else None)"
  using assms
proof (induction xs)
  case (Cons x xs)
  obtain k' v where x: "x = (k', v)" by fastforce
  have "map_of xs k' = None" using Cons.prems by (simp add: x map_of_eq_None_iff)
  then show ?case using Cons by (auto simp: x)
qed simp

lemma shard_prune_ok:
  assumes "shard_ok now shard" "now \<le> now'"
  shows "shard_ok now' (shard_prune now' shard)" "same_recent now' (track_in shard peer) (track_in (shard_prune now' shard) peer)"
proof -
  have d: "distinct (map fst (sh_requests shard))" using assms(1) by (simp add: shard_ok_def)
  have tr: "track_in (shard_prune now' shard) p =
      (if tr_timestamps (track_prune now' (track_in shard p)) = [] then track_new else track_prune now' (track_in shard p))" for p
    using map_of_retain [OF d, of "\<lambda>t. tr_timestamps t \<noteq> []" "track_prune now'" p]
    by (simp add: track_in_def shard_prune_def track_new_def track_prune_def prune_timestamps_def split: option.splits)
  have ok: "track_ok now (track_in shard p)" for p using assms(1) by (simp add: shard_ok_def)
  have "distinct (map fst (sh_requests (shard_prune now' shard)))"
    using d by (auto simp: shard_prune_def comp_def case_prod_beta intro: distinct_map_filter)
  then show "shard_ok now' (shard_prune now' shard)" using track_prune_ok [OF ok assms(2)] by (simp add: shard_ok_def tr)
  have "recent now' (route_timestamps (track_in shard peer) route) = []" if "recent now' (tr_timestamps (track_in shard peer)) = []" for route
    using that track_okD(2) [OF ok [of peer], of route] by (auto simp: recent_def filter_empty_conv)
  then show "same_recent now' (track_in shard peer) (track_in (shard_prune now' shard) peer)"
    using same_recent_prune [OF ok [of peer], of now'] unfolding tr track_prune_recent(1) [OF ok]
    by (auto simp: same_recent_def track_new_def route_timestamps_def)
qed

subsection \<open>The limiter counts the accepted requests\<close>

lemma route_timestamps_update:
  "route_timestamps (track\<lparr>tr_timestamps := ts, tr_endpoint_timestamps := AList.update route rs (tr_endpoint_timestamps track)\<rparr>) r =
     (if r = route then rs else route_timestamps track r)"
  by (simp add: route_timestamps_def update_conv')

lemma check_track_effect:
  assumes ok: "track_ok now track" and run: "check_track M L now endpoint track = (limited, track')"
  shows "limited \<longleftrightarrow> 0 < M \<and> M \<le> length (tr_timestamps track) \<or>
      (\<exists>route. endpoint = Some route \<and> 0 < L \<and> L \<le> length (route_timestamps track route))"
    "tr_timestamps track' = tr_timestamps track @ (if limited then [] else [now])"
    "route_timestamps track' r = route_timestamps track r @ (if \<not> limited \<and> endpoint = Some r then [now] else [])"
    "track_ok now track'"
proof -
  show "limited \<longleftrightarrow> 0 < M \<and> M \<le> length (tr_timestamps track) \<or>
      (\<exists>route. endpoint = Some route \<and> 0 < L \<and> L \<le> length (route_timestamps track route))"
    "tr_timestamps track' = tr_timestamps track @ (if limited then [] else [now])"
    using run by (auto simp: check_track_def split: if_splits option.splits)
  show "route_timestamps track' r = route_timestamps track r @ (if \<not> limited \<and> endpoint = Some r then [now] else [])"
    using run by (auto simp: check_track_def route_timestamps_update split: if_splits option.splits) (simp_all add: route_timestamps_def)
  have s: "sorted (tr_timestamps track @ [now])" using ok by (simp add: track_ok_def sorted_append)
  have r: "sorted (route_timestamps track route @ [now])" "set (route_timestamps track route) \<subseteq> set (tr_timestamps track)" for route
    using track_okD [OF ok, of route] ok by (auto simp: track_ok_def sorted_append)
  have e: "sorted ts \<and> set ts \<subseteq> set (tr_timestamps track @ [now])"
    if "(r, ts) \<in> set (AList.update route (route_timestamps track route @ [now]) (tr_endpoint_timestamps track))" for r ts route
  proof -
    have "distinct (map fst (tr_endpoint_timestamps track))" using ok by (simp add: track_ok_def)
    then have "map_of (AList.update route (route_timestamps track route @ [now]) (tr_endpoint_timestamps track)) r = Some ts"
      using that by (simp add: distinct_update)
    then have "(r = route \<and> ts = route_timestamps track route @ [now]) \<or> (r, ts) \<in> set (tr_endpoint_timestamps track)"
      by (auto simp: update_conv' dest: map_of_SomeD split: if_splits)
    then show ?thesis using ok r [of route] by (auto simp: track_ok_def)
  qed
  have "track_ok now (track\<lparr>tr_timestamps := tr_timestamps track @ [now], tr_endpoint_timestamps := es\<rparr>)"
    if "distinct (map fst es)" "\<forall>(r, ts) \<in> set es. sorted ts \<and> set ts \<subseteq> set (tr_timestamps track @ [now])" for es
    using that s ok by (simp add: track_ok_def)
  note new = this
  have "track_ok now (track\<lparr>tr_timestamps := tr_timestamps track @ [now]\<rparr>)"
    using new [of "tr_endpoint_timestamps track"] ok by (fastforce simp: track_ok_def)
  moreover have "track_ok now (track\<lparr>tr_timestamps := tr_timestamps track @ [now],
      tr_endpoint_timestamps := AList.update route (route_timestamps track route @ [now]) (tr_endpoint_timestamps track)\<rparr>)" for route
    by (rule new) (use ok e in \<open>auto simp: track_ok_def distinct_update\<close>)
  ultimately show "track_ok now track'"
    using run ok by (auto simp: check_track_def split: if_splits option.splits)
qed

lemma shard_check_effect:
  assumes ok: "shard_ok now shard" "now \<le> now'" and run: "shard_check M L now' endpoint q shard = (limited, shard')"
  shows "limited \<longleftrightarrow> 0 < M \<and> M \<le> length (recent now' (tr_timestamps (track_in shard q))) \<or>
      (\<exists>route. endpoint = Some route \<and> 0 < L \<and> L \<le> length (recent now' (route_timestamps (track_in shard q) route)))"
    "recent now' (tr_timestamps (track_in shard' p)) = recent now' (tr_timestamps (track_in shard p)) @ (if \<not> limited \<and> p = q then [now'] else [])"
    "recent now' (route_timestamps (track_in shard' p) r) =
       recent now' (route_timestamps (track_in shard p) r) @ (if \<not> limited \<and> p = q \<and> endpoint = Some r then [now'] else [])"
    "shard_ok now' shard'"
proof -
  define s where "s = (if WINDOW \<le> now' - sh_last_cleanup shard then shard_prune now' shard else shard)"
  have s: "shard_ok now' s" "same_recent now' (track_in shard p) (track_in s p)" for p
    using shard_prune_ok [OF ok] ok track_ok_later [OF _ ok(2)] by (auto simp: s_def shard_ok_def)
  define t where "t = track_prune now' (track_in s q)"
  have sq: "track_ok now' (track_in s q)" using s(1) by (simp add: shard_ok_def)
  have t: "track_ok now' t" "tr_timestamps t = recent now' (tr_timestamps (track_in shard q))"
    "route_timestamps t route = recent now' (route_timestamps (track_in shard q) route)" for route
    using track_prune_ok [OF sq] s(2) [of q] by (simp_all add: t_def track_prune_recent [OF sq] same_recent_def)
  obtain t' where c: "check_track M L now' endpoint t = (limited, t')" "shard' = s\<lparr>sh_requests := AList.update q t' (sh_requests s)\<rparr>"
    using run by (auto simp: shard_check_def Let_def s_def t_def track_in_def split: prod.splits)
  note e = check_track_effect [OF t(1) c(1)]
  have tr: "track_in shard' p = (if p = q then t' else track_in s p)" for p
    by (simp add: c(2) track_in_def update_conv')
  show "limited \<longleftrightarrow> 0 < M \<and> M \<le> length (recent now' (tr_timestamps (track_in shard q))) \<or>
      (\<exists>route. endpoint = Some route \<and> 0 < L \<and> L \<le> length (recent now' (route_timestamps (track_in shard q) route)))"
    using e(1) by (simp add: t)
  show "recent now' (tr_timestamps (track_in shard' p)) = recent now' (tr_timestamps (track_in shard p)) @ (if \<not> limited \<and> p = q then [now'] else [])"
    using s(2) [of p] by (simp add: tr e t recent_recent same_recent_def)
  show "recent now' (route_timestamps (track_in shard' p) r) =
       recent now' (route_timestamps (track_in shard p) r) @ (if \<not> limited \<and> p = q \<and> endpoint = Some r then [now'] else [])"
    using s(2) [of p] by (simp add: tr e t recent_recent same_recent_def)
  show "shard_ok now' shard'"
    using s(1) e(4) by (simp add: shard_ok_def tr) (simp add: c(2) distinct_update)
qed

text \<open>The shards know the recent requests of the log, as far as a limit asks for them.\<close>

definition limiter_ok :: "('ip \<Rightarrow> u64) \<Rightarrow> 'ip request_log \<Rightarrow> nat \<Rightarrow> 'ip rate_limiter_state \<Rightarrow> bool" where
  "limiter_ok hash log now st \<longleftrightarrow>
     length (rl_shards st) = NUM_SHARDS \<and> (\<forall>shard \<in> set (rl_shards st). shard_ok now shard) \<and>
     (\<forall>peer. let track = track_in (rl_shards st ! shard_for hash peer) peer; M = rl_max_requests_per_minute st
        in (0 < M \<longrightarrow> recent now (tr_timestamps track) = recent now (peer_times log peer)) \<and>
           (\<forall>route. 0 < M \<or> 0 < limit_of st (Some route) \<longrightarrow>
              recent now (route_timestamps track route) = recent now (route_times log peer route)))"

lemma later_recent: "now \<le> now' \<Longrightarrow> recent now xs = recent now ys \<Longrightarrow> recent now' xs = recent now' ys"
  using recent_recent by metis

lemma log_append:
  "peer_times (log @ [(q, e, t)]) p = peer_times log p @ (if p = q then [t] else [])"
  "route_times (log @ [(q, e, t)]) p r = route_times log p r @ (if p = q \<and> e = Some r then [t] else [])"
  by (auto simp: peer_times_def route_times_def)

lemma limiter_step:
  assumes ok: "limiter_ok hash log now st" "now \<le> now'" and run: "is_rate_limited hash now' q e st = (limited, st')"
  shows "limited \<longleftrightarrow> over_limit (rl_max_requests_per_minute st) (limit_of st e) log now' q e"
    "limiter_ok hash (if limited then log else log @ [(q, e, now')]) now' st'"
    "rl_max_requests_per_minute st' = rl_max_requests_per_minute st" "limit_of st' = limit_of st"
proof -
  let ?M = "rl_max_requests_per_minute st" and ?L = "limit_of st e" and ?i = "shard_for hash q"
  let ?track = "\<lambda>st p. track_in (rl_shards st ! shard_for hash p) p"
  have len: "length (rl_shards st) = NUM_SHARDS" and sh: "\<forall>shard \<in> set (rl_shards st). shard_ok now shard" using ok(1) by (auto simp: limiter_ok_def)
  have i: "shard_for hash p < length (rl_shards st)" for p by (simp add: len shard_for_def NUM_SHARDS_def)
  have r: "0 < ?M \<Longrightarrow> recent now' (tr_timestamps (?track st p)) = recent now' (peer_times log p)"
    "0 < ?M \<or> 0 < limit_of st (Some route) \<Longrightarrow> recent now' (route_timestamps (?track st p) route) = recent now' (route_times log p route)" for p route
    by (rule later_recent [OF ok(2)], use ok(1) in \<open>auto simp: limiter_ok_def Let_def\<close>)+
  have "(limited \<longleftrightarrow> over_limit ?M ?L log now' q e) \<and> limiter_ok hash (if limited then log else log @ [(q, e, now')]) now' st' \<and>
      rl_max_requests_per_minute st' = ?M \<and> limit_of st' = limit_of st"
  proof (cases "?M = 0 \<and> ?L = 0")
    case True
    then have st: "st' = st" "\<not> limited" using run by (auto simp: is_rate_limited_def)
    have "\<forall>shard \<in> set (rl_shards st). shard_ok now' shard" using sh track_ok_later [OF _ ok(2)] by (auto simp: shard_ok_def)
    moreover have "recent now' (route_timestamps (?track st p) route) = recent now' (route_times (log @ [(q, e, now')]) p route)"
      if "0 < limit_of st (Some route)" for p route
    proof -
      have "e \<noteq> Some route" using that True by auto
      then show ?thesis using r(2) [of route p] that by (simp add: log_append)
    qed
    ultimately have "limiter_ok hash (log @ [(q, e, now')]) now' st"
      using True len by (simp add: limiter_ok_def Let_def)
    then show ?thesis using st True by (simp add: over_limit_def)
  next
    case False
    obtain shard' where c: "shard_check ?M ?L now' e q (rl_shards st ! ?i) = (limited, shard')" "st' = st\<lparr>rl_shards := (rl_shards st)[?i := shard']\<rparr>"
      using run False by (auto simp: is_rate_limited_def Let_def split: prod.splits)
    have ok0: "shard_ok now (rl_shards st ! ?i)" using sh i by simp
    note eff = shard_check_effect [OF ok0 ok(2) c(1)]
    have tr: "?track st' p = (if shard_for hash p = ?i then track_in shard' p else ?track st p)" for p using i by (simp add: c(2))
    have lim: "limit_of st' = limit_of st" by (simp add: c(2) limit_of_def fun_eq_iff split: option.split)
    have dec: "limited \<longleftrightarrow> over_limit ?M ?L log now' q e"
    proof -
      have "recent now' (route_timestamps (?track st q) route) = recent now' (route_times log q route)" if "e = Some route" "0 < ?L" for route
        using r(2) [of route q] that by simp
      then have "(\<exists>route. e = Some route \<and> 0 < ?L \<and> ?L \<le> length (recent now' (route_timestamps (?track st q) route))) \<longleftrightarrow>
          (\<exists>route. e = Some route \<and> 0 < ?L \<and> ?L \<le> length (recent now' (route_times log q route)))" by auto
      then show ?thesis unfolding over_limit_def eff(1) using r(1) [of q] by auto
    qed
    have shards: "\<forall>shard \<in> set (rl_shards st'). shard_ok now' shard"
      using sh eff(4) track_ok_later [OF _ ok(2)] set_update_subset_insert [of "rl_shards st" ?i shard'] by (auto simp: c(2) shard_ok_def)
    have "recent now' (tr_timestamps (?track st' p)) = recent now' (tr_timestamps (?track st p)) @ (if \<not> limited \<and> p = q then [now'] else [])"
      "recent now' (route_timestamps (?track st' p) r) =
         recent now' (route_timestamps (?track st p) r) @ (if \<not> limited \<and> p = q \<and> e = Some r then [now'] else [])" for p r
      unfolding tr using eff(2,3) [of p] by auto
    note track = this
    have "limiter_ok hash (if limited then log else log @ [(q, e, now')]) now' st'"
      unfolding limiter_ok_def Let_def lim track
    proof (intro conjI allI impI)
      show "length (rl_shards st') = NUM_SHARDS" using len by (simp add: c(2))
    next
      fix p assume "0 < rl_max_requests_per_minute st'"
      then show "recent now' (tr_timestamps (?track st p)) @ (if \<not> limited \<and> p = q then [now'] else []) =
          recent now' (peer_times (if limited then log else log @ [(q, e, now')]) p)"
        using r(1) [of p] by (simp add: c(2) log_append)
    next
      fix p route assume "0 < rl_max_requests_per_minute st' \<or> 0 < limit_of st (Some route)"
      then show "recent now' (route_timestamps (?track st p) route) @ (if \<not> limited \<and> p = q \<and> e = Some route then [now'] else []) =
          recent now' (route_times (if limited then log else log @ [(q, e, now')]) p route)"
        using r(2) [of route p] by (simp add: c(2) log_append)
    qed (use shards in blast)
    then show ?thesis using dec lim c(2) by simp
  qed
  then show "limited \<longleftrightarrow> over_limit ?M ?L log now' q e" "limiter_ok hash (if limited then log else log @ [(q, e, now')]) now' st'"
    "rl_max_requests_per_minute st' = ?M" "limit_of st' = limit_of st" by blast+
qed

lemma limiter_run_spec:
  assumes "limiter_ok hash log now st" "sorted (map (\<lambda>(_, _, t). t) rs)" "\<forall>(_, _, t) \<in> set rs. now \<le> t"
  shows "limiter_run hash st rs = spec_run (rl_max_requests_per_minute st) (limit_of st) log rs"
  using assms
proof (induction rs arbitrary: log now st)
  case (Cons x rs)
  obtain q e t where x: "x = (q, e, t)" by (metis prod_cases3)
  obtain limited st' where run: "is_rate_limited hash t q e st = (limited, st')" by fastforce
  note step = limiter_step [OF Cons.prems(1) _ run]
  have "now \<le> t" using Cons.prems(3) by (simp add: x)
  note s = step [OF this]
  have "\<forall>(_, _, t') \<in> set rs. t \<le> t'" "sorted (map (\<lambda>(_, _, t). t) rs)" using Cons.prems(2) by (auto simp: x)
  then have "limiter_run hash st' rs = spec_run (rl_max_requests_per_minute st') (limit_of st') (if limited then log else log @ [(q, e, t)]) rs"
    using Cons.IH [OF s(2)] by blast
  then show ?case using run s by (simp add: x Let_def)
qed simp

subsection \<open>Properties\<close>

definition limiter_with :: "nat \<Rightarrow> nat \<Rightarrow> (string \<times> nat) list \<Rightarrow> 'ip rate_limiter_state" where
  "limiter_with start max_requests limits = fold (\<lambda>(e, l). set_endpoint_limit e l) limits (rate_limiter_new start max_requests)"

lemma limiter_with_shards:
  "rl_shards (limiter_with start M limits) = replicate NUM_SHARDS \<lparr>sh_requests = [], sh_last_cleanup = start\<rparr>"
  "rl_max_requests_per_minute (limiter_with start M limits) = M"
  by (induction limits rule: rev_induct) (auto simp: limiter_with_def rate_limiter_new_def set_endpoint_limit_def)

lemma empty_track: "track_in \<lparr>sh_requests = [], sh_last_cleanup = start\<rparr> p = track_new"
  "tr_timestamps track_new = []" "route_timestamps track_new route = []"
  by (simp_all add: track_in_def track_new_def route_timestamps_def)

lemma limiter_with_ok: "limiter_ok hash [] start (limiter_with start M limits)"
  by (simp add: limiter_ok_def limiter_with_shards shard_ok_def NUM_SHARDS_def shard_for_def Let_def peer_times_def route_times_def empty_track)

text \<open>The requests that were let through.\<close>

definition accepted :: "'ip request_log \<Rightarrow> bool list \<Rightarrow> 'ip request_log" where
  "accepted rs limited = map fst (List.filter (\<lambda>(_, l). \<not> l) (zip rs limited))"

text \<open>The requests of a peer in the minute that ends at a moment.\<close>

definition in_minute :: "nat \<Rightarrow> 'ip request_log \<Rightarrow> 'ip \<Rightarrow> nat list" where
  "in_minute now log peer = List.filter (\<lambda>t. t \<le> now \<and> now - t < WINDOW) (peer_times log peer)"

lemma in_minute_step:
  assumes "\<not> over_limit M L log t q e" "\<forall>(_, _, t') \<in> set log. t' \<le> t" "length (in_minute now log peer) \<le> M" "0 < M"
  shows "length (in_minute now (log @ [(q, e, t)]) peer) \<le> M"
proof (cases "peer = q \<and> t \<le> now \<and> now - t < WINDOW")
  case True
  have "\<forall>t' \<in> set (peer_times log q). t' \<le> t" using assms(2) by (auto simp: peer_times_def)
  then have "in_minute now log q = List.filter (\<lambda>t'. t' \<le> now \<and> now - t' < WINDOW) (recent t (peer_times log q))"
    using True unfolding in_minute_def recent_def filter_filter by (intro filter_cong) auto
  then have "length (in_minute now log q) \<le> length (recent t (peer_times log q))" by simp
  also have "\<dots> < M" using assms(1,4) by (auto simp: over_limit_def)
  finally show ?thesis using True by (simp add: in_minute_def log_append)
next
  case False
  then show ?thesis using assms(3) by (auto simp: in_minute_def log_append)
qed

lemma spec_run_bounded:
  assumes "sorted (map (\<lambda>(_, _, t). t) rs)" "\<forall>(_, _, t') \<in> set log. \<forall>(_, _, t) \<in> set rs. t' \<le> t"
    and "\<And>now. length (in_minute now log peer) \<le> M" "0 < M"
  shows "length (in_minute now (log @ accepted rs (spec_run M limits log rs)) peer) \<le> M"
  using assms
proof (induction rs arbitrary: log)
  case (Cons x rs)
  obtain q e t where x: "x = (q, e, t)" by (metis prod_cases3)
  show ?case
  proof (cases "over_limit M (limits e) log t q e")
    case True
    have "length (in_minute now (log @ accepted rs (spec_run M limits log rs)) peer) \<le> M"
      using Cons.prems by (intro Cons.IH) (auto simp: x)
    then show ?thesis using True by (simp add: x accepted_def Let_def)
  next
    case False
    have "length (in_minute now (log @ [(q, e, t)]) peer) \<le> M" for now
      using in_minute_step [OF False] Cons.prems by (force simp: x)
    then have "length (in_minute now ((log @ [(q, e, t)]) @ accepted rs (spec_run M limits (log @ [(q, e, t)]) rs)) peer) \<le> M"
      using Cons.prems by (intro Cons.IH) (auto simp: x)
    then show ?thesis using False by (simp add: x accepted_def Let_def)
  qed
qed (simp add: accepted_def)

text \<open>C38: the limiter, which keeps its peers in shards, sweeps them at most once a minute and forgets what has
  left the window, decides every sequence of requests as if it looked through the complete log of
  accepted requests; and of no peer it lets more requests through than the limit in any minute.
\<close>

theorem rate_limiter_sliding_window:
  fixes hash :: "'ip \<Rightarrow> u64"
  assumes "sorted (map (\<lambda>(_, _, t). t) rs)" and "\<forall>(_, _, t) \<in> set rs. start \<le> t"
  shows "limiter_run hash (limiter_with start M limits) rs = spec_run M (limit_of (limiter_with start M limits :: 'ip rate_limiter_state)) [] rs \<and>
    (0 < M \<longrightarrow> length (in_minute now (accepted rs (limiter_run hash (limiter_with start M limits) rs)) peer) \<le> M)"
proof -
  have run: "limiter_run hash (limiter_with start M limits) rs = spec_run M (limit_of (limiter_with start M limits :: 'ip rate_limiter_state)) [] rs"
    using limiter_run_spec [OF limiter_with_ok assms] by (simp add: limiter_with_shards)
  then show ?thesis
    using spec_run_bounded [OF assms(1), of "[]" peer M now "limit_of (limiter_with start M limits :: 'ip rate_limiter_state)"]
    by (simp add: in_minute_def peer_times_def)
qed

theorem rate_limiter_sliding_window_witness:
  "limiter_run (\<lambda>_ :: nat. 3) (limiter_with 0 2 [(''/admin/flush'', 1)])
     [(7, Some ''/admin/flush'', 1), (7, Some ''/admin/flush'', 2), (7, None, 3), (7, None, 4), (7, None, 60000000001)] = [False, True, False, True, False]"
proof -
  let ?rs = "[(7 :: nat, Some ''/admin/flush'', 1), (7, Some ''/admin/flush'', 2), (7, None, 3), (7, None, 4), (7, None, 60000000001)]"
  have "limiter_run (\<lambda>_ :: nat. 3) (limiter_with 0 2 [(''/admin/flush'', 1)]) ?rs =
      spec_run 2 (limit_of (limiter_with 0 2 [(''/admin/flush'', 1)] :: nat rate_limiter_state)) [] ?rs"
    using rate_limiter_sliding_window [of ?rs 0 "\<lambda>_. 3" 2 "[(''/admin/flush'', 1)]"] by simp
  then show ?thesis
    by (simp add: over_limit_def limit_of_def limiter_with_def rate_limiter_new_def set_endpoint_limit_def recent_def peer_times_def route_times_def
        WINDOW_def Let_def)
qed

end
