(* ===== verification/Access_Control.thy ===== *)
theory Access_Control
  imports Auth Rust_Std "HOL-Library.AList"
begin

text \<open>
  \<open>src/infra/access_control.rs\<close>, the policies, and \<open>src/api/access_control.rs\<close>, the check of each request
  against them. Patterns and keys are the bytes of their UTF-8 text.
\<close>

datatype effect = Allow | Deny

datatype operation = ReadOp | WriteOp | DeleteOp | AdminOp

text \<open>
  Lower case is needed for ASCII letters only: no other character has one of the letters of the four
  names as its lower case. \<open>None\<close> is the error, whose text is left out.
\<close>

definition operation_from_str :: "string \<Rightarrow> operation option" where
  "operation_from_str s =
     (let l = map (\<lambda>c. if CHR ''A'' \<le> c \<and> c \<le> CHR ''Z'' then char_of (of_char c + 32 :: nat) else c) s
      in if l = ''read'' then Some ReadOp else if l = ''write'' then Some WriteOp
         else if l = ''delete'' then Some DeleteOp else if l = ''admin'' then Some AdminOp else None)"

record access_policy =
  po_name :: string
  po_operation :: operation
  po_key_pattern :: bytes
  po_effect :: effect
  po_context_matchers :: "(string \<times> string) list"

type_synonym access_controller = "access_policy list"

definition controller_new :: access_controller where "controller_new = []"

fun set_policy :: "string \<Rightarrow> access_policy \<Rightarrow> access_controller \<Rightarrow> access_controller" where
  "set_policy name policy [] = [policy]"
| "set_policy name policy (p # ps) = (if po_name p = name then policy # ps else p # set_policy name policy ps)"

definition remove_policy :: "string \<Rightarrow> access_controller \<Rightarrow> access_controller" where
  "remove_policy name policies = List.filter (\<lambda>p. po_name p \<noteq> name) policies"

definition ends_with :: "bytes \<Rightarrow> bytes \<Rightarrow> bool" where
  "ends_with suffix s \<longleftrightarrow> starts_with (rev suffix) (rev s)"

definition key_matches_pattern :: "bytes \<Rightarrow> bytes \<Rightarrow> bool" where
  "key_matches_pattern key pattern =
     (let key_str = from_utf8_lossy key
      in if pattern = [42] then True
         else if pattern \<noteq> [] \<and> last pattern = 42 then starts_with (butlast pattern) key_str
         else if pattern \<noteq> [] \<and> hd pattern = 42 then ends_with (tl pattern) key_str
         else key_str = pattern)"

definition context_matches :: "(string \<times> string) list \<Rightarrow> (string \<times> string) list \<Rightarrow> bool" where
  "context_matches matchers ctx = list_all (\<lambda>(k, v). map_of ctx k = Some v) matchers"

fun check_permission :: "operation \<Rightarrow> bytes \<Rightarrow> (string \<times> string) list \<Rightarrow> access_controller \<Rightarrow> bool" where
  "check_permission operation key ctx [] = False"
| "check_permission operation key ctx (policy # policies) =
     (if po_operation policy \<noteq> operation then check_permission operation key ctx policies
      else if \<not> key_matches_pattern key (po_key_pattern policy) then check_permission operation key ctx policies
      else if \<not> context_matches (po_context_matchers policy) ctx then check_permission operation key ctx policies
      else po_effect policy = Allow)"

definition policy_count :: "access_controller \<Rightarrow> nat" where "policy_count policies = length policies"

subsection \<open>The check of a request\<close>

definition method_to_operation :: "http_method \<Rightarrow> string \<Rightarrow> operation" where
  "method_to_operation method path =
     (case method of
        GET \<Rightarrow> ReadOp
      | PUT \<Rightarrow> WriteOp
      | DELETE \<Rightarrow> DeleteOp
      | POST \<Rightarrow> if take 6 path = ''/admin'' then AdminOp else WriteOp
      | _ \<Rightarrow> ReadOp)"

text \<open>The key that the router matched, if it has matched one by then, or the whole path.\<close>

definition extract_resource_key :: "bytes option \<Rightarrow> string \<Rightarrow> bytes" where
  "extract_resource_key matched path = (case matched of Some key \<Rightarrow> key | None \<Rightarrow> as_bytes path)"

definition permission_name :: "permission \<Rightarrow> string" where
  "permission_name p = (case p of Read \<Rightarrow> ''Read'' | Write \<Rightarrow> ''Write'' | Delete \<Rightarrow> ''Delete'' | Admin \<Rightarrow> ''Admin'')"

fun join :: "'a list \<Rightarrow> 'a list list \<Rightarrow> 'a list" where
  "join sep [] = []"
| "join sep [x] = x"
| "join sep (x # y # xs) = x @ sep @ join sep (y # xs)"

definition build_context :: "api_token option \<Rightarrow> (string \<times> string) list" where
  "build_context token =
     (case token of
        None \<Rightarrow> []
      | Some t \<Rightarrow> [(''principal'', at_name t), (''permissions'', join '','' (map permission_name (at_permissions t)))])"

text \<open>Whether the request goes on to the service; otherwise the reply is 403.\<close>

definition access_allowed :: "bool option \<Rightarrow> access_controller option \<Rightarrow> bytes option \<Rightarrow> 'j http_request \<Rightarrow> bool" where
  "access_allowed enabled controller matched req =
     (if enabled \<noteq> Some True then True
      else case controller of
             None \<Rightarrow> True
           | Some policies \<Rightarrow>
               check_permission (method_to_operation (rq_method req) (rq_path req)) (extract_resource_key matched (rq_path req))
                 (build_context (rq_token req)) policies)"

subsection \<open>Correctness\<close>

definition applies :: "operation \<Rightarrow> bytes \<Rightarrow> (string \<times> string) list \<Rightarrow> access_policy \<Rightarrow> bool" where
  "applies operation key ctx p \<longleftrightarrow>
     po_operation p = operation \<and> key_matches_pattern key (po_key_pattern p) \<and> context_matches (po_context_matchers p) ctx"

lemma check_permission_first: "check_permission operation key ctx ps \<longleftrightarrow> (\<exists>p. List.find (applies operation key ctx) ps = Some p \<and> po_effect p = Allow)"
  by (induction ps) (auto simp: applies_def)

text \<open>A policy that does not apply to a request, and does not replace one that does, changes nothing for it.\<close>

lemma set_policy_local:
  assumes "\<not> applies operation key ctx policy" "\<forall>p \<in> set ps. po_name p = name \<longrightarrow> \<not> applies operation key ctx p"
  shows "check_permission operation key ctx (set_policy name policy ps) = check_permission operation key ctx ps"
  using assms unfolding check_permission_first by (induction ps) auto

lemma remove_policy_local:
  assumes "\<forall>p \<in> set ps. po_name p = name \<longrightarrow> \<not> applies operation key ctx p"
  shows "check_permission operation key ctx (remove_policy name ps) = check_permission operation key ctx ps"
  using assms unfolding check_permission_first remove_policy_def by (induction ps) auto

lemma set_policy_names:
  assumes "distinct (map po_name ps)" "po_name policy = name"
  shows "distinct (map po_name (set_policy name policy ps)) \<and> policy \<in> set (set_policy name policy ps) \<and>
    set (map po_name (set_policy name policy ps)) = insert name (set (map po_name ps))"
  using assms by (induction ps) auto

text \<open>
  A denial comes first: when a policy that denies every key for an operation is at the front, no
  request with this operation is allowed.
\<close>

lemma deny_first:
  assumes "po_operation p = operation" "po_key_pattern p = [42]" "po_context_matchers p = []" "po_effect p = Deny"
  shows "\<not> check_permission operation key ctx (p # ps)"
  using assms by (simp add: key_matches_pattern_def context_matches_def)

text \<open>
  A star inside a pattern is an ordinary character. PATCH requests, which change the TTL of a key, are
  checked as reads, as a comment of the code says.
\<close>

lemma inner_star_literal:
  assumes "42 \<notin> {hd pattern, last pattern}" "pattern \<noteq> []" "is_utf8 key"
  shows "key_matches_pattern key pattern \<longleftrightarrow> key = pattern"
  using assms by (auto simp: key_matches_pattern_def is_utf8_def)

lemma patch_is_read: "method_to_operation PATCH path = ReadOp"
  by (simp add: method_to_operation_def)

end
