(* ===== verification/Connection_Guard.thy ===== *)
theory Connection_Guard
  imports Prelude Step_System "HOL-Library.AList"
begin

text \<open>
  \<open>src/api/connection_guard.rs\<close>: the number of requests in flight per client address. A permit is
  released when the request ends in whatever way; the requests in flight are a list of permits.
\<close>

record ip_connection_guard =
  cg_connections :: "(string \<times> nat) list"
  cg_max_per_ip :: nat

definition guard_new :: "nat \<Rightarrow> ip_connection_guard" where
  "guard_new max_per_ip = \<lparr>cg_connections = [], cg_max_per_ip = max_per_ip\<rparr>"

definition MAX_CONNECTIONS_PER_IP :: nat where "MAX_CONNECTIONS_PER_IP = 100"

definition held :: "(string \<times> nat) list \<Rightarrow> string \<Rightarrow> nat" where
  "held connections ip = (case map_of connections ip of None \<Rightarrow> 0 | Some n \<Rightarrow> n)"

definition try_acquire_with_max :: "string \<Rightarrow> nat \<Rightarrow> ip_connection_guard \<Rightarrow> bool \<times> ip_connection_guard" where
  "try_acquire_with_max ip max_per_ip g =
     (let count = held (cg_connections g) ip
      in if max_per_ip \<le> count then (False, g\<lparr>cg_connections := AList.update ip count (cg_connections g)\<rparr>)
         else (True, g\<lparr>cg_connections := AList.update ip (count + 1) (cg_connections g)\<rparr>))"

definition try_acquire :: "string \<Rightarrow> ip_connection_guard \<Rightarrow> bool \<times> ip_connection_guard" where
  "try_acquire ip g = try_acquire_with_max ip (cg_max_per_ip g) g"

definition release :: "string \<Rightarrow> ip_connection_guard \<Rightarrow> ip_connection_guard" where
  "release ip g =
     (case map_of (cg_connections g) ip of
        None \<Rightarrow> g
      | Some n \<Rightarrow>
          if n - 1 = 0 then g\<lparr>cg_connections := AList.delete ip (cg_connections g)\<rparr>
          else g\<lparr>cg_connections := AList.update ip (n - 1) (cg_connections g)\<rparr>)"

text \<open>A request without a peer address counts as one from \<open>unknown\<close>.\<close>

definition client_name :: "string option \<Rightarrow> string" where
  "client_name peer = (case peer of Some ip \<Rightarrow> ip | None \<Rightarrow> ''unknown'')"

text \<open>Requests start, are turned away, and end.\<close>

inductive guard_step :: "ip_connection_guard \<times> string list \<Rightarrow> ip_connection_guard \<times> string list \<Rightarrow> bool" where
  start: "try_acquire (client_name peer) g = (True, g') \<Longrightarrow> guard_step (g, flight) (g', client_name peer # flight)"
| turned_away: "try_acquire (client_name peer) g = (False, g') \<Longrightarrow> guard_step (g, flight) (g', flight)"
| finish: "ip \<in> set flight \<Longrightarrow> guard_step (g, flight) (release ip g, remove1 ip flight)"

lemma held_update [simp]: "held (AList.update ip n cs) ip' = (if ip' = ip then n else held cs ip')"
  by (simp add: held_def update_conv')

lemma held_delete [simp]: "held (AList.delete ip cs) ip' = (if ip' = ip then 0 else held cs ip')"
  by (simp add: held_def delete_conv')

lemma held_release: "held (cg_connections (release ip g)) ip' = held (cg_connections g) ip' - (if ip' = ip then 1 else 0)"
proof (cases "map_of (cg_connections g) ip")
  case None
  then show ?thesis by (auto simp: release_def held_def)
next
  case (Some n)
  then have "held (cg_connections g) ip = n" by (simp add: held_def)
  with Some show ?thesis by (simp add: release_def)
qed

lemma max_per_ip_release [simp]: "cg_max_per_ip (release ip g) = cg_max_per_ip g"
  by (simp add: release_def split: option.split)

lemma count_list_remove1: "count_list (remove1 x xs) y = count_list xs y - (if y = x then 1 else 0)"
  by (induction xs) auto

definition guard_ok :: "nat \<Rightarrow> ip_connection_guard \<times> string list \<Rightarrow> bool" where
  "guard_ok limit s \<longleftrightarrow>
     cg_max_per_ip (fst s) = limit \<and>
     (\<forall>ip. held (cg_connections (fst s)) ip = count_list (snd s) ip \<and> count_list (snd s) ip \<le> limit)"

lemma guard_step_ok: "guard_step s s' \<Longrightarrow> guard_ok limit s \<Longrightarrow> guard_ok limit s'"
proof (induction rule: guard_step.induct)
  case (finish ip flight g)
  then show ?case by (simp add: guard_ok_def held_release count_list_remove1 le_diff_conv le_SucI)
qed (auto simp: guard_ok_def try_acquire_def try_acquire_with_max_def Let_def split: if_splits)

interpretation guarded_requests: step_invariant guard_step "guard_ok limit"
  by unfold_locales (rule guard_step_ok)

text \<open>No client ever has more requests in flight than the limit, and the guard counts exactly those in flight.\<close>

lemma guard_counts_requests:
  assumes "guard_step\<^sup>*\<^sup>* (guard_new limit, []) (g, flight)"
  shows "held (cg_connections g) ip = count_list flight ip \<and> count_list flight ip \<le> limit"
  using guarded_requests.reachable [OF assms, of limit] by (simp add: guard_ok_def guard_new_def held_def)

end
