(* ===== verification/Resource_Limits.thy ===== *)
theory Resource_Limits
  imports Crdt Step_System
begin

text \<open>
  The stand-alone limiters of \<open>src/infra/\<close>: the memory limiter (\<open>memory_limiter.rs\<close>), tenant quotas
  (\<open>quotas.rs\<close>), query budgets (\<open>query_budget.rs\<close>), the idempotency cache (\<open>idempotency.rs\<close>) and retries
  (\<open>retry.rs\<close>). Unchecked sums wrap around, as in a release build on a 64-bit machine.
\<close>

definition u64_saturating_sub :: "u64 \<Rightarrow> u64 \<Rightarrow> u64" where
  "u64_saturating_sub a b = (if a \<le> b then 0 else a - b)"

definition u64_saturating_mul :: "u64 \<Rightarrow> u64 \<Rightarrow> u64" where
  "u64_saturating_mul a b = (if 2 ^ 64 \<le> unat a * unat b then - 1 else a * b)"

lemma unat_u64_saturating_sub: "unat (u64_saturating_sub a b) = unat a - unat b"
  by (simp add: u64_saturating_sub_def word_le_nat_alt unat_sub)

lemma unat_add_no_wrap: "unat a + unat b < 2 ^ 64 \<Longrightarrow> unat (a + b :: u64) = unat a + unat b"
  by (simp add: unat_word_ariths)

subsection \<open>The memory limiter\<close>

record memory_limiter =
  ml_limit :: u64
  ml_current :: u64
  ml_peak :: u64

definition memory_limiter_new :: "u64 \<Rightarrow> memory_limiter" where
  "memory_limiter_new limit = \<lparr>ml_limit = limit, ml_current = 0, ml_peak = 0\<rparr>"

text \<open>The operations as a single thread sees them.\<close>

definition try_allocate :: "u64 \<Rightarrow> memory_limiter \<Rightarrow> bool \<times> memory_limiter" where
  "try_allocate n l =
     (let new = ml_current l + n
      in if ml_limit l < new then (False, l)
         else (True, l\<lparr>ml_current := new, ml_peak := max (ml_peak l) new\<rparr>))"

definition memory_release :: "u64 \<Rightarrow> memory_limiter \<Rightarrow> memory_limiter" where
  "memory_release n l = l\<lparr>ml_current := u64_saturating_sub (ml_current l) n\<rparr>"

definition memory_reset :: "memory_limiter \<Rightarrow> memory_limiter" where
  "memory_reset l = l\<lparr>ml_current := 0\<rparr>"

text \<open>
  The same operations as several threads interleave them: each call loads the counter and then tries a
  compare-and-exchange, which fails when another thread was faster (and, for a release, may fail for no
  reason). The state has the limiter, the calls under way and the bytes that callers hold.
\<close>

datatype limiter_call =
    Allocating u64            \<comment> \<open>before the load\<close>
  | Loaded u64 u64            \<comment> \<open>the counter seen, the bytes wanted\<close>
  | Raising u64               \<comment> \<open>granted, before the update of the peak\<close>
  | Releasing u64 u64         \<comment> \<open>the counter seen, the bytes released\<close>

type_synonym limiter_system = "memory_limiter \<times> limiter_call list \<times> nat"

inductive limiter_step :: "limiter_system \<Rightarrow> limiter_system \<Rightarrow> bool" where
  allocate_call: "unat (ml_limit l) + unat n < 2 ^ 64 \<Longrightarrow> limiter_step (l, cs, h) (l, Allocating n # cs, h)"
| allocate_load: "Allocating n \<in> set cs \<Longrightarrow> limiter_step (l, cs, h) (l, Loaded (ml_current l) n # remove1 (Allocating n) cs, h)"
| allocate_deny: "Loaded c n \<in> set cs \<Longrightarrow> ml_limit l < c + n \<Longrightarrow> limiter_step (l, cs, h) (l, remove1 (Loaded c n) cs, h)"
| allocate_exchange:
    "Loaded c n \<in> set cs \<Longrightarrow> \<not> ml_limit l < c + n \<Longrightarrow> ml_current l = c \<Longrightarrow>
     limiter_step (l, cs, h) (l\<lparr>ml_current := c + n\<rparr>, Raising (c + n) # remove1 (Loaded c n) cs, h + unat n)"
| allocate_retry:
    "Loaded c n \<in> set cs \<Longrightarrow> \<not> ml_limit l < c + n \<Longrightarrow> ml_current l \<noteq> c \<Longrightarrow>
     limiter_step (l, cs, h) (l, Allocating n # remove1 (Loaded c n) cs, h)"
| raise_peak: "Raising m \<in> set cs \<Longrightarrow> limiter_step (l, cs, h) (l\<lparr>ml_peak := max (ml_peak l) m\<rparr>, remove1 (Raising m) cs, h)"
| release_call: "unat n \<le> h \<Longrightarrow> limiter_step (l, cs, h) (l, Releasing (ml_current l) n # cs, h - unat n)"
| release_exchange:
    "Releasing c n \<in> set cs \<Longrightarrow> ml_current l = c \<Longrightarrow>
     limiter_step (l, cs, h) (l\<lparr>ml_current := u64_saturating_sub c n\<rparr>, remove1 (Releasing c n) cs, h)"
| release_retry:
    "Releasing c n \<in> set cs \<Longrightarrow> limiter_step (l, cs, h) (l, Releasing (ml_current l) n # remove1 (Releasing c n) cs, h)"

text \<open>A successful exchange does what the sequential operation does to the counter.\<close>

lemma exchange_is_sequential:
  "\<not> ml_limit l < ml_current l + n \<Longrightarrow> fst (try_allocate n l) \<and> ml_current (snd (try_allocate n l)) = ml_current l + n"
  "l\<lparr>ml_current := u64_saturating_sub (ml_current l) n\<rparr> = memory_release n l"
  by (simp_all add: try_allocate_def memory_release_def Let_def)

fun returning :: "limiter_call \<Rightarrow> nat" where
  "returning (Releasing c n) = unat n"
| "returning _ = 0"

fun request_fits :: "u64 \<Rightarrow> limiter_call \<Rightarrow> bool" where
  "request_fits limit (Allocating n) \<longleftrightarrow> unat limit + unat n < 2 ^ 64"
| "request_fits limit (Loaded c n) \<longleftrightarrow> unat limit + unat n < 2 ^ 64"
| "request_fits limit _ \<longleftrightarrow> True"

definition memory_ok :: "limiter_system \<Rightarrow> bool" where
  "memory_ok s = (case s of (l, cs, h) \<Rightarrow>
     unat (ml_current l) = h + sum_list (map returning cs) \<and> ml_current l \<le> ml_limit l \<and> list_all (request_fits (ml_limit l)) cs)"

lemma sum_list_remove1:
  "x \<in> set xs \<Longrightarrow> sum_list (map f (remove1 x xs)) + f x = (sum_list (map f xs) :: nat)"
  by (induction xs) auto

lemma list_all_remove1: "list_all P xs \<Longrightarrow> list_all P (remove1 x xs)"
  by (induction xs) auto

lemma list_all_member: "list_all P xs \<Longrightarrow> x \<in> set xs \<Longrightarrow> P x"
  by (simp add: list_all_iff)

lemma limiter_step_ok: "limiter_step s s' \<Longrightarrow> memory_ok s \<Longrightarrow> memory_ok s'"
proof (induction rule: limiter_step.induct)
  case (allocate_exchange c n cs l h)
  then have le: "unat c \<le> unat (ml_limit l)" and fits: "unat (ml_limit l) + unat n < 2 ^ 64"
    using list_all_member [of "request_fits (ml_limit l)" cs "Loaded c n"] by (auto simp: memory_ok_def word_le_nat_alt)
  then have "unat (c + n) = unat c + unat n" by (intro unat_add_no_wrap) linarith
  then show ?case
    using allocate_exchange sum_list_remove1 [of "Loaded c n" cs returning]
    by (simp add: memory_ok_def list_all_remove1)
next
  case (release_exchange c n cs l h)
  then show ?case
    using sum_list_remove1 [of "Releasing c n" cs returning]
    by (clarsimp simp: memory_ok_def list_all_remove1 word_le_nat_alt unat_u64_saturating_sub) linarith
next
  case (allocate_load n cs l h)
  then show ?case
    using sum_list_remove1 [of "Allocating n" cs returning] list_all_member [of "request_fits (ml_limit l)" cs "Allocating n"]
    by (auto simp: memory_ok_def list_all_remove1)
next
  case (allocate_deny c n cs l h)
  then show ?case
    using sum_list_remove1 [of "Loaded c n" cs returning] by (simp add: memory_ok_def list_all_remove1)
next
  case (allocate_retry c n cs l h)
  then show ?case
    using sum_list_remove1 [of "Loaded c n" cs returning] list_all_member [of "request_fits (ml_limit l)" cs "Loaded c n"]
    by (auto simp: memory_ok_def list_all_remove1)
next
  case (raise_peak m cs l h)
  then show ?case
    using sum_list_remove1 [of "Raising m" cs returning] by (simp add: memory_ok_def list_all_remove1)
next
  case (release_retry c n cs l h)
  then show ?case
    using sum_list_remove1 [of "Releasing c n" cs returning] by (simp add: memory_ok_def list_all_remove1)
qed (auto simp: memory_ok_def)

interpretation limiter_threads: step_invariant limiter_step memory_ok
  by unfold_locales (rule limiter_step_ok)

text \<open>
  However the threads interleave, the bytes that callers hold never exceed the limit, as long as no request
  is so large that the sum with the limit leaves 64 bits.
\<close>

lemma memory_limiter_bounds_held:
  assumes "limiter_step\<^sup>*\<^sup>* (memory_limiter_new limit, [], 0) (l, cs, h)"
  shows "memory_ok (l, cs, h)" and "h \<le> unat (ml_limit l)"
proof -
  show ok: "memory_ok (l, cs, h)"
    using limiter_threads.reachable [OF assms] by (simp add: memory_ok_def memory_limiter_new_def)
  then show "h \<le> unat (ml_limit l)" by (simp add: memory_ok_def word_le_nat_alt)
qed

text \<open>Without that condition the sum wraps around and a request far beyond the limit is granted.\<close>

lemma memory_limiter_wraps:
  "try_allocate (- 5) (snd (try_allocate 10 (memory_limiter_new 100))) =
   (True, \<lparr>ml_limit = 100, ml_current = 5, ml_peak = 10\<rparr>)"
  by (simp add: try_allocate_def memory_limiter_new_def)

subsection \<open>Tenant quotas\<close>

record tenant_quota =
  tq_max_keys :: u64
  tq_max_storage_bytes :: u64
  tq_max_requests_per_second :: u64

definition tenant_quota_default :: tenant_quota where
  "tenant_quota_default = \<lparr>tq_max_keys = 10000, tq_max_storage_bytes = 100000000, tq_max_requests_per_second = 1000\<rparr>"

record tenant_usage =
  tu_tenant_id :: string
  tu_keys_count :: u64
  tu_storage_bytes :: u64
  tu_request_timestamps :: "nat list"

definition tenant_usage_new :: "string \<Rightarrow> tenant_usage" where
  "tenant_usage_new tenant_id =
     \<lparr>tu_tenant_id = tenant_id, tu_keys_count = 0, tu_storage_bytes = 0, tu_request_timestamps = []\<rparr>"

definition prune_requests :: "nat \<Rightarrow> nat \<Rightarrow> tenant_usage \<Rightarrow> tenant_usage" where
  "prune_requests now window u = u\<lparr>tu_request_timestamps := List.filter (\<lambda>t. now - t < window) (tu_request_timestamps u)\<rparr>"

record quota_manager =
  qm_quotas :: "(string \<times> tenant_quota) list"
  qm_usage :: "(string \<times> tenant_usage) list"
  qm_default_quota :: tenant_quota

definition with_default_quota :: "tenant_quota \<Rightarrow> quota_manager" where
  "with_default_quota q = \<lparr>qm_quotas = [], qm_usage = [], qm_default_quota = q\<rparr>"

definition quota_manager_new :: quota_manager where
  "quota_manager_new = with_default_quota tenant_quota_default"

definition quota_of :: "quota_manager \<Rightarrow> string \<Rightarrow> tenant_quota" where
  "quota_of m tenant_id = (case map_of (qm_quotas m) tenant_id of Some q \<Rightarrow> q | None \<Rightarrow> qm_default_quota m)"

definition usage_of :: "quota_manager \<Rightarrow> string \<Rightarrow> tenant_usage" where
  "usage_of m tenant_id = (case map_of (qm_usage m) tenant_id of Some u \<Rightarrow> u | None \<Rightarrow> tenant_usage_new tenant_id)"

text \<open>The error messages, with the numbers they print.\<close>

datatype quota_error = KeyLimit string u64 u64 | StorageLimit string u64 u64 | RateLimit string nat u64

definition check_quota :: "nat \<Rightarrow> string \<Rightarrow> u64 \<Rightarrow> u64 \<Rightarrow> quota_manager \<Rightarrow> (quota_error + unit) \<times> quota_manager" where
  "check_quota now tenant_id additional_keys additional_bytes m =
     (let quota = quota_of m tenant_id;
          u = usage_of m tenant_id;
          stored = (\<lambda>u. m\<lparr>qm_usage := AList.update tenant_id u (qm_usage m)\<rparr>);
          keys = tu_keys_count u + additional_keys;
          storage = tu_storage_bytes u + additional_bytes
      in if tq_max_keys quota < keys then (Inl (KeyLimit tenant_id keys (tq_max_keys quota)), stored u)
         else if tq_max_storage_bytes quota < storage
         then (Inl (StorageLimit tenant_id storage (tq_max_storage_bytes quota)), stored u)
         else
           let u' = prune_requests now (10 ^ 9) u;
               requests = length (tu_request_timestamps u')
           in if unat (tq_max_requests_per_second quota) \<le> requests
              then (Inl (RateLimit tenant_id requests (tq_max_requests_per_second quota)), stored u')
              else (Inr (), stored u'))"

text \<open>The deltas are of type \<open>i64\<close>: the sign is that of the signed reading, and the negation wraps around.\<close>

definition add_delta :: "u64 \<Rightarrow> u64 \<Rightarrow> u64" where
  "add_delta count delta = (if 0 \<le> sint delta then u64_saturating_add count delta else u64_saturating_sub count (- delta))"

definition record_usage :: "nat \<Rightarrow> string \<Rightarrow> u64 \<Rightarrow> u64 \<Rightarrow> quota_manager \<Rightarrow> quota_manager" where
  "record_usage now tenant_id keys_delta bytes_delta m =
     (let u = usage_of m tenant_id;
          u' = u\<lparr>tu_keys_count := add_delta (tu_keys_count u) keys_delta,
                 tu_storage_bytes := add_delta (tu_storage_bytes u) bytes_delta,
                 tu_request_timestamps := tu_request_timestamps u @ [now]\<rparr>
      in m\<lparr>qm_usage := AList.update tenant_id u' (qm_usage m)\<rparr>)"

definition set_quota :: "string \<Rightarrow> tenant_quota \<Rightarrow> quota_manager \<Rightarrow> quota_manager" where
  "set_quota tenant_id quota m = m\<lparr>qm_quotas := AList.update tenant_id quota (qm_quotas m)\<rparr>"

definition get_quota :: "string \<Rightarrow> quota_manager \<Rightarrow> tenant_quota option" where
  "get_quota tenant_id m = map_of (qm_quotas m) tenant_id"

definition get_usage :: "string \<Rightarrow> quota_manager \<Rightarrow> tenant_usage option" where
  "get_usage tenant_id m = map_of (qm_usage m) tenant_id"

definition reset_usage :: "string \<Rightarrow> quota_manager \<Rightarrow> quota_manager" where
  "reset_usage tenant_id m = m\<lparr>qm_usage := AList.update tenant_id (tenant_usage_new tenant_id) (qm_usage m)\<rparr>"

text \<open>A check changes no counter, and what it allows stays within the quota once it is recorded.\<close>

lemma check_quota_state:
  obtains u where "snd (check_quota now t k b m) = m\<lparr>qm_usage := AList.update t u (qm_usage m)\<rparr>"
    "tu_keys_count u = tu_keys_count (usage_of m t)" "tu_storage_bytes u = tu_storage_bytes (usage_of m t)"
  by (cases "tq_max_keys (quota_of m t) < tu_keys_count (usage_of m t) + k \<or>
        tq_max_storage_bytes (quota_of m t) < tu_storage_bytes (usage_of m t) + b")
    (auto simp: check_quota_def Let_def prune_requests_def)

lemma usage_of_update:
  "usage_of (m\<lparr>qm_usage := AList.update t u (qm_usage m)\<rparr>) t' = (if t' = t then u else usage_of m t')"
  by (simp add: usage_of_def update_conv')

lemma check_quota_keeps:
  "tu_keys_count (usage_of (snd (check_quota now t k b m)) t') = tu_keys_count (usage_of m t')"
  "tu_storage_bytes (usage_of (snd (check_quota now t k b m)) t') = tu_storage_bytes (usage_of m t')"
  "quota_of (snd (check_quota now t k b m)) t' = quota_of m t'"
proof -
  obtain u where "snd (check_quota now t k b m) = m\<lparr>qm_usage := AList.update t u (qm_usage m)\<rparr>"
    "tu_keys_count u = tu_keys_count (usage_of m t)" "tu_storage_bytes u = tu_storage_bytes (usage_of m t)"
    by (rule check_quota_state)
  then show "tu_keys_count (usage_of (snd (check_quota now t k b m)) t') = tu_keys_count (usage_of m t')"
    "tu_storage_bytes (usage_of (snd (check_quota now t k b m)) t') = tu_storage_bytes (usage_of m t')"
    "quota_of (snd (check_quota now t k b m)) t' = quota_of m t'"
    by (simp_all add: usage_of_update) (simp add: quota_of_def split: option.split)
qed

lemma add_delta_within:
  assumes "0 \<le> sint d" "unat c + unat d < 2 ^ 64" "c + d \<le> limit"
  shows "add_delta c d \<le> limit"
  using assms by (simp add: add_delta_def u64_saturating_add_def)

lemma quota_kept:
  assumes "check_quota now t k b m = (Inr (), m')" "0 \<le> sint k" "0 \<le> sint b"
    "unat (tu_keys_count (usage_of m t)) + unat k < 2 ^ 64" "unat (tu_storage_bytes (usage_of m t)) + unat b < 2 ^ 64"
  shows "tu_keys_count (usage_of (record_usage later t k b m') t) \<le> tq_max_keys (quota_of m t)"
    and "tu_storage_bytes (usage_of (record_usage later t k b m') t) \<le> tq_max_storage_bytes (quota_of m t)"
proof -
  have m': "m' = snd (check_quota now t k b m)" using assms(1) by simp
  have "tu_keys_count (usage_of m t) + k \<le> tq_max_keys (quota_of m t)"
    "tu_storage_bytes (usage_of m t) + b \<le> tq_max_storage_bytes (quota_of m t)"
    using assms(1) by (auto simp: check_quota_def Let_def not_less split: if_splits)
  then show "tu_keys_count (usage_of (record_usage later t k b m') t) \<le> tq_max_keys (quota_of m t)"
    "tu_storage_bytes (usage_of (record_usage later t k b m') t) \<le> tq_max_storage_bytes (quota_of m t)"
    using assms(2-5) by (simp_all add: record_usage_def Let_def usage_of_update
        add_delta_within m' check_quota_keeps)
qed

text \<open>The sums of the check wrap around: a request for almost all of the 64-bit range passes.\<close>

lemma quota_check_wraps:
  "fst (check_quota 0 ''t'' (- 1) 0 (record_usage 0 ''t'' 1 0 quota_manager_new)) = Inr ()"
  by (simp add: check_quota_def record_usage_def Let_def usage_of_def quota_of_def quota_manager_new_def with_default_quota_def
      tenant_quota_default_def tenant_usage_new_def add_delta_def u64_saturating_add_def prune_requests_def)

subsection \<open>Query budgets\<close>

record query_budget =
  qb_max_key_reads :: u64
  qb_max_bytes_scanned :: u64
  qb_key_reads_used :: u64
  qb_bytes_scanned_used :: u64

record budget_exhausted =
  be_resource :: string
  be_requested :: u64
  be_remaining :: u64

definition with_budget :: "u64 \<Rightarrow> u64 \<Rightarrow> query_budget" where
  "with_budget max_key_reads max_bytes_scanned =
     \<lparr>qb_max_key_reads = max_key_reads, qb_max_bytes_scanned = max_bytes_scanned, qb_key_reads_used = 0, qb_bytes_scanned_used = 0\<rparr>"

definition budget_unlimited :: query_budget where "budget_unlimited = with_budget (- 1) (- 1)"

definition remaining_key_reads :: "query_budget \<Rightarrow> u64" where
  "remaining_key_reads b = u64_saturating_sub (qb_max_key_reads b) (qb_key_reads_used b)"

definition remaining_bytes_scanned :: "query_budget \<Rightarrow> u64" where
  "remaining_bytes_scanned b = u64_saturating_sub (qb_max_bytes_scanned b) (qb_bytes_scanned_used b)"

definition spend_key_read :: "query_budget \<Rightarrow> (budget_exhausted + unit) \<times> query_budget" where
  "spend_key_read b =
     (if qb_max_key_reads b \<le> qb_key_reads_used b
      then (Inl \<lparr>be_resource = ''key_reads'', be_requested = 1, be_remaining = remaining_key_reads b\<rparr>, b)
      else (Inr (), b\<lparr>qb_key_reads_used := qb_key_reads_used b + 1\<rparr>))"

definition spend_bytes_scanned :: "u64 \<Rightarrow> query_budget \<Rightarrow> (budget_exhausted + unit) \<times> query_budget" where
  "spend_bytes_scanned n b =
     (let new_total = u64_saturating_add (qb_bytes_scanned_used b) n
      in if qb_max_bytes_scanned b < new_total
         then (Inl \<lparr>be_resource = ''bytes_scanned'', be_requested = n, be_remaining = remaining_bytes_scanned b\<rparr>, b)
         else (Inr (), b\<lparr>qb_bytes_scanned_used := new_total\<rparr>))"

definition spend :: "u64 \<Rightarrow> query_budget \<Rightarrow> (budget_exhausted + unit) \<times> query_budget" where
  "spend cost b =
     (if remaining_key_reads b < cost
      then (Inl \<lparr>be_resource = ''generic_cost'', be_requested = cost, be_remaining = remaining_key_reads b\<rparr>, b)
      else (Inr (), b\<lparr>qb_key_reads_used := u64_saturating_add (qb_key_reads_used b) cost\<rparr>))"

definition is_exhausted :: "query_budget \<Rightarrow> bool" where
  "is_exhausted b \<longleftrightarrow> qb_max_key_reads b \<le> qb_key_reads_used b"

definition budget_reset :: "query_budget \<Rightarrow> query_budget" where
  "budget_reset b = b\<lparr>qb_key_reads_used := 0, qb_bytes_scanned_used := 0\<rparr>"

text \<open>A query that spends costs one after the other, and what it was granted in all.\<close>

fun spend_all :: "u64 list \<Rightarrow> query_budget \<Rightarrow> nat \<times> query_budget" where
  "spend_all [] b = (0, b)"
| "spend_all (c # cs) b =
     (let (r, b') = spend c b; (n, b'') = spend_all cs b'
      in ((case r of Inr _ \<Rightarrow> unat c | Inl _ \<Rightarrow> 0) + n, b''))"

lemma spend_exact:
  assumes "qb_key_reads_used b \<le> qb_max_key_reads b"
  shows "fst (spend c b) = Inr () \<longleftrightarrow> unat (qb_key_reads_used b) + unat c \<le> unat (qb_max_key_reads b)"
    and "unat (qb_key_reads_used (snd (spend c b))) = unat (qb_key_reads_used b) + (if fst (spend c b) = Inr () then unat c else 0)"
proof -
  have le: "unat (qb_key_reads_used b) \<le> unat (qb_max_key_reads b)" using assms by (simp add: word_le_nat_alt)
  then show granted: "fst (spend c b) = Inr () \<longleftrightarrow> unat (qb_key_reads_used b) + unat c \<le> unat (qb_max_key_reads b)"
    by (auto simp: spend_def remaining_key_reads_def word_less_nat_alt unat_u64_saturating_sub)
  have lt: "unat (qb_max_key_reads b) < 2 ^ 64" using unsigned_less [of "qb_max_key_reads b", where ?'a = nat] by simp
  show "unat (qb_key_reads_used (snd (spend c b))) = unat (qb_key_reads_used b) + (if fst (spend c b) = Inr () then unat c else 0)"
  proof (cases "fst (spend c b) = Inr ()")
    case True
    then have "unat (qb_key_reads_used b) + unat c < 2 ^ 64" using granted lt by linarith
    with True show ?thesis
      by (auto simp: spend_def u64_saturating_add_def unat_add_no_wrap split: if_splits)
  qed (auto simp: spend_def split: if_splits)
qed

lemma spend_max [simp]: "qb_max_key_reads (snd (spend c b)) = qb_max_key_reads b"
  by (simp add: spend_def)

lemma spend_all_bounded:
  "qb_key_reads_used b \<le> qb_max_key_reads b \<Longrightarrow>
   unat (qb_key_reads_used b) + fst (spend_all cs b) \<le> unat (qb_max_key_reads b)"
proof (induction cs arbitrary: b)
  case Nil
  then show ?case by (simp add: word_le_nat_alt)
next
  case (Cons c cs)
  let ?b = "snd (spend c b)"
  have step: "unat (qb_key_reads_used ?b) = unat (qb_key_reads_used b) + (if fst (spend c b) = Inr () then unat c else 0)"
    by (rule spend_exact [OF Cons.prems])
  then have "qb_key_reads_used ?b \<le> qb_max_key_reads ?b"
    using spend_exact(1) [OF Cons.prems, of c] Cons.prems by (auto simp: word_le_nat_alt)
  from Cons.IH [OF this] step show ?case
    by (cases "fst (spend c b)") (auto simp: case_prod_beta Let_def split: if_splits)
qed

subsection \<open>The idempotency cache\<close>

record cached_response =
  cr_body :: bytes
  cr_status_code :: u16
  cr_expires_at :: u64
  cr_created_at :: u64

record idempotency_cache =
  ic_cache :: "(string \<times> cached_response) list"
  ic_default_ttl :: nat
  ic_hits :: u64
  ic_misses :: u64

text \<open>The time to live is in milliseconds, cast to 64 bits where it is used.\<close>

definition idempotency_new :: "nat \<Rightarrow> idempotency_cache" where
  "idempotency_new ttl = \<lparr>ic_cache = [], ic_default_ttl = ttl, ic_hits = 0, ic_misses = 0\<rparr>"

definition check_idempotency :: "u64 \<Rightarrow> string \<Rightarrow> idempotency_cache \<Rightarrow> cached_response option \<times> idempotency_cache" where
  "check_idempotency now_millis key c =
     (case map_of (ic_cache c) key of
        Some entry \<Rightarrow>
          if now_millis < cr_expires_at entry then (Some entry, c\<lparr>ic_hits := ic_hits c + 1\<rparr>)
          else (None, c\<lparr>ic_cache := AList.delete key (ic_cache c), ic_misses := ic_misses c + 1\<rparr>)
      | None \<Rightarrow> (None, c\<lparr>ic_misses := ic_misses c + 1\<rparr>))"

definition store_idempotency_with_status :: "u64 \<Rightarrow> string \<Rightarrow> bytes \<Rightarrow> u16 \<Rightarrow> idempotency_cache \<Rightarrow> idempotency_cache" where
  "store_idempotency_with_status now_millis key body status_code c =
     c\<lparr>ic_cache := AList.update key
         \<lparr>cr_body = body, cr_status_code = status_code,
          cr_expires_at = now_millis + word_of_nat (ic_default_ttl c), cr_created_at = now_millis\<rparr> (ic_cache c)\<rparr>"

definition store_idempotency :: "u64 \<Rightarrow> string \<Rightarrow> bytes \<Rightarrow> idempotency_cache \<Rightarrow> idempotency_cache" where
  "store_idempotency now_millis key response c = store_idempotency_with_status now_millis key response 200 c"

definition cleanup_expired :: "u64 \<Rightarrow> idempotency_cache \<Rightarrow> idempotency_cache" where
  "cleanup_expired now_millis c = c\<lparr>ic_cache := List.filter (\<lambda>(_, entry). now_millis < cr_expires_at entry) (ic_cache c)\<rparr>"

definition idempotency_remove :: "string \<Rightarrow> idempotency_cache \<Rightarrow> idempotency_cache" where
  "idempotency_remove key c = c\<lparr>ic_cache := AList.delete key (ic_cache c)\<rparr>"

definition idempotency_clear :: "idempotency_cache \<Rightarrow> idempotency_cache" where
  "idempotency_clear c = c\<lparr>ic_cache := []\<rparr>"

text \<open>A stored response is returned until its time is over and never afterwards, cleaned up or not.\<close>

lemma idempotency_returns_stored:
  assumes "unat stored + ic_default_ttl c < 2 ^ 64"
  shows "map_option cr_body (fst (check_idempotency now key (store_idempotency stored key body c))) =
    (if unat now < unat stored + ic_default_ttl c then Some body else None)"
proof -
  have "unat (stored + word_of_nat (ic_default_ttl c)) = unat stored + ic_default_ttl c"
    using assms by (subst unat_add_no_wrap) (simp_all add: unat_of_nat_small)
  then show ?thesis
    by (simp add: check_idempotency_def store_idempotency_def store_idempotency_with_status_def word_less_nat_alt update_conv')
qed

lemma map_of_filter_values:
  "distinct (map fst xs) \<Longrightarrow> map_of (List.filter (\<lambda>(_, v). P v) xs) k = (case map_of xs k of Some v \<Rightarrow> if P v then Some v else None | None \<Rightarrow> None)"
  by (induction xs) (auto split: option.splits simp: map_of_eq_None_iff rev_image_eqI)

lemma cleanup_keeps_answers:
  assumes "distinct (map fst (ic_cache c))" "cleaned \<le> now"
  shows "fst (check_idempotency now key (cleanup_expired cleaned c)) = fst (check_idempotency now key c)"
  using assms
  by (auto simp: check_idempotency_def cleanup_expired_def map_of_filter_values split: option.split)

subsection \<open>Retries\<close>

record retry_config =
  rc_max_retries :: u32
  rc_base_delay_ms :: u64
  rc_max_delay_ms :: u64
  rc_jitter :: bool

definition retry_config_default :: retry_config where
  "retry_config_default = \<lparr>rc_max_retries = 3, rc_base_delay_ms = 50, rc_max_delay_ms = 5000, rc_jitter = True\<rparr>"

definition retry_config_new :: "u32 \<Rightarrow> u64 \<Rightarrow> u64 \<Rightarrow> retry_config" where
  "retry_config_new max_retries base_delay_ms max_delay_ms =
     \<lparr>rc_max_retries = max_retries, rc_base_delay_ms = base_delay_ms, rc_max_delay_ms = max_delay_ms, rc_jitter = True\<rparr>"

text \<open>The shift \<open>1u64 << attempt\<close> of a release build takes the amount modulo 64.\<close>

definition backoff_delay :: "retry_config \<Rightarrow> nat \<Rightarrow> u64" where
  "backoff_delay c attempt = min (u64_saturating_mul (rc_base_delay_ms c) (push_bit (attempt mod 64) 1)) (rc_max_delay_ms c)"

text \<open>The random number of an attempt is a parameter that gets the bounds of the range.\<close>

definition actual_delay :: "retry_config \<Rightarrow> (nat \<Rightarrow> u64 \<Rightarrow> u64 \<Rightarrow> u64) \<Rightarrow> nat \<Rightarrow> u64" where
  "actual_delay c random_range attempt =
     (let delay_ms = backoff_delay c attempt; half = delay_ms div 2
      in if rc_jitter c
         then random_range attempt (u64_saturating_sub delay_ms half) (u64_saturating_add delay_ms half)
         else delay_ms)"

text \<open>
  The loop, with the number of retries left. The operation may change the state of its closure; the
  result has the delays slept.
\<close>

fun retry_loop :: "retry_config \<Rightarrow> (nat \<Rightarrow> u64 \<Rightarrow> u64 \<Rightarrow> u64) \<Rightarrow> (nat \<Rightarrow> 's \<Rightarrow> ('e + 't) \<times> 's) \<Rightarrow>
    nat \<Rightarrow> nat \<Rightarrow> 's \<Rightarrow> ('e + 't) \<times> u64 list \<times> 's" where
  "retry_loop c rnd f retries attempt s =
     (case f attempt s of
        (Inr v, s') \<Rightarrow> (Inr v, [], s')
      | (Inl e, s') \<Rightarrow>
          (case retries of
             0 \<Rightarrow> (Inl e, [], s')
           | Suc n \<Rightarrow>
               let (r, delays, s'') = retry_loop c rnd f n (attempt + 1) s'
               in (r, actual_delay c rnd attempt # delays, s'')))"

declare retry_loop.simps [simp del]

definition retry_with_backoff :: "retry_config \<Rightarrow> (nat \<Rightarrow> u64 \<Rightarrow> u64 \<Rightarrow> u64) \<Rightarrow> (nat \<Rightarrow> 's \<Rightarrow> ('e + 't) \<times> 's) \<Rightarrow>
    's \<Rightarrow> ('e + 't) \<times> u64 list \<times> 's" where
  "retry_with_backoff c rnd f s = retry_loop c rnd f (unat (rc_max_retries c)) 0 s"

fun closure_state :: "(nat \<Rightarrow> 's \<Rightarrow> ('e + 't) \<times> 's) \<Rightarrow> nat \<Rightarrow> nat \<Rightarrow> 's \<Rightarrow> 's" where
  "closure_state f attempt 0 s = s"
| "closure_state f attempt (Suc n) s = closure_state f (attempt + 1) n (snd (f attempt s))"

lemma retry_loop_result:
  "\<exists>n \<le> retries.
     (\<forall>i < n. isl (fst (f (attempt + i) (closure_state f attempt i s)))) \<and>
     f (attempt + n) (closure_state f attempt n s) = (fst (retry_loop c rnd f retries attempt s), snd (snd (retry_loop c rnd f retries attempt s))) \<and>
     (n = retries \<or> \<not> isl (fst (retry_loop c rnd f retries attempt s))) \<and>
     fst (snd (retry_loop c rnd f retries attempt s)) = map (\<lambda>i. actual_delay c rnd (attempt + i)) [0..<n]"
proof (induction retries arbitrary: attempt s)
  case 0
  then show ?case by (auto simp: retry_loop.simps [of _ _ _ 0] split: prod.split sum.split)
next
  case (Suc r)
  obtain x s' where f: "f attempt s = (x, s')" by fastforce
  show ?case
  proof (cases x)
    case (Inr v)
    with f show ?thesis by (intro exI [of _ 0]) (simp add: retry_loop.simps [of _ _ _ "Suc r"])
  next
    case (Inl e)
    let ?rest = "retry_loop c rnd f r (attempt + 1) s'"
    from Suc.IH [of "attempt + 1" s'] obtain n where n: "n \<le> r"
      "\<forall>i < n. isl (fst (f (attempt + 1 + i) (closure_state f (attempt + 1) i s')))"
      "f (attempt + 1 + n) (closure_state f (attempt + 1) n s') = (fst ?rest, snd (snd ?rest))"
      "n = r \<or> \<not> isl (fst ?rest)" "fst (snd ?rest) = map (\<lambda>i. actual_delay c rnd (attempt + 1 + i)) [0..<n]"
      by blast
    have eq: "retry_loop c rnd f (Suc r) attempt s = (fst ?rest, actual_delay c rnd attempt # fst (snd ?rest), snd (snd ?rest))"
      using f Inl by (simp add: retry_loop.simps [of _ _ _ "Suc r"] case_prod_beta Let_def)
    have "isl (fst (f (attempt + i) (closure_state f attempt i s)))" if "i < Suc n" for i
      using that n(2) f Inl by (cases i) auto
    moreover have "map (\<lambda>i. actual_delay c rnd (attempt + i)) [0..<Suc n] =
        actual_delay c rnd attempt # map (\<lambda>i. actual_delay c rnd (attempt + 1 + i)) [0..<n]"
      by (simp add: upt_conv_Cons map_Suc_upt [symmetric] comp_def del: upt_Suc)
    ultimately show ?thesis
      using n f by (intro exI [of _ "Suc n"]) (simp add: eq del: upt_Suc)
  qed
qed

text \<open>
  The loop calls the operation at most one time more than the retries allowed. It returns the result of
  the last call: the first success, or an error after the last retry. It sleeps once between two calls.
\<close>

lemma retry_returns:
  "\<exists>n \<le> unat (rc_max_retries c).
     (\<forall>i < n. isl (fst (f i (closure_state f 0 i s)))) \<and>
     f n (closure_state f 0 n s) = (fst (retry_with_backoff c rnd f s), snd (snd (retry_with_backoff c rnd f s))) \<and>
     (n = unat (rc_max_retries c) \<or> \<not> isl (fst (retry_with_backoff c rnd f s))) \<and>
     fst (snd (retry_with_backoff c rnd f s)) = map (actual_delay c rnd) [0..<n]"
  using retry_loop_result [of "unat (rc_max_retries c)" f 0 s c rnd] by (simp add: retry_with_backoff_def)

text \<open>Without jitter no delay is above the maximum, but after 64 retries the delays start again from the base.\<close>

lemma delay_capped: "\<not> rc_jitter c \<Longrightarrow> actual_delay c rnd attempt \<le> rc_max_delay_ms c"
  by (simp add: actual_delay_def backoff_delay_def Let_def)

lemma backoff_restarts: "backoff_delay c (attempt + 64) = backoff_delay c attempt"
  by (simp add: backoff_delay_def)

end
