(* ===== verification/Kv_Interface.thy ===== *)
theory Kv_Interface
  imports Engine_Core
begin

text \<open>
  The key-value operations that the layers above the engine call (\<open>get_cf\<close>, \<open>put_cf\<close> and \<open>delete_cf\<close> on one
  column family), as a record that those layers take as an argument, and what they may rely on, as a
  locale. The engine provides it in \<open>Engine_Kv\<close>.
\<close>

record 's kv_ops =
  kv_get :: "bytes \<Rightarrow> 's \<Rightarrow> bytes option outcome \<times> 's"
  kv_put :: "bytes \<Rightarrow> bytes \<Rightarrow> 's \<Rightarrow> bool outcome \<times> 's"
  kv_delete :: "bytes \<Rightarrow> 's \<Rightarrow> bool outcome \<times> 's"

text \<open>
  \<open>rep s m\<close>: the state shows the map \<open>m\<close> on the ordinary keys. \<open>roomy s\<close>: what was written so far fits into
  the write buffer; the laws of a write hold as long as this is so after it.
\<close>

locale kv_store =
  fixes K :: "'s kv_ops"
    and rep :: "'s \<Rightarrow> (bytes \<Rightarrow> bytes option) \<Rightarrow> bool"
    and roomy :: "'s \<Rightarrow> bool"
    and ordinary :: "bytes \<Rightarrow> bool"
  assumes get_shows: "rep s m \<Longrightarrow> ordinary k \<Longrightarrow> kv_get K k s = (r, s') \<Longrightarrow> r = Ok (m k) \<and> rep s' m"
    and put_updates: "rep s m \<Longrightarrow> ordinary k \<Longrightarrow> kv_put K k v s = (Ok b, s') \<Longrightarrow> roomy s' \<Longrightarrow> rep s' (m(k \<mapsto> v))"
    and delete_removes: "rep s m \<Longrightarrow> ordinary k \<Longrightarrow> kv_delete K k s = (Ok b, s') \<Longrightarrow> roomy s' \<Longrightarrow> rep s' (m(k := None))"
    and put_keeps: "rep s m \<Longrightarrow> ordinary k \<Longrightarrow> kv_put K k v s = (Err e, s') \<Longrightarrow> roomy s' \<Longrightarrow> rep s' m"
    and delete_keeps: "rep s m \<Longrightarrow> ordinary k \<Longrightarrow> kv_delete K k s = (Err e, s') \<Longrightarrow> roomy s' \<Longrightarrow> rep s' m"
    and no_panic: "rep s m \<Longrightarrow> ordinary k \<Longrightarrow> kv_put K k v s = (r', s') \<Longrightarrow> roomy s' \<Longrightarrow> r' \<noteq> Panic"
      "rep s m \<Longrightarrow> ordinary k \<Longrightarrow> kv_delete K k s = (r', s') \<Longrightarrow> roomy s' \<Longrightarrow> r' \<noteq> Panic"
    and roomy_before: "roomy (snd (kv_get K k s)) \<Longrightarrow> roomy s" "roomy (snd (kv_put K k v s)) \<Longrightarrow> roomy s" "roomy (snd (kv_delete K k s)) \<Longrightarrow> roomy s"

end
