(* ===== verification/Engine_Kv.thy ===== *)
theory Engine_Kv
  imports Kv_Interface Api_Correct
begin

text \<open>
  The engine as a key-value store for the layers above it: \<open>get_cf\<close>, \<open>put_cf\<close> and \<open>delete_cf\<close> on one column
  family, as long as the write buffer has room, no secondary index is registered, and keys do not expire.
\<close>

record ('bl, 'c, 'k) kv_engine =
  ke_host :: "('bl, 'c, 'k) host"
  ke_json :: json_parser
  ke_fuel :: nat
  ke_options :: engine_options
  ke_cf :: string
  ke_env :: "nat \<Rightarrow> nat list \<Rightarrow> tick"

text \<open>
  A state is that of the engine, the number of operations so far, which selects the readings of the clock,
  and the number of bytes written so far.
\<close>

type_synonym ('bl, 'c, 'k) kv_state = "('bl, 'c, 'k) engine_core \<times> nat \<times> nat"

text \<open>Running out of fuel, which a fuel of two excludes, counts as a panic.\<close>

fun finish_op :: "nat \<Rightarrow> nat \<Rightarrow> ('a outcome \<times> ('bl, 'c, 'k) engine_core) option \<Rightarrow> ('bl, 'c, 'k) engine_core \<Rightarrow> 'a outcome \<times> ('bl, 'c, 'k) kv_state" where
  "finish_op n spent (Some (r, core')) core = (r, core', Suc n, spent)"
| "finish_op n spent None core = (Panic, core, Suc n, spent)"

fun engine_get :: "('bl, 'c, 'k) kv_engine \<Rightarrow> bytes \<Rightarrow> ('bl, 'c, 'k) kv_state \<Rightarrow> bytes option outcome \<times> ('bl, 'c, 'k) kv_state" where
  "engine_get E k (core, n, spent) = finish_op n spent (Some (get_cf (ke_host E) (tk_search (ke_env E n [])) (ke_cf E) k core)) core"

fun engine_put :: "('bl, 'c, 'k) kv_engine \<Rightarrow> bytes \<Rightarrow> bytes \<Rightarrow> ('bl, 'c, 'k) kv_state \<Rightarrow> bool outcome \<times> ('bl, 'c, 'k) kv_state" where
  "engine_put E k v (core, n, spent) =
     finish_op n (spent + length k + length v) (put_cf (ke_fuel E) (ke_json E) (ke_host E) (ke_env E n) [] (ke_options E) (ke_cf E) k v None core) core"

fun engine_delete :: "('bl, 'c, 'k) kv_engine \<Rightarrow> bytes \<Rightarrow> ('bl, 'c, 'k) kv_state \<Rightarrow> bool outcome \<times> ('bl, 'c, 'k) kv_state" where
  "engine_delete E k (core, n, spent) =
     finish_op n (spent + length k) (delete_cf (ke_fuel E) (ke_json E) (ke_host E) (ke_env E n) [] (ke_options E) (ke_cf E) k core) core"

definition engine_ops :: "('bl, 'c, 'k) kv_engine \<Rightarrow> ('bl, 'c, 'k) kv_state kv_ops" where
  "engine_ops E = \<lparr>kv_get = engine_get E, kv_put = engine_put E, kv_delete = engine_delete E\<rparr>"

definition engine_roomy :: "('bl, 'c, 'k) kv_engine \<Rightarrow> ('bl, 'c, 'k) kv_state \<Rightarrow> bool" where
  "engine_roomy E s \<longleftrightarrow> snd (snd s) < write_buffer_limit (ke_options E)"

text \<open>The engine is consistent and shows the map, now and forever: nothing expires.\<close>

definition shows_map :: "('bl, 'c, 'k) kv_engine \<Rightarrow> catalogue \<Rightarrow> ('bl, 'c, 'k) engine_core \<Rightarrow> (bytes \<Rightarrow> bytes option) \<Rightarrow> bool" where
  "shows_map E cat core m \<longleftrightarrow>
     engine_ok (ke_host E) cat core \<and> kv_coherent (ke_host E) cat (ke_cf E) (co_version_set core) \<and>
     (\<forall>now. prefix_matches cat now schema_prefix core = []) \<and> (\<forall>k. covering_range_tombstone_ts core (ke_cf E) k = None) \<and>
     (\<forall>now k. memtable_record core (ke_cf E) k = None \<longrightarrow> plain_lookup cat now core (ke_cf E) k) \<and>
     (\<forall>now k. \<not> is_reserved k \<longrightarrow> view cat now core (ke_cf E) k = m k)"

definition kv_settings_ok :: "('bl, 'c, 'k) kv_engine \<Rightarrow> bool" where
  "kv_settings_ok E \<longleftrightarrow> host_laws (ke_host E) \<and> ke_json E [] = None \<and> 2 \<le> ke_fuel E \<and> eo_default_ttl (ke_options E) = None"

definition engine_shows :: "('bl, 'c, 'k) kv_engine \<Rightarrow> ('bl, 'c, 'k) kv_state \<Rightarrow> (bytes \<Rightarrow> bytes option) \<Rightarrow> bool" where
  "engine_shows E s m \<longleftrightarrow> kv_settings_ok E \<and> bytes_of (fst s) (ke_cf E) \<le> snd (snd s) \<and> (\<exists>cat. shows_map E cat (fst s) m)"

text \<open>Writing records of ordinary keys that do not expire changes the map at their keys.\<close>

definition shown_value :: "log_record \<Rightarrow> bytes option" where
  "shown_value r = (if lr_is_deleted r then None else Some (lr_value r))"

definition updates :: "log_record list \<Rightarrow> (bytes \<Rightarrow> bytes option) \<Rightarrow> bytes \<Rightarrow> bytes option" where
  "updates rs m k = (case last_for k rs of None \<Rightarrow> m k | Some r \<Rightarrow> shown_value r)"

lemma plain_lookup_same_tables:
  "same_tables (co_version_set core) (co_version_set core') \<Longrightarrow> plain_lookup cat now core' cf key = plain_lookup cat now core cf key"
  by (simp add: plain_lookup_def plain_key_def same_tables_cf)

lemma last_for_in: "last_for k rs = Some r \<Longrightarrow> r \<in> set rs"
  by (induction rs) (auto split: option.splits if_splits)

lemma shows_map_written:
  assumes m: "shows_map E cat core m" and w: "written_in {ke_cf E} (ke_host E) cat (ke_cf E) rs core core'"
    and rs: "\<forall>r \<in> set rs. \<not> is_reserved (lr_key r) \<and> lr_expires_at r = None"
  shows "shows_map E cat core' (updates rs m)"
proof -
  let ?cf = "ke_cf E"
  have t: "same_tables (co_version_set core) (co_version_set core')" and cov: "covering_range_tombstone_ts core' ?cf = covering_range_tombstone_ts core ?cf"
    using w by (auto simp: written_in_def fun_eq_iff)
  have none: "covering_range_tombstone_ts core ?cf k = None" for k using m by (simp add: shows_map_def)
  have "view cat now core' ?cf k = updates rs m k" if "\<not> is_reserved k" for now k
  proof (cases "last_for k rs")
    case None
    then have "view cat now core' ?cf k = view cat now core ?cf k" by (intro written_in_view [OF w]) simp
    then show ?thesis using m that None by (simp add: shows_map_def updates_def)
  next
    case (Some r)
    have "entry_at cat core' ?cf k = Some r" using w Some by (simp add: written_in_def)
    moreover have "lr_expires_at r = None" using rs last_for_in [OF Some] by blast
    ultimately show ?thesis by (simp add: view_def cov none hidden_def is_expired_at_def updates_def Some shown_value_def)
  qed
  moreover have "prefix_matches cat now schema_prefix core' = []" for now
    using schema_matches_unchanged [OF _ w] m rs by (simp add: shows_map_def)
  moreover have "plain_lookup cat now core' ?cf k" if "memtable_record core' ?cf k = None" for now k
  proof -
    have "memtable_record core ?cf k = None" using w that by (auto simp: written_in_def split: option.splits)
    then show ?thesis using m unfolding plain_lookup_same_tables [OF t] by (simp add: shows_map_def)
  qed
  ultimately show ?thesis using written_inD [OF w] none by (simp add: shows_map_def cov)
qed

subsection \<open>The laws of the interface\<close>

text \<open>What an operation leaves, from the records that it has written.\<close>

lemma engine_shows_written:
  assumes "engine_shows E (core, n, spent) m" "shows_map E cat core m" "written_in {ke_cf E} (ke_host E) cat (ke_cf E) rs core core'"
    and "\<forall>r \<in> set rs. \<not> is_reserved (lr_key r) \<and> lr_expires_at r = None"
    and "spent + (\<Sum>r\<leftarrow>rs. length (lr_key r) + length (lr_value r)) \<le> spent'"
  shows "engine_shows E (core', n', spent') (updates rs m)"
proof -
  have "bytes_of core' (ke_cf E) = bytes_of core (ke_cf E) + (\<Sum>r\<leftarrow>rs. length (lr_key r) + length (lr_value r))"
    using assms(3) by (simp add: written_in_def)
  then show ?thesis
    using assms(1,5) shows_map_written [OF assms(2,3,4)] by (auto simp: engine_shows_def)
qed

lemma engine_get_shows:
  assumes "engine_shows E s m" "\<not> is_reserved k" "engine_get E k s = (r, s')"
  shows "r = Ok (m k) \<and> engine_shows E s' m"
proof -
  obtain core n spent where s: "s = (core, n, spent)" by (cases s) auto
  obtain cat where c: "shows_map E cat core m" using assms(1) by (auto simp: engine_shows_def s)
  let ?now = "tk_search (ke_env E n [])"
  have ok: "engine_ok (ke_host E) cat core" "host_laws (ke_host E)" "kv_coherent (ke_host E) cat (ke_cf E) (co_version_set core)"
    using c assms(1) by (simp_all add: shows_map_def engine_shows_def kv_settings_ok_def)
  obtain core' where g: "get_cf (ke_host E) ?now (ke_cf E) k core = (Ok (view cat ?now core (ke_cf E) k), core')" "same_but_caches core core'"
    "engine_ok (ke_host E) cat core'" "kv_coherent (ke_host E) cat (ke_cf E) (co_version_set core')"
    using get_cf_correct [OF ok, of k ?now] c by (auto simp: shows_map_def)
  have "written_in {ke_cf E} (ke_host E) cat (ke_cf E) [] core core'" by (rule caches_written [OF g(3) _ g(2)]) (simp add: g(4))
  then have "engine_shows E (core', Suc n, spent) (updates [] m)" using assms(1) c unfolding s by (intro engine_shows_written) auto
  then show ?thesis using assms(2,3) g(1) c by (auto simp: s shows_map_def updates_def [abs_def])
qed

lemma no_new_entries: "shows_map E cat core m \<Longrightarrow> new_entries J cat now k v core = []"
  by (auto simp: new_entries_def shows_map_def index_entries_def field_names_def List.map_filter_def split: option.split)

lemma put_record_plain:
  assumes "eo_default_ttl options = None"
  shows "lr_key (put_record options now ttl_now cf k v None) = k" "lr_value (put_record options now ttl_now cf k v None) = v"
    "lr_expires_at (put_record options now ttl_now cf k v None) = None" "\<not> lr_is_deleted (put_record options now ttl_now cf k v None)"
  using assms by (simp_all add: put_record_def log_record_new_def Let_def)

lemma engine_put_written:
  assumes m: "engine_shows E (core, n, spent) m" "shows_map E cat core m" and k: "\<not> is_reserved k"
    and room: "spent + length k + length v < write_buffer_limit (ke_options E)"
    and run: "engine_put E k v (core, n, spent) = (res, s')"
  shows "\<exists>core'. s' = (core', Suc n, spent + length k + length v) \<and>
    ((res = Ok False \<and> (\<exists>now ttl_now. written_in {ke_cf E} (ke_host E) cat (ke_cf E) [put_record (ke_options E) now ttl_now (ke_cf E) k v None] core core')) \<or>
     ((\<exists>e. res = Err e) \<and> written_in {ke_cf E} (ke_host E) cat (ke_cf E) [] core core'))"
proof -
  let ?H = "ke_host E" and ?cf = "ke_cf E" and ?env = "ke_env E n" and ?options = "ke_options E"
  let ?rd = "put_record ?options (tk_now (?env [])) (tk_ttl_now (?env [])) ?cf k v None"
  have ok: "engine_ok ?H cat core" "\<forall>cf \<in> {?cf}. kv_coherent ?H cat cf (co_version_set core)" using m(2) by (simp_all add: shows_map_def)
  have E: "host_laws ?H" "ke_json E [] = None" "2 \<le> ke_fuel E" "eo_default_ttl ?options = None" "bytes_of core ?cf \<le> spent"
    using m(1) by (simp_all add: engine_shows_def kv_settings_ok_def)
  obtain res1 core1 where p: "put_core ?H (tk_rng (?env [])) (tk_now (?env [])) (tk_ttl_now (?env [])) ?options ?cf k v None core = (res1, core1)" by fastforce
  have w: "(res1 = Ok False \<and> written_in {?cf} ?H cat ?cf [?rd] core core1) \<or> ((\<exists>e. res1 = Err e) \<and> written_in {?cf} ?H cat ?cf [] core core1)"
    using put_core_written [OF ok _ p] room E(5) by auto
  have es: "[] = (if res1 = Ok False then new_entries (ke_json E) cat (tk_search (?env [])) k v core1 else [])"
    using w schema_unchanged [OF ok(1), of "{?cf}" ?cf ?rd core1] no_new_entries [OF m(2)] k put_record_plain(1) [OF E(4)] by auto
  obtain core' where c: "put_cf (ke_fuel E) (ke_json E) ?H ?env [] ?options ?cf k v None core = Some (res1, core')" "written_in {?cf} ?H cat ?cf [] core1 core'"
    using put_cf_written_in [of ?H cat core "{?cf}" "ke_json E" "ke_fuel E" ?env ?options ?cf k v None res1 core1 "[]", OF ok E(1) _ E(2,3) p es] room E(5) by (auto simp: entry_records_def)
  have "written_in {?cf} ?H cat ?cf rs core core'" if "written_in {?cf} ?H cat ?cf rs core core1" for rs
    using written_in_trans [OF that c(2)] by simp
  then show ?thesis using w c(1) run by fastforce
qed

lemma engine_delete_written:
  assumes m: "engine_shows E (core, n, spent) m" "shows_map E cat core m"
    and room: "spent + length k < write_buffer_limit (ke_options E)"
    and run: "engine_delete E k (core, n, spent) = (res, s')"
  shows "\<exists>core'. s' = (core', Suc n, spent + length k) \<and>
    ((res = Ok False \<and> (\<exists>now. written_in {ke_cf E} (ke_host E) cat (ke_cf E) [tombstone now k] core core')) \<or>
     ((\<exists>e. res = Err e) \<and> written_in {ke_cf E} (ke_host E) cat (ke_cf E) [] core core'))"
proof -
  let ?H = "ke_host E" and ?cf = "ke_cf E" and ?env = "ke_env E n"
  have ok: "engine_ok ?H cat core" "\<forall>cf \<in> {?cf}. kv_coherent ?H cat cf (co_version_set core)" using m(2) by (simp_all add: shows_map_def)
  have E: "host_laws ?H" "2 \<le> ke_fuel E" "bytes_of core ?cf \<le> spent"
    using m(1) by (simp_all add: engine_shows_def kv_settings_ok_def)
  obtain f where f: "ke_fuel E = Suc f" using E(2) by (cases "ke_fuel E") auto
  have plain: "memtable_record core ?cf (ttl_key k) = None \<longrightarrow> plain_lookup cat (tk_search (?env [])) core ?cf (ttl_key k)"
    using m(2) by (simp add: shows_map_def)
  have "bytes_of core ?cf + length k < write_buffer_limit (ke_options E)" using room E(3) by simp
  then show ?thesis
    using delete_cf_written_in [of ?H cat core "{?cf}" ?cf k "ke_options E" ?env "[]" f "ke_json E", OF ok E(1) refl _ plain] run f by auto
qed

lemma finish_op_spent: "snd (snd (snd (finish_op n spent r core))) = spent"
  by (cases "(n, spent, r, core)" rule: finish_op.cases) auto

lemma updates_one: "updates [r] m = m(lr_key r := shown_value r)" "updates [] m = m"
  by (simp_all add: updates_def [abs_def] fun_eq_iff)

lemma engine_put_shows:
  assumes "engine_shows E s m" "\<not> is_reserved k" "engine_put E k v s = (res, s')" "engine_roomy E s'"
  shows "(res = Ok False \<and> engine_shows E s' (m(k \<mapsto> v))) \<or> ((\<exists>e. res = Err e) \<and> engine_shows E s' m)"
proof -
  obtain core n spent where s: "s = (core, n, spent)" by (cases s) auto
  have spent: "snd (snd s') = spent + length k + length v"
    using assms(3) unfolding s engine_put.simps by (metis finish_op_spent snd_conv)
  obtain cat where c: "shows_map E cat core m" using assms(1) by (auto simp: engine_shows_def s)
  have ttl: "eo_default_ttl (ke_options E) = None" using assms(1) by (simp add: engine_shows_def kv_settings_ok_def)
  note r = put_record_plain [OF ttl]
  obtain core' where w: "s' = (core', Suc n, spent + length k + length v)"
    "(res = Ok False \<and> (\<exists>now ttl_now. written_in {ke_cf E} (ke_host E) cat (ke_cf E) [put_record (ke_options E) now ttl_now (ke_cf E) k v None] core core')) \<or>
     ((\<exists>e. res = Err e) \<and> written_in {ke_cf E} (ke_host E) cat (ke_cf E) [] core core')"
    using engine_put_written [OF assms(1) [unfolded s] c assms(2) _ assms(3) [unfolded s]] assms(4) spent by (auto simp: engine_roomy_def)
  note step = engine_shows_written [OF assms(1) [unfolded s] c]
  have "engine_shows E s' (m(k \<mapsto> v))"
    if "written_in {ke_cf E} (ke_host E) cat (ke_cf E) [put_record (ke_options E) now ttl_now (ke_cf E) k v None] core core'" for now ttl_now
    using step [OF that, of "spent + length k + length v" "Suc n"] assms(2) r by (simp add: w(1) updates_one shown_value_def)
  moreover have "engine_shows E s' m" if "written_in {ke_cf E} (ke_host E) cat (ke_cf E) [] core core'"
    using step [OF that, of "spent + length k + length v" "Suc n"] by (simp add: w(1) updates_one)
  ultimately show ?thesis using w(2) by blast
qed

lemma engine_delete_shows:
  assumes "engine_shows E s m" "\<not> is_reserved k" "engine_delete E k s = (res, s')" "engine_roomy E s'"
  shows "(res = Ok False \<and> engine_shows E s' (m(k := None))) \<or> ((\<exists>e. res = Err e) \<and> engine_shows E s' m)"
proof -
  obtain core n spent where s: "s = (core, n, spent)" by (cases s) auto
  have spent: "snd (snd s') = spent + length k"
    using assms(3) unfolding s engine_delete.simps by (metis finish_op_spent snd_conv)
  obtain cat where c: "shows_map E cat core m" using assms(1) by (auto simp: engine_shows_def s)
  have r: "lr_key (tombstone now k) = k" "lr_value (tombstone now k) = []" "lr_expires_at (tombstone now k) = None" "lr_is_deleted (tombstone now k)" for now
    by (simp_all add: tombstone_def)
  obtain core' where w: "s' = (core', Suc n, spent + length k)"
    "(res = Ok False \<and> (\<exists>now. written_in {ke_cf E} (ke_host E) cat (ke_cf E) [tombstone now k] core core')) \<or>
     ((\<exists>e. res = Err e) \<and> written_in {ke_cf E} (ke_host E) cat (ke_cf E) [] core core')"
    using engine_delete_written [OF assms(1) [unfolded s] c _ assms(3) [unfolded s]] assms(4) spent by (auto simp: engine_roomy_def)
  note step = engine_shows_written [OF assms(1) [unfolded s] c]
  have "engine_shows E s' (m(k := None))" if "written_in {ke_cf E} (ke_host E) cat (ke_cf E) [tombstone now k] core core'" for now
    using step [OF that, of "spent + length k" "Suc n"] assms(2) r by (simp add: w(1) updates_one shown_value_def)
  moreover have "engine_shows E s' m" if "written_in {ke_cf E} (ke_host E) cat (ke_cf E) [] core core'"
    using step [OF that, of "spent + length k" "Suc n"] by (simp add: w(1) updates_one)
  ultimately show ?thesis using w(2) by blast
qed

interpretation engine_store: kv_store "engine_ops E" "engine_shows E" "engine_roomy E" "\<lambda>k. \<not> is_reserved k" for E
proof
  fix s k v
  show "engine_roomy E (snd (kv_get (engine_ops E) k s)) \<Longrightarrow> engine_roomy E s"
    "engine_roomy E (snd (kv_put (engine_ops E) k v s)) \<Longrightarrow> engine_roomy E s"
    "engine_roomy E (snd (kv_delete (engine_ops E) k s)) \<Longrightarrow> engine_roomy E s"
    by (cases s; simp add: engine_ops_def engine_roomy_def finish_op_spent)+
qed (auto simp: engine_ops_def dest: engine_get_shows engine_put_shows engine_delete_shows)

end
