(* ===== verification/Note_Index.thy ===== *)
theory Note_Index
  imports Kv_Interface
begin

text \<open>
  \<open>src/notes/index.rs\<close>: the links between notes, kept under two keys each, \<open>link:\<close> with a target for the
  notes that link to it and \<open>backlink:\<close> with a source for the notes it links to. The lists are JSON
  arrays; the JSON crate is a parameter.
\<close>

record string_lists =
  sl_encode :: "bytes list \<Rightarrow> bytes"
  sl_decode :: "bytes \<Rightarrow> bytes list option"

text \<open>What the crate promises for arrays of strings: text that reads back.\<close>

definition string_lists_law :: "string_lists \<Rightarrow> bool" where
  "string_lists_law S \<longleftrightarrow> (\<forall>xs. (\<forall>x \<in> set xs. is_utf8 x) \<longrightarrow> is_utf8 (sl_encode S xs) \<and> sl_decode S (sl_encode S xs) = Some xs)"

definition LINK_PREFIX :: bytes where "LINK_PREFIX = as_bytes ''link:''"

definition BACKLINK_PREFIX :: bytes where "BACKLINK_PREFIX = as_bytes ''backlink:''"

record link_diff =
  ld_added :: "bytes list"
  ld_removed :: "bytes list"

text \<open>An array that must be readable, and one that counts as empty when it is not.\<close>

definition get_list :: "'s kv_ops \<Rightarrow> string_lists \<Rightarrow> bytes \<Rightarrow> 's \<Rightarrow> bytes list outcome \<times> 's" where
  "get_list K S key s =
     bind_st (kv_get K key s) (\<lambda>found s.
       (case found of None \<Rightarrow> Ok [] | Some bs \<Rightarrow> ok_or InvalidArgument (sl_decode S (from_utf8_lossy bs)), s))"

definition get_list_or_default :: "'s kv_ops \<Rightarrow> string_lists \<Rightarrow> bytes \<Rightarrow> 's \<Rightarrow> bytes list option outcome \<times> 's" where
  "get_list_or_default K S key s =
     bind_st (kv_get K key s) (\<lambda>found s.
       (Ok (map_option (\<lambda>bs. case sl_decode S (from_utf8_lossy bs) of None \<Rightarrow> [] | Some xs \<Rightarrow> xs) found), s))"

definition get_backlinks :: "'s kv_ops \<Rightarrow> string_lists \<Rightarrow> bytes \<Rightarrow> 's \<Rightarrow> bytes list outcome \<times> 's" where
  "get_backlinks K S note_path s = get_list K S (LINK_PREFIX @ note_path) s"

definition get_forward_links :: "'s kv_ops \<Rightarrow> string_lists \<Rightarrow> bytes \<Rightarrow> 's \<Rightarrow> bytes list outcome \<times> 's" where
  "get_forward_links K S note_path s = get_list K S (BACKLINK_PREFIX @ note_path) s"

definition put_unit :: "'s kv_ops \<Rightarrow> bytes \<Rightarrow> bytes \<Rightarrow> 's \<Rightarrow> unit outcome \<times> 's" where
  "put_unit K key value s = bind_st (kv_put K key value s) (\<lambda>_ s. (Ok (), s))"

definition delete_unit :: "'s kv_ops \<Rightarrow> bytes \<Rightarrow> 's \<Rightarrow> unit outcome \<times> 's" where
  "delete_unit K key s = bind_st (kv_delete K key s) (\<lambda>_ s. (Ok (), s))"

definition add_to_link_index :: "'s kv_ops \<Rightarrow> string_lists \<Rightarrow> bytes \<Rightarrow> bytes \<Rightarrow> 's \<Rightarrow> unit outcome \<times> 's" where
  "add_to_link_index K S target source s =
     bind_st (get_list_or_default K S (LINK_PREFIX @ target) s) (\<lambda>found s.
       let sources = (case found of None \<Rightarrow> [] | Some xs \<Rightarrow> xs)
       in if source \<in> set sources then (Ok (), s)
          else put_unit K (LINK_PREFIX @ target) (sl_encode S (sources @ [source])) s)"

definition remove_from_link_index :: "'s kv_ops \<Rightarrow> string_lists \<Rightarrow> bytes \<Rightarrow> bytes \<Rightarrow> 's \<Rightarrow> unit outcome \<times> 's" where
  "remove_from_link_index K S target source s =
     bind_st (get_list_or_default K S (LINK_PREFIX @ target) s) (\<lambda>found s.
       case found of
         None \<Rightarrow> (Ok (), s)
       | Some sources \<Rightarrow>
           let rest = List.filter (\<lambda>x. x \<noteq> source) sources
           in if rest = [] then delete_unit K (LINK_PREFIX @ target) s
              else put_unit K (LINK_PREFIX @ target) (sl_encode S rest) s)"

definition compute_link_diff :: "bytes list \<Rightarrow> bytes list \<Rightarrow> link_diff" where
  "compute_link_diff old new =
     \<lparr>ld_added = List.filter (\<lambda>t. t \<notin> set old) new, ld_removed = List.filter (\<lambda>t. t \<notin> set new) old\<rparr>"

fun for_each :: "('a \<Rightarrow> 's \<Rightarrow> unit outcome \<times> 's) \<Rightarrow> 'a list \<Rightarrow> 's \<Rightarrow> unit outcome \<times> 's" where
  "for_each f [] s = (Ok (), s)"
| "for_each f (x # xs) s = bind_st (f x s) (\<lambda>_. for_each f xs)"

definition index_links :: "'s kv_ops \<Rightarrow> string_lists \<Rightarrow> bytes \<Rightarrow> bytes list \<Rightarrow> 's \<Rightarrow> link_diff outcome \<times> 's" where
  "index_links K S note_path new_targets s =
     bind_st (get_forward_links K S note_path s) (\<lambda>current_targets s.
       let diff = compute_link_diff current_targets new_targets
       in bind_st (for_each (\<lambda>target. remove_from_link_index K S target note_path) (ld_removed diff) s) (\<lambda>_ s.
          bind_st (for_each (\<lambda>target. add_to_link_index K S target note_path) (ld_added diff) s) (\<lambda>_ s.
          bind_st (put_unit K (BACKLINK_PREFIX @ note_path) (sl_encode S new_targets) s) (\<lambda>_ s. (Ok diff, s)))))"

definition remove_note_links :: "'s kv_ops \<Rightarrow> string_lists \<Rightarrow> bytes \<Rightarrow> 's \<Rightarrow> unit outcome \<times> 's" where
  "remove_note_links K S note_path s =
     bind_st (get_forward_links K S note_path s) (\<lambda>targets s.
     bind_st (for_each (\<lambda>target. remove_from_link_index K S target note_path) targets s) (\<lambda>_.
     delete_unit K (BACKLINK_PREFIX @ note_path)))"

text \<open>The deletion in the middle may fail without consequence.\<close>

definition ignore_error :: "'a outcome \<times> 's \<Rightarrow> unit outcome \<times> 's" where
  "ignore_error r = (case r of (Panic, s) \<Rightarrow> (Panic, s) | (_, s) \<Rightarrow> (Ok (), s))"

definition rename_note :: "'s kv_ops \<Rightarrow> string_lists \<Rightarrow> bytes \<Rightarrow> bytes \<Rightarrow> bytes list \<Rightarrow> 's \<Rightarrow> unit outcome \<times> 's" where
  "rename_note K S old_path new_path new_content s =
     bind_st (get_backlinks K S old_path s) (\<lambda>backlinks s.
     bind_st (remove_note_links K S old_path s) (\<lambda>_ s.
     bind_st (for_each (\<lambda>source s. bind_st (remove_from_link_index K S old_path source s) (\<lambda>_. add_to_link_index K S new_path source)) backlinks s) (\<lambda>_ s.
     bind_st (ignore_error (kv_delete K (BACKLINK_PREFIX @ new_path) s)) (\<lambda>_ s.
     bind_st (index_links K S new_path new_content s) (\<lambda>_ s. (Ok (), s))))))"

subsection \<open>The links that a store shows\<close>

definition list_at :: "string_lists \<Rightarrow> (bytes \<Rightarrow> bytes option) \<Rightarrow> bytes \<Rightarrow> bytes list" where
  "list_at S m key = (case m key of None \<Rightarrow> [] | Some bs \<Rightarrow> (case sl_decode S bs of None \<Rightarrow> [] | Some xs \<Rightarrow> xs))"

definition forward :: "string_lists \<Rightarrow> (bytes \<Rightarrow> bytes option) \<Rightarrow> bytes \<Rightarrow> bytes list" where
  "forward S m note = list_at S m (BACKLINK_PREFIX @ note)"

definition backward :: "string_lists \<Rightarrow> (bytes \<Rightarrow> bytes option) \<Rightarrow> bytes \<Rightarrow> bytes list" where
  "backward S m note = list_at S m (LINK_PREFIX @ note)"

definition link_key :: "bytes \<Rightarrow> bool" where
  "link_key k \<longleftrightarrow> (\<exists>note. k = LINK_PREFIX @ note \<or> k = BACKLINK_PREFIX @ note)"

text \<open>Every list of the index is an array of texts.\<close>

definition links_wf :: "string_lists \<Rightarrow> (bytes \<Rightarrow> bytes option) \<Rightarrow> bool" where
  "links_wf S m \<longleftrightarrow> (\<forall>k bs. link_key k \<and> m k = Some bs \<longrightarrow> is_utf8 bs \<and> (\<exists>xs. sl_decode S bs = Some xs \<and> (\<forall>x \<in> set xs. is_utf8 x)))"

text \<open>Both directions agree.\<close>

definition links_agree :: "string_lists \<Rightarrow> (bytes \<Rightarrow> bytes option) \<Rightarrow> bool" where
  "links_agree S m \<longleftrightarrow> (\<forall>source target. target \<in> set (forward S m source) \<longleftrightarrow> source \<in> set (backward S m target))"

lemma prefixes_differ [simp]: "LINK_PREFIX @ a \<noteq> BACKLINK_PREFIX @ b" "BACKLINK_PREFIX @ b \<noteq> LINK_PREFIX @ a"
  by (simp_all add: LINK_PREFIX_def BACKLINK_PREFIX_def as_bytes_def)

lemma link_key_prefix [simp]: "link_key (LINK_PREFIX @ a)" "link_key (BACKLINK_PREFIX @ a)"
  by (auto simp: link_key_def)

lemma links_wf_texts:
  assumes "links_wf S m"
  shows "x \<in> set (forward S m note) \<Longrightarrow> is_utf8 x" "x \<in> set (backward S m note) \<Longrightarrow> is_utf8 x"
  using assms by (auto simp: links_wf_def forward_def backward_def list_at_def split: option.splits) (metis link_key_prefix option.inject)+

lemma links_wf_update:
  assumes "string_lists_law S" "links_wf S m" "\<forall>x \<in> set xs. is_utf8 x"
  shows "links_wf S (m(k \<mapsto> sl_encode S xs))"
  using assms by (auto simp: links_wf_def string_lists_law_def)

lemma links_wf_delete: "links_wf S m \<Longrightarrow> links_wf S (m(k := None))"
  by (auto simp: links_wf_def)

lemma links_wf_list:
  assumes "links_wf S m" "link_key k" "m k = Some bs"
  shows "from_utf8_lossy bs = bs \<and> sl_decode S bs = Some (list_at S m k)"
  using assms by (fastforce simp: links_wf_def list_at_def is_utf8_def)

lemma list_at_update:
  assumes "string_lists_law S" "\<forall>x \<in> set xs. is_utf8 x"
  shows "list_at S (m(k \<mapsto> sl_encode S xs)) k' = (if k' = k then xs else list_at S m k')"
  using assms by (simp add: list_at_def string_lists_law_def)

lemma list_at_delete: "list_at S (m(k := None)) k' = (if k' = k then [] else list_at S m k')"
  by (simp add: list_at_def)

lemma bind_Ok_iff: "bind_st r f = (Ok b, s') \<longleftrightarrow> (\<exists>a s. r = (Ok a, s) \<and> f a s = (Ok b, s'))"
  by (cases r; cases "fst r") auto

text \<open>
  What a change of the index for one target does: the state shows a new map with well-formed lists, in
  which the sources of the target are \<open>f\<close> of the old ones and nothing else differs.
\<close>

definition changes :: "string_lists \<Rightarrow> bytes \<Rightarrow> (bytes list \<Rightarrow> bytes list) \<Rightarrow> (bytes \<Rightarrow> bytes option) \<Rightarrow> (bytes \<Rightarrow> bytes option) \<Rightarrow> bool" where
  "changes S target f m m' \<longleftrightarrow>
     links_wf S m' \<and> backward S m' = (backward S m)(target := f (backward S m target)) \<and> forward S m' = forward S m \<and>
     (\<forall>k. \<not> link_key k \<longrightarrow> m' k = m k)"

text \<open>The same for several targets, with the sources as sets.\<close>

definition now_linked :: "string_lists \<Rightarrow> (bytes \<Rightarrow> bytes set) \<Rightarrow> (bytes \<Rightarrow> bytes option) \<Rightarrow> (bytes \<Rightarrow> bytes option) \<Rightarrow> bool" where
  "now_linked S sources m m' \<longleftrightarrow>
     links_wf S m' \<and> (\<forall>target. set (backward S m' target) = sources target) \<and> forward S m' = forward S m \<and> (\<forall>k. \<not> link_key k \<longrightarrow> m' k = m k)"

lemma now_linked_refl: "links_wf S m \<Longrightarrow> now_linked S (\<lambda>t. set (backward S m t)) m m"
  by (simp add: now_linked_def)

lemma now_linked_step:
  assumes "changes S target f m m1" "now_linked S B m1 m'" "\<And>t. B t = C t"
  shows "now_linked S C m m'"
  using assms by (auto simp: changes_def now_linked_def)

text \<open>
  Renaming moves the entries of the notes that link to the old path, and only those: what these notes link
  to stays as it was.
\<close>

definition moved :: "bytes \<Rightarrow> bytes \<Rightarrow> bytes list \<Rightarrow> (bytes \<Rightarrow> bytes set) \<Rightarrow> bytes \<Rightarrow> bytes set" where
  "moved old new sources B t = (if t = new then B t \<union> set sources else if t = old then B t - set sources else B t)"

text \<open>
  What holds of an operation whatever its outcome, as long as there is room: it does not panic, and it
  leaves lists that can be read and every key outside the index as it was.
\<close>

definition keeps_index ::
  "('s \<Rightarrow> (bytes \<Rightarrow> bytes option) \<Rightarrow> bool) \<Rightarrow> ('s \<Rightarrow> bool) \<Rightarrow> string_lists \<Rightarrow> ('a \<Rightarrow> bool) \<Rightarrow> ('s \<Rightarrow> 'a outcome \<times> 's) \<Rightarrow> bool" where
  "keeps_index rep roomy S Q f \<longleftrightarrow>
     (\<forall>s m r s'. rep s m \<and> links_wf S m \<and> f s = (r, s') \<and> roomy s' \<longrightarrow>
        r \<noteq> Panic \<and> (\<forall>a. r = Ok a \<longrightarrow> Q a) \<and> (\<exists>m'. rep s' m' \<and> links_wf S m' \<and> (\<forall>k. \<not> link_key k \<longrightarrow> m' k = m k)))"

lemma keeps_indexD:
  assumes "keeps_index rep roomy S Q f" "rep s m" "links_wf S m" "f s = (r, s')" "roomy s'"
  obtains m' where "r \<noteq> Panic" "\<And>a. r = Ok a \<Longrightarrow> Q a" "rep s' m'" "links_wf S m'" "\<forall>k. \<not> link_key k \<longrightarrow> m' k = m k"
proof -
  have "r \<noteq> Panic \<and> (\<forall>a. r = Ok a \<longrightarrow> Q a) \<and> (\<exists>m'. rep s' m' \<and> links_wf S m' \<and> (\<forall>k. \<not> link_key k \<longrightarrow> m' k = m k))"
    using assms(1) [unfolded keeps_index_def, rule_format, of s m r s'] assms(2-5) by blast
  then show ?thesis using that by blast
qed

lemma keeps_index_bind:
  assumes f: "keeps_index rep roomy S Q f" and g: "\<And>a. Q a \<Longrightarrow> keeps_index rep roomy S R (g a)"
    and room: "\<And>a s. roomy (snd (g a s)) \<Longrightarrow> roomy s"
  shows "keeps_index rep roomy S R (\<lambda>s. bind_st (f s) g)"
  unfolding keeps_index_def
proof (intro allI impI, elim conjE)
  fix s m r s' assume a: "rep s m" "links_wf S m" "bind_st (f s) g = (r, s')" "roomy s'"
  obtain r1 s1 where r1: "f s = (r1, s1)" by fastforce
  have "roomy s1"
  proof (cases r1)
    case (Ok b)
    then show ?thesis using room [of b s1] a(3,4) r1 by simp
  qed (use a(3,4) r1 in auto)
  then obtain m1 where m1: "r1 \<noteq> Panic" "\<And>a. r1 = Ok a \<Longrightarrow> Q a" "rep s1 m1" "links_wf S m1" "\<forall>k. \<not> link_key k \<longrightarrow> m1 k = m k"
    using keeps_indexD [OF f a(1,2) r1] by blast
  show "r \<noteq> Panic \<and> (\<forall>a. r = Ok a \<longrightarrow> R a) \<and> (\<exists>m'. rep s' m' \<and> links_wf S m' \<and> (\<forall>k. \<not> link_key k \<longrightarrow> m' k = m k))"
  proof (cases r1)
    case (Ok b)
    then have "g b s1 = (r, s')" using a(3) r1 by simp
    then show ?thesis using keeps_indexD [OF g [OF m1(2) [OF Ok]] m1(3,4) _ a(4)] m1(5) by metis
  next
    case (Err e)
    then show ?thesis using a(3) r1 m1 by auto
  qed (use m1(1) in blast)
qed

lemma keeps_index_return: "Q a \<Longrightarrow> keeps_index rep roomy S Q (\<lambda>s. (Ok a, s))"
  by (auto simp: keeps_index_def)

lemma keeps_index_if:
  "(c \<Longrightarrow> keeps_index rep roomy S Q f) \<Longrightarrow> (\<not> c \<Longrightarrow> keeps_index rep roomy S Q g) \<Longrightarrow> keeps_index rep roomy S Q (\<lambda>s. if c then f s else g s)"
  by (cases c) simp_all

lemma keeps_index_option:
  "(x = None \<Longrightarrow> keeps_index rep roomy S Q f) \<Longrightarrow> (\<And>y. x = Some y \<Longrightarrow> keeps_index rep roomy S Q (g y)) \<Longrightarrow>
   keeps_index rep roomy S Q (\<lambda>s. case x of None \<Rightarrow> f s | Some y \<Rightarrow> g y s)"
  by (cases x) simp_all

lemma keeps_index_read:
  assumes "\<And>s m r s'. rep s m \<Longrightarrow> links_wf S m \<Longrightarrow> f s = (r, s') \<Longrightarrow> \<exists>a. r = Ok a \<and> Q a \<and> rep s' m"
  shows "keeps_index rep roomy S Q f"
  unfolding keeps_index_def
proof (intro allI impI, elim conjE)
  fix s m r s' assume "rep s m" "links_wf S m" "f s = (r, s')"
  then show "r \<noteq> Panic \<and> (\<forall>a. r = Ok a \<longrightarrow> Q a) \<and> (\<exists>m'. rep s' m' \<and> links_wf S m' \<and> (\<forall>k. \<not> link_key k \<longrightarrow> m' k = m k))"
    using assms [of s m r s'] by auto
qed

lemma keeps_index_for_each:
  assumes "\<And>x. x \<in> set xs \<Longrightarrow> keeps_index rep roomy S (\<lambda>_. True) (f x)"
    and "\<And>xs s. roomy (snd (for_each f xs s)) \<Longrightarrow> roomy s"
  shows "keeps_index rep roomy S (\<lambda>_. True) (for_each f xs)"
  using assms(1)
proof (induction xs)
  case Nil
  then show ?case by (auto simp: keeps_index_def)
next
  case (Cons x xs)
  have "for_each f (x # xs) = (\<lambda>s. bind_st (f x s) (\<lambda>_. for_each f xs))" by (simp add: fun_eq_iff)
  moreover have "keeps_index rep roomy S (\<lambda>_. True) (\<lambda>s. bind_st (f x s) (\<lambda>_. for_each f xs))"
  proof (rule keeps_index_bind [where Q = "\<lambda>_. True"])
    show "keeps_index rep roomy S (\<lambda>_. True) (f x)" "keeps_index rep roomy S (\<lambda>_. True) (for_each f xs)" using Cons by simp_all
  qed (rule assms(2))
  ultimately show ?case by simp
qed

subsection \<open>The index over any store\<close>

locale note_links = kv_store K rep roomy ordinary
  for K :: "'s kv_ops" and rep :: "'s \<Rightarrow> (bytes \<Rightarrow> bytes option) \<Rightarrow> bool" and roomy :: "'s \<Rightarrow> bool" and ordinary :: "bytes \<Rightarrow> bool" +
  fixes S :: string_lists
  assumes lists: "rep s m \<Longrightarrow> string_lists_law S"
    and ordinary_links: "link_key k \<Longrightarrow> ordinary k"
begin

text \<open>An operation never gives room back.\<close>

lemma roomy_bind: "roomy (snd (bind_st r f)) \<Longrightarrow> (\<And>a t. roomy (snd (f a t)) \<Longrightarrow> roomy t) \<Longrightarrow> roomy (snd r)"
  by (cases r; cases "fst r") auto

lemma roomy_for_each: "roomy (snd (for_each f xs s)) \<Longrightarrow> (\<And>x t. roomy (snd (f x t)) \<Longrightarrow> roomy t) \<Longrightarrow> roomy s"
proof (induction xs arbitrary: s)
  case (Cons x xs)
  have "roomy (snd (f x s))" using Cons.prems(1) unfolding for_each.simps by (rule roomy_bind) (rule Cons.IH, assumption, rule Cons.prems(2))
  then show ?case by (rule Cons.prems(2))
qed simp

lemma roomy_get_list: "roomy (snd (get_list K S k s)) \<Longrightarrow> roomy s"
  unfolding get_list_def by (drule roomy_bind) (auto intro: roomy_before)

lemma roomy_get_list_or_default: "roomy (snd (get_list_or_default K S k s)) \<Longrightarrow> roomy s"
  unfolding get_list_or_default_def by (drule roomy_bind) (auto intro: roomy_before)

lemma roomy_put_unit: "roomy (snd (put_unit K k v s)) \<Longrightarrow> roomy s"
  unfolding put_unit_def by (drule roomy_bind) (auto intro: roomy_before)

lemma roomy_delete_unit: "roomy (snd (delete_unit K k s)) \<Longrightarrow> roomy s"
  unfolding delete_unit_def by (drule roomy_bind) (auto intro: roomy_before)

lemma roomy_add: "roomy (snd (add_to_link_index K S t x s)) \<Longrightarrow> roomy s"
  unfolding add_to_link_index_def
  by (drule roomy_bind) (auto simp: Let_def split: if_splits intro: roomy_get_list_or_default roomy_put_unit)

lemma roomy_remove: "roomy (snd (remove_from_link_index K S t x s)) \<Longrightarrow> roomy s"
  unfolding remove_from_link_index_def
  by (drule roomy_bind)
    (auto simp: Let_def split: if_splits option.splits intro: roomy_get_list_or_default roomy_put_unit roomy_delete_unit)

text \<open>Reading and writing a list.\<close>

lemma get_list_shows:
  assumes "rep s m" "links_wf S m" "link_key k" "get_list K S k s = (r, s')"
  shows "r = Ok (list_at S m k) \<and> rep s' m"
proof -
  obtain r1 s1 where g: "kv_get K k s = (r1, s1)" by fastforce
  then have "r1 = Ok (m k)" "rep s1 m" using get_shows [OF assms(1) ordinary_links [OF assms(3)]] by blast+
  then show ?thesis
    using assms(4) g links_wf_list [OF assms(2,3)]
    by (cases "m k") (auto simp: get_list_def ok_or_def, simp add: list_at_def)
qed

lemma get_list_or_default_shows:
  assumes "rep s m" "links_wf S m" "link_key k" "get_list_or_default K S k s = (r, s')"
  shows "r = Ok (map_option (\<lambda>_. list_at S m k) (m k)) \<and> rep s' m"
proof -
  obtain r1 s1 where g: "kv_get K k s = (r1, s1)" by fastforce
  then have "r1 = Ok (m k)" "rep s1 m" using get_shows [OF assms(1) ordinary_links [OF assms(3)]] by blast+
  then show ?thesis
    using assms(4) g links_wf_list [OF assms(2,3)]
    by (cases "m k") (auto simp: get_list_or_default_def)
qed

lemma put_unit_updates:
  "rep s m \<Longrightarrow> link_key k \<Longrightarrow> put_unit K k v s = (Ok (), s') \<Longrightarrow> roomy s' \<Longrightarrow> rep s' (m(k \<mapsto> v))"
  by (auto simp: put_unit_def bind_Ok_iff intro: put_updates ordinary_links)

lemma delete_unit_removes:
  "rep s m \<Longrightarrow> link_key k \<Longrightarrow> delete_unit K k s = (Ok (), s') \<Longrightarrow> roomy s' \<Longrightarrow> rep s' (m(k := None))"
  by (auto simp: delete_unit_def bind_Ok_iff intro: delete_removes ordinary_links)

lemma no_change: "links_wf S m \<Longrightarrow> f (backward S m target) = backward S m target \<Longrightarrow> changes S target f m m"
  by (simp add: changes_def)

lemma changes_put:
  assumes "string_lists_law S" "links_wf S m" "\<forall>x \<in> set xs. is_utf8 x" "f (backward S m target) = xs"
  shows "changes S target f m (m(LINK_PREFIX @ target \<mapsto> sl_encode S xs))"
  using assms by (auto simp: changes_def fun_eq_iff forward_def backward_def list_at_update [OF assms(1)] links_wf_update [OF assms(1)])

lemma changes_delete:
  assumes "links_wf S m" "f (backward S m target) = []"
  shows "changes S target f m (m(LINK_PREFIX @ target := None))"
  using assms by (auto simp: changes_def fun_eq_iff forward_def backward_def list_at_delete links_wf_delete)

lemma add_to_link_index_changes:
  assumes "rep s m" "links_wf S m" "is_utf8 source" "add_to_link_index K S target source s = (Ok (), s')" "roomy s'"
  shows "\<exists>m'. rep s' m' \<and> changes S target (\<lambda>xs. if source \<in> set xs then xs else xs @ [source]) m m'"
proof -
  obtain r s1 where g: "get_list_or_default K S (LINK_PREFIX @ target) s = (r, s1)" by fastforce
  have r: "r = Ok (map_option (\<lambda>_. list_at S m (LINK_PREFIX @ target)) (m (LINK_PREFIX @ target)))" "rep s1 m"
    using get_list_or_default_shows [OF assms(1,2) link_key_prefix(1) g] by blast+
  have found: "(case map_option (\<lambda>_. list_at S m (LINK_PREFIX @ target)) (m (LINK_PREFIX @ target)) of None \<Rightarrow> [] | Some xs \<Rightarrow> xs) = backward S m target"
    by (simp add: backward_def list_at_def split: option.split)
  have run: "(if source \<in> set (backward S m target) then (Ok (), s1)
      else put_unit K (LINK_PREFIX @ target) (sl_encode S (backward S m target @ [source])) s1) = (Ok (), s')"
    using assms(4) unfolding add_to_link_index_def g r(1) bind_st.simps Let_def found .
  show ?thesis
  proof (cases "source \<in> set (backward S m target)")
    case True
    then show ?thesis
      using run r(2) no_change [OF assms(2), of "\<lambda>xs. if source \<in> set xs then xs else xs @ [source]" target] by auto
  next
    case False
    have "rep s' (m(LINK_PREFIX @ target \<mapsto> sl_encode S (backward S m target @ [source])))"
      by (rule put_unit_updates [OF r(2) link_key_prefix(1) _ assms(5)]) (use run False in simp)
    moreover have "\<forall>x \<in> set (backward S m target @ [source]). is_utf8 x" using links_wf_texts(2) [OF assms(2)] assms(3) by auto
    then have "changes S target (\<lambda>xs. if source \<in> set xs then xs else xs @ [source]) m
        (m(LINK_PREFIX @ target \<mapsto> sl_encode S (backward S m target @ [source])))"
      by (rule changes_put [OF lists [OF assms(1)] assms(2)]) (simp add: False)
    ultimately show ?thesis by blast
  qed
qed

lemma remove_from_link_index_changes:
  assumes "rep s m" "links_wf S m" "remove_from_link_index K S target source s = (Ok (), s')" "roomy s'"
  shows "\<exists>m'. rep s' m' \<and> changes S target (List.filter (\<lambda>x. x \<noteq> source)) m m'"
proof -
  obtain r s1 where g: "get_list_or_default K S (LINK_PREFIX @ target) s = (r, s1)" by fastforce
  have r: "r = Ok (map_option (\<lambda>_. list_at S m (LINK_PREFIX @ target)) (m (LINK_PREFIX @ target)))" "rep s1 m"
    using get_list_or_default_shows [OF assms(1,2) link_key_prefix(1) g] by blast+
  let ?rest = "List.filter (\<lambda>x. x \<noteq> source) (backward S m target)"
  show ?thesis
  proof (cases "m (LINK_PREFIX @ target)")
    case None
    then have "backward S m target = []" by (simp add: backward_def list_at_def)
    moreover have "s' = s1" using assms(3) g r None by (simp add: remove_from_link_index_def)
    ultimately show ?thesis using r assms(2) by (auto intro!: no_change)
  next
    case (Some bs)
    have run: "(if ?rest = [] then delete_unit K (LINK_PREFIX @ target) s1 else put_unit K (LINK_PREFIX @ target) (sl_encode S ?rest) s1) = (Ok (), s')"
      using assms(3) unfolding remove_from_link_index_def g r(1) bind_st.simps Let_def backward_def Some option.map option.case .
    have texts: "\<forall>x \<in> set ?rest. is_utf8 x" using links_wf_texts(2) [OF assms(2)] by auto
    show ?thesis
    proof (cases "?rest = []")
      case True
      have "rep s' (m(LINK_PREFIX @ target := None))"
        by (rule delete_unit_removes [OF r(2) link_key_prefix(1) _ assms(4)]) (use run True in simp)
      then show ?thesis using changes_delete [OF assms(2), of "List.filter (\<lambda>x. x \<noteq> source)" target] True by blast
    next
      case False
      have "rep s' (m(LINK_PREFIX @ target \<mapsto> sl_encode S ?rest))"
        by (rule put_unit_updates [OF r(2) link_key_prefix(1) _ assms(4)]) (use run False in simp)
      then show ?thesis using changes_put [OF lists [OF assms(1)] assms(2) texts, of "List.filter (\<lambda>x. x \<noteq> source)" target] by blast
    qed
  qed
qed

text \<open>The loops of the code.\<close>

lemma remove_each:
  assumes "rep s m" "links_wf S m" "for_each (\<lambda>target. remove_from_link_index K S target source) ts s = (Ok (), s')" "roomy s'"
  shows "\<exists>m'. rep s' m' \<and> now_linked S (\<lambda>t. set (backward S m t) - (if t \<in> set ts then {source} else {})) m m'"
  using assms(1-3)
proof (induction ts arbitrary: s m)
  case Nil
  then show ?case using now_linked_refl [of S m] by auto
next
  case (Cons t ts)
  obtain s1 where r: "remove_from_link_index K S t source s = (Ok (), s1)" "for_each (\<lambda>target. remove_from_link_index K S target source) ts s1 = (Ok (), s')"
    using Cons.prems(3) by (auto simp: bind_Ok_iff)
  have "roomy s1" using roomy_for_each [of "\<lambda>target. remove_from_link_index K S target source" ts s1] r(2) assms(4) roomy_remove by simp
  then obtain m1 where m1: "rep s1 m1" "changes S t (List.filter (\<lambda>x. x \<noteq> source)) m m1"
    using remove_from_link_index_changes [OF Cons.prems(1,2) r(1)] by blast
  obtain m' where m': "rep s' m'" "now_linked S (\<lambda>t. set (backward S m1 t) - (if t \<in> set ts then {source} else {})) m1 m'"
    using Cons.IH [OF m1(1) _ r(2)] m1(2) by (auto simp: changes_def)
  have "now_linked S (\<lambda>t'. set (backward S m t') - (if t' \<in> set (t # ts) then {source} else {})) m m'"
    by (rule now_linked_step [OF m1(2) m'(2)]) (use m1(2) in \<open>auto simp: changes_def\<close>)
  then show ?case using m'(1) by blast
qed

lemma add_each:
  assumes "rep s m" "links_wf S m" "is_utf8 source" "for_each (\<lambda>target. add_to_link_index K S target source) ts s = (Ok (), s')" "roomy s'"
  shows "\<exists>m'. rep s' m' \<and> now_linked S (\<lambda>t. set (backward S m t) \<union> (if t \<in> set ts then {source} else {})) m m'"
  using assms(1,2,4)
proof (induction ts arbitrary: s m)
  case Nil
  then show ?case using now_linked_refl [of S m] by auto
next
  case (Cons t ts)
  obtain s1 where r: "add_to_link_index K S t source s = (Ok (), s1)" "for_each (\<lambda>target. add_to_link_index K S target source) ts s1 = (Ok (), s')"
    using Cons.prems(3) by (auto simp: bind_Ok_iff)
  have "roomy s1" using roomy_for_each [of "\<lambda>target. add_to_link_index K S target source" ts s1] r(2) assms(5) roomy_add by simp
  then obtain m1 where m1: "rep s1 m1" "changes S t (\<lambda>xs. if source \<in> set xs then xs else xs @ [source]) m m1"
    using add_to_link_index_changes [OF Cons.prems(1,2) assms(3) r(1)] by blast
  obtain m' where m': "rep s' m'" "now_linked S (\<lambda>t. set (backward S m1 t) \<union> (if t \<in> set ts then {source} else {})) m1 m'"
    using Cons.IH [OF m1(1) _ r(2)] m1(2) by (auto simp: changes_def)
  have "now_linked S (\<lambda>t'. set (backward S m t') \<union> (if t' \<in> set (t # ts) then {source} else {})) m m'"
    by (rule now_linked_step [OF m1(2) m'(2)]) (use m1(2) in \<open>auto simp: changes_def\<close>)
  then show ?case using m'(1) by blast
qed

text \<open>Indexing a note sets its links, keeps the two directions in agreement and changes nothing else.\<close>

lemma index_links_correct:
  assumes rep: "rep s m" "links_wf S m" and texts: "is_utf8 path" "\<forall>t \<in> set targets. is_utf8 t"
    and run: "index_links K S path targets s = (Ok diff, s')" "roomy s'"
  shows "\<exists>m'. rep s' m' \<and> links_wf S m' \<and> forward S m' = (forward S m)(path := targets) \<and>
    (\<forall>t. set (backward S m' t) = set (backward S m t) - (if t \<in> set (forward S m path) - set targets then {path} else {}) \<union>
       (if t \<in> set targets - set (forward S m path) then {path} else {})) \<and>
    (\<forall>k. \<not> link_key k \<longrightarrow> m' k = m k)"
proof -
  obtain r s1 where g: "get_forward_links K S path s = (r, s1)" by fastforce
  then have r: "r = Ok (forward S m path)" "rep s1 m"
    using get_list_shows [OF rep link_key_prefix(2)] by (auto simp: get_forward_links_def forward_def)
  note law = lists [OF rep(1)]
  let ?old = "forward S m path" and ?rm = "for_each (\<lambda>t. remove_from_link_index K S t path)" and ?add = "for_each (\<lambda>t. add_to_link_index K S t path)"
  let ?removed = "List.filter (\<lambda>t. t \<notin> set targets) ?old" and ?added = "List.filter (\<lambda>t. t \<notin> set ?old) targets"
  obtain s2 s3 where l: "?rm ?removed s1 = (Ok (), s2)" "?add ?added s2 = (Ok (), s3)"
    "put_unit K (BACKLINK_PREFIX @ path) (sl_encode S targets) s3 = (Ok (), s')"
    using run(1) g r(1) by (auto simp: index_links_def compute_link_diff_def Let_def bind_Ok_iff)
  have room3: "roomy s3" using roomy_put_unit [of "BACKLINK_PREFIX @ path" "sl_encode S targets" s3] l(3) run(2) by simp
  then have room2: "roomy s2" using roomy_for_each [of "\<lambda>t. add_to_link_index K S t path" ?added s2] l(2) roomy_add by simp
  obtain m2 where m2: "rep s2 m2" "now_linked S (\<lambda>t. set (backward S m t) - (if t \<in> set ?removed then {path} else {})) m m2"
    using remove_each [OF r(2) rep(2) l(1) room2] by blast
  obtain m3 where m3: "rep s3 m3" "now_linked S (\<lambda>t. set (backward S m2 t) \<union> (if t \<in> set ?added then {path} else {})) m2 m3"
    using add_each [OF m2(1) _ texts(1) l(2) room3] m2(2) by (auto simp: now_linked_def)
  let ?m = "m3(BACKLINK_PREFIX @ path \<mapsto> sl_encode S targets)"
  have "rep s' ?m" by (rule put_unit_updates [OF m3(1) link_key_prefix(2) l(3) run(2)])
  moreover have "links_wf S ?m" using m3(2) texts(2) by (intro links_wf_update [OF law]) (auto simp: now_linked_def)
  moreover have "forward S ?m = (forward S m)(path := targets)"
    using m2(2) m3(2) by (simp add: fun_eq_iff forward_def list_at_update [OF law texts(2)] now_linked_def)
  moreover have "backward S ?m = backward S m3" by (simp add: fun_eq_iff backward_def list_at_update [OF law texts(2)])
  ultimately show ?thesis
    using m2(2) m3(2) by (intro exI [of _ ?m]) (auto simp: now_linked_def)
qed

lemma index_links_agree:
  assumes "rep s m" "links_wf S m" "links_agree S m" "is_utf8 path" "\<forall>t \<in> set targets. is_utf8 t"
    and "index_links K S path targets s = (Ok diff, s')" "roomy s'"
  shows "\<exists>m'. rep s' m' \<and> links_wf S m' \<and> links_agree S m' \<and> forward S m' = (forward S m)(path := targets) \<and> (\<forall>k. \<not> link_key k \<longrightarrow> m' k = m k)"
proof -
  obtain m' where m': "rep s' m'" "links_wf S m'" "forward S m' = (forward S m)(path := targets)" "\<forall>k. \<not> link_key k \<longrightarrow> m' k = m k"
    "\<And>t. set (backward S m' t) = set (backward S m t) - (if t \<in> set (forward S m path) - set targets then {path} else {}) \<union>
       (if t \<in> set targets - set (forward S m path) then {path} else {})"
    using index_links_correct [OF assms(1,2,4,5,6,7)] by blast
  have "links_agree S m'"
    using assms(3) unfolding links_agree_def m'(3,5) by auto
  then show ?thesis using m' by blast
qed

text \<open>Removing a note removes its links in both directions.\<close>

lemma remove_note_links_correct:
  assumes rep: "rep s m" "links_wf S m" and run: "remove_note_links K S path s = (Ok (), s')" "roomy s'"
  shows "\<exists>m'. rep s' m' \<and> links_wf S m' \<and> forward S m' = (forward S m)(path := []) \<and>
    (\<forall>t. set (backward S m' t) = set (backward S m t) - (if t \<in> set (forward S m path) then {path} else {})) \<and>
    (\<forall>k. \<not> link_key k \<longrightarrow> m' k = m k)"
proof -
  obtain r s1 where g: "get_forward_links K S path s = (r, s1)" by fastforce
  then have r: "r = Ok (forward S m path)" "rep s1 m"
    using get_list_shows [OF rep link_key_prefix(2)] by (auto simp: get_forward_links_def forward_def)
  obtain s2 where l: "for_each (\<lambda>t. remove_from_link_index K S t path) (forward S m path) s1 = (Ok (), s2)"
    "delete_unit K (BACKLINK_PREFIX @ path) s2 = (Ok (), s')"
    using run(1) g r(1) by (auto simp: remove_note_links_def bind_Ok_iff)
  have "roomy s2" using roomy_delete_unit [of "BACKLINK_PREFIX @ path" s2] l(2) run(2) by simp
  then obtain m2 where m2: "rep s2 m2" "now_linked S (\<lambda>t. set (backward S m t) - (if t \<in> set (forward S m path) then {path} else {})) m m2"
    using remove_each [OF r(2) rep(2) l(1)] by blast
  let ?m = "m2(BACKLINK_PREFIX @ path := None)"
  have "rep s' ?m" by (rule delete_unit_removes [OF m2(1) link_key_prefix(2) l(2) run(2)])
  moreover have "links_wf S ?m" using m2(2) by (intro links_wf_delete) (simp add: now_linked_def)
  moreover have "forward S ?m = (forward S m)(path := [])" "backward S ?m = backward S m2"
    using m2(2) by (simp_all add: fun_eq_iff forward_def backward_def list_at_delete now_linked_def)
  ultimately show ?thesis
    using m2(2) by (intro exI [of _ ?m]) (auto simp: now_linked_def)
qed

lemma remove_note_links_agree:
  assumes "rep s m" "links_wf S m" "links_agree S m" "remove_note_links K S path s = (Ok (), s')" "roomy s'"
  shows "\<exists>m'. rep s' m' \<and> links_wf S m' \<and> links_agree S m' \<and> forward S m' = (forward S m)(path := []) \<and> (\<forall>k. \<not> link_key k \<longrightarrow> m' k = m k)"
proof -
  obtain m' where m': "rep s' m'" "links_wf S m'" "forward S m' = (forward S m)(path := [])" "\<forall>k. \<not> link_key k \<longrightarrow> m' k = m k"
    "\<And>t. set (backward S m' t) = set (backward S m t) - (if t \<in> set (forward S m path) then {path} else {})"
    using remove_note_links_correct [OF assms(1,2,4,5)] by blast
  have "links_agree S m'"
    using assms(3) unfolding links_agree_def m'(3,5) by auto
  then show ?thesis using m' by blast
qed

lemma move_each:
  assumes "rep s m" "links_wf S m" "\<forall>x \<in> set sources. is_utf8 x" "old \<noteq> new" "roomy s'"
    and "for_each (\<lambda>source s. bind_st (remove_from_link_index K S old source s) (\<lambda>_. add_to_link_index K S new source)) sources s = (Ok (), s')"
  shows "\<exists>m'. rep s' m' \<and> now_linked S (moved old new sources (\<lambda>t. set (backward S m t))) m m'"
  using assms(1-3,6)
proof (induction sources arbitrary: s m)
  case Nil
  have "moved old new [] (\<lambda>t. set (backward S m t)) = (\<lambda>t. set (backward S m t))" by (simp add: fun_eq_iff moved_def)
  then show ?case using Nil now_linked_refl [of S m] by auto
next
  case (Cons x xs)
  let ?f = "\<lambda>source s. bind_st (remove_from_link_index K S old source s) (\<lambda>_. add_to_link_index K S new source)"
  obtain s1 s2 where r: "remove_from_link_index K S old x s = (Ok (), s1)" "add_to_link_index K S new x s1 = (Ok (), s2)" "for_each ?f xs s2 = (Ok (), s')"
    using Cons.prems(4) by (auto simp: bind_Ok_iff)
  have f: "roomy (snd (?f y t)) \<Longrightarrow> roomy t" for y t
    by (drule roomy_bind) (auto intro: roomy_add roomy_remove)
  have room2: "roomy s2" using roomy_for_each [of ?f xs s2] r(3) assms(5) f by simp
  then have "roomy s1" using roomy_add [of new x s1] r(2) by simp
  then obtain m1 where m1: "rep s1 m1" "changes S old (List.filter (\<lambda>y. y \<noteq> x)) m m1"
    using remove_from_link_index_changes [OF Cons.prems(1,2) r(1)] by blast
  have wf1: "links_wf S m1" using m1(2) by (simp add: changes_def)
  obtain m2 where m2: "rep s2 m2" "changes S new (\<lambda>ys. if x \<in> set ys then ys else ys @ [x]) m1 m2"
    using add_to_link_index_changes [OF m1(1) wf1 _ r(2) room2] Cons.prems(3) by auto
  obtain m' where m': "rep s' m'" "now_linked S (moved old new xs (\<lambda>t. set (backward S m2 t))) m2 m'"
    using Cons.IH [OF m2(1) _ _ r(3)] m2(2) Cons.prems(3) by (auto simp: changes_def)
  have "now_linked S (moved old new xs (\<lambda>t. set (backward S m2 t))) m1 m'" by (rule now_linked_step [OF m2(2) m'(2)]) simp
  then have "now_linked S (moved old new (x # xs) (\<lambda>t. set (backward S m t))) m m'"
    by (rule now_linked_step [OF m1(2)]) (use m1(2) m2(2) assms(4) in \<open>auto simp: changes_def moved_def\<close>)
  then show ?case using m'(1) by blast
qed

lemma roomy_index_links: "roomy (snd (index_links K S path targets s)) \<Longrightarrow> roomy s"
proof -
  assume r: "roomy (snd (index_links K S path targets s))"
  have "roomy (snd (get_forward_links K S path s))"
    using r unfolding index_links_def Let_def
  proof (rule roomy_bind)
    fix current t
    let ?diff = "compute_link_diff current targets"
    assume "roomy (snd (bind_st (for_each (\<lambda>target. remove_from_link_index K S target path) (ld_removed ?diff) t) (\<lambda>_ s.
        bind_st (for_each (\<lambda>target. add_to_link_index K S target path) (ld_added ?diff) s) (\<lambda>_ s.
        bind_st (put_unit K (BACKLINK_PREFIX @ path) (sl_encode S targets) s) (\<lambda>_ s. (Ok ?diff, s))))))"
    then have "roomy (snd (for_each (\<lambda>target. remove_from_link_index K S target path) (ld_removed ?diff) t))"
    proof (rule roomy_bind)
      fix u assume "roomy (snd (bind_st (for_each (\<lambda>target. add_to_link_index K S target path) (ld_added ?diff) u) (\<lambda>_ s.
        bind_st (put_unit K (BACKLINK_PREFIX @ path) (sl_encode S targets) s) (\<lambda>_ s. (Ok ?diff, s)))))"
      then have "roomy (snd (for_each (\<lambda>target. add_to_link_index K S target path) (ld_added ?diff) u))"
        by (rule roomy_bind) (auto dest!: roomy_bind intro: roomy_put_unit)
      then show "roomy u" by (rule roomy_for_each) (rule roomy_add)
    qed
    then show "roomy t" by (rule roomy_for_each) (rule roomy_remove)
  qed
  then show "roomy s" unfolding get_forward_links_def by (rule roomy_get_list)
qed

text \<open>The deletion whose error is ignored.\<close>

lemma forget_forward:
  assumes "rep s m" "links_wf S m" "ignore_error (kv_delete K (BACKLINK_PREFIX @ path) s) = (Ok (), s')" "roomy s'"
  shows "\<exists>m'. rep s' m' \<and> links_wf S m' \<and> backward S m' = backward S m \<and> (\<forall>note. note \<noteq> path \<longrightarrow> forward S m' note = forward S m note)"
proof -
  obtain r s1 where d: "kv_delete K (BACKLINK_PREFIX @ path) s = (r, s1)" by fastforce
  let ?m = "m(BACKLINK_PREFIX @ path := None)"
  have s1: "s1 = s'" "r \<noteq> Panic" using assms(3) d by (auto simp: ignore_error_def split: outcome.splits)
  then have "rep s' ?m \<or> rep s' m"
    using d delete_removes [OF assms(1) ordinary_links [OF link_key_prefix(2)]] delete_keeps [OF assms(1) ordinary_links [OF link_key_prefix(2)]] assms(4)
    by (cases r) auto
  moreover have "links_wf S ?m" "backward S ?m = backward S m" "\<forall>note. note \<noteq> path \<longrightarrow> forward S ?m note = forward S m note"
    using assms(2) by (simp_all add: links_wf_delete fun_eq_iff forward_def backward_def list_at_delete)
  ultimately show ?thesis using assms(2) by blast
qed

lemma rename_note_effect:
  assumes rep: "rep s m" "links_wf S m" and texts: "is_utf8 new" "\<forall>t \<in> set targets. is_utf8 t" "old \<noteq> new"
    and run: "rename_note K S old new targets s = (Ok (), s')" "roomy s'"
  shows "\<exists>m'. rep s' m' \<and> links_wf S m' \<and> forward S m' = (forward S m)(old := [], new := targets) \<and>
    set (backward S m old) - {old, new} \<subseteq> set (backward S m' new)"
proof -
  let ?sources = "backward S m old"
  let ?move = "for_each (\<lambda>source s. bind_st (remove_from_link_index K S old source s) (\<lambda>_. add_to_link_index K S new source)) ?sources"
  obtain r s0 where g: "get_backlinks K S old s = (r, s0)" by fastforce
  then have r: "r = Ok ?sources" "rep s0 m"
    using get_list_shows [OF rep link_key_prefix(1)] by (auto simp: get_backlinks_def backward_def)
  obtain s1 s2 s3 diff where l: "remove_note_links K S old s0 = (Ok (), s1)" "?move s1 = (Ok (), s2)"
    "ignore_error (kv_delete K (BACKLINK_PREFIX @ new) s2) = (Ok (), s3)" "index_links K S new targets s3 = (Ok diff, s')"
    using run(1) g r(1) by (auto simp: rename_note_def bind_Ok_iff)
  have room3: "roomy s3" using roomy_index_links [of new targets s3] l(4) run(2) by simp
  have "snd (kv_delete K (BACKLINK_PREFIX @ new) s2) = s3" using l(3) by (auto simp: ignore_error_def split: outcome.splits prod.splits)
  then have room2: "roomy s2" using roomy_before(3) room3 by metis
  have f: "roomy (snd (bind_st (remove_from_link_index K S old y t) (\<lambda>_. add_to_link_index K S new y))) \<Longrightarrow> roomy t" for y t
    by (drule roomy_bind) (auto intro: roomy_add roomy_remove)
  have room1: "roomy s1"
    using roomy_for_each [of "\<lambda>source s. bind_st (remove_from_link_index K S old source s) (\<lambda>_. add_to_link_index K S new source)" ?sources s1] l(2) room2 f by simp
  obtain m1 where m1: "rep s1 m1" "links_wf S m1" "forward S m1 = (forward S m)(old := [])"
    using remove_note_links_correct [OF r(2) rep(2) l(1) room1] by blast
  obtain m2 where m2: "rep s2 m2" "now_linked S (moved old new ?sources (\<lambda>t. set (backward S m1 t))) m1 m2"
    using move_each [OF m1(1,2) _ texts(3) room2 l(2)] links_wf_texts(2) [OF rep(2)] by blast
  obtain m3 where m3: "rep s3 m3" "links_wf S m3" "backward S m3 = backward S m2" "\<forall>note. note \<noteq> new \<longrightarrow> forward S m3 note = forward S m2 note"
    using forget_forward [OF m2(1) _ l(3) room3] m2(2) by (auto simp: now_linked_def)
  obtain m' where m': "rep s' m'" "links_wf S m'" "forward S m' = (forward S m3)(new := targets)"
    "\<And>t. set (backward S m' t) = set (backward S m3 t) - (if t \<in> set (forward S m3 new) - set targets then {new} else {}) \<union>
       (if t \<in> set targets - set (forward S m3 new) then {new} else {})"
    using index_links_correct [OF m3(1,2) texts(1,2) l(4) run(2)] by blast
  have "forward S m' = (forward S m)(old := [], new := targets)"
    using m'(3) m3(4) m2(2) m1(3) by (auto simp: fun_eq_iff now_linked_def)
  moreover have "set ?sources \<subseteq> set (backward S m3 new)" using m2(2) by (auto simp: m3(3) now_linked_def moved_def)
  ultimately show ?thesis using m'(1,2) unfolding m'(4) by (intro exI [of _ m']) (auto simp: m'(4))
qed

text \<open>Every operation keeps the index in order, whatever its outcome.\<close>

lemma keeps_put_unit:
  assumes "\<forall>x \<in> set xs. is_utf8 x" "link_key k"
  shows "keeps_index rep roomy S (\<lambda>_. True) (put_unit K k (sl_encode S xs))"
  unfolding keeps_index_def
proof (intro allI impI, elim conjE)
  fix s m r s' assume a: "rep s m" "links_wf S m" "put_unit K k (sl_encode S xs) s = (r, s')" "roomy s'"
  obtain r1 s1 where p: "kv_put K k (sl_encode S xs) s = (r1, s1)" by fastforce
  have s1: "s1 = s'" "r \<noteq> Panic \<longleftrightarrow> r1 \<noteq> Panic" using a(3) p by (cases r1; auto simp: put_unit_def)+
  note o = ordinary_links [OF assms(2)]
  have "rep s' (m(k \<mapsto> sl_encode S xs)) \<or> rep s' m"
    using p s1(1) a(1,4) no_panic(1) [OF a(1) o p] put_updates [OF a(1) o] put_keeps [OF a(1) o] by (cases r1) auto
  moreover have "links_wf S (m(k \<mapsto> sl_encode S xs))" by (rule links_wf_update [OF lists [OF a(1)] a(2) assms(1)])
  ultimately show "r \<noteq> Panic \<and> (\<forall>a. r = Ok a \<longrightarrow> True) \<and> (\<exists>m'. rep s' m' \<and> links_wf S m' \<and> (\<forall>k. \<not> link_key k \<longrightarrow> m' k = m k))"
    using no_panic(1) [OF a(1) o p] s1 a(2,4) assms(2) by (auto 0 3)
qed

lemma keeps_delete:
  assumes "link_key k"
  shows "keeps_index rep roomy S (\<lambda>_. True) (kv_delete K k)"
  unfolding keeps_index_def
proof (intro allI impI, elim conjE)
  fix s m r s' assume a: "rep s m" "links_wf S m" "kv_delete K k s = (r, s')" "roomy s'"
  note o = ordinary_links [OF assms]
  have "rep s' (m(k := None)) \<or> rep s' m"
    using a no_panic(2) [OF a(1) o a(3)] delete_removes [OF a(1) o] delete_keeps [OF a(1) o] by (cases r) auto
  moreover have "links_wf S (m(k := None))" by (rule links_wf_delete [OF a(2)])
  ultimately show "r \<noteq> Panic \<and> (\<forall>a. r = Ok a \<longrightarrow> True) \<and> (\<exists>m'. rep s' m' \<and> links_wf S m' \<and> (\<forall>k. \<not> link_key k \<longrightarrow> m' k = m k))"
    using no_panic(2) [OF a(1) o a(3)] a(2,4) assms by (auto 0 3)
qed

lemma keeps_delete_unit: "link_key k \<Longrightarrow> keeps_index rep roomy S (\<lambda>_. True) (delete_unit K k)"
  unfolding delete_unit_def [abs_def] by (rule keeps_index_bind [OF keeps_delete keeps_index_return]) auto

lemma keeps_get_list:
  assumes "link_key k"
  shows "keeps_index rep roomy S (\<lambda>xs. \<forall>x \<in> set xs. is_utf8 x) (get_list K S k)"
    "keeps_index rep roomy S (\<lambda>found. \<forall>xs. found = Some xs \<longrightarrow> (\<forall>x \<in> set xs. is_utf8 x)) (get_list_or_default K S k)"
proof -
  have t: "\<forall>x \<in> set (list_at S m k). is_utf8 x" if "links_wf S m" for m
    using that assms unfolding links_wf_def by (cases "m k") (force simp: list_at_def)+
  show "keeps_index rep roomy S (\<lambda>xs. \<forall>x \<in> set xs. is_utf8 x) (get_list K S k)"
    by (rule keeps_index_read) (use get_list_shows [OF _ _ assms] t in blast)
  show "keeps_index rep roomy S (\<lambda>found. \<forall>xs. found = Some xs \<longrightarrow> (\<forall>x \<in> set xs. is_utf8 x)) (get_list_or_default K S k)"
  proof (rule keeps_index_read)
    fix s m r s' assume "rep s m" "links_wf S m" "get_list_or_default K S k s = (r, s')"
    then show "\<exists>found. r = Ok found \<and> (\<forall>xs. found = Some xs \<longrightarrow> (\<forall>x \<in> set xs. is_utf8 x)) \<and> rep s' m"
      using get_list_or_default_shows [OF _ _ assms, of s m r s'] t [of m] by auto
  qed
qed

lemma keeps_add: "is_utf8 source \<Longrightarrow> keeps_index rep roomy S (\<lambda>_. True) (add_to_link_index K S target source)"
  unfolding add_to_link_index_def [abs_def] Let_def
  by (rule keeps_index_bind [OF keeps_get_list(2)], simp, intro keeps_index_if keeps_index_return keeps_put_unit)
    (auto split: option.splits if_splits intro: roomy_put_unit)

lemma keeps_remove: "keeps_index rep roomy S (\<lambda>_. True) (remove_from_link_index K S target source)"
  unfolding remove_from_link_index_def [abs_def] Let_def
  by (rule keeps_index_bind [OF keeps_get_list(2)], simp, intro keeps_index_option keeps_index_if keeps_index_return keeps_put_unit keeps_delete_unit)
    (auto split: option.splits if_splits intro: roomy_put_unit roomy_delete_unit)

lemma keeps_remove_each: "keeps_index rep roomy S (\<lambda>_. True) (for_each (\<lambda>target. remove_from_link_index K S target source) ts)"
  by (rule keeps_index_for_each [OF keeps_remove]) (erule roomy_for_each, rule roomy_remove)

lemma keeps_add_each: "is_utf8 source \<Longrightarrow> keeps_index rep roomy S (\<lambda>_. True) (for_each (\<lambda>target. add_to_link_index K S target source) ts)"
  by (rule keeps_index_for_each [OF keeps_add]) (assumption, erule roomy_for_each, rule roomy_add)

lemma roomy_after_unit: "roomy (snd (bind_st (put_unit K k v s) (\<lambda>_ s. (Ok a, s)))) \<Longrightarrow> roomy s"
  by (drule roomy_bind) (auto intro: roomy_put_unit)

lemma keeps_index_links:
  assumes "is_utf8 path" "\<forall>t \<in> set targets. is_utf8 t"
  shows "keeps_index rep roomy S (\<lambda>_. True) (index_links K S path targets)"
proof -
  have step2: "keeps_index rep roomy S (\<lambda>_. True) (\<lambda>s. bind_st (for_each (\<lambda>target. add_to_link_index K S target path) added s) (\<lambda>_ s.
      bind_st (put_unit K (BACKLINK_PREFIX @ path) (sl_encode S targets) s) (\<lambda>_ s. (Ok diff, s))))"
    and room2: "\<And>s. roomy (snd (bind_st (for_each (\<lambda>target. add_to_link_index K S target path) added s) (\<lambda>_ s.
      bind_st (put_unit K (BACKLINK_PREFIX @ path) (sl_encode S targets) s) (\<lambda>_ s. (Ok diff, s))))) \<Longrightarrow> roomy s" for added diff
    by (rule keeps_index_bind [OF keeps_add_each [OF assms(1)]], rule keeps_index_bind [OF keeps_put_unit [OF assms(2)]], simp,
        rule keeps_index_return, simp, simp, erule roomy_after_unit)
      (drule roomy_bind, erule roomy_after_unit, erule roomy_for_each, rule roomy_add)
  show ?thesis
    unfolding index_links_def [abs_def] Let_def get_forward_links_def
  proof (rule keeps_index_bind [OF keeps_get_list(1)], simp, rule keeps_index_bind [OF keeps_remove_each step2 room2])
    fix current s
    let ?diff = "compute_link_diff current targets"
    assume "roomy (snd (bind_st (for_each (\<lambda>target. remove_from_link_index K S target path) (ld_removed ?diff) s) (\<lambda>_ s.
        bind_st (for_each (\<lambda>target. add_to_link_index K S target path) (ld_added ?diff) s) (\<lambda>_ s.
        bind_st (put_unit K (BACKLINK_PREFIX @ path) (sl_encode S targets) s) (\<lambda>_ s. (Ok ?diff, s))))))"
    then show "roomy s" by (rule roomy_bind [THEN roomy_for_each]) (erule room2, erule roomy_remove)
  qed
qed

lemma keeps_remove_note_links: "keeps_index rep roomy S (\<lambda>_. True) (remove_note_links K S path)"
  unfolding remove_note_links_def [abs_def] get_forward_links_def
proof (rule keeps_index_bind [OF keeps_get_list(1)], simp, rule keeps_index_bind [OF keeps_remove_each keeps_delete_unit], simp, erule roomy_delete_unit)
  fix targets s
  assume "roomy (snd (bind_st (for_each (\<lambda>target. remove_from_link_index K S target path) targets s) (\<lambda>_. delete_unit K (BACKLINK_PREFIX @ path))))"
  then show "roomy s" by (rule roomy_bind [THEN roomy_for_each]) (erule roomy_delete_unit, erule roomy_remove)
qed

end

end
