(* ===== verification/Note_Store.thy ===== *)
theory Note_Store
  imports Engine_Kv Note_Index
begin

text \<open>
  The link index of \<open>src/notes/index.rs\<close> on the engine: the laws of the interface give that the two
  directions agree after every update, and what a rename leaves behind.
\<close>

lemma link_key_ordinary: "link_key k \<Longrightarrow> \<not> is_reserved k"
  by (auto simp: link_key_def LINK_PREFIX_def BACKLINK_PREFIX_def is_reserved_def starts_with_def as_bytes_def)

interpretation engine_links: note_links "engine_ops E" "\<lambda>s m. string_lists_law S \<and> engine_shows E s m" "engine_roomy E" "\<lambda>k. \<not> is_reserved k" S for E S
proof
  fix s m k v r b e s' r'
  show "string_lists_law S \<and> engine_shows E s m \<Longrightarrow> \<not> is_reserved k \<Longrightarrow> kv_get (engine_ops E) k s = (r, s') \<Longrightarrow> r = Ok (m k) \<and> string_lists_law S \<and> engine_shows E s' m"
    using engine_store.get_shows by blast
qed (auto intro: engine_store.put_updates engine_store.delete_removes engine_store.put_keeps engine_store.delete_keeps
      dest: engine_store.no_panic engine_store.roomy_before link_key_ordinary)

text \<open>
  The answers that callers get from the index: \<open>links\<close> gives the targets of every note, and the sources of
  a note are those that it says.
\<close>

definition answers_links :: "('bl, 'c, 'k) kv_engine \<Rightarrow> string_lists \<Rightarrow> ('bl, 'c, 'k) kv_state \<Rightarrow> (bytes \<Rightarrow> bytes list) \<Rightarrow> bool" where
  "answers_links E S s links \<longleftrightarrow>
     (\<forall>note. fst (get_forward_links (engine_ops E) S note s) = Ok (links note)) \<and>
     (\<forall>note. \<exists>sources. fst (get_backlinks (engine_ops E) S note s) = Ok sources \<and> (\<forall>source. source \<in> set sources \<longleftrightarrow> note \<in> set (links source)))"

lemma answers_links_shown:
  assumes "string_lists_law S" "engine_shows E s m" "links_wf S m" "links_agree S m"
  shows "answers_links E S s (forward S m)"
proof -
  have rep: "string_lists_law S \<and> engine_shows E s m" using assms by simp
  have "fst (get_forward_links (engine_ops E) S x s) = Ok (forward S m x)" "fst (get_backlinks (engine_ops E) S x s) = Ok (backward S m x)" for x
    using engine_links.get_list_shows [OF rep assms(3) link_key_prefix(2)] engine_links.get_list_shows [OF rep assms(3) link_key_prefix(1)]
    unfolding get_forward_links_def get_backlinks_def forward_def backward_def by (metis fst_conv prod.collapse)+
  then show ?thesis using assms(4) by (auto simp: answers_links_def links_agree_def)
qed

text \<open>C23: the link index of the notes. While the write buffer has room, indexing the links of a note never
  panics, leaves lists that can be read and no key outside the index changed, whatever the outcome. When it
  succeeds, the two directions of the index agree again: the note links to exactly the given
  targets, every other note to what it linked to before, and the sources of a note are exactly the notes
  that link to it.\<close>

theorem note_links_agree:
  assumes "string_lists_law S" "engine_shows E s m" "links_wf S m" "links_agree S m"
    and "is_utf8 path" "\<forall>t \<in> set targets. is_utf8 t"
    and "index_links (engine_ops E) S path targets s = (r, s')" "engine_roomy E s'"
  shows "r \<noteq> Panic \<and>
    (\<exists>m'. engine_shows E s' m' \<and> links_wf S m' \<and> (\<forall>k. \<not> link_key k \<longrightarrow> m' k = m k) \<and>
       (\<forall>diff. r = Ok diff \<longrightarrow> links_agree S m' \<and> answers_links E S s' ((forward S m)(path := targets))))"
proof -
  have rep: "string_lists_law S \<and> engine_shows E s m" using assms by simp
  obtain m' where m': "r \<noteq> Panic" "engine_shows E s' m'" "links_wf S m'" "\<forall>k. \<not> link_key k \<longrightarrow> m' k = m k"
    using keeps_indexD [OF engine_links.keeps_index_links [OF assms(5,6)] rep assms(3,7,8)] by metis
  show ?thesis
  proof (cases r)
    case (Ok diff)
    obtain m1 where m1: "engine_shows E s' m1" "links_wf S m1" "links_agree S m1" "forward S m1 = (forward S m)(path := targets)"
      "\<forall>k. \<not> link_key k \<longrightarrow> m1 k = m k"
      using engine_links.index_links_agree [OF rep assms(3-6) assms(7) [unfolded Ok] assms(8)] by blast
    then show ?thesis using m'(1) answers_links_shown [OF assms(1) m1(1-3)] by auto
  qed (use m' in auto)
qed

text \<open>Removing the links of a note likewise.\<close>

lemma note_links_removed:
  assumes "string_lists_law S" "engine_shows E s m" "links_wf S m" "links_agree S m"
    and "remove_note_links (engine_ops E) S path s = (r, s')" "engine_roomy E s'"
  shows "r \<noteq> Panic \<and> (r = Ok () \<longrightarrow> answers_links E S s' ((forward S m)(path := [])))"
proof -
  have rep: "string_lists_law S \<and> engine_shows E s m" using assms by simp
  have "r \<noteq> Panic" using keeps_indexD [OF engine_links.keeps_remove_note_links rep assms(3,5,6)] by metis
  moreover have "answers_links E S s' ((forward S m)(path := []))" if "r = Ok ()"
    using engine_links.remove_note_links_agree [OF rep assms(3,4) assms(5) [unfolded that] assms(6)] answers_links_shown by metis
  ultimately show ?thesis by blast
qed

text \<open>C30: renaming a note leaves the index in disagreement. A third note that links to the renamed one keeps its link
  to the old path, although it is now among the sources of the new path: no assignment of links
  to notes explains the answers of the index.\<close>

theorem rename_leaves_old_links:
  assumes "string_lists_law S" "engine_shows E s m" "links_wf S m" "links_agree S m"
    and "is_utf8 new" "\<forall>t \<in> set targets. is_utf8 t" "old \<noteq> new"
    and "rename_note (engine_ops E) S old new targets s = (Ok (), s')" "engine_roomy E s'"
    and "old \<in> set (forward S m source)" "new \<notin> set (forward S m source)" "source \<noteq> old" "source \<noteq> new"
  shows "fst (get_forward_links (engine_ops E) S source s') = Ok (forward S m source) \<and>
    (\<exists>sources. fst (get_backlinks (engine_ops E) S new s') = Ok sources \<and> source \<in> set sources) \<and>
    \<not> (\<exists>links. answers_links E S s' links)"
proof -
  have rep: "string_lists_law S \<and> engine_shows E s m" using assms by simp
  obtain m' where m': "string_lists_law S \<and> engine_shows E s' m'" "links_wf S m'" "forward S m' = (forward S m)(old := [], new := targets)"
    "set (backward S m old) - {old, new} \<subseteq> set (backward S m' new)"
    using engine_links.rename_note_effect [OF rep assms(3,5-9)] by blast
  have f: "fst (get_forward_links (engine_ops E) S source s') = Ok (forward S m source)"
    using engine_links.get_list_shows [OF m'(1,2) link_key_prefix(2), of source] m'(3) assms(12,13)
    unfolding get_forward_links_def forward_def by (metis fst_conv fun_upd_other prod.collapse)
  have b: "fst (get_backlinks (engine_ops E) S new s') = Ok (backward S m' new)"
    using engine_links.get_list_shows [OF m'(1,2) link_key_prefix(1), of new]
    unfolding get_backlinks_def backward_def by (metis fst_conv prod.collapse)
  have "source \<in> set (backward S m old)" using assms(4,10) by (simp add: links_agree_def)
  then have new: "source \<in> set (backward S m' new)" using m'(4) assms(12,13) by blast
  have "\<not> answers_links E S s' links" for links
  proof
    assume a: "answers_links E S s' links"
    have "links source = forward S m source" using a f unfolding answers_links_def by (metis outcome.inject(1))
    moreover have "new \<in> set (links source)" using a b new unfolding answers_links_def by (metis outcome.inject(1))
    ultimately show False using assms(11) by simp
  qed
  then show ?thesis using f b new by blast
qed

subsection \<open>An example\<close>

text \<open>A list format in ASCII, with bytes in unary and separators, and records with short keys.\<close>

definition unary_encode :: "bytes list \<Rightarrow> bytes" where
  "unary_encode xs = concat (map (\<lambda>x. concat (map (\<lambda>b. replicate (unat b) 49 @ [48]) x) @ [50]) xs)"

fun unary_decode :: "nat \<Rightarrow> bytes \<Rightarrow> bytes list \<Rightarrow> bytes \<Rightarrow> bytes list option" where
  "unary_decode n acc out [] = Some out"
| "unary_decode n acc out (b # bs) =
     (if b = 49 then unary_decode (Suc n) acc out bs
      else if b = 48 then unary_decode 0 (acc @ [word_of_nat n]) out bs
      else unary_decode 0 [] (out @ [acc]) bs)"

definition demo_lists :: string_lists where
  "demo_lists = \<lparr>sl_encode = unary_encode, sl_decode = unary_decode 0 [] []\<rparr>"

lemma unary_byte: "unary_decode m acc out (replicate n 49 @ bs) = unary_decode (m + n) acc out bs"
  by (induction n arbitrary: m) simp_all

lemma unary_text: "unary_decode 0 acc out (concat (map (\<lambda>b. replicate (unat b) 49 @ [48]) x) @ 50 # bs) = unary_decode 0 [] (out @ [acc @ x]) bs"
  by (induction x arbitrary: acc) (simp_all add: unary_byte)

lemma unary_roundtrip: "unary_decode 0 [] out (unary_encode xs) = Some (out @ xs)"
  by (induction xs arbitrary: out) (simp_all add: unary_encode_def unary_text)

lemma demo_lists_law: "string_lists_law demo_lists"
proof -
  have "list_all (\<lambda>b. b < 128) (unary_encode xs)" for xs by (auto simp: unary_encode_def list_all_iff)
  then show ?thesis by (simp add: string_lists_law_def demo_lists_def unary_roundtrip is_utf8_def lossy_ascii)
qed

definition note_encode :: "log_record \<Rightarrow> bytes option" where
  "note_encode r =
     (let k = lr_key r; v = lr_value r
      in if 256 \<le> length k then None
         else if r = (log_record_new 0 k v)\<lparr>lr_column_family := Some ''default''\<rparr> then Some (0 # word_of_nat (length k) # k @ v)
         else if r = (tombstone 0 k)\<lparr>lr_column_family := Some ''default''\<rparr> then Some (1 # k)
         else None)"

definition note_decode :: "bytes \<Rightarrow> log_record option" where
  "note_decode bs =
     (if take 1 bs = [0] then let n = unat (bs ! 1) in Some ((log_record_new 0 (take n (drop 2 bs)) (drop (n + 2) bs))\<lparr>lr_column_family := Some ''default''\<rparr>)
      else Some ((tombstone 0 (drop 1 bs))\<lparr>lr_column_family := Some ''default''\<rparr>))"

lemma note_codec: "note_encode r = Some bs \<Longrightarrow> note_decode bs = Some r"
  by (auto simp: note_encode_def note_decode_def Let_def unat_of_nat split: if_splits)

definition note_engine :: "(unit, unit, (bytes \<times> bytes) list) kv_engine" where
  "note_engine = \<lparr>ke_host = codec_host note_encode note_decode, ke_json = demo_json, ke_fuel = 2, ke_options = demo_options, ke_cf = ''default'',
     ke_env = (\<lambda>_ _. demo_tick)\<rparr>"

definition note_start :: "(unit, unit, (bytes \<times> bytes) list) kv_state" where
  "note_start = (demo_core, 0, 100)"

definition note_linked :: "link_diff outcome \<times> (unit, unit, (bytes \<times> bytes) list) kv_state" where
  "note_linked = index_links (engine_ops note_engine) demo_lists [1] [[2]] note_start"

lemma note_linked_ok: "case note_linked of (Ok _, s) \<Rightarrow> snd (snd s) < 1000 | _ \<Rightarrow> False"
  by code_simp

lemma note_engine_room: "snd (snd s) < 1000 \<Longrightarrow> engine_roomy note_engine s"
  using demo_limit by (simp add: engine_roomy_def note_engine_def)

lemma note_start_shows: "engine_shows note_engine note_start [[1] \<mapsto> [2]]"
proof -
  have H: "ke_host note_engine = codec_host note_encode note_decode" "ke_cf note_engine = ''default''" by (simp_all add: note_engine_def)
  note ok = codec_host_ok [of note_encode note_decode, OF note_codec]
  have v: "view Map.empty now demo_core ''default'' k = (if k = [1] then Some [2] else None)" for now k
    by (simp add: view_def demo_entry hidden_def)
  have "prefix_matches Map.empty now schema_prefix demo_core = []" for now
    by (rule prefix_matches_eq [OF ok(1) schema_prefix_no_ff])
      (simp_all add: v starts_with_def schema_prefix_def INDEX_PREFIX_def as_bytes_def)
  moreover have "plain_lookup Map.empty now demo_core ''default'' k" for now k
    by (simp add: plain_lookup_def plain_key_def cf_tables_def demo_core_def vs_new_def visible_def)
  ultimately have "shows_map note_engine Map.empty demo_core [[1] \<mapsto> [2]]"
    using ok v by (simp add: shows_map_def H demo_entry)
  moreover have "kv_settings_ok note_engine"
    using ok(3) by (simp add: kv_settings_ok_def note_engine_def demo_json_def demo_options_def engine_options_default_def)
  ultimately show ?thesis using demo_bytes by (auto simp: engine_shows_def note_start_def H)
qed

lemma note_start_links: "links_wf demo_lists [[1] \<mapsto> [2]]" "links_agree demo_lists [[1] \<mapsto> [2]]" "forward demo_lists [[1] \<mapsto> [2]] = (\<lambda>_. [])"
proof -
  have k: "LINK_PREFIX @ x \<noteq> [1]" "BACKLINK_PREFIX @ x \<noteq> [1]" for x
    by (simp_all add: LINK_PREFIX_def BACKLINK_PREFIX_def as_bytes_def)
  show "links_wf demo_lists [[1] \<mapsto> [2]]" using k unfolding links_wf_def link_key_def by (metis fun_upd_other option.distinct(1))
  show "links_agree demo_lists [[1] \<mapsto> [2]]" "forward demo_lists [[1] \<mapsto> [2]] = (\<lambda>_. [])"
    using k by (simp_all add: links_agree_def forward_def [abs_def] backward_def list_at_def)
qed

lemma short_utf8: "b < 128 \<Longrightarrow> is_utf8 [b]"
  by (simp add: is_utf8_def lossy_ascii)

theorem note_links_agree_witness:
  "\<exists>diff s'. index_links (engine_ops note_engine) demo_lists [1] [[2]] note_start = (Ok diff, s') \<and>
     answers_links note_engine demo_lists s' (\<lambda>x. if x = [1] then [[2]] else [])"
proof -
  obtain diff s' where run: "index_links (engine_ops note_engine) demo_lists [1] [[2]] note_start = (Ok diff, s')" "snd (snd s') < 1000"
    using note_linked_ok unfolding note_linked_def by (auto split: prod.splits outcome.splits)
  have l: "(\<lambda>_. [])([1] := [[2]]) = (\<lambda>x. if x = [1] then [[2 :: u8]] else [])" by (simp add: fun_eq_iff)
  have "answers_links note_engine demo_lists s' (\<lambda>x. if x = [1] then [[2]] else [])"
    using note_links_agree [OF demo_lists_law note_start_shows note_start_links(1,2) _ _ run(1) note_engine_room [OF run(2)]]
    unfolding note_start_links(3) l by (auto simp: short_utf8)
  then show ?thesis using run(1) by blast
qed

text \<open>Renaming the target of the link.\<close>

lemma note_renamed_ok:
  "case note_linked of (_, s) \<Rightarrow> (case rename_note (engine_ops note_engine) demo_lists [2] [3] [] s of (Ok _, s') \<Rightarrow> snd (snd s') < 1000 | _ \<Rightarrow> False)"
  by code_simp

lemma note_linked_shows:
  assumes "note_linked = (Ok diff, s)"
  obtains m where "engine_shows note_engine s m" "links_wf demo_lists m" "links_agree demo_lists m" "forward demo_lists m = (\<lambda>_. [])([1] := [[2]])"
proof -
  have run: "index_links (engine_ops note_engine) demo_lists [1] [[2]] note_start = (Ok diff, s)" using assms by (simp add: note_linked_def)
  have "engine_roomy note_engine s" using note_linked_ok unfolding assms by (simp add: note_engine_room)
  then show ?thesis
    using engine_links.index_links_agree [OF conjI [OF demo_lists_law note_start_shows] note_start_links(1,2) _ _ run] that
    unfolding note_start_links(3) by (auto simp: short_utf8)
qed

theorem rename_leaves_old_links_witness:
  "\<exists>s'. rename_note (engine_ops note_engine) demo_lists [2] [3] [] (snd note_linked) = (Ok (), s') \<and>
     fst (get_forward_links (engine_ops note_engine) demo_lists [1] s') = Ok [[2]] \<and>
     (\<exists>sources. fst (get_backlinks (engine_ops note_engine) demo_lists [3] s') = Ok sources \<and> [1] \<in> set sources)"
proof -
  obtain diff s where s: "note_linked = (Ok diff, s)" using note_linked_ok by (auto split: prod.splits outcome.splits)
  obtain s' where run: "rename_note (engine_ops note_engine) demo_lists [2] [3] [] s = (Ok (), s')" "snd (snd s') < 1000"
    using note_renamed_ok unfolding s by (auto split: prod.splits outcome.splits)
  obtain m where m: "engine_shows note_engine s m" "links_wf demo_lists m" "links_agree demo_lists m" "forward demo_lists m = (\<lambda>_. [])([1] := [[2]])"
    by (rule note_linked_shows [OF s])
  have "fst (get_forward_links (engine_ops note_engine) demo_lists [1] s') = Ok [[2]] \<and>
     (\<exists>sources. fst (get_backlinks (engine_ops note_engine) demo_lists [3] s') = Ok sources \<and> [1] \<in> set sources)"
    using rename_leaves_old_links [OF demo_lists_law m(1-3) _ _ _ run(1) note_engine_room [OF run(2)], of "[1]"]
    unfolding m(4) by (simp add: short_utf8)
  then show ?thesis using run(1) unfolding s snd_conv by blast
qed

end
