(* ===== verification/Spec2Isabelle.thy ===== *)
theory Spec2Isabelle
  imports Recovery_Correct Engine_Steps Api_Pages Migration Crdt Circuit_Breaker Rate_Limiter Access_Control Connection_Guard Resource_Limits Note_Store
begin

text \<open>
  A verification development of ApexStore, a log-structured key-value store in Rust. Paths below are
  relative to the crate, whose sources are under \<open>src/\<close>.

  \<^bold>\<open>The program.\<close> A write is appended to the write-ahead log of its column family and then goes into the
  newest memtable. A full memtable is flushed to a sorted table file; background compaction merges
  table files. A read looks through the memtables and the tables, newest first, and drops what is
  deleted, expired or covered by a range deletion. On start the table files are loaded or put in
  quarantine and the logs are replayed. Transactions buffer writes and apply them at commit. Over the
  engine there is a REST interface with tokens, permissions, access policies and limits.

  \<^bold>\<open>Conventions.\<close> Bytes are lists of \<open>8 word\<close>; the fixed-width integers of file formats and clocks are words
  and \<open>usize\<close> is a natural number, or a 64-bit word where it can wrap around. Unchecked sums wrap, since
  the release profile has no overflow checks. A fallible function returns \<open>outcome\<close>: a value, an error of
  the enum of \<open>src/infra/error.rs\<close> without its text, or a panic. An operation of the engine returns its
  outcome together with the state it leaves, also on failure. Readings of clocks and random sources
  are arguments, one for each reading of the code. Hash maps are association lists. Third-party
  crates are the records \<open>crates\<close>, \<open>host\<close> and their like; what the code relies on is stated in \<open>crate_laws\<close>,
  \<open>host_laws\<close> and the other hypotheses named after them, and each example instance satisfies them.

  \<^bold>\<open>Foundations.\<close> \<open>Prelude\<close> has the error enum, the outcome type, slices and little-endian numbers; \<open>Rust_Std\<close>
  the routines of the standard library that the storage code leans on: binary search, ordered maps, heaps,
  buffered reading, lossy UTF-8. \<open>Step_System\<close> is the interface of a component that several threads
  use: a step relation with an invariant.

  \<^bold>\<open>In-memory data.\<close> \<open>Log_Record\<close> (\<open>src/core/log_record.rs\<close>), \<open>Memtable\<close> (\<open>src/core/memtable.rs\<close>),
  \<open>Storage_Iterator\<close> and \<open>Merge_Iterator\<close> (\<open>src/core/iterators.rs\<close>, \<open>src/storage/iterator.rs\<close>). The iterator
  trait is the locale \<open>storage_iterator\<close>; the memtable, table, boxed and merging iterators interpret it. The
  merge yields every key once, in order, from the newest source that has it.

  \<^bold>\<open>Table files.\<close> \<open>Prefix_Compression\<close>, \<open>Block\<close>, \<open>Sstable_Format\<close>, \<open>Encryption\<close>, \<open>Sstable_Builder\<close>, \<open>Sstable_Metadata\<close> and
  \<open>Sstable_Reader\<close> are \<open>prefix_compression.rs\<close>, \<open>block.rs\<close>, \<open>builder.rs\<close>, \<open>encryption.rs\<close>, \<open>metadata.rs\<close>, \<open>reader.rs\<close> and
  \<open>cache.rs\<close> under \<open>src/storage\<close>. Blocks decode to what was encoded; lookups and scans of a built file return
  exactly its entries; whatever metadata is accepted describes blocks that lie in order inside the file. \<open>Table\<close> is
  \<open>src/core/table.rs\<close> with the catalogue that says which entries each table file has.

  \<^bold>\<open>The write-ahead log.\<close> \<open>Wal\<close> is \<open>src/storage/wal.rs\<close>. \<open>Wal_Recovery\<close> follows the reader through the refills of its
  8 KiB buffer: which records are recovered, where recovery stops, and how much a crash loses.
  \<open>Wal_Dedup\<close> and \<open>Wal_Rewrite\<close> have the removal of duplicates and the rewriting operations.

  \<^bold>\<open>Versions and compaction.\<close> \<open>Version_Set\<close> is \<open>src/core/engine/version_set.rs\<close> and \<open>Compaction\<close> is
  \<open>src/core/engine/compaction.rs\<close>. \<open>Version_Lookup\<close>, \<open>Version_Update\<close>, \<open>Version_Store\<close> and \<open>Compaction_Correct\<close> show that
  lookups return the newest record, that the caches stay coherent, and that a merge keeps what is
  visible.

  \<^bold>\<open>The engine.\<close> \<open>Engine_Core\<close> (state, writes, flush), \<open>Engine_Read\<close> (lookups, scans, searches), \<open>Engine_Index\<close>
  (secondary indexes), \<open>Engine_Admin\<close> (maintenance), \<open>Recovery\<close> (start and quarantine) and \<open>Transaction\<close> are
  \<open>mod.rs\<close>, \<open>recovery.rs\<close> and \<open>transaction.rs\<close> under \<open>src/core/engine\<close>. The abstract contract is \<open>view\<close>, defined in
  \<open>Engine_Lookup\<close>: the value that an engine shows for a key at a moment. \<open>Engine_Store\<close>, \<open>Engine_Update\<close>, \<open>Engine_Batch\<close>,
  \<open>Engine_Search\<close>, \<open>Engine_Index\<close>, \<open>Engine_Admin_Correct\<close>, \<open>Recovery_Correct\<close> and \<open>Transaction_Correct\<close> show that reads return
  the view and what each write, batch, flush, compaction, start and commit does to it. \<open>Engine_Wf\<close> has
  what every operation keeps, \<open>Engine_Effects\<close> what a read may change, and \<open>Engine_Steps\<close> interleaves
  the threads: two-phase writes and three-phase compactions.

  \<^bold>\<open>The service.\<close> \<open>Keyspace\<close>, \<open>Auth\<close>, \<open>Api_Handlers\<close>, \<open>Api_Transactions\<close>, \<open>Api\<close>, \<open>Api_Correct\<close>, \<open>Api_Pages\<close>, \<open>Rate_Limiter\<close>,
  \<open>Access_Control\<close> and \<open>Connection_Guard\<close> are \<open>keyspace.rs\<close>, \<open>auth/\<close>, \<open>mod.rs\<close>, \<open>transactions.rs\<close>, \<open>rate_limiter.rs\<close>, \<open>access_control.rs\<close>
  and \<open>connection_guard.rs\<close> under \<open>src/api\<close>. They show that handlers check permissions, reserved keys and the
  read-only mode before they act, that a write is read back, that transactions of different owners do not
  interfere, and that pages of listings fit together. \<open>Degradation\<close>, \<open>Circuit_Breaker\<close>, \<open>Resource_Limits\<close> and \<open>Crdt\<close> are
  the components of the same names under \<open>src/infra\<close>; \<open>Migration\<close> is \<open>src/storage/migration.rs\<close>. \<open>Circuit_Breaker\<close>,
  \<open>Connection_Guard\<close> and \<open>Resource_Limits\<close> interpret \<open>step_invariant\<close>; the counters and the set of \<open>Crdt\<close> interpret \<open>replicated\<close>.

  \<^bold>\<open>Clients of the engine.\<close> \<open>Kv_Interface\<close> is what the layers above the engine call and may rely on, the locale \<open>kv_store\<close>;
  \<open>Engine_Kv\<close> shows that the engine provides it while the write buffer has room. \<open>Note_Index\<close> is \<open>src/notes/index.rs\<close>, with its
  lemmas proved over any such store in the locale \<open>note_links\<close>; \<open>Note_Store\<close> has them for the engine.

  \<^bold>\<open>Bounds and fuel.\<close> \<open>flush_all_memtables\<close> may loop forever and is a partial function whose value \<open>None\<close>
  means just that; when it returns is a theorem. Index maintenance nests writes: \<open>put_cf\<close> has fuel, and 2 is
  enough when the JSON parser rejects the empty text, since index entries have empty values.
  The generation counter of the version set has 64 bits; the facts about interleaved compactions hold
  for runs that change table lists fewer than \<open>2^64\<close> times. The theorems about a write that
  triggers a flush are about runs that report success.

  \<^bold>\<open>Not modelled.\<close> Change events, shipping of log records to replicas and the replication protocol
  (\<open>cdc.rs\<close>, \<open>replication.rs\<close>, \<open>data_sync.rs\<close>, \<open>api/sync.rs\<close>), which are network input and output; thread handles, metrics,
  telemetry and log messages, which no result depends on; GraphQL, health probes, event streams, TLS, CORS,
  routing and middleware, which are the web framework's; the rest of the note application (\<open>src/notes\<close>) and the stand-alone data
  services of \<open>src/infra\<close> (SQL, blobs, vectors, publishing, webhooks, plugins, time travel), which are
  clients of the engine; the command line and the terminal interface; the back-pressure controller, which is
  floating-point arithmetic; the reading of configuration files. Error texts are left out throughout.
\<close>

end
